(* ===== verification/Prelude.thy ===== *)
theory Prelude
  imports Main "HOL-Library.Word" "HOL-Library.Multiset"
begin

text \<open>
  Shared vocabulary of the development: the outcome of a fallible Rust computation, the
  loops with early exit, bounds-checked reads of vectors and slices, decimal printing, and
  the lemmas on lists and outcomes that the component theories use.

  \<^item> \<open>outcome\<close> is the result of running a piece of Rust code: a value, an error value
    (\<open>Err\<close> of \<open>Result\<close>), a panic, or a loop that does not end.
  \<^item> \<open>usize\<close> values are \<^typ>\<open>nat\<close>: they count elements of containers in memory. Every
    narrowing conversion of the code is written out with its check.
\<close>

text \<open>The definitions the concrete graphs of the witnesses are evaluated with.\<close>

named_theorems sample_eval

section \<open>Outcomes\<close>

datatype ('e, 'a) outcome = Ok 'a | Err 'e | Panic | Diverge

text \<open>The \<open>?\<close> operator and sequencing: everything but a value ends the computation.\<close>

fun andthen :: "('e, 'a) outcome \<Rightarrow> ('a \<Rightarrow> ('e, 'b) outcome) \<Rightarrow> ('e, 'b) outcome" where
  "andthen (Ok a) f = f a"
| "andthen (Err e) f = Err e"
| "andthen Panic f = Panic"
| "andthen Diverge f = Diverge"

definition map_ok :: "('a \<Rightarrow> 'b) \<Rightarrow> ('e, 'a) outcome \<Rightarrow> ('e, 'b) outcome" where
  "map_ok f m = andthen m (\<lambda>a. Ok (f a))"

text \<open>\<open>Option::ok_or_else\<close>, \<open>Option::expect\<close> and \<open>assert!\<close>.\<close>

definition ok_or :: "'e \<Rightarrow> 'a option \<Rightarrow> ('e, 'a) outcome" where
  "ok_or e x = (case x of Some a \<Rightarrow> Ok a | None \<Rightarrow> Err e)"

definition expect :: "'a option \<Rightarrow> ('e, 'a) outcome" where
  "expect x = (case x of Some a \<Rightarrow> Ok a | None \<Rightarrow> Panic)"

definition assert :: "bool \<Rightarrow> ('e, unit) outcome" where
  "assert b = (if b then Ok () else Panic)"

definition ensure :: "bool \<Rightarrow> 'e \<Rightarrow> ('e, unit) outcome" where
  "ensure b e = (if b then Ok () else Err e)"

text \<open>A loop modelled by \<open>partial_function (option)\<close>: \<open>None\<close> is "does not end".\<close>

definition from_loop :: "'a option \<Rightarrow> ('e, 'a) outcome" where
  "from_loop x = (case x of Some a \<Rightarrow> Ok a | None \<Rightarrow> Diverge)"

text \<open>\<open>for x in xs\<close> over a mutable state, and \<open>map\<close> followed by \<open>collect\<close>.\<close>

fun for_each :: "('x \<Rightarrow> 's \<Rightarrow> ('e, 's) outcome) \<Rightarrow> 'x list \<Rightarrow> 's \<Rightarrow> ('e, 's) outcome" where
  "for_each f [] s = Ok s"
| "for_each f (x # xs) s = andthen (f x s) (for_each f xs)"

fun map_each :: "('x \<Rightarrow> ('e, 'a) outcome) \<Rightarrow> 'x list \<Rightarrow> ('e, 'a list) outcome" where
  "map_each f [] = Ok []"
| "map_each f (x # xs) = andthen (f x) (\<lambda>a. andthen (map_each f xs) (\<lambda>as. Ok (a # as)))"

lemma andthen_eq_Ok: "andthen m f = Ok b \<longleftrightarrow> (\<exists>a. m = Ok a \<and> f a = Ok b)"
  by (cases m) auto

lemma andthen_assoc: "andthen (andthen m f) g = andthen m (\<lambda>a. andthen (f a) g)"
  by (cases m) auto

lemma andthen_Ok_right [simp]: "andthen m Ok = m"
  by (cases m) auto

lemma map_ok_simps [simp]:
  "map_ok f (Ok a) = Ok (f a)" "map_ok f (Err e) = Err e" "map_ok f Panic = Panic"
  "map_ok f Diverge = Diverge"
  by (simp_all add: map_ok_def)

lemma map_ok_eq_Ok: "map_ok f m = Ok b \<longleftrightarrow> (\<exists>a. m = Ok a \<and> b = f a)"
  by (cases m) auto

lemma ok_or_eq_Ok [simp]: "ok_or e x = Ok a \<longleftrightarrow> x = Some a"
  by (auto simp: ok_or_def split: option.splits)

lemma ok_or_simps [simp]: "ok_or e (Some a) = Ok a" "ok_or e None = Err e"
  by (simp_all add: ok_or_def)

lemma expect_simps [simp]: "expect (Some a) = Ok a" "expect None = Panic"
  by (simp_all add: expect_def)

lemma expect_eq_Ok [simp]: "expect x = Ok a \<longleftrightarrow> x = Some a"
  by (auto simp: expect_def split: option.splits)

lemma assert_simps [simp]: "assert True = Ok ()" "assert False = Panic"
  by (simp_all add: assert_def)

lemma assert_eq_Ok [simp]: "assert b = Ok u \<longleftrightarrow> b"
  by (simp add: assert_def)

lemma ensure_simps [simp]: "ensure True e = Ok ()" "ensure False e = Err e"
  by (simp_all add: ensure_def)

lemma ensure_eq_Ok [simp]: "ensure b e = Ok u \<longleftrightarrow> b"
  by (simp add: ensure_def)

lemma from_loop_simps [simp]: "from_loop (Some a) = Ok a" "from_loop None = Diverge"
  by (simp_all add: from_loop_def)

lemma for_each_append:
  "for_each f (xs @ ys) s = andthen (for_each f xs s) (for_each f ys)"
proof (induction xs arbitrary: s)
  case (Cons x xs)
  have "(\<lambda>a. for_each f (xs @ ys) a) = (\<lambda>a. andthen (for_each f xs a) (for_each f ys))"
    by (rule ext) (rule Cons.IH)
  then show ?case by (simp add: andthen_assoc)
qed simp

lemma for_each_inv:
  assumes "for_each f xs s = Ok t" and "P s"
    and "\<And>x s t. x \<in> set xs \<Longrightarrow> P s \<Longrightarrow> f x s = Ok t \<Longrightarrow> P t"
  shows "P t"
  using assms by (induction xs arbitrary: s) (auto simp: andthen_eq_Ok)

lemma for_each_cong [fundef_cong]:
  assumes "xs = ys" and "s = t" and "\<And>x s. x \<in> set ys \<Longrightarrow> f x s = g x s"
  shows "for_each f xs s = for_each g ys t"
  using assms(3) unfolding assms(1,2)
proof (induction ys arbitrary: t)
  case (Cons y ys)
  then show ?case by (cases "g y t") auto
qed simp

lemma map_each_eq_Ok:
  "map_each f xs = Ok ys \<longleftrightarrow> list_all2 (\<lambda>x y. f x = Ok y) xs ys"
proof (induction xs arbitrary: ys)
  case (Cons x xs)
  then show ?case by (cases ys) (auto simp: andthen_eq_Ok)
qed auto

lemma map_each_Ok [simp]: "map_each (\<lambda>x. Ok (f x)) xs = Ok (map f xs)"
  by (induction xs) auto

lemma map_each_Ok_cong: "(\<And>x. x \<in> set xs \<Longrightarrow> f x = Ok (g x)) \<Longrightarrow> map_each f xs = Ok (map g xs)"
  by (induction xs) auto

lemma outcome_split:
  "P (case x of Ok a \<Rightarrow> f a | Err e \<Rightarrow> g e | Panic \<Rightarrow> h | Diverge \<Rightarrow> k) \<longleftrightarrow>
    (\<forall>a. x = Ok a \<longrightarrow> P (f a)) \<and> (\<forall>e. x = Err e \<longrightarrow> P (g e)) \<and>
    (x = Panic \<longrightarrow> P h) \<and> (x = Diverge \<longrightarrow> P k)"
  by (cases x) auto

section \<open>Computations that also change a state\<close>

text \<open>
  A step that threads a mutable borrow through fallible code: the state it leaves behind is
  there on every path, also after an error, as the borrowed value is in Rust.
\<close>

type_synonym ('s, 'e, 'a) step = "'s \<Rightarrow> ('e, 'a) outcome \<times> 's"

definition sret :: "'a \<Rightarrow> ('s, 'e, 'a) step" where
  "sret a = (\<lambda>s. (Ok a, s))"

definition slift :: "('e, 'a) outcome \<Rightarrow> ('s, 'e, 'a) step" where
  "slift m = (\<lambda>s. (m, s))"

definition sbind :: "('s, 'e, 'a) step \<Rightarrow> ('a \<Rightarrow> ('s, 'e, 'b) step) \<Rightarrow> ('s, 'e, 'b) step" where
  "sbind m f = (\<lambda>s. case m s of
      (Ok a, s') \<Rightarrow> f a s'
    | (Err e, s') \<Rightarrow> (Err e, s')
    | (Panic, s') \<Rightarrow> (Panic, s')
    | (Diverge, s') \<Rightarrow> (Diverge, s'))"

fun sfor_each :: "('x \<Rightarrow> 'v \<Rightarrow> ('s, 'e, 'v) step) \<Rightarrow> 'x list \<Rightarrow> 'v \<Rightarrow> ('s, 'e, 'v) step" where
  "sfor_each f [] v = sret v"
| "sfor_each f (x # xs) v = sbind (f x v) (sfor_each f xs)"

lemma sret_apply [simp]: "sret a s = (Ok a, s)"
  by (simp add: sret_def)

lemma slift_apply [simp]: "slift m s = (m, s)"
  by (simp add: slift_def)

lemma sbind_eq_Ok:
  "sbind m f s = (Ok b, t) \<longleftrightarrow> (\<exists>a s'. m s = (Ok a, s') \<and> f a s' = (Ok b, t))"
  by (auto simp: sbind_def split: prod.splits outcome.splits)

lemma sbind_Ok [simp]: "m s = (Ok a, s') \<Longrightarrow> sbind m f s = f a s'"
  by (simp add: sbind_def)

lemma sbind_fails [simp]:
  "m s = (Err e, s') \<Longrightarrow> sbind m f s = (Err e, s')"
  "m s = (Panic, s') \<Longrightarrow> sbind m f s = (Panic, s')"
  "m s = (Diverge, s') \<Longrightarrow> sbind m f s = (Diverge, s')"
  by (simp_all add: sbind_def)

lemma sbind_sret [simp]: "sbind (sret a) f = f a"
  by (auto simp: sbind_def)

lemma sbind_slift_Ok [simp]: "sbind (slift (Ok a)) f = f a"
  by (auto simp: sbind_def)

text \<open>An invariant of the state holds after a step, whatever its outcome.\<close>

lemma sbind_inv:
  assumes "P (snd (m s))"
    and "\<And>a s'. m s = (Ok a, s') \<Longrightarrow> P s' \<Longrightarrow> P (snd (f a s'))"
  shows "P (snd (sbind m f s))"
proof -
  obtain r s' where m: "m s = (r, s')" by (cases "m s")
  show ?thesis
  proof (cases r)
    case (Ok a)
    then show ?thesis using assms(1) assms(2) [of a s'] m by simp
  qed (use assms(1) m in simp_all)
qed

lemma sfor_each_inv:
  assumes "P s" and "\<And>x v s. x \<in> set xs \<Longrightarrow> P s \<Longrightarrow> P (snd (f x v s))"
  shows "P (snd (sfor_each f xs v s))"
  using assms
proof (induction xs arbitrary: v s)
  case (Cons x xs)
  have "P (snd (f x v s))" using Cons.prems by simp
  moreover have "P (snd (sfor_each f xs a t))" if "P t" for a t
    using that Cons.IH [of t a] Cons.prems(2) by simp
  ultimately have "P (snd (sbind (f x v) (sfor_each f xs) s))"
    using sbind_inv [of P "f x v" s "sfor_each f xs"] by blast
  then show ?case by simp
qed simp

section \<open>Outcomes and steps against a specification\<close>

text \<open>
  \<open>ospec Q E F m\<close>: a value of \<open>m\<close> satisfies \<open>Q\<close>, an error of it \<open>E\<close>, it panics only where \<open>F\<close>, and it
  ends. \<open>sspec\<close> says the same of a step together with the state it leaves.
\<close>

fun ospec :: "('a \<Rightarrow> bool) \<Rightarrow> ('e \<Rightarrow> bool) \<Rightarrow> bool \<Rightarrow> ('e, 'a) outcome \<Rightarrow> bool" where
  "ospec Q E F (Ok a) \<longleftrightarrow> Q a"
| "ospec Q E F (Err e) \<longleftrightarrow> E e"
| "ospec Q E F Panic \<longleftrightarrow> F"
| "ospec Q E F Diverge \<longleftrightarrow> False"

definition sspec ::
  "('a \<Rightarrow> 's \<Rightarrow> bool) \<Rightarrow> ('e \<Rightarrow> 's \<Rightarrow> bool) \<Rightarrow> ('s \<Rightarrow> bool) \<Rightarrow> ('e, 'a) outcome \<times> 's \<Rightarrow> bool" where
  "sspec Q E F r \<longleftrightarrow> ospec (\<lambda>a. Q a (snd r)) (\<lambda>e. E e (snd r)) (F (snd r)) (fst r)"

lemma sspec_simps [simp]:
  "sspec Q E F (Ok a, s) \<longleftrightarrow> Q a s" "sspec Q E F (Err e, s) \<longleftrightarrow> E e s"
  "sspec Q E F (Panic, s) \<longleftrightarrow> F s" "\<not> sspec Q E F (Diverge, s)"
  by (simp_all add: sspec_def)

lemma ospec_andthen: "ospec Q E F (andthen m f) \<longleftrightarrow> ospec (\<lambda>a. ospec Q E F (f a)) E F m"
  by (cases m) simp_all

lemma ospec_map_ok: "ospec Q E F (map_ok f m) \<longleftrightarrow> ospec (\<lambda>a. Q (f a)) E F m"
  by (cases m) simp_all

lemma sspec_sbind: "sspec Q E F (sbind m f s) \<longleftrightarrow> sspec (\<lambda>a t. sspec Q E F (f a t)) E F (m s)"
proof -
  obtain r t where "m s = (r, t)" by (cases "m s")
  then show ?thesis by (cases r) (simp_all add: sspec_def)
qed

lemma sspec_slift: "sspec Q E F (slift m s) \<longleftrightarrow> ospec (\<lambda>a. Q a s) (\<lambda>e. E e s) (F s) m"
  by (simp add: sspec_def)

lemma sspec_sret: "sspec Q E F (sret a s) \<longleftrightarrow> Q a s"
  by simp

lemma ospec_mono:
  assumes "ospec Q E F m" and "\<And>a. m = Ok a \<Longrightarrow> Q a \<Longrightarrow> Q' a" and "\<And>e. E e \<Longrightarrow> E' e" and "F \<Longrightarrow> F'"
  shows "ospec Q' E' F' m"
  using assms by (cases m) auto

lemma sspec_mono:
  assumes "sspec Q E F r" and "\<And>a s. r = (Ok a, s) \<Longrightarrow> Q a s \<Longrightarrow> Q' a s"
    and "\<And>e s. E e s \<Longrightarrow> E' e s" and "\<And>s. F s \<Longrightarrow> F' s"
  shows "sspec Q' E' F' r"
proof (cases r)
  case (Pair m s)
  then show ?thesis using assms by (cases m) simp_all
qed

text \<open>Loops, by an invariant on the part of the list that is done.\<close>

lemma ospec_for_each:
  assumes "P [] s"
    and "\<And>ys y zs s. xs = ys @ y # zs \<Longrightarrow> P ys s \<Longrightarrow> ospec (P (ys @ [y])) E F (f y s)"
  shows "ospec (P xs) E F (for_each f xs s)"
proof -
  have "ospec (P xs) E F (for_each f zs s)" if "xs = ys @ zs" and "P ys s" for ys zs s
    using that
  proof (induction zs arbitrary: ys s)
    case (Cons z zs)
    have "ospec (P (ys @ [z])) E F (f z s)" using assms(2) Cons.prems by blast
    then show ?case
      unfolding for_each.simps ospec_andthen
      by (rule ospec_mono) (use Cons.IH [of "ys @ [z]"] Cons.prems in auto)
  qed simp
  from this [of "[]"] show ?thesis using assms(1) by simp
qed

lemma sspec_sfor_each:
  assumes "P [] v s"
    and "\<And>ys y zs v s. xs = ys @ y # zs \<Longrightarrow> P ys v s \<Longrightarrow> sspec (P (ys @ [y])) E F (f y v s)"
  shows "sspec (P xs) E F (sfor_each f xs v s)"
proof -
  have "sspec (P xs) E F (sfor_each f zs v s)" if "xs = ys @ zs" and "P ys v s" for ys zs v s
    using that
  proof (induction zs arbitrary: ys v s)
    case (Cons z zs)
    have "sspec (P (ys @ [z])) E F (f z v s)" using assms(2) Cons.prems by blast
    then show ?case
      unfolding sfor_each.simps sspec_sbind
      by (rule sspec_mono) (use Cons.IH [of "ys @ [z]"] Cons.prems in auto)
  qed simp
  from this [of "[]"] show ?thesis using assms(1) by simp
qed

section \<open>Bounds-checked reads\<close>

text \<open>\<open>v.get(i)\<close>, \<open>v.get(a..b)\<close>, and \<open>v[i]\<close>, which panics out of range.\<close>

definition get_at :: "'a list \<Rightarrow> nat \<Rightarrow> 'a option" where
  "get_at xs i = (if i < length xs then Some (xs ! i) else None)"

definition get_range :: "'a list \<Rightarrow> nat \<Rightarrow> nat \<Rightarrow> 'a list option" where
  "get_range xs a b = (if a \<le> b \<and> b \<le> length xs then Some (take (b - a) (drop a xs)) else None)"

definition index_at :: "'a list \<Rightarrow> nat \<Rightarrow> ('e, 'a) outcome" where
  "index_at xs i = (if i < length xs then Ok (xs ! i) else Panic)"

text \<open>\<open>v[i] = x\<close>.\<close>

definition store_at :: "'a list \<Rightarrow> nat \<Rightarrow> 'a \<Rightarrow> ('e, 'a list) outcome" where
  "store_at xs i x = (if i < length xs then Ok (xs[i := x]) else Panic)"

definition last_opt :: "'a list \<Rightarrow> 'a option" where
  "last_opt xs = (if xs = [] then None else Some (last xs))"

text \<open>\<open>slice::windows(2)\<close>.\<close>

fun windows2 :: "'a list \<Rightarrow> ('a \<times> 'a) list" where
  "windows2 (x # y # ys) = (x, y) # windows2 (y # ys)"
| "windows2 _ = []"

text \<open>\<open>Iterator::position\<close>.\<close>

fun position :: "('a \<Rightarrow> bool) \<Rightarrow> 'a list \<Rightarrow> nat option" where
  "position P [] = None"
| "position P (x # xs) = (if P x then Some 0 else map_option Suc (position P xs))"

lemma get_at_eq_Some: "get_at xs i = Some x \<longleftrightarrow> i < length xs \<and> xs ! i = x"
  by (auto simp: get_at_def)

lemma get_at_eq_None [simp]: "get_at xs i = None \<longleftrightarrow> length xs \<le> i"
  by (auto simp: get_at_def)

lemma get_at_less [simp]: "i < length xs \<Longrightarrow> get_at xs i = Some (xs ! i)"
  by (simp add: get_at_def)

lemma get_at_map: "get_at (map f xs) i = map_option f (get_at xs i)"
  by (simp add: get_at_def)

lemma get_at_map_comp: "map_option f (get_at xs i) = get_at (map f xs) i"
  by (simp add: get_at_def)

lemma get_range_map: "get_range (map f xs) a b = map_option (map f) (get_range xs a b)"
  by (simp add: get_range_def take_map drop_map)

lemma index_at_eq_Ok [simp]: "index_at xs i = Ok x \<longleftrightarrow> i < length xs \<and> xs ! i = x"
  by (auto simp: index_at_def)

lemma index_at_less [simp]: "i < length xs \<Longrightarrow> index_at xs i = Ok (xs ! i)"
  by (simp add: index_at_def)

lemma store_at_less [simp]: "i < length xs \<Longrightarrow> store_at xs i x = Ok (xs[i := x])"
  by (simp add: store_at_def)

lemma store_at_eq_Ok: "store_at xs i x = Ok ys \<longleftrightarrow> i < length xs \<and> ys = xs[i := x]"
  by (auto simp: store_at_def)

lemma position_eq_None: "position P xs = None \<longleftrightarrow> (\<forall>x\<in>set xs. \<not> P x)"
  by (induction xs) auto

lemma position_eq_Some:
  "position P xs = Some i \<longleftrightarrow> i < length xs \<and> P (xs ! i) \<and> (\<forall>j<i. \<not> P (xs ! j))"
proof (induction xs arbitrary: i)
  case (Cons x xs)
  show ?case
  proof (cases i)
    case 0
    then show ?thesis by auto
  next
    case (Suc k)
    then show ?thesis using Cons.IH [of k] by (auto simp: less_Suc_eq_0_disj)
  qed
qed simp

lemma set_windows2:
  "(x, y) \<in> set (windows2 xs) \<longleftrightarrow> (\<exists>i. Suc i < length xs \<and> x = xs ! i \<and> y = xs ! Suc i)"
proof (induction xs rule: windows2.induct)
  case (1 a b ys)
  have "(\<exists>i. Suc i < length (a # b # ys) \<and> x = (a # b # ys) ! i \<and> y = (a # b # ys) ! Suc i) \<longleftrightarrow>
      (x = a \<and> y = b) \<or> (\<exists>i. Suc i < length (b # ys) \<and> x = (b # ys) ! i \<and> y = (b # ys) ! Suc i)"
    (is "?l \<longleftrightarrow> ?r")
  proof
    assume ?l
    then obtain i where i: "Suc i < length (a # b # ys)" "x = (a # b # ys) ! i"
      "y = (a # b # ys) ! Suc i" by blast
    then show ?r by (cases i) auto
  next
    assume ?r
    then show ?l
      by (elim disjE exE) (rule exI [of _ 0], simp, rule_tac x = "Suc i" in exI, simp)
  qed
  then show ?case using 1 by simp
qed auto

lemma length_windows2 [simp]: "length (windows2 xs) = length xs - 1"
  by (induction xs rule: windows2.induct) auto

lemma nth_windows2: "Suc i < length xs \<Longrightarrow> windows2 xs ! i = (xs ! i, xs ! Suc i)"
proof (induction xs arbitrary: i rule: windows2.induct)
  case (1 x y ys)
  then show ?case by (cases i) auto
qed auto

section \<open>Printing\<close>

text \<open>\<open>Display\<close> of an unsigned integer: its decimal digits.\<close>

fun nat_str :: "nat \<Rightarrow> string" where
  "nat_str n = (if n < 10 then [char_of (48 + n)] else nat_str (n div 10) @ [char_of (48 + n mod 10)])"

declare nat_str.simps [simp del]

text \<open>\<open>names.join(", ")\<close>.\<close>

fun join :: "string \<Rightarrow> string list \<Rightarrow> string" where
  "join sep [] = []"
| "join sep [x] = x"
| "join sep (x # y # ys) = x @ sep @ join sep (y # ys)"

section \<open>Machine widths\<close>

type_synonym u8 = "8 word"
type_synonym u16 = "16 word"
type_synonym u32 = "32 word"
type_synonym u64 = "64 word"
type_synonym bytes = "8 word list"

definition u32_max :: nat where
  "u32_max = 4294967295"

definition usize_max :: nat where
  "usize_max = 18446744073709551615"

text \<open>A sum and a product of \<open>usize\<close> values in a build that checks for overflow.\<close>

definition usize_add :: "nat \<Rightarrow> nat \<Rightarrow> ('e, nat) outcome" where
  "usize_add a b = (if a + b \<le> usize_max then Ok (a + b) else Panic)"

definition usize_mul :: "nat \<Rightarrow> nat \<Rightarrow> ('e, nat) outcome" where
  "usize_mul a b = (if a * b \<le> usize_max then Ok (a * b) else Panic)"

definition u16_max :: nat where
  "u16_max = 65535"

text \<open>\<open>u32::try_from(n)\<close> for a \<open>usize\<close>.\<close>

definition u32_try_from :: "nat \<Rightarrow> u32 option" where
  "u32_try_from n = (if n \<le> u32_max then Some (of_nat n) else None)"

lemma unat_u32_le [simp]: "unat (w :: u32) \<le> u32_max"
  using unsigned_less [of w, where ?'a = nat] by (simp add: u32_max_def)

lemma unat_of_nat_u32 [simp]: "n \<le> u32_max \<Longrightarrow> unat (of_nat n :: u32) = n"
  by (simp add: u32_max_def unat_of_nat take_bit_nat_eq_self)

lemma unat_of_nat_u16 [simp]: "n \<le> u16_max \<Longrightarrow> unat (of_nat n :: u16) = n"
  by (simp add: u16_max_def unat_of_nat take_bit_nat_eq_self)

lemma u32_try_from_eq_Some: "u32_try_from n = Some w \<longleftrightarrow> n \<le> u32_max \<and> unat w = n"
  by (auto simp: u32_try_from_def)

end
