(* ===== verification/Errors.thy ===== *)
theory Errors
  imports Prelude
begin

text \<open>
  The property types of \<open>property.rs\<close>, the errors of \<open>error.rs\<close> with their messages, and the
  result type every fallible operation of the model returns.
\<close>

section \<open>Property types\<close>

datatype quantity_type = One | Multi

datatype property_type =
  TNone | TBool | TByte | TShort | TInt | TLong | TFloat | TDouble | TNodeId | TString | TEnum

definition default_property_type :: property_type where
  "default_property_type = TNone"

fun property_type_str :: "property_type \<Rightarrow> string" where
  "property_type_str TNone = ''None''"
| "property_type_str TBool = ''Bool''"
| "property_type_str TByte = ''Byte''"
| "property_type_str TShort = ''Short''"
| "property_type_str TInt = ''Int''"
| "property_type_str TLong = ''Long''"
| "property_type_str TFloat = ''Float''"
| "property_type_str TDouble = ''Double''"
| "property_type_str TNodeId = ''NodeId''"
| "property_type_str TString = ''String''"
| "property_type_str TEnum = ''Enum''"

lemma property_type_str_inject [simp]:
  "property_type_str a = property_type_str b \<longleftrightarrow> a = b"
  by (cases a; cases b) simp_all

section \<open>Errors\<close>

datatype error =
  InvalidPropertyType string string
| PropertyIndexNotFound
| PropertyNotSupported string string
| PropertyAlreadySet string
| PropertyIndexOutOfBounds nat nat nat
| NodeOffsetNotFound nat
| OffsetOverflow nat
| OffsetUnderflow
| UnresolvedNodeKind nat
| UnresolvedEdgeKind nat
| UnresolvedDirection nat
| UnknownLabel string string
| ReverseEdgeNotFound string string string string
| UnresolvedStringId string
| UnresolvedEnumVariant string nat
| EnumPropIndexMismatch string nat
| StorageSizeMismatch string nat nat
| OffsetsLengthMismatch string nat nat
| OffsetsBoundsMismatch string nat nat
| NodeSeqOutOfBounds string nat nat
| UnresolvedEnumKind nat
| NodeCountOverflow nat
| EdgeHalfPropertyMismatch string string string

type_synonym 'a res = "(error, 'a) outcome"

definition invalid_property_type :: "property_type \<Rightarrow> property_type \<Rightarrow> error" where
  "invalid_property_type e f = InvalidPropertyType (property_type_str e) (property_type_str f)"

text \<open>The messages of the \<open>#[error(...)]\<close> attributes, where a quote is the character \<open>34\<close>.\<close>

definition quoted :: "string \<Rightarrow> string" where
  "quoted s = [CHR 0x22] @ s @ [CHR 0x22]"

fun error_message :: "error \<Rightarrow> string" where
  "error_message (InvalidPropertyType e f) =
     ''invalid property type (expected '' @ quoted e @ '', found '' @ quoted f @ '')''"
| "error_message PropertyIndexNotFound = ''property index is not found''"
| "error_message (PropertyNotSupported p n) =
     ''property '' @ quoted p @ '' is not supported for node '' @ quoted n"
| "error_message (PropertyAlreadySet p) =
     ''property '' @ quoted p @ '' with quantity '' @ quoted ''One'' @ '' is already set''"
| "error_message (PropertyIndexOutOfBounds s e c) =
     ''property indices range '' @ quoted (nat_str s @ '' - '' @ nat_str e)
       @ '' is out of bounds, properties count: '' @ nat_str c"
| "error_message (NodeOffsetNotFound n) =
     ''offsets are not found for node.seq '' @ quoted (nat_str n)"
| "error_message (OffsetOverflow v) =
     ''offset value '' @ nat_str v @ '' exceeds the maximum supported offset''"
| "error_message OffsetUnderflow =
     ''offset arithmetic underflowed: CSR offsets must remain non-decreasing''"
| "error_message (UnresolvedNodeKind k) = ''failed to resolve node kind '' @ nat_str k"
| "error_message (UnresolvedEdgeKind k) = ''failed to resolve edge kind '' @ nat_str k"
| "error_message (UnresolvedDirection k) = ''failed to resolve direction '' @ nat_str k"
| "error_message (UnknownLabel e l) = ''unknown '' @ e @ '' label: '' @ quoted l"
| "error_message (ReverseEdgeNotFound t n d k) =
     ''reverse edge not found: '' @ t @ '' in node '' @ n @ CHR 0x27 # ''s '' @ d @ '' '' @ k @ '' list''"
| "error_message (UnresolvedStringId s) = ''failed to resolve string id '' @ quoted s"
| "error_message (UnresolvedEnumVariant e v) =
     ''failed to resolve variant '' @ nat_str v @ '' for enum '' @ quoted e"
| "error_message (EnumPropIndexMismatch e f) =
     ''enum property index mismatch: value belongs to a different registered enum than '' @ quoted e
       @ '' (found enum index '' @ nat_str f @ '')''"
| "error_message (StorageSizeMismatch s e f) =
     ''storage size mismatch for '' @ quoted s @ '': expected '' @ nat_str e @ '' slots, found '' @ nat_str f"
| "error_message (OffsetsLengthMismatch s e f) =
     ''offsets length mismatch for slot '' @ quoted s @ '': expected '' @ nat_str e
       @ '' (node count + 1), found '' @ nat_str f"
| "error_message (OffsetsBoundsMismatch s e f) =
     ''offsets bounds mismatch for slot '' @ quoted s @ '': expected '' @ nat_str e @ '', found '' @ nat_str f"
| "error_message (NodeSeqOutOfBounds n s c) =
     ''node '' @ quoted n @ '' seq '' @ nat_str s @ '' is out of bounds (node count: '' @ nat_str c @ '')''"
| "error_message (UnresolvedEnumKind k) = ''failed to resolve enum kind '' @ nat_str k"
| "error_message (NodeCountOverflow n) =
     ''node count '' @ nat_str n @ '' exceeds the maximum addressable by a u32''"
| "error_message (EdgeHalfPropertyMismatch k s d) =
     ''edge property mismatch for '' @ k @ '' edge '' @ s @ '' -> '' @ d @ '': the half in '' @ s
       @ CHR 0x27 # ''s Out '' @ k @ '' list and the half in '' @ d @ CHR 0x27 # ''s In '' @ k
       @ '' list carry different property values''"

end
