(* ===== verification/Ids.thy ===== *)
theory Ids
  imports Errors
begin

text \<open>
  Identifiers: \<open>Direction\<close>, \<open>EdgeHandle\<close>, \<open>RawEdgeId\<close> and \<open>EdgeId\<close> of \<open>edge.rs\<close>,
  \<open>NodeMeta\<close>, \<open>RawNodeId\<close> and \<open>NodeId\<close> of \<open>node.rs\<close>, \<open>RawEnumId\<close> of \<open>enum_property.rs\<close> and
  \<open>RawStringId\<close> of \<open>strings_pool.rs\<close>. A raw identifier holds machine words; a typed one holds a
  kind of the schema (a value of the type variable \<open>'n\<close> or \<open>'e\<close>). Constructors that \<open>assert!\<close>
  their range return an outcome.
\<close>

section \<open>Directions\<close>

datatype dir = In | Out

definition dir_values :: "dir list" where
  "dir_values = [In, Out]"

fun dir_factor :: "dir \<Rightarrow> nat" where
  "dir_factor In = 0"
| "dir_factor Out = 1"

definition src_half :: dir where
  "src_half = Out"

definition dst_half :: dir where
  "dst_half = In"

fun orient_edge :: "dir \<Rightarrow> 'a \<Rightarrow> 'a \<Rightarrow> 'a \<times> dir \<times> 'a \<times> dir" where
  "orient_edge Out src dst = (src, Out, dst, In)"
| "orient_edge In src dst = (dst, In, src, Out)"

definition dir_from_index :: "nat \<Rightarrow> dir option" where
  "dir_from_index i = (if i = 0 then Some In else if i = 1 then Some Out else None)"

fun dir_str :: "dir \<Rightarrow> string" where
  "dir_str In = ''In''"
| "dir_str Out = ''Out''"

lemma length_dir_values [simp]: "length dir_values = 2"
  by (simp add: dir_values_def)

lemma set_dir_values [simp]: "set dir_values = UNIV"
  by (auto simp: dir_values_def intro: dir.exhaust)

lemma dir_from_index_factor [simp]: "dir_from_index (dir_factor d) = Some d"
  by (cases d) (simp_all add: dir_from_index_def)

lemma dir_factor_less [simp]: "dir_factor d < 2"
  by (cases d) simp_all

lemma dir_factor_inject [simp]: "dir_factor a = dir_factor b \<longleftrightarrow> a = b"
  by (cases a; cases b) simp_all

section \<open>Nodes\<close>

datatype node_meta = NodeMeta (is_deleted: bool)

definition default_node_meta :: node_meta where
  "default_node_meta = NodeMeta False"

definition set_is_deleted :: "bool \<Rightarrow> node_meta \<Rightarrow> node_meta" where
  "set_is_deleted b m = NodeMeta b"

datatype raw_node_id = RawNodeId (rn_kind: u32) (rn_seq: u32)

definition raw_node_new :: "nat \<Rightarrow> nat \<Rightarrow> raw_node_id res" where
  "raw_node_new kind seq =
     andthen (assert (kind \<le> u32_max)) (\<lambda>_.
     andthen (assert (seq \<le> u32_max)) (\<lambda>_.
     Ok (RawNodeId (of_nat kind) (of_nat seq))))"

definition raw_kind :: "raw_node_id \<Rightarrow> nat" where
  "raw_kind r = unat (rn_kind r)"

definition raw_seq :: "raw_node_id \<Rightarrow> nat" where
  "raw_seq r = unat (rn_seq r)"

definition raw_node_str :: "raw_node_id \<Rightarrow> string" where
  "raw_node_str r = ''RawNodeId('' @ nat_str (raw_kind r) @ '','' @ nat_str (raw_seq r) @ '')''"

text \<open>The derived \<open>Ord\<close>: by kind, then by sequence number.\<close>

instantiation raw_node_id :: linorder
begin

definition less_eq_raw_node_id :: "raw_node_id \<Rightarrow> raw_node_id \<Rightarrow> bool" where
  "less_eq_raw_node_id a b \<longleftrightarrow> rn_kind a < rn_kind b \<or> rn_kind a = rn_kind b \<and> rn_seq a \<le> rn_seq b"

definition less_raw_node_id :: "raw_node_id \<Rightarrow> raw_node_id \<Rightarrow> bool" where
  "less_raw_node_id a b \<longleftrightarrow> rn_kind a < rn_kind b \<or> rn_kind a = rn_kind b \<and> rn_seq a < rn_seq b"

instance
  by standard (auto simp: less_eq_raw_node_id_def less_raw_node_id_def raw_node_id.expand)

end

datatype 'n node_id = NodeId (nid_kind: 'n) (nid_seq: nat)

lemma raw_node_new_eq_Ok:
  "raw_node_new k s = Ok r \<longleftrightarrow> k \<le> u32_max \<and> s \<le> u32_max \<and> raw_kind r = k \<and> raw_seq r = s"
  by (cases r) (auto simp: raw_node_new_def andthen_eq_Ok assert_def raw_kind_def raw_seq_def)

lemma raw_node_new_Ok [simp]:
  "k \<le> u32_max \<Longrightarrow> s \<le> u32_max \<Longrightarrow> raw_node_new k s = Ok (RawNodeId (of_nat k) (of_nat s))"
  by (simp add: raw_node_new_def)

lemma raw_node_eqI: "raw_kind a = raw_kind b \<Longrightarrow> raw_seq a = raw_seq b \<Longrightarrow> a = b"
  by (cases a; cases b) (auto simp: raw_kind_def raw_seq_def intro: unsigned_word_eqI)

lemma raw_kind_le [simp]: "raw_kind r \<le> u32_max"
  by (simp add: raw_kind_def)

lemma raw_seq_le [simp]: "raw_seq r \<le> u32_max"
  by (simp add: raw_seq_def)

lemma raw_kind_RawNodeId [simp]: "k \<le> u32_max \<Longrightarrow> raw_kind (RawNodeId (of_nat k) s) = k"
  by (simp add: raw_kind_def)

lemma raw_seq_RawNodeId [simp]: "n \<le> u32_max \<Longrightarrow> raw_seq (RawNodeId k (of_nat n)) = n"
  by (simp add: raw_seq_def)

section \<open>Enum values and strings\<close>

datatype raw_enum_id = RawEnumId (re_enum: u16) (re_variant: u16)

definition raw_enum_new :: "nat \<Rightarrow> nat \<Rightarrow> raw_enum_id res" where
  "raw_enum_new enum_property_index variant =
     andthen (assert (enum_property_index \<le> u16_max)) (\<lambda>_.
     andthen (assert (variant \<le> u16_max)) (\<lambda>_.
     Ok (RawEnumId (of_nat enum_property_index) (of_nat variant))))"

definition raw_enum_index :: "raw_enum_id \<Rightarrow> nat" where
  "raw_enum_index r = unat (re_enum r)"

definition raw_enum_variant :: "raw_enum_id \<Rightarrow> nat" where
  "raw_enum_variant r = unat (re_variant r)"

definition raw_enum_str :: "raw_enum_id \<Rightarrow> string" where
  "raw_enum_str r =
     ''RawEnumId('' @ nat_str (raw_enum_index r) @ '','' @ nat_str (raw_enum_variant r) @ '')''"

lemma raw_enum_new_eq_Ok:
  "raw_enum_new e v = Ok r \<longleftrightarrow>
     e \<le> u16_max \<and> v \<le> u16_max \<and> raw_enum_index r = e \<and> raw_enum_variant r = v"
  by (cases r) (auto simp: raw_enum_new_def andthen_eq_Ok assert_def raw_enum_index_def
      raw_enum_variant_def)

datatype raw_string_id = RawStringId (rs_index: u32)

definition raw_string_str :: "raw_string_id \<Rightarrow> string" where
  "raw_string_str r = ''RawStringId('' @ nat_str (unat (rs_index r)) @ '')''"

section \<open>Edges\<close>

record edge_handle =
  eh_kind :: u32
  eh_direction :: u32
  eh_seq :: u32

definition edge_handle_new :: "nat \<Rightarrow> nat \<Rightarrow> nat \<Rightarrow> edge_handle res" where
  "edge_handle_new kind direction seq =
     andthen (assert (kind \<le> u32_max)) (\<lambda>_.
     andthen (assert (direction \<le> u32_max)) (\<lambda>_.
     andthen (assert (seq \<le> u32_max)) (\<lambda>_.
     Ok \<lparr>eh_kind = of_nat kind, eh_direction = of_nat direction, eh_seq = of_nat seq\<rparr>)))"

record raw_edge_id =
  re_src :: raw_node_id
  re_dst :: raw_node_id
  re_handle :: edge_handle

record ('n, 'e) edge_id =
  src_node :: "'n node_id"
  dst_node :: "'n node_id"
  edge_id_kind :: 'e
  edge_id_dir :: dir
  edge_id_seq :: nat

text \<open>\<open>EdgeId::from_half\<close>: the inverse of \<open>orient_edge\<close>.\<close>

definition from_half :: "'n node_id \<Rightarrow> 'n node_id \<Rightarrow> 'e \<Rightarrow> dir \<Rightarrow> nat \<Rightarrow> ('n, 'e) edge_id" where
  "from_half near far k d seq =
     (let (src, dst) = (case d of Out \<Rightarrow> (near, far) | In \<Rightarrow> (far, near)) in
      \<lparr>src_node = src, dst_node = dst, edge_id_kind = k, edge_id_dir = d, edge_id_seq = seq\<rparr>)"

definition neighbor :: "('n, 'e) edge_id \<Rightarrow> 'n node_id" where
  "neighbor e = (case edge_id_dir e of Out \<Rightarrow> dst_node e | In \<Rightarrow> src_node e)"

lemma from_half_simps [simp]:
  "edge_id_kind (from_half a b k d n) = k"
  "edge_id_dir (from_half a b k d n) = d"
  "edge_id_seq (from_half a b k d n) = n"
  "neighbor (from_half a b k d n) = b"
  by (cases d; simp add: from_half_def neighbor_def)+

lemma orient_from_half:
  "orient_edge d (src_node (from_half near far k d n)) (dst_node (from_half near far k d n)) =
     (near, d, far, (case d of Out \<Rightarrow> In | In \<Rightarrow> Out))"
  by (cases d) (simp_all add: from_half_def)

end
