(* ===== verification/Schema.thy ===== *)
theory Schema
  imports Ids
begin

text \<open>
  The schema interface (\<open>lib.rs\<close> and \<open>schema.rs\<close>). A schema is the record of the functions its
  four associated types provide: node kinds \<open>'n\<close>, edge kinds \<open>'e\<close>, property kinds \<open>'p\<close> and
  registered enums \<open>'r\<close>. The locale \<open>schema_laws\<close> states what the derive macros guarantee of
  them; from it follow the slot layout theorems.
\<close>

section \<open>The traits\<close>

record version =
  major :: u32
  minor :: u32
  patch :: u32

definition version_str :: "version \<Rightarrow> string" where
  "version_str v = nat_str (unat (major v)) @ ''.'' @ nat_str (unat (minor v)) @ ''.'' @ nat_str (unat (patch v))"

text \<open>The derived \<open>Ord\<close> of \<open>Version\<close>: lexicographic in the order of the fields.\<close>

definition version_less :: "version \<Rightarrow> version \<Rightarrow> bool" where
  "version_less a b \<longleftrightarrow> major a < major b \<or> major a = major b \<and>
     (minor a < minor b \<or> minor a = minor b \<and> patch a < patch b)"

record ('n, 'e, 'p, 'r) schema =
  s_name :: string
  s_version :: version
  n_all :: "'n list"
  n_index :: "'n \<Rightarrow> nat"
  n_from_index :: "nat \<Rightarrow> 'n option"
  n_str :: "'n \<Rightarrow> string"
  n_properties :: "'n \<Rightarrow> 'p list"
  e_all :: "'e list"
  e_index :: "'e \<Rightarrow> nat"
  e_from_index :: "nat \<Rightarrow> 'e option"
  e_str :: "'e \<Rightarrow> string"
  e_property_type :: "'e \<Rightarrow> property_type"
  e_enum_index :: "'e \<Rightarrow> nat option"
  p_all :: "'p list"
  p_index :: "'p \<Rightarrow> nat"
  p_from_index :: "nat \<Rightarrow> 'p option"
  p_str :: "'p \<Rightarrow> string"
  p_property_type :: "'p \<Rightarrow> property_type"
  p_quantity :: "'p \<Rightarrow> quantity_type"
  p_enum_index :: "'p \<Rightarrow> nat option"
  r_all :: "'r list"
  r_from_index :: "nat \<Rightarrow> 'r option"
  r_str :: "'r \<Rightarrow> string"
  r_variant_count :: "'r \<Rightarrow> nat"

section \<open>The provided methods of \<open>Schema\<close>\<close>

definition number_of_node_kinds :: "('n, 'e, 'p, 'r) schema \<Rightarrow> nat" where
  "number_of_node_kinds S = length (n_all S)"

definition number_of_edge_kinds :: "('n, 'e, 'p, 'r) schema \<Rightarrow> nat" where
  "number_of_edge_kinds S = length (e_all S)"

definition number_of_property_kinds :: "('n, 'e, 'p, 'r) schema \<Rightarrow> nat" where
  "number_of_property_kinds S = length (p_all S)"

definition number_of_enum_kinds :: "('n, 'e, 'p, 'r) schema \<Rightarrow> nat" where
  "number_of_enum_kinds S = length (r_all S)"

definition resolve_node_kind :: "('n, 'e, 'p, 'r) schema \<Rightarrow> raw_node_id \<Rightarrow> 'n res" where
  "resolve_node_kind S r = ok_or (UnresolvedNodeKind (raw_kind r)) (n_from_index S (raw_kind r))"

definition resolve_edge_kind :: "('n, 'e, 'p, 'r) schema \<Rightarrow> edge_handle \<Rightarrow> 'e res" where
  "resolve_edge_kind S h =
     ok_or (UnresolvedEdgeKind (unat (eh_kind h))) (e_from_index S (unat (eh_kind h)))"

definition resolve_edge_direction :: "edge_handle \<Rightarrow> dir res" where
  "resolve_edge_direction h =
     ok_or (UnresolvedDirection (unat (eh_direction h))) (dir_from_index (unat (eh_direction h)))"

definition edge_storage_size :: "('n, 'e, 'p, 'r) schema \<Rightarrow> nat" where
  "edge_storage_size S = number_of_edge_kinds S * number_of_node_kinds S * length dir_values"

definition edge_storage_slot :: "('n, 'e, 'p, 'r) schema \<Rightarrow> 'n \<Rightarrow> dir \<Rightarrow> 'e \<Rightarrow> nat" where
  "edge_storage_slot S nk d ek =
     n_index S nk + number_of_node_kinds S * (dir_factor d + length dir_values * e_index S ek)"

definition edge_storage_slots :: "('n, 'e, 'p, 'r) schema \<Rightarrow> ('n \<times> dir \<times> 'e) list" where
  "edge_storage_slots S =
     concat (map (\<lambda>ek. concat (map (\<lambda>d. map (\<lambda>nk. (nk, d, ek)) (n_all S)) dir_values)) (e_all S))"

definition property_storage_size :: "('n, 'e, 'p, 'r) schema \<Rightarrow> nat" where
  "property_storage_size S = number_of_node_kinds S * number_of_property_kinds S"

definition property_storage_slot :: "('n, 'e, 'p, 'r) schema \<Rightarrow> 'n \<Rightarrow> 'p \<Rightarrow> nat" where
  "property_storage_slot S nk pk = n_index S nk + number_of_node_kinds S * p_index S pk"

definition property_storage_slots :: "('n, 'e, 'p, 'r) schema \<Rightarrow> ('n \<times> 'p) list" where
  "property_storage_slots S = concat (map (\<lambda>pk. map (\<lambda>nk. (nk, pk)) (n_all S)) (p_all S))"

text \<open>\<open>Display\<close> of the two slot handles, as the integrity errors print them.\<close>

definition edge_slot_str :: "nat \<Rightarrow> string" where
  "edge_slot_str i = ''EdgeStorageSlot('' @ nat_str i @ '')''"

definition property_slot_str :: "nat \<Rightarrow> string" where
  "property_slot_str i = ''PropertyStorageSlot('' @ nat_str i @ '')''"

section \<open>Conversions between raw and typed identifiers\<close>

definition node_id_str :: "('n, 'e, 'p, 'r) schema \<Rightarrow> 'n node_id \<Rightarrow> string" where
  "node_id_str S n = ''NodeId('' @ n_str S (nid_kind n) @ '','' @ nat_str (nid_seq n) @ '')''"

definition raw_of_node :: "('n, 'e, 'p, 'r) schema \<Rightarrow> 'n node_id \<Rightarrow> raw_node_id res" where
  "raw_of_node S n = raw_node_new (n_index S (nid_kind n)) (nid_seq n)"

definition node_of_raw :: "('n, 'e, 'p, 'r) schema \<Rightarrow> raw_node_id \<Rightarrow> 'n node_id res" where
  "node_of_raw S r = andthen (resolve_node_kind S r) (\<lambda>k. Ok (NodeId k (raw_seq r)))"

definition edge_handle_of :: "('n, 'e, 'p, 'r) schema \<Rightarrow> ('n, 'e) edge_id \<Rightarrow> edge_handle res" where
  "edge_handle_of S e =
     edge_handle_new (e_index S (edge_id_kind e)) (dir_factor (edge_id_dir e)) (edge_id_seq e)"

definition raw_of_edge :: "('n, 'e, 'p, 'r) schema \<Rightarrow> ('n, 'e) edge_id \<Rightarrow> raw_edge_id res" where
  "raw_of_edge S e =
     andthen (edge_handle_of S e) (\<lambda>h.
     andthen (raw_of_node S (src_node e)) (\<lambda>src.
     andthen (raw_of_node S (dst_node e)) (\<lambda>dst.
     Ok \<lparr>re_src = src, re_dst = dst, re_handle = h\<rparr>)))"

definition edge_of_raw :: "('n, 'e, 'p, 'r) schema \<Rightarrow> raw_edge_id \<Rightarrow> ('n, 'e) edge_id res" where
  "edge_of_raw S r =
     andthen (node_of_raw S (re_src r)) (\<lambda>src.
     andthen (node_of_raw S (re_dst r)) (\<lambda>dst.
     andthen (resolve_edge_kind S (re_handle r)) (\<lambda>k.
     andthen (resolve_edge_direction (re_handle r)) (\<lambda>d.
     Ok \<lparr>src_node = src, dst_node = dst, edge_id_kind = k, edge_id_dir = d,
         edge_id_seq = unat (eh_seq (re_handle r))\<rparr>))))"

section \<open>The laws of a schema\<close>

text \<open>
  What \<open>#[derive(NodeItemKind)]\<close> and its siblings generate: \<open>all()\<close> lists every kind once, in
  the order of its index, and \<open>from_index\<close> is the partial inverse of \<open>index\<close>. Kind counts fit
  a \<open>u32\<close>, and a registry index fits the \<open>u16\<close> of \<open>RawEnumId\<close>. Node property kinds never have
  the type \<open>None\<close> (the derive rejects it).
\<close>

definition kind_laws :: "'k list \<Rightarrow> ('k \<Rightarrow> nat) \<Rightarrow> (nat \<Rightarrow> 'k option) \<Rightarrow> bool" where
  "kind_laws ks ix fi \<longleftrightarrow>
     (\<forall>k. ix k < length ks \<and> ks ! ix k = k) \<and> (\<forall>i. i < length ks \<longrightarrow> ix (ks ! i) = i) \<and>
     (\<forall>i. fi i = get_at ks i) \<and> length ks \<le> u32_max"

locale schema_laws =
  fixes S :: "('n, 'e, 'p, 'r) schema"
  assumes node_kinds: "kind_laws (n_all S) (n_index S) (n_from_index S)"
    and edge_kinds: "kind_laws (e_all S) (e_index S) (e_from_index S)"
    and prop_kinds: "kind_laws (p_all S) (p_index S) (p_from_index S)"
    and enum_from_index: "r_from_index S i = get_at (r_all S) i"
    and prop_type_not_none: "p_property_type S pk \<noteq> TNone"

lemma kind_laws_less: "kind_laws ks ix fi \<Longrightarrow> ix k < length ks"
  unfolding kind_laws_def by blast

lemma kind_laws_nth: "kind_laws ks ix fi \<Longrightarrow> ks ! ix k = k"
  unfolding kind_laws_def by blast

lemma kind_laws_index: "kind_laws ks ix fi \<Longrightarrow> i < length ks \<Longrightarrow> ix (ks ! i) = i"
  unfolding kind_laws_def by blast

lemma kind_laws_mem: "kind_laws ks ix fi \<Longrightarrow> k \<in> set ks"
  by (metis kind_laws_less kind_laws_nth nth_mem)

lemma kind_laws_inj: "kind_laws ks ix fi \<Longrightarrow> ix a = ix b \<longleftrightarrow> a = b"
  by (metis kind_laws_nth)

lemma kind_laws_get_at: "kind_laws ks ix fi \<Longrightarrow> fi i = get_at ks i"
  unfolding kind_laws_def by blast

lemma kind_laws_from_index: "kind_laws ks ix fi \<Longrightarrow> fi i = Some k \<longleftrightarrow> i < length ks \<and> ix k = i"
  by (auto simp: kind_laws_get_at get_at_eq_Some kind_laws_nth kind_laws_index)

lemma kind_laws_from_index_None: "kind_laws ks ix fi \<Longrightarrow> fi i = None \<longleftrightarrow> length ks \<le> i"
  by (simp add: kind_laws_get_at)

lemma kind_laws_from_index_index: "kind_laws ks ix fi \<Longrightarrow> fi (ix k) = Some k"
  by (simp add: kind_laws_from_index kind_laws_less)

lemma kind_laws_map: "kind_laws ks ix fi \<Longrightarrow> map ix ks = [0..<length ks]"
  by (intro nth_equalityI) (simp_all add: kind_laws_index)

lemma kind_laws_distinct: "kind_laws ks ix fi \<Longrightarrow> distinct ks"
  by (rule distinct_map [THEN iffD1, THEN conjunct1, of ix]) (simp add: kind_laws_map)

lemma kind_laws_le_u32: "kind_laws ks ix fi \<Longrightarrow> ix k \<le> u32_max"
  by (rule order_trans [OF less_imp_le_nat [OF kind_laws_less]]) (auto simp: kind_laws_def)

lemma concat_concat_map:
  "concat (map f (concat (map g xs))) = concat (map (\<lambda>x. concat (map f (g x))) xs)"
  by (induction xs) simp_all

text \<open>Flattening a two-level index: block \<open>j\<close> of size \<open>n\<close> followed by the next one.\<close>

lemma concat_index_blocks:
  "concat (map (\<lambda>j. map (\<lambda>i. i + n * j) [0..<n]) [0..<m]) = [0..<n * m]"
proof (induction m)
  case (Suc m)
  have "[0..<n * Suc m] = [0..<n * m] @ [n * m..<n * m + n]"
    using upt_add_eq_append [of 0 "n * m" n] by (simp add: algebra_simps)
  moreover have "map (\<lambda>i. i + n * m) [0..<n] = [n * m..<n * m + n]"
    using map_add_upt [of "n * m" n] by (simp add: add.commute)
  ultimately show ?case using Suc.IH by simp
qed simp

context schema_laws
begin

lemmas node_laws [simp] = node_kinds [THEN kind_laws_less] node_kinds [THEN kind_laws_nth]
  node_kinds [THEN kind_laws_index] node_kinds [THEN kind_laws_from_index_index]
  node_kinds [THEN kind_laws_le_u32] node_kinds [THEN kind_laws_mem]

lemmas edge_laws [simp] = edge_kinds [THEN kind_laws_less] edge_kinds [THEN kind_laws_nth]
  edge_kinds [THEN kind_laws_index] edge_kinds [THEN kind_laws_from_index_index]
  edge_kinds [THEN kind_laws_le_u32] edge_kinds [THEN kind_laws_mem]

lemmas prop_laws [simp] = prop_kinds [THEN kind_laws_less] prop_kinds [THEN kind_laws_nth]
  prop_kinds [THEN kind_laws_index] prop_kinds [THEN kind_laws_from_index_index]
  prop_kinds [THEN kind_laws_mem]

lemma n_index_inj [simp]: "n_index S a = n_index S b \<longleftrightarrow> a = b"
  using kind_laws_inj [OF node_kinds] .

lemma e_index_inj [simp]: "e_index S a = e_index S b \<longleftrightarrow> a = b"
  using kind_laws_inj [OF edge_kinds] .

lemma p_index_inj [simp]: "p_index S a = p_index S b \<longleftrightarrow> a = b"
  using kind_laws_inj [OF prop_kinds] .

lemma node_index_less: "n_index S nk < number_of_node_kinds S"
  by (simp add: number_of_node_kinds_def)

lemma edge_slot_mem: "(nk, d, ek) \<in> set (edge_storage_slots S)"
  using node_laws(6) [of nk] edge_laws(6) [of ek]
  by (cases d) (auto simp: edge_storage_slots_def dir_values_def simp del: node_laws edge_laws)

lemma property_slot_mem: "(nk, pk) \<in> set (property_storage_slots S)"
  using node_laws(6) [of nk] prop_laws(5) [of pk]
  by (auto simp: property_storage_slots_def simp del: node_laws prop_laws)

text \<open>The iterators enumerate the slots of the flat arrays in order, each exactly once.\<close>

lemma property_slots_in_order:
  "map (\<lambda>(nk, pk). property_storage_slot S nk pk) (property_storage_slots S) =
     [0..<property_storage_size S]"
proof -
  let ?n = "number_of_node_kinds S"
  have "map (\<lambda>nk. property_storage_slot S nk pk) (n_all S) =
      map (\<lambda>i. i + ?n * p_index S pk) [0..<?n]" for pk
    by (intro nth_equalityI) (simp_all add: property_storage_slot_def number_of_node_kinds_def)
  then have "map (\<lambda>(nk, pk). property_storage_slot S nk pk) (property_storage_slots S) =
      concat (map (\<lambda>j. map (\<lambda>i. i + ?n * j) [0..<?n]) (map (p_index S) (p_all S)))"
    by (simp add: property_storage_slots_def map_concat comp_def)
  then show ?thesis
    by (simp only: kind_laws_map [OF prop_kinds] concat_index_blocks property_storage_size_def
        number_of_property_kinds_def)
qed

lemma edge_slots_in_order:
  "map (\<lambda>(nk, d, ek). edge_storage_slot S nk d ek) (edge_storage_slots S) =
     [0..<edge_storage_size S]"
proof -
  let ?n = "number_of_node_kinds S"
  have row: "map (\<lambda>nk. edge_storage_slot S nk d ek) (n_all S) =
      map (\<lambda>i. i + ?n * (dir_factor d + 2 * e_index S ek)) [0..<?n]" for d ek
    by (intro nth_equalityI) (simp_all add: edge_storage_slot_def number_of_node_kinds_def)
  have two: "[0..<2] = [0, 1 :: nat]"
    by (simp add: upt_rec)
  have kind: "map (\<lambda>(nk, d, ek). edge_storage_slot S nk d ek)
        (concat (map (\<lambda>d. map (\<lambda>nk. (nk, d, ek)) (n_all S)) dir_values)) =
      concat (map (\<lambda>j. map (\<lambda>i. i + ?n * j) [0..<?n]) (map (\<lambda>i. i + 2 * e_index S ek) [0..<2]))" for ek
    using row [of In ek] row [of Out ek] by (simp add: dir_values_def two comp_def)
  have "map (\<lambda>(nk, d, ek). edge_storage_slot S nk d ek) (edge_storage_slots S) =
      concat (map (\<lambda>j. map (\<lambda>i. i + ?n * j) [0..<?n])
        (concat (map (\<lambda>k. map (\<lambda>i. i + 2 * k) [0..<2]) (map (e_index S) (e_all S)))))"
  proof -
    have "map (\<lambda>(nk, d, ek). edge_storage_slot S nk d ek) (edge_storage_slots S) =
        concat (map (\<lambda>ek. map (\<lambda>(nk, d, ek). edge_storage_slot S nk d ek)
          (concat (map (\<lambda>d. map (\<lambda>nk. (nk, d, ek)) (n_all S)) dir_values))) (e_all S))"
      unfolding edge_storage_slots_def map_concat [of _ "map _ (e_all S)"] by (simp add: comp_def)
    also have "\<dots> = concat (map (\<lambda>ek. concat (map (\<lambda>j. map (\<lambda>i. i + ?n * j) [0..<?n])
          (map (\<lambda>i. i + 2 * e_index S ek) [0..<2]))) (e_all S))"
      by (simp only: kind)
    finally show ?thesis by (simp only: concat_concat_map map_map comp_def)
  qed
  then show ?thesis
    by (simp only: kind_laws_map [OF edge_kinds] concat_index_blocks)
      (simp add: edge_storage_size_def number_of_edge_kinds_def algebra_simps)
qed

lemma property_slot_less: "property_storage_slot S nk pk < property_storage_size S"
proof -
  have "(nk, pk) \<in> set (property_storage_slots S)"
    by (rule property_slot_mem)
  then have "property_storage_slot S nk pk \<in>
      set (map (\<lambda>(nk, pk). property_storage_slot S nk pk) (property_storage_slots S))"
    by force
  then show ?thesis by (simp only: property_slots_in_order) simp
qed

lemma edge_slot_less: "edge_storage_slot S nk d ek < edge_storage_size S"
proof -
  have "edge_storage_slot S nk d ek \<in>
      set (map (\<lambda>(nk, d, ek). edge_storage_slot S nk d ek) (edge_storage_slots S))"
    using edge_slot_mem [of nk d ek] by force
  then show ?thesis by (simp only: edge_slots_in_order) simp
qed

lemma property_slot_inj:
  assumes "property_storage_slot S nk pk = property_storage_slot S nk' pk'"
  shows "nk = nk' \<and> pk = pk'"
proof -
  have "distinct (map (\<lambda>(nk, pk). property_storage_slot S nk pk) (property_storage_slots S))"
    by (simp add: property_slots_in_order)
  then show ?thesis
    using assms property_slot_mem [of nk pk] property_slot_mem [of nk' pk']
    by (auto simp: distinct_map inj_on_def)
qed

lemma edge_slot_inj:
  assumes "edge_storage_slot S nk d ek = edge_storage_slot S nk' d' ek'"
  shows "nk = nk' \<and> d = d' \<and> ek = ek'"
proof -
  have "distinct (map (\<lambda>(nk, d, ek). edge_storage_slot S nk d ek) (edge_storage_slots S))"
    by (simp add: edge_slots_in_order)
  then show ?thesis
    using assms edge_slot_mem [of nk d ek] edge_slot_mem [of nk' d' ek']
    by (fastforce simp: distinct_map inj_on_def)
qed

lemma resolve_node_kind_Ok: "resolve_node_kind S r = Ok k \<longleftrightarrow> n_index S k = raw_kind r"
  using kind_laws_from_index [OF node_kinds, of "raw_kind r" k] node_laws(1) [of k]
  by (auto simp: resolve_node_kind_def simp del: node_laws)

lemma node_of_raw_Ok:
  "node_of_raw S r = Ok n \<longleftrightarrow> n_index S (nid_kind n) = raw_kind r \<and> nid_seq n = raw_seq r"
  by (cases n) (auto simp: node_of_raw_def andthen_eq_Ok resolve_node_kind_Ok)

lemma node_of_raw_cases:
  "(\<exists>n. node_of_raw S r = Ok n) \<or> node_of_raw S r = Err (UnresolvedNodeKind (raw_kind r))"
  by (cases "n_from_index S (raw_kind r)") (simp_all add: node_of_raw_def resolve_node_kind_def)

lemma raw_of_node_Ok:
  "raw_of_node S n = Ok r \<longleftrightarrow>
     nid_seq n \<le> u32_max \<and> raw_kind r = n_index S (nid_kind n) \<and> raw_seq r = nid_seq n"
  by (auto simp: raw_of_node_def raw_node_new_eq_Ok)

lemma node_raw_roundtrip: "node_of_raw S r = Ok n \<Longrightarrow> raw_of_node S n = Ok r"
  using raw_seq_le [of r] by (simp add: node_of_raw_Ok raw_of_node_Ok)

lemma raw_node_roundtrip: "raw_of_node S n = Ok r \<Longrightarrow> node_of_raw S r = Ok n"
  by (simp add: node_of_raw_Ok raw_of_node_Ok)

lemma edge_raw_roundtrip: "raw_of_edge S e = Ok r \<Longrightarrow> edge_of_raw S r = Ok e"
  by (auto simp: raw_of_edge_def edge_of_raw_def edge_handle_of_def edge_handle_new_def
      andthen_eq_Ok raw_node_roundtrip resolve_edge_kind_def resolve_edge_direction_def assert_def
      split: if_splits)

end

end
