(* ===== verification/Storage.thy ===== *)
theory Storage
  imports Schema
begin

text \<open>
  The flat storage of \<open>storage.rs\<close>: typed values and arrays of values, checked offsets, the slots of
  the edge and property arrays and the three storages. A signed integer is its two's-complement
  word, a float its IEEE-754 bit pattern, and a mutable method returns the array it leaves behind.
  \<open>sa_typ\<close> and \<open>sa_values\<close> together determine an array (\<open>sa_eqI\<close>); every operation is
  characterised on them once, and the later theories use only these characterisations.
\<close>

type_synonym i16 = "16 word"
type_synonym i32 = "32 word"
type_synonym i64 = "64 word"
type_synonym f32 = "32 word"
type_synonym f64 = "64 word"

section \<open>Slices\<close>

definition ranged_slice :: "'a list \<Rightarrow> nat \<Rightarrow> nat \<Rightarrow> 'a list res" where
  "ranged_slice v start fin =
     ok_or (PropertyIndexOutOfBounds start fin (length v)) (get_range v start fin)"

text \<open>\<open>Vec::insert\<close>, \<open>Vec::splice(at..at, v)\<close> and \<open>Vec::drain\<close>, which panic out of range.\<close>

definition vec_splice :: "'a list \<Rightarrow> nat \<Rightarrow> 'a list \<Rightarrow> 'a list res" where
  "vec_splice xs i ys = (if i \<le> length xs then Ok (take i xs @ ys @ drop i xs) else Panic)"

definition vec_insert :: "'a list \<Rightarrow> nat \<Rightarrow> 'a \<Rightarrow> 'a list res" where
  "vec_insert xs i y = vec_splice xs i [y]"

definition vec_drain :: "'a list \<Rightarrow> nat \<Rightarrow> nat \<Rightarrow> 'a list res" where
  "vec_drain xs a b = (if a \<le> b \<and> b \<le> length xs then Ok (take a xs @ drop b xs) else Panic)"

section \<open>Values\<close>

datatype stored_property =
  SBool (un_Bool: bool)
| SByte (un_Byte: u8)
| SShort (un_Short: i16)
| SInt (un_Int: i32)
| SLong (un_Long: i64)
| SFloat (un_Float: f32)
| SDouble (un_Double: f64)
| SNodeId (un_NodeId: raw_node_id)
| SStringId (un_StringId: raw_string_id)
| SEnum (un_Enum: raw_enum_id)

fun sp_typ :: "stored_property \<Rightarrow> property_type" where
  "sp_typ (SBool v) = TBool"
| "sp_typ (SByte v) = TByte"
| "sp_typ (SShort v) = TShort"
| "sp_typ (SInt v) = TInt"
| "sp_typ (SLong v) = TLong"
| "sp_typ (SFloat v) = TFloat"
| "sp_typ (SDouble v) = TDouble"
| "sp_typ (SNodeId v) = TNodeId"
| "sp_typ (SStringId v) = TString"
| "sp_typ (SEnum v) = TEnum"

datatype storage_array =
  ABool "bool list"
| AByte "u8 list"
| AShort "i16 list"
| AInt "i32 list"
| ALong "i64 list"
| AFloat "f32 list"
| ADouble "f64 list"
| ANodeId "raw_node_id list"
| AStringId "raw_string_id list"
| AEnum "raw_enum_id list"
| ANone

definition default_storage_array :: storage_array where
  "default_storage_array = ANone"

section \<open>Operations of \<open>StorageArray\<close>\<close>

fun sa_new :: "property_type \<Rightarrow> storage_array" where
  "sa_new TNone = ANone"
| "sa_new TBool = ABool []"
| "sa_new TByte = AByte []"
| "sa_new TShort = AShort []"
| "sa_new TInt = AInt []"
| "sa_new TLong = ALong []"
| "sa_new TFloat = AFloat []"
| "sa_new TDouble = ADouble []"
| "sa_new TNodeId = ANodeId []"
| "sa_new TString = AStringId []"
| "sa_new TEnum = AEnum []"

text \<open>The capacity is a hint to the allocator: it does not change the array.\<close>

fun sa_with_capacity :: "property_type \<Rightarrow> nat \<Rightarrow> storage_array" where
  "sa_with_capacity TNone capacity = ANone"
| "sa_with_capacity TBool capacity = ABool []"
| "sa_with_capacity TByte capacity = AByte []"
| "sa_with_capacity TShort capacity = AShort []"
| "sa_with_capacity TInt capacity = AInt []"
| "sa_with_capacity TLong capacity = ALong []"
| "sa_with_capacity TFloat capacity = AFloat []"
| "sa_with_capacity TDouble capacity = ADouble []"
| "sa_with_capacity TNodeId capacity = ANodeId []"
| "sa_with_capacity TString capacity = AStringId []"
| "sa_with_capacity TEnum capacity = AEnum []"

fun sa_typ :: "storage_array \<Rightarrow> property_type" where
  "sa_typ (ABool v) = TBool"
| "sa_typ (AByte v) = TByte"
| "sa_typ (AShort v) = TShort"
| "sa_typ (AInt v) = TInt"
| "sa_typ (ALong v) = TLong"
| "sa_typ (AFloat v) = TFloat"
| "sa_typ (ADouble v) = TDouble"
| "sa_typ (ANodeId v) = TNodeId"
| "sa_typ (AStringId v) = TString"
| "sa_typ (AEnum v) = TEnum"
| "sa_typ ANone = TNone"

fun sa_get :: "storage_array \<Rightarrow> nat \<Rightarrow> stored_property option" where
  "sa_get (ABool v) i = map_option SBool (get_at v i)"
| "sa_get (AByte v) i = map_option SByte (get_at v i)"
| "sa_get (AShort v) i = map_option SShort (get_at v i)"
| "sa_get (AInt v) i = map_option SInt (get_at v i)"
| "sa_get (ALong v) i = map_option SLong (get_at v i)"
| "sa_get (AFloat v) i = map_option SFloat (get_at v i)"
| "sa_get (ADouble v) i = map_option SDouble (get_at v i)"
| "sa_get (ANodeId v) i = map_option SNodeId (get_at v i)"
| "sa_get (AStringId v) i = map_option SStringId (get_at v i)"
| "sa_get (AEnum v) i = map_option SEnum (get_at v i)"
| "sa_get ANone i = None"

text \<open>The borrowed iterator: the part of the slice that is still to come.\<close>

datatype storage_array_iter =
  IBool "bool list"
| IByte "u8 list"
| IShort "i16 list"
| IInt "i32 list"
| ILong "i64 list"
| IFloat "f32 list"
| IDouble "f64 list"
| INodeId "raw_node_id list"
| IStringId "raw_string_id list"
| IEnum "raw_enum_id list"
| IEmpty

definition slice_or_empty :: "'a list \<Rightarrow> nat \<Rightarrow> nat \<Rightarrow> 'a list" where
  "slice_or_empty v a b = (case get_range v a b of Some s \<Rightarrow> s | None \<Rightarrow> [])"

fun sa_iter_range :: "storage_array \<Rightarrow> nat \<Rightarrow> nat \<Rightarrow> storage_array_iter" where
  "sa_iter_range (ABool v) a b = IBool (slice_or_empty v a b)"
| "sa_iter_range (AByte v) a b = IByte (slice_or_empty v a b)"
| "sa_iter_range (AShort v) a b = IShort (slice_or_empty v a b)"
| "sa_iter_range (AInt v) a b = IInt (slice_or_empty v a b)"
| "sa_iter_range (ALong v) a b = ILong (slice_or_empty v a b)"
| "sa_iter_range (AFloat v) a b = IFloat (slice_or_empty v a b)"
| "sa_iter_range (ADouble v) a b = IDouble (slice_or_empty v a b)"
| "sa_iter_range (ANodeId v) a b = INodeId (slice_or_empty v a b)"
| "sa_iter_range (AStringId v) a b = IStringId (slice_or_empty v a b)"
| "sa_iter_range (AEnum v) a b = IEnum (slice_or_empty v a b)"
| "sa_iter_range ANone a b = IEmpty"

fun slice_next :: "'a list \<Rightarrow> 'a option \<times> 'a list" where
  "slice_next [] = (None, [])"
| "slice_next (x # xs) = (Some x, xs)"

fun iter_next :: "storage_array_iter \<Rightarrow> stored_property option \<times> storage_array_iter" where
  "iter_next (IBool it) = map_prod (map_option SBool) IBool (slice_next it)"
| "iter_next (IByte it) = map_prod (map_option SByte) IByte (slice_next it)"
| "iter_next (IShort it) = map_prod (map_option SShort) IShort (slice_next it)"
| "iter_next (IInt it) = map_prod (map_option SInt) IInt (slice_next it)"
| "iter_next (ILong it) = map_prod (map_option SLong) ILong (slice_next it)"
| "iter_next (IFloat it) = map_prod (map_option SFloat) IFloat (slice_next it)"
| "iter_next (IDouble it) = map_prod (map_option SDouble) IDouble (slice_next it)"
| "iter_next (INodeId it) = map_prod (map_option SNodeId) INodeId (slice_next it)"
| "iter_next (IStringId it) = map_prod (map_option SStringId) IStringId (slice_next it)"
| "iter_next (IEnum it) = map_prod (map_option SEnum) IEnum (slice_next it)"
| "iter_next IEmpty = (None, IEmpty)"

text \<open>What a \<open>for\<close> loop over the iterator visits.\<close>

fun iter_items :: "storage_array_iter \<Rightarrow> stored_property list" where
  "iter_items (IBool it) = map SBool it"
| "iter_items (IByte it) = map SByte it"
| "iter_items (IShort it) = map SShort it"
| "iter_items (IInt it) = map SInt it"
| "iter_items (ILong it) = map SLong it"
| "iter_items (IFloat it) = map SFloat it"
| "iter_items (IDouble it) = map SDouble it"
| "iter_items (INodeId it) = map SNodeId it"
| "iter_items (IStringId it) = map SStringId it"
| "iter_items (IEnum it) = map SEnum it"
| "iter_items IEmpty = []"

definition sa_try_push :: "storage_array \<Rightarrow> stored_property \<Rightarrow> storage_array res" where
  "sa_try_push self value =
    (case (self, value) of
       (ABool s, SBool v) \<Rightarrow> Ok (ABool (s @ [v]))
     | (AByte s, SByte v) \<Rightarrow> Ok (AByte (s @ [v]))
     | (AShort s, SShort v) \<Rightarrow> Ok (AShort (s @ [v]))
     | (AInt s, SInt v) \<Rightarrow> Ok (AInt (s @ [v]))
     | (ALong s, SLong v) \<Rightarrow> Ok (ALong (s @ [v]))
     | (AFloat s, SFloat v) \<Rightarrow> Ok (AFloat (s @ [v]))
     | (ADouble s, SDouble v) \<Rightarrow> Ok (ADouble (s @ [v]))
     | (ANodeId s, SNodeId v) \<Rightarrow> Ok (ANodeId (s @ [v]))
     | (AStringId s, SStringId v) \<Rightarrow> Ok (AStringId (s @ [v]))
     | (AEnum s, SEnum v) \<Rightarrow> Ok (AEnum (s @ [v]))
     | _ \<Rightarrow> Err (invalid_property_type (sa_typ self) (sp_typ value)))"

text \<open>\<open>try_append\<close> moves the elements: it leaves \<open>other\<close> empty.\<close>

definition sa_try_append :: "storage_array \<Rightarrow> storage_array \<Rightarrow> (storage_array \<times> storage_array) res" where
  "sa_try_append self other =
    (case (self, other) of
       (ABool s, ABool v) \<Rightarrow> Ok (ABool (s @ v), ABool [])
     | (AByte s, AByte v) \<Rightarrow> Ok (AByte (s @ v), AByte [])
     | (AShort s, AShort v) \<Rightarrow> Ok (AShort (s @ v), AShort [])
     | (AInt s, AInt v) \<Rightarrow> Ok (AInt (s @ v), AInt [])
     | (ALong s, ALong v) \<Rightarrow> Ok (ALong (s @ v), ALong [])
     | (AFloat s, AFloat v) \<Rightarrow> Ok (AFloat (s @ v), AFloat [])
     | (ADouble s, ADouble v) \<Rightarrow> Ok (ADouble (s @ v), ADouble [])
     | (ANodeId s, ANodeId v) \<Rightarrow> Ok (ANodeId (s @ v), ANodeId [])
     | (AStringId s, AStringId v) \<Rightarrow> Ok (AStringId (s @ v), AStringId [])
     | (AEnum s, AEnum v) \<Rightarrow> Ok (AEnum (s @ v), AEnum [])
     | (ANone, ANone) \<Rightarrow> Ok (ANone, ANone)
     | _ \<Rightarrow> Err (invalid_property_type (sa_typ self) (sa_typ other)))"

definition sa_try_extend_from_range :: "storage_array \<Rightarrow> storage_array \<Rightarrow> nat \<Rightarrow> nat \<Rightarrow> storage_array res" where
  "sa_try_extend_from_range self src a b =
    (case (self, src) of
       (ABool s, ABool v) \<Rightarrow> andthen (ranged_slice v a b) (\<lambda>r. Ok (ABool (s @ r)))
     | (AByte s, AByte v) \<Rightarrow> andthen (ranged_slice v a b) (\<lambda>r. Ok (AByte (s @ r)))
     | (AShort s, AShort v) \<Rightarrow> andthen (ranged_slice v a b) (\<lambda>r. Ok (AShort (s @ r)))
     | (AInt s, AInt v) \<Rightarrow> andthen (ranged_slice v a b) (\<lambda>r. Ok (AInt (s @ r)))
     | (ALong s, ALong v) \<Rightarrow> andthen (ranged_slice v a b) (\<lambda>r. Ok (ALong (s @ r)))
     | (AFloat s, AFloat v) \<Rightarrow> andthen (ranged_slice v a b) (\<lambda>r. Ok (AFloat (s @ r)))
     | (ADouble s, ADouble v) \<Rightarrow> andthen (ranged_slice v a b) (\<lambda>r. Ok (ADouble (s @ r)))
     | (ANodeId s, ANodeId v) \<Rightarrow> andthen (ranged_slice v a b) (\<lambda>r. Ok (ANodeId (s @ r)))
     | (AStringId s, AStringId v) \<Rightarrow> andthen (ranged_slice v a b) (\<lambda>r. Ok (AStringId (s @ r)))
     | (AEnum s, AEnum v) \<Rightarrow> andthen (ranged_slice v a b) (\<lambda>r. Ok (AEnum (s @ r)))
     | (ANone, ANone) \<Rightarrow> Ok ANone
     | _ \<Rightarrow> Err (invalid_property_type (sa_typ self) (sa_typ src)))"

definition sa_try_splice :: "storage_array \<Rightarrow> nat \<Rightarrow> storage_array \<Rightarrow> storage_array res" where
  "sa_try_splice self at other =
    (case (self, other) of
       (ABool s, ABool v) \<Rightarrow> map_ok ABool (vec_splice s at v)
     | (AByte s, AByte v) \<Rightarrow> map_ok AByte (vec_splice s at v)
     | (AShort s, AShort v) \<Rightarrow> map_ok AShort (vec_splice s at v)
     | (AInt s, AInt v) \<Rightarrow> map_ok AInt (vec_splice s at v)
     | (ALong s, ALong v) \<Rightarrow> map_ok ALong (vec_splice s at v)
     | (AFloat s, AFloat v) \<Rightarrow> map_ok AFloat (vec_splice s at v)
     | (ADouble s, ADouble v) \<Rightarrow> map_ok ADouble (vec_splice s at v)
     | (ANodeId s, ANodeId v) \<Rightarrow> map_ok ANodeId (vec_splice s at v)
     | (AStringId s, AStringId v) \<Rightarrow> map_ok AStringId (vec_splice s at v)
     | (AEnum s, AEnum v) \<Rightarrow> map_ok AEnum (vec_splice s at v)
     | _ \<Rightarrow> Err (invalid_property_type (sa_typ self) (sa_typ other)))"

definition sa_try_insert :: "storage_array \<Rightarrow> nat \<Rightarrow> stored_property \<Rightarrow> storage_array res" where
  "sa_try_insert self i other =
    (case (self, other) of
       (ABool s, SBool v) \<Rightarrow> map_ok ABool (vec_insert s i v)
     | (AByte s, SByte v) \<Rightarrow> map_ok AByte (vec_insert s i v)
     | (AShort s, SShort v) \<Rightarrow> map_ok AShort (vec_insert s i v)
     | (AInt s, SInt v) \<Rightarrow> map_ok AInt (vec_insert s i v)
     | (ALong s, SLong v) \<Rightarrow> map_ok ALong (vec_insert s i v)
     | (AFloat s, SFloat v) \<Rightarrow> map_ok AFloat (vec_insert s i v)
     | (ADouble s, SDouble v) \<Rightarrow> map_ok ADouble (vec_insert s i v)
     | (ANodeId s, SNodeId v) \<Rightarrow> map_ok ANodeId (vec_insert s i v)
     | (AStringId s, SStringId v) \<Rightarrow> map_ok AStringId (vec_insert s i v)
     | (AEnum s, SEnum v) \<Rightarrow> map_ok AEnum (vec_insert s i v)
     | _ \<Rightarrow> Err (invalid_property_type (sa_typ self) (sp_typ other)))"

fun sa_try_drain :: "storage_array \<Rightarrow> nat \<Rightarrow> nat \<Rightarrow> storage_array res" where
  "sa_try_drain (ABool v) a b = map_ok ABool (vec_drain v a b)"
| "sa_try_drain (AByte v) a b = map_ok AByte (vec_drain v a b)"
| "sa_try_drain (AShort v) a b = map_ok AShort (vec_drain v a b)"
| "sa_try_drain (AInt v) a b = map_ok AInt (vec_drain v a b)"
| "sa_try_drain (ALong v) a b = map_ok ALong (vec_drain v a b)"
| "sa_try_drain (AFloat v) a b = map_ok AFloat (vec_drain v a b)"
| "sa_try_drain (ADouble v) a b = map_ok ADouble (vec_drain v a b)"
| "sa_try_drain (ANodeId v) a b = map_ok ANodeId (vec_drain v a b)"
| "sa_try_drain (AStringId v) a b = map_ok AStringId (vec_drain v a b)"
| "sa_try_drain (AEnum v) a b = map_ok AEnum (vec_drain v a b)"
| "sa_try_drain ANone a b = Ok ANone"

text \<open>An array of type \<open>None\<close> has length one, as in the code.\<close>

fun sa_len :: "storage_array \<Rightarrow> nat" where
  "sa_len (ABool v) = length v"
| "sa_len (AByte v) = length v"
| "sa_len (AShort v) = length v"
| "sa_len (AInt v) = length v"
| "sa_len (ALong v) = length v"
| "sa_len (AFloat v) = length v"
| "sa_len (ADouble v) = length v"
| "sa_len (ANodeId v) = length v"
| "sa_len (AStringId v) = length v"
| "sa_len (AEnum v) = length v"
| "sa_len ANone = 1"

definition sa_is_empty :: "storage_array \<Rightarrow> bool" where
  "sa_is_empty a \<longleftrightarrow> sa_len a = 0"

definition casting_error :: "storage_array \<Rightarrow> property_type \<Rightarrow> error" where
  "casting_error self target = invalid_property_type target (sa_typ self)"

text \<open>
  The typed views. A mutable view is a lens: the vector, and the array it writes back into. The
  owned conversion consumes the array and returns the vector.
\<close>

definition try_as_bool :: "storage_array \<Rightarrow> bool list res" where
  "try_as_bool self =
    (case self of
       ABool items \<Rightarrow> Ok items
     | _ \<Rightarrow> Err (casting_error self TBool))"

definition try_as_bool_mut :: "storage_array \<Rightarrow> (bool list \<times> (bool list \<Rightarrow> storage_array)) res" where
  "try_as_bool_mut self =
    (case self of
       ABool items \<Rightarrow> Ok (items, ABool)
     | _ \<Rightarrow> Err (casting_error self TBool))"

definition try_as_byte :: "storage_array \<Rightarrow> u8 list res" where
  "try_as_byte self =
    (case self of
       AByte items \<Rightarrow> Ok items
     | _ \<Rightarrow> Err (casting_error self TByte))"

definition try_as_byte_mut :: "storage_array \<Rightarrow> (u8 list \<times> (u8 list \<Rightarrow> storage_array)) res" where
  "try_as_byte_mut self =
    (case self of
       AByte items \<Rightarrow> Ok (items, AByte)
     | _ \<Rightarrow> Err (casting_error self TByte))"

definition try_as_short :: "storage_array \<Rightarrow> i16 list res" where
  "try_as_short self =
    (case self of
       AShort items \<Rightarrow> Ok items
     | _ \<Rightarrow> Err (casting_error self TShort))"

definition try_as_short_mut :: "storage_array \<Rightarrow> (i16 list \<times> (i16 list \<Rightarrow> storage_array)) res" where
  "try_as_short_mut self =
    (case self of
       AShort items \<Rightarrow> Ok (items, AShort)
     | _ \<Rightarrow> Err (casting_error self TShort))"

definition try_as_int :: "storage_array \<Rightarrow> i32 list res" where
  "try_as_int self =
    (case self of
       AInt items \<Rightarrow> Ok items
     | _ \<Rightarrow> Err (casting_error self TInt))"

definition try_as_int_mut :: "storage_array \<Rightarrow> (i32 list \<times> (i32 list \<Rightarrow> storage_array)) res" where
  "try_as_int_mut self =
    (case self of
       AInt items \<Rightarrow> Ok (items, AInt)
     | _ \<Rightarrow> Err (casting_error self TInt))"

definition try_as_long :: "storage_array \<Rightarrow> i64 list res" where
  "try_as_long self =
    (case self of
       ALong items \<Rightarrow> Ok items
     | _ \<Rightarrow> Err (casting_error self TLong))"

definition try_as_long_mut :: "storage_array \<Rightarrow> (i64 list \<times> (i64 list \<Rightarrow> storage_array)) res" where
  "try_as_long_mut self =
    (case self of
       ALong items \<Rightarrow> Ok (items, ALong)
     | _ \<Rightarrow> Err (casting_error self TLong))"

definition try_as_float :: "storage_array \<Rightarrow> f32 list res" where
  "try_as_float self =
    (case self of
       AFloat items \<Rightarrow> Ok items
     | _ \<Rightarrow> Err (casting_error self TFloat))"

definition try_as_float_mut :: "storage_array \<Rightarrow> (f32 list \<times> (f32 list \<Rightarrow> storage_array)) res" where
  "try_as_float_mut self =
    (case self of
       AFloat items \<Rightarrow> Ok (items, AFloat)
     | _ \<Rightarrow> Err (casting_error self TFloat))"

definition try_as_double :: "storage_array \<Rightarrow> f64 list res" where
  "try_as_double self =
    (case self of
       ADouble items \<Rightarrow> Ok items
     | _ \<Rightarrow> Err (casting_error self TDouble))"

definition try_as_double_mut :: "storage_array \<Rightarrow> (f64 list \<times> (f64 list \<Rightarrow> storage_array)) res" where
  "try_as_double_mut self =
    (case self of
       ADouble items \<Rightarrow> Ok (items, ADouble)
     | _ \<Rightarrow> Err (casting_error self TDouble))"

definition try_as_node_id :: "storage_array \<Rightarrow> raw_node_id list res" where
  "try_as_node_id self =
    (case self of
       ANodeId items \<Rightarrow> Ok items
     | _ \<Rightarrow> Err (casting_error self TNodeId))"

definition try_as_node_id_mut :: "storage_array \<Rightarrow> (raw_node_id list \<times> (raw_node_id list \<Rightarrow> storage_array)) res" where
  "try_as_node_id_mut self =
    (case self of
       ANodeId items \<Rightarrow> Ok (items, ANodeId)
     | _ \<Rightarrow> Err (casting_error self TNodeId))"

definition try_as_string :: "storage_array \<Rightarrow> raw_string_id list res" where
  "try_as_string self =
    (case self of
       AStringId items \<Rightarrow> Ok items
     | _ \<Rightarrow> Err (casting_error self TString))"

definition try_as_string_mut :: "storage_array \<Rightarrow> (raw_string_id list \<times> (raw_string_id list \<Rightarrow> storage_array)) res" where
  "try_as_string_mut self =
    (case self of
       AStringId items \<Rightarrow> Ok (items, AStringId)
     | _ \<Rightarrow> Err (casting_error self TString))"

definition try_as_enum :: "storage_array \<Rightarrow> raw_enum_id list res" where
  "try_as_enum self =
    (case self of
       AEnum items \<Rightarrow> Ok items
     | _ \<Rightarrow> Err (casting_error self TEnum))"

definition try_as_enum_mut :: "storage_array \<Rightarrow> (raw_enum_id list \<times> (raw_enum_id list \<Rightarrow> storage_array)) res" where
  "try_as_enum_mut self =
    (case self of
       AEnum items \<Rightarrow> Ok (items, AEnum)
     | _ \<Rightarrow> Err (casting_error self TEnum))"

definition try_into_bool :: "storage_array \<Rightarrow> bool list res" where
  "try_into_bool self =
    (case self of
       ABool items \<Rightarrow> Ok items
     | _ \<Rightarrow> Err (casting_error self TBool))"

definition try_into_byte :: "storage_array \<Rightarrow> u8 list res" where
  "try_into_byte self =
    (case self of
       AByte items \<Rightarrow> Ok items
     | _ \<Rightarrow> Err (casting_error self TByte))"

definition try_into_short :: "storage_array \<Rightarrow> i16 list res" where
  "try_into_short self =
    (case self of
       AShort items \<Rightarrow> Ok items
     | _ \<Rightarrow> Err (casting_error self TShort))"

definition try_into_int :: "storage_array \<Rightarrow> i32 list res" where
  "try_into_int self =
    (case self of
       AInt items \<Rightarrow> Ok items
     | _ \<Rightarrow> Err (casting_error self TInt))"

definition try_into_long :: "storage_array \<Rightarrow> i64 list res" where
  "try_into_long self =
    (case self of
       ALong items \<Rightarrow> Ok items
     | _ \<Rightarrow> Err (casting_error self TLong))"

definition try_into_float :: "storage_array \<Rightarrow> f32 list res" where
  "try_into_float self =
    (case self of
       AFloat items \<Rightarrow> Ok items
     | _ \<Rightarrow> Err (casting_error self TFloat))"

definition try_into_double :: "storage_array \<Rightarrow> f64 list res" where
  "try_into_double self =
    (case self of
       ADouble items \<Rightarrow> Ok items
     | _ \<Rightarrow> Err (casting_error self TDouble))"

definition try_into_node_id :: "storage_array \<Rightarrow> raw_node_id list res" where
  "try_into_node_id self =
    (case self of
       ANodeId items \<Rightarrow> Ok items
     | _ \<Rightarrow> Err (casting_error self TNodeId))"

definition try_into_string :: "storage_array \<Rightarrow> raw_string_id list res" where
  "try_into_string self =
    (case self of
       AStringId items \<Rightarrow> Ok items
     | _ \<Rightarrow> Err (casting_error self TString))"

definition try_into_enum :: "storage_array \<Rightarrow> raw_enum_id list res" where
  "try_into_enum self =
    (case self of
       AEnum items \<Rightarrow> Ok items
     | _ \<Rightarrow> Err (casting_error self TEnum))"

section \<open>Arrays as typed lists of values\<close>

fun sa_values :: "storage_array \<Rightarrow> stored_property list" where
  "sa_values (ABool v) = map SBool v"
| "sa_values (AByte v) = map SByte v"
| "sa_values (AShort v) = map SShort v"
| "sa_values (AInt v) = map SInt v"
| "sa_values (ALong v) = map SLong v"
| "sa_values (AFloat v) = map SFloat v"
| "sa_values (ADouble v) = map SDouble v"
| "sa_values (ANodeId v) = map SNodeId v"
| "sa_values (AStringId v) = map SStringId v"
| "sa_values (AEnum v) = map SEnum v"
| "sa_values ANone = []"

fun sa_of :: "property_type \<Rightarrow> stored_property list \<Rightarrow> storage_array" where
  "sa_of TBool vs = ABool (map un_Bool vs)"
| "sa_of TByte vs = AByte (map un_Byte vs)"
| "sa_of TShort vs = AShort (map un_Short vs)"
| "sa_of TInt vs = AInt (map un_Int vs)"
| "sa_of TLong vs = ALong (map un_Long vs)"
| "sa_of TFloat vs = AFloat (map un_Float vs)"
| "sa_of TDouble vs = ADouble (map un_Double vs)"
| "sa_of TNodeId vs = ANodeId (map un_NodeId vs)"
| "sa_of TString vs = AStringId (map un_StringId vs)"
| "sa_of TEnum vs = AEnum (map un_Enum vs)"
| "sa_of TNone vs = ANone"
lemma sa_new_typ [simp]: "sa_typ (sa_new t) = t" "sa_values (sa_new t) = []"
  by (cases t; simp)+

lemma sa_with_capacity_new [simp]: "sa_with_capacity t n = sa_new t"
  by (cases t) simp_all

lemma sa_values_typ: "v \<in> set (sa_values a) \<Longrightarrow> sp_typ v = sa_typ a"
  by (cases a) auto

lemma sa_values_TNone [simp]: "sa_typ a = TNone \<Longrightarrow> sa_values a = []"
  by (cases a) auto

lemma sa_typ_TNone: "sa_typ a = TNone \<longleftrightarrow> a = ANone"
  by (cases a) auto

lemma sp_typ_not_TNone [simp]: "sp_typ v \<noteq> TNone"
  by (cases v) simp_all

lemma sa_eqI: "sa_typ a = sa_typ b \<Longrightarrow> sa_values a = sa_values b \<Longrightarrow> a = b"
  by (cases a; cases b) (auto dest: map_injective simp: inj_on_def)

lemma sa_get_values: "sa_get a i = get_at (sa_values a) i"
  by (cases a) (auto simp: get_at_def)

lemma sa_len_values: "sa_typ a \<noteq> TNone \<Longrightarrow> sa_len a = length (sa_values a)"
  by (cases a) auto

lemma sa_len_TNone: "sa_typ a = TNone \<Longrightarrow> sa_len a = 1"
  by (cases a) auto

lemma map_slice_or_empty: "map f (slice_or_empty v a b) = slice_or_empty (map f v) a b"
  by (simp add: slice_or_empty_def get_range_map split: option.splits)

lemma sa_iter_range_items: "iter_items (sa_iter_range a i j) = slice_or_empty (sa_values a) i j"
  by (cases a) (simp_all add: map_slice_or_empty, simp add: slice_or_empty_def get_range_def)

lemma slice_or_empty_ok [simp]: "a \<le> b \<Longrightarrow> b \<le> length v \<Longrightarrow> slice_or_empty v a b = take (b - a) (drop a v)"
  by (simp add: slice_or_empty_def get_range_def)

lemma iter_items_next:
  "iter_items it = (case iter_next it of (None, _) \<Rightarrow> [] | (Some x, it') \<Rightarrow> x # iter_items it')"
proof -
  have list: "slice_next xs = (case xs of [] \<Rightarrow> (None, []) | y # ys \<Rightarrow> (Some y, ys))" for xs :: "'z list"
    by (cases xs) simp_all
  show ?thesis by (cases it) (simp_all add: list split: list.splits)
qed

text \<open>The array of a type holding given values of it.\<close>

lemma sa_of_id [simp]: "sa_of (sa_typ a) (sa_values a) = a"
  by (cases a) (simp_all add: comp_def)

lemma sa_of_typ [simp]: "sa_typ (sa_of t vs) = t"
  by (cases t) simp_all

definition typed :: "property_type \<Rightarrow> stored_property list \<Rightarrow> bool" where
  "typed t vs \<longleftrightarrow> (\<forall>v\<in>set vs. sp_typ v = t)"

lemma typed_simps [simp]:
  "typed t []" "typed t (v # vs) \<longleftrightarrow> sp_typ v = t \<and> typed t vs"
  "typed t (vs @ ws) \<longleftrightarrow> typed t vs \<and> typed t ws" "typed (sa_typ a) (sa_values a)"
  by (auto simp: typed_def sa_values_typ)

lemma typed_take_drop [simp]: "typed t vs \<Longrightarrow> typed t (take n vs)" "typed t vs \<Longrightarrow> typed t (drop n vs)"
  by (auto simp: typed_def dest: in_set_takeD in_set_dropD)

lemma typed_TNone [simp]: "typed TNone vs \<longleftrightarrow> vs = []"
  by (cases vs) (auto simp: typed_def)

lemma sa_of_values [simp]: "typed t vs \<Longrightarrow> sa_values (sa_of t vs) = vs"
proof (induction vs)
  case (Cons v vs)
  then show ?case by (cases t; cases v) simp_all
qed (cases t; simp)

lemma sa_of_Nil: "sa_of t [] = sa_new t"
  by (cases t) simp_all

text \<open>Every mutable operation, as an operation on the list of values.\<close>

lemma sa_try_push_values:
  "sa_try_push a v =
     (if sp_typ v = sa_typ a then Ok (sa_of (sa_typ a) (sa_values a @ [v]))
      else Err (invalid_property_type (sa_typ a) (sp_typ v)))"
  by (cases a; cases v) (simp_all add: sa_try_push_def comp_def)

lemma sa_try_append_values:
  "sa_try_append a b =
     (if sa_typ b = sa_typ a then Ok (sa_of (sa_typ a) (sa_values a @ sa_values b), sa_new (sa_typ a))
      else Err (invalid_property_type (sa_typ a) (sa_typ b)))"
  by (cases a; cases b) (simp_all add: sa_try_append_def comp_def)

lemma ranged_slice_cases:
  "ranged_slice v i j = (if i \<le> j \<and> j \<le> length v then Ok (take (j - i) (drop i v))
     else Err (PropertyIndexOutOfBounds i j (length v)))"
  by (simp add: ranged_slice_def get_range_def)

lemma sa_try_extend_from_range_values:
  "sa_try_extend_from_range a b i j =
     (if sa_typ b \<noteq> sa_typ a then Err (invalid_property_type (sa_typ a) (sa_typ b))
      else if sa_typ a = TNone then Ok a
      else andthen (ranged_slice (sa_values b) i j) (\<lambda>r. Ok (sa_of (sa_typ a) (sa_values a @ r))))"
  by (cases a; cases b)
    (simp_all add: sa_try_extend_from_range_def ranged_slice_cases comp_def take_map drop_map)

lemma sa_try_splice_values:
  "sa_try_splice a i b =
     (if sa_typ b = sa_typ a \<and> sa_typ a \<noteq> TNone
      then map_ok (sa_of (sa_typ a)) (vec_splice (sa_values a) i (sa_values b))
      else Err (invalid_property_type (sa_typ a) (sa_typ b)))"
  by (cases a; cases b) (simp_all add: sa_try_splice_def vec_splice_def comp_def take_map drop_map)

lemma sa_try_insert_values:
  "sa_try_insert a i v =
     (if sp_typ v = sa_typ a then map_ok (sa_of (sa_typ a)) (vec_insert (sa_values a) i v)
      else Err (invalid_property_type (sa_typ a) (sp_typ v)))"
  by (cases a; cases v)
    (simp_all add: sa_try_insert_def vec_insert_def vec_splice_def comp_def take_map drop_map)

lemma sa_try_drain_values:
  "sa_try_drain a i j =
     (if sa_typ a = TNone then Ok a else map_ok (sa_of (sa_typ a)) (vec_drain (sa_values a) i j))"
  by (cases a) (simp_all add: vec_drain_def comp_def take_map drop_map)

text \<open>The iterated push, as the loops of \<open>slots.rs\<close> run it.\<close>

lemma sa_pushes:
  assumes "typed (sa_typ a) vs"
  shows "for_each (\<lambda>v a. sa_try_push a v) vs a = Ok (sa_of (sa_typ a) (sa_values a @ vs))"
  using assms
proof (induction vs arbitrary: a)
  case (Cons v vs)
  have "sa_values (sa_of (sa_typ a) (sa_values a @ [v])) = sa_values a @ [v]"
    using Cons.prems by simp
  then show ?case using Cons by (simp add: sa_try_push_values)
qed simp

lemma sa_pushes_cases:
  "for_each (\<lambda>v a. sa_try_push a v) vs a =
     (case find (\<lambda>v. sp_typ v \<noteq> sa_typ a) vs of
        None \<Rightarrow> Ok (sa_of (sa_typ a) (sa_values a @ vs))
      | Some v \<Rightarrow> Err (invalid_property_type (sa_typ a) (sp_typ v)))"
proof (induction vs arbitrary: a)
  case (Cons v vs)
  then show ?case
    by (cases "sp_typ v = sa_typ a") (simp_all add: sa_try_push_values split: option.split)
qed simp

section \<open>Offsets\<close>

text \<open>\<open>Offset\<close> wraps \<open>InnerOffset = u32\<close>.\<close>

type_synonym offset = u32

definition offset_new :: "nat \<Rightarrow> offset res" where
  "offset_new value = ok_or (OffsetOverflow value) (u32_try_from value)"

definition offset_zero :: offset where
  "offset_zero = 0"

definition offset_value :: "offset \<Rightarrow> nat" where
  "offset_value s = unat s"

text \<open>\<open>u32::checked_sub\<close> and \<open>u32::checked_add\<close>.\<close>

definition u32_checked_sub :: "u32 \<Rightarrow> u32 \<Rightarrow> u32 option" where
  "u32_checked_sub a b = (if b \<le> a then Some (a - b) else None)"

definition u32_checked_add :: "u32 \<Rightarrow> u32 \<Rightarrow> u32 option" where
  "u32_checked_add a b = (if unat a + unat b \<le> u32_max then Some (a + b) else None)"

definition offset_checked_sub :: "offset \<Rightarrow> offset \<Rightarrow> nat res" where
  "offset_checked_sub s rhs = ok_or OffsetUnderflow (map_option unat (u32_checked_sub s rhs))"

definition offset_checked_add_delta :: "offset \<Rightarrow> nat \<Rightarrow> offset res" where
  "offset_checked_add_delta s delta =
     andthen (ok_or (OffsetOverflow delta) (u32_try_from delta)) (\<lambda>d.
     ok_or (OffsetOverflow (offset_value s + unat d)) (u32_checked_add s d))"

definition offset_checked_sub_delta :: "offset \<Rightarrow> nat \<Rightarrow> offset res" where
  "offset_checked_sub_delta s delta =
     andthen (ok_or OffsetUnderflow (u32_try_from delta)) (\<lambda>d.
     ok_or OffsetUnderflow (u32_checked_sub s d))"

lemma unat_offset_zero [simp]: "unat offset_zero = 0" "offset_value offset_zero = 0"
  by (simp_all add: offset_zero_def offset_value_def)

lemma unat_sub_u32: "(b :: u32) \<le> a \<Longrightarrow> unat (a - b) = unat a - unat b"
  by (simp add: unat_sub)

lemma unat_add_u32: "unat (a :: u32) + unat b \<le> u32_max \<Longrightarrow> unat (a + b) = unat a + unat b"
  by (simp add: u32_max_def unat_plus_if')

lemma of_nat_unat_u32 [simp]: "of_nat (unat (a :: u32)) = a"
  by simp

lemma offset_eqI: "offset_value a = offset_value b \<Longrightarrow> a = b"
  by (simp add: offset_value_def unsigned_word_eqI)

lemma offset_value_le [simp]: "offset_value a \<le> u32_max"
  by (simp add: offset_value_def)

lemma offset_value_of_nat [simp]: "n \<le> u32_max \<Longrightarrow> offset_value (of_nat n) = n"
  by (simp add: offset_value_def)

lemma of_nat_offset_value [simp]: "of_nat (offset_value a) = a"
  by (simp add: offset_value_def)

lemma offset_value_add [simp]:
  "m + n \<le> u32_max \<Longrightarrow> offset_value (of_nat m + of_nat n) = m + n"
  "offset_value a + n \<le> u32_max \<Longrightarrow> offset_value (a + of_nat n) = offset_value a + n"
  using offset_value_of_nat [of "m + n"] offset_value_of_nat [of "offset_value a + n"] by simp_all

lemma offset_le_value: "a \<le> b \<longleftrightarrow> offset_value a \<le> offset_value b"
  by (simp add: offset_value_def word_le_nat_alt)

lemma offset_less_value: "a < b \<longleftrightarrow> offset_value a < offset_value b"
  by (simp add: offset_value_def word_less_nat_alt)

text \<open>The arithmetic on offsets is the arithmetic of the natural numbers, or an error.\<close>

lemma offset_new_cases:
  "offset_new n = (if n \<le> u32_max then Ok (of_nat n) else Err (OffsetOverflow n))"
  by (simp add: offset_new_def u32_try_from_def)

lemma offset_checked_sub_cases:
  "offset_checked_sub a b =
     (if offset_value b \<le> offset_value a then Ok (offset_value a - offset_value b) else Err OffsetUnderflow)"
  by (simp add: offset_checked_sub_def u32_checked_sub_def offset_value_def word_le_nat_alt unat_sub_u32)

lemma offset_checked_add_delta_cases:
  "offset_checked_add_delta a n =
     (if n > u32_max then Err (OffsetOverflow n)
      else if offset_value a + n \<le> u32_max then Ok (of_nat (offset_value a + n))
      else Err (OffsetOverflow (offset_value a + n)))"
  by (simp add: offset_checked_add_delta_def u32_checked_add_def u32_try_from_def offset_value_def)

lemma offset_checked_sub_delta_cases:
  "offset_checked_sub_delta a n =
     (if n \<le> offset_value a then Ok (of_nat (offset_value a - n)) else Err OffsetUnderflow)"
proof (cases "n \<le> u32_max")
  case True
  have "a - of_nat n = of_nat (unat a - n)" if "n \<le> unat a"
    using that by (metis of_nat_diff of_nat_unat_u32)
  then show ?thesis
    using True by (simp add: offset_checked_sub_delta_def u32_checked_sub_def u32_try_from_def
        offset_value_def word_le_nat_alt)
next
  case False
  have "\<not> n \<le> offset_value a" using False offset_value_le [of a] by linarith
  then show ?thesis using False by (simp add: offset_checked_sub_delta_def u32_try_from_def)
qed

end
