(* ===== verification/Csr.thy ===== *)
theory Csr
  imports Storage
begin

text \<open>
  The compressed-sparse-row abstraction. An array and its offsets stand for a list of rows, one
  per node: the offsets are the prefix sums of the row lengths, the array is the rows put one
  after another. \<open>csr\<close> is that relation. Each lemma on it says once what a piece of offset
  arithmetic in \<open>storage.rs\<close>, \<open>slots.rs\<close> or \<open>integrity.rs\<close> means for the rows.
\<close>

section \<open>Prefix sums\<close>

fun psums :: "nat \<Rightarrow> nat list \<Rightarrow> nat list" where
  "psums a [] = [a]"
| "psums a (l # ls) = a # psums (a + l) ls"

lemma length_psums [simp]: "length (psums a ls) = Suc (length ls)"
  by (induction ls arbitrary: a) auto

lemma psums_not_Nil [simp]: "psums a ls \<noteq> []"
  by (cases ls) auto

lemma psums_not_Nil' [simp]: "[] \<noteq> psums a ls"
  by (cases ls) auto

lemma hd_psums [simp]: "hd (psums a ls) = a" "psums a ls ! 0 = a"
  by (cases ls; simp)+

lemma last_psums [simp]: "last (psums a ls) = a + sum_list ls"
  by (induction ls arbitrary: a) auto

lemma nth_psums: "i \<le> length ls \<Longrightarrow> psums a ls ! i = a + sum_list (take i ls)"
proof (induction ls arbitrary: a i)
  case (Cons l ls)
  then show ?case by (cases i) auto
qed simp

lemma psums_append: "psums a (xs @ ys) = psums a xs @ tl (psums (a + sum_list xs) ys)"
proof (induction xs arbitrary: a)
  case Nil
  then show ?case by (cases ys) auto
next
  case (Cons x xs)
  then show ?case by (simp add: add.assoc)
qed

lemma psums_snoc: "psums a (xs @ [y]) = psums a xs @ [a + sum_list xs + y]"
  by (simp add: psums_append)

lemma psums_replicate_0 [simp]: "psums a (replicate n 0) = replicate (Suc n) a"
  by (induction n) auto

lemma psums_le: "x \<in> set (psums a ls) \<Longrightarrow> x \<le> a + sum_list ls"
  by (induction ls arbitrary: a) (fastforce simp: add.assoc)+

lemma psums_inject: "psums a xs = psums a ys \<longleftrightarrow> xs = ys"
proof (induction xs arbitrary: a ys)
  case Nil
  then show ?case by (cases ys) auto
next
  case (Cons x xs)
  show ?case
  proof (cases ys)
    case (Cons y zs)
    have "x = y" if "psums (a + x) xs = psums (a + y) zs"
      using arg_cong [OF that, of hd] by simp
    then show ?thesis using Cons Cons.IH by auto
  qed simp
qed

lemma windows2_psums:
  "windows2 (psums a ls) = map (\<lambda>i. (a + sum_list (take i ls), a + sum_list (take (Suc i) ls))) [0..<length ls]"
  by (intro nth_equalityI) (simp_all add: nth_windows2 nth_psums)

text \<open>A non-decreasing list is a list of prefix sums.\<close>

lemma sorted_psums:
  assumes "xs \<noteq> []" and "\<And>x y. (x, y) \<in> set (windows2 xs) \<Longrightarrow> x \<le> y"
  shows "\<exists>ls. xs = psums (hd xs) ls"
  using assms
proof (induction xs rule: induct_list012)
  case (3 x y ys)
  then obtain ls where ls: "y # ys = psums y ls" by auto
  have "x \<le> y" using 3 by simp
  then have "x # y # ys = psums x ((y - x) # ls)" using ls by simp
  then show ?case by (metis list.sel(1))
next
  case (2 x)
  show ?case by (rule exI [of _ "[]"]) simp
qed simp

section \<open>Rows\<close>

definition csr :: "offset list \<Rightarrow> 'a list \<Rightarrow> 'a list list \<Rightarrow> bool" where
  "csr offs xs rows \<longleftrightarrow> map offset_value offs = psums 0 (map length rows) \<and> xs = concat rows"

text \<open>The rows an offset array cuts an array into, and the offsets of given rows.\<close>

definition csr_rows :: "offset list \<Rightarrow> 'a list \<Rightarrow> 'a list list" where
  "csr_rows offs xs = map (\<lambda>(a, b). slice_or_empty xs (offset_value a) (offset_value b)) (windows2 offs)"

definition csr_offsets :: "'a list list \<Rightarrow> offset list" where
  "csr_offsets rows = map of_nat (psums 0 (map length rows))"

text \<open>The declarative form of the two offset checks of \<open>integrity.rs\<close>.\<close>

definition csr_ok :: "offset list \<Rightarrow> nat \<Rightarrow> nat \<Rightarrow> bool" where
  "csr_ok offs n len \<longleftrightarrow> length offs = n + 1 \<and> offset_value (hd offs) = 0 \<and>
     (\<forall>(a, b)\<in>set (windows2 offs). a \<le> b) \<and> offset_value (last offs) = len"

lemma windows2_map: "windows2 (map f xs) = map (map_prod f f) (windows2 xs)"
  by (induction xs rule: windows2.induct) auto

lemma csr_length: "csr offs xs rows \<Longrightarrow> length offs = Suc (length rows)"
  unfolding csr_def by (metis length_map length_psums)

lemma csr_concat: "csr offs xs rows \<Longrightarrow> xs = concat rows"
  by (simp add: csr_def)

lemma csr_bound: "csr offs xs rows \<Longrightarrow> length xs \<le> u32_max"
proof -
  assume csr: "csr offs xs rows"
  then have "offs \<noteq> []" using csr_length by fastforce
  then have "offset_value (last offs) = last (psums 0 (map length rows))"
    using csr by (metis csr_def last_map)
  then show ?thesis using csr offset_value_le [of "last offs"] by (simp add: csr_def length_concat)
qed

lemma csr_nth: "csr offs xs rows \<Longrightarrow> i \<le> length rows \<Longrightarrow>
    offset_value (offs ! i) = sum_list (map length (take i rows))"
proof -
  assume csr: "csr offs xs rows" and i: "i \<le> length rows"
  then have "i < length offs" using csr_length [OF csr] by simp
  then have "offset_value (offs ! i) = psums 0 (map length rows) ! i"
    using csr by (metis csr_def nth_map)
  then show ?thesis using i by (simp add: nth_psums take_map)
qed

lemma csr_last: "csr offs xs rows \<Longrightarrow> offset_value (last offs) = length xs"
  using csr_nth [of offs xs rows "length rows"] csr_length [of offs xs rows]
  by (subst last_conv_nth) (auto simp: csr_def length_concat)

lemma csr_offsets_id: "csr offs xs rows \<Longrightarrow> offs = csr_offsets rows"
proof -
  assume csr: "csr offs xs rows"
  have "offs = map (of_nat \<circ> offset_value) offs"
    by (simp add: comp_def)
  also have "\<dots> = map of_nat (map offset_value offs)"
    by simp
  also have "\<dots> = csr_offsets rows"
    using csr by (simp add: csr_def csr_offsets_def)
  finally show ?thesis .
qed

lemma csr_encode:
  assumes "length (concat rows) \<le> u32_max"
  shows "csr (csr_offsets rows) (concat rows) rows"
proof -
  have "offset_value (of_nat x) = x" if "x \<in> set (psums 0 (map length rows))" for x
    using psums_le [OF that] assms by (intro offset_value_of_nat) (simp add: length_concat)
  then show ?thesis by (simp add: csr_def csr_offsets_def map_idI)
qed

lemma csr_unique: "csr offs xs rows \<Longrightarrow> csr offs xs rows' \<Longrightarrow> rows = rows'"
proof -
  assume "csr offs xs rows" and "csr offs xs rows'"
  then have "map length rows = map length rows'" and "concat rows = concat rows'"
    by (simp_all add: csr_def psums_inject)
  then show ?thesis
  proof (induction rows arbitrary: rows')
    case (Cons r rows)
    then show ?case by (cases rows') auto
  qed simp
qed

lemma take_drop_concat:
  "i < length rows \<Longrightarrow>
     take (length (rows ! i)) (drop (sum_list (map length (take i rows))) (concat rows)) = rows ! i"
proof (induction rows arbitrary: i)
  case (Cons r rows)
  then show ?case by (cases i) auto
qed simp

lemma sum_take_Suc:
  "i < length rows \<Longrightarrow> sum_list (map length (take (Suc i) rows)) =
     sum_list (map length (take i rows)) + length (rows ! i)"
  by (simp add: take_Suc_conv_app_nth)

lemma sum_take_le: "sum_list (map length (take i rows)) \<le> length (concat rows)"
proof -
  have "length (concat rows) = sum_list (map length (take i rows)) + sum_list (map length (drop i rows))"
    by (metis append_take_drop_id length_concat map_append sum_list_append)
  then show ?thesis by simp
qed

lemma csr_row:
  assumes "csr offs xs rows" and "i < length rows"
  shows "offset_value (offs ! i) \<le> offset_value (offs ! Suc i)"
    and "offset_value (offs ! Suc i) \<le> length xs"
    and "offset_value (offs ! Suc i) - offset_value (offs ! i) = length (rows ! i)"
    and "slice_or_empty xs (offset_value (offs ! i)) (offset_value (offs ! Suc i)) = rows ! i"
    and "j < length (rows ! i) \<Longrightarrow> xs ! (offset_value (offs ! i) + j) = rows ! i ! j"
proof -
  have a: "offset_value (offs ! i) = sum_list (map length (take i rows))"
    and b: "offset_value (offs ! Suc i) = sum_list (map length (take i rows)) + length (rows ! i)"
    using csr_nth [OF assms(1)] assms(2) by (simp_all add: sum_take_Suc)
  have xs: "xs = concat rows" using assms(1) by (rule csr_concat)
  show le: "offset_value (offs ! i) \<le> offset_value (offs ! Suc i)"
    and "offset_value (offs ! Suc i) - offset_value (offs ! i) = length (rows ! i)"
    using a b by simp_all
  show len: "offset_value (offs ! Suc i) \<le> length xs"
    using sum_take_le [of "Suc i" rows] assms(2) b by (simp add: xs sum_take_Suc)
  show "slice_or_empty xs (offset_value (offs ! i)) (offset_value (offs ! Suc i)) = rows ! i"
    using le len take_drop_concat [OF assms(2)] by (simp add: a b xs)
  show "xs ! (offset_value (offs ! i) + j) = rows ! i ! j" if "j < length (rows ! i)"
  proof -
    have "rows ! i ! j = take (length (rows ! i)) (drop (offset_value (offs ! i)) xs) ! j"
      using take_drop_concat [OF assms(2)] by (simp add: a xs)
    then show ?thesis using that len le by (simp add: b a)
  qed
qed

lemma csr_decode:
  assumes csr: "csr offs xs rows"
  shows "csr_rows offs xs = rows"
proof (rule nth_equalityI)
  show len: "length (csr_rows offs xs) = length rows"
    using csr_length [OF csr] by (simp add: csr_rows_def)
  fix i assume "i < length (csr_rows offs xs)"
  then show "csr_rows offs xs ! i = rows ! i"
    using len csr_row(4) [OF csr, of i] csr_length [OF csr]
    by (simp add: csr_rows_def nth_windows2)
qed

lemma csr_ok_iff: "csr_ok offs n (length xs) \<longleftrightarrow> (\<exists>rows. csr offs xs rows \<and> length rows = n)"
proof
  assume ok: "csr_ok offs n (length xs)"
  then have ne: "offs \<noteq> []" by (auto simp: csr_ok_def)
  have "\<exists>ls. map offset_value offs = psums (hd (map offset_value offs)) ls"
    using ok ne by (intro sorted_psums) (auto simp: csr_ok_def windows2_map offset_le_value)
  then obtain ls where ls: "map offset_value offs = psums 0 ls"
    using ok ne by (auto simp: csr_ok_def hd_map)
  have n: "length ls = n"
    using arg_cong [OF ls, of length] ok by (simp add: csr_ok_def)
  have sum: "sum_list ls = length xs"
    using arg_cong [OF ls, of last] ok ne by (simp add: csr_ok_def last_map)
  have "\<exists>rows. map length rows = ls \<and> concat rows = xs" using sum
  proof (induction ls arbitrary: xs)
    case (Cons l ls)
    then have "\<exists>rows. map length rows = ls \<and> concat rows = drop l xs" by simp
    then obtain rows where "map length rows = ls" and "concat rows = drop l xs" by blast
    then have "map length (take l xs # rows) = l # ls \<and> concat (take l xs # rows) = xs"
      using Cons.prems by simp
    then show ?case by (intro exI)
  qed simp
  then show "\<exists>rows. csr offs xs rows \<and> length rows = n"
    using ls n by (auto simp: csr_def)
next
  assume "\<exists>rows. csr offs xs rows \<and> length rows = n"
  then obtain rows where csr: "csr offs xs rows" and n: "length rows = n" by blast
  have "a \<le> b" if ab: "(a, b) \<in> set (windows2 offs)" for a b
  proof -
    obtain i where i: "Suc i < length offs" "a = offs ! i" "b = offs ! Suc i"
      using ab by (auto simp: set_windows2)
    then show ?thesis
      using csr_row(1) [OF csr, of i] csr_length [OF csr] by (simp add: offset_le_value)
  qed
  then show "csr_ok offs n (length xs)"
    using csr_nth [OF csr, of 0] csr_length [OF csr] csr_last [OF csr] n
    by (cases offs) (auto simp: csr_ok_def)
qed

text \<open>
  What the builder does to offsets, on rows: a tail of offsets appends rows, a replaced array is
  the array of the new rows.
\<close>

lemma csr_append:
  assumes "csr offs xs rows" and "map offset_value tail = tl (psums (length xs) (map length rows'))"
  shows "csr (offs @ tail) (xs @ concat rows') (rows @ rows')"
  using assms by (simp add: csr_def psums_append length_concat)

lemma csr_last_nth: "csr offs xs rows \<Longrightarrow> offs ! length rows = last offs"
  using csr_length [of offs xs rows] by (cases offs rule: rev_cases) (auto simp: nth_append)

lemma csr_empty: "csr (replicate (Suc n) offset_zero) [] (replicate n [])"
  by (simp add: csr_def)

text \<open>Prefix sums of plain lengths.\<close>

lemma sum_take_add_le: "i < length cs \<Longrightarrow> sum_list (take i cs) + cs ! i \<le> sum_list (cs :: nat list)"
  using arg_cong [OF append_take_drop_id [of "Suc i" cs], of sum_list]
  by (simp add: take_Suc_conv_app_nth)

lemma sum_take_mono: "i \<le> j \<Longrightarrow> sum_list (take i cs) \<le> sum_list (take j (cs :: nat list))"
proof -
  assume "i \<le> j"
  then have "take j cs = take i cs @ take (j - i) (drop i cs)"
    by (metis le_add_diff_inverse take_add)
  then show ?thesis by simp
qed

end
