(* ===== verification/Simple_Schema.thy ===== *)
theory Simple_Schema
  imports Schema
begin

text \<open>
  The schema of \<open>examples/simple_graph.rs\<close>, the running example of the README: three node kinds,
  six property kinds, two edge kinds and one registered enum. It interprets \<open>schema_laws\<close> and is
  the schema of every witness of the development.
\<close>

datatype status = Active | Inactive | Banned

datatype simple_prop_enums_registry = RegStatus

datatype simple_property = Key | Values | Count | Ref | State | Tag

datatype simple_node = Alpha | Beta | Gamma

datatype simple_edge = Base | Extended

fun simple_property_index :: "simple_property \<Rightarrow> nat" where
  "simple_property_index Key = 0"
| "simple_property_index Values = 1"
| "simple_property_index Count = 2"
| "simple_property_index Ref = 3"
| "simple_property_index State = 4"
| "simple_property_index Tag = 5"

fun simple_node_index :: "simple_node \<Rightarrow> nat" where
  "simple_node_index Alpha = 0"
| "simple_node_index Beta = 1"
| "simple_node_index Gamma = 2"

fun simple_edge_index :: "simple_edge \<Rightarrow> nat" where
  "simple_edge_index Base = 0"
| "simple_edge_index Extended = 1"

definition simple_schema ::
  "(simple_node, simple_edge, simple_property, simple_prop_enums_registry) schema" where
  "simple_schema =
    \<lparr>s_name = ''SimpleSchema'',
     s_version = \<lparr>major = 1, minor = 0, patch = 0\<rparr>,
     n_all = [Alpha, Beta, Gamma],
     n_index = simple_node_index,
     n_from_index = (\<lambda>i. if i = 0 then Some Alpha else if i = 1 then Some Beta
       else if i = 2 then Some Gamma else None),
     n_str = (\<lambda>n. case n of Alpha \<Rightarrow> ''Alpha'' | Beta \<Rightarrow> ''Beta'' | Gamma \<Rightarrow> ''Gamma''),
     n_properties = (\<lambda>n. case n of Alpha \<Rightarrow> [Key, Values] | Beta \<Rightarrow> [Count] | Gamma \<Rightarrow> [Ref, State]),
     e_all = [Base, Extended],
     e_index = simple_edge_index,
     e_from_index = (\<lambda>i. if i = 0 then Some Base else if i = 1 then Some Extended else None),
     e_str = (\<lambda>e. case e of Base \<Rightarrow> ''Base'' | Extended \<Rightarrow> ''Extended''),
     e_property_type = (\<lambda>e. case e of Base \<Rightarrow> TNone | Extended \<Rightarrow> TString),
     e_enum_index = (\<lambda>_. None),
     p_all = [Key, Values, Count, Ref, State, Tag],
     p_index = simple_property_index,
     p_from_index = (\<lambda>i. if i = 0 then Some Key else if i = 1 then Some Values
       else if i = 2 then Some Count else if i = 3 then Some Ref else if i = 4 then Some State
       else if i = 5 then Some Tag else None),
     p_str = (\<lambda>p. case p of Key \<Rightarrow> ''Key'' | Values \<Rightarrow> ''Values'' | Count \<Rightarrow> ''Count''
       | Ref \<Rightarrow> ''Ref'' | State \<Rightarrow> ''State'' | Tag \<Rightarrow> ''Label''),
     p_property_type = (\<lambda>p. case p of Key \<Rightarrow> TString | Values \<Rightarrow> TString | Count \<Rightarrow> TInt
       | Ref \<Rightarrow> TNodeId | State \<Rightarrow> TEnum | Tag \<Rightarrow> TString),
     p_quantity = (\<lambda>p. case p of Values \<Rightarrow> Multi | _ \<Rightarrow> One),
     p_enum_index = (\<lambda>p. case p of State \<Rightarrow> Some 0 | _ \<Rightarrow> None),
     r_all = [RegStatus],
     r_from_index = (\<lambda>i. if i = 0 then Some RegStatus else None),
     r_str = (\<lambda>_. ''Status''),
     r_variant_count = (\<lambda>_. 3)\<rparr>"

lemma simple_schema_simps [simp]:
  "n_all simple_schema = [Alpha, Beta, Gamma]"
  "n_index simple_schema = simple_node_index"
  "e_all simple_schema = [Base, Extended]"
  "e_index simple_schema = simple_edge_index"
  "p_all simple_schema = [Key, Values, Count, Ref, State, Tag]"
  "p_index simple_schema = simple_property_index"
  by (simp_all add: simple_schema_def)

lemma simple_node_laws:
  "kind_laws (n_all simple_schema) (n_index simple_schema) (n_from_index simple_schema)"
  unfolding kind_laws_def
proof (intro conjI allI)
  fix k show "n_index simple_schema k < length (n_all simple_schema)"
    and "n_all simple_schema ! n_index simple_schema k = k"
    by (cases k; simp)+
qed (auto simp: simple_schema_def get_at_def u32_max_def less_Suc_eq nth_Cons')

lemma simple_edge_laws:
  "kind_laws (e_all simple_schema) (e_index simple_schema) (e_from_index simple_schema)"
  unfolding kind_laws_def
proof (intro conjI allI)
  fix k show "e_index simple_schema k < length (e_all simple_schema)"
    and "e_all simple_schema ! e_index simple_schema k = k"
    by (cases k; simp)+
qed (auto simp: simple_schema_def get_at_def u32_max_def less_Suc_eq nth_Cons')

lemma simple_prop_laws:
  "kind_laws (p_all simple_schema) (p_index simple_schema) (p_from_index simple_schema)"
  unfolding kind_laws_def
proof (intro conjI allI)
  fix k show "p_index simple_schema k < length (p_all simple_schema)"
    and "p_all simple_schema ! p_index simple_schema k = k"
    by (cases k; simp)+
qed (auto simp: simple_schema_def get_at_def u32_max_def less_Suc_eq nth_Cons')

lemma simple_schema_laws: "schema_laws simple_schema"
proof (unfold_locales, rule simple_node_laws, rule simple_edge_laws, rule simple_prop_laws)
  show "r_from_index simple_schema i = get_at (r_all simple_schema) i" for i
    by (simp add: simple_schema_def get_at_def)
  show "p_property_type simple_schema pk \<noteq> TNone" for pk
    by (cases pk) (simp_all add: simple_schema_def)
qed

interpretation simple: schema_laws simple_schema
  by (rule simple_schema_laws)

text \<open>The derived \<open>Ord\<close> of the property kinds, which orders the \<open>BTreeMap\<close> of a new node.\<close>

instantiation simple_property :: linorder
begin

definition less_eq_simple_property :: "simple_property \<Rightarrow> simple_property \<Rightarrow> bool" where
  "less_eq_simple_property a b \<longleftrightarrow> simple_property_index a \<le> simple_property_index b"

definition less_simple_property :: "simple_property \<Rightarrow> simple_property \<Rightarrow> bool" where
  "less_simple_property a b \<longleftrightarrow> simple_property_index a < simple_property_index b"

instance
proof
  fix a b :: simple_property
  assume "a \<le> b" and "b \<le> a"
  then have "simple_property_index a = simple_property_index b"
    unfolding less_eq_simple_property_def by (rule le_antisym)
  then show "a = b" by (cases a; cases b) simp_all
qed (auto simp: less_eq_simple_property_def less_simple_property_def)

end

text \<open>The slots of the two flat arrays of \<open>SimpleSchema\<close>.\<close>

lemma simple_sizes [simp]:
  "number_of_node_kinds simple_schema = 3"
  "number_of_edge_kinds simple_schema = 2"
  "number_of_property_kinds simple_schema = 6"
  "edge_storage_size simple_schema = 12"
  "property_storage_size simple_schema = 18"
  by (simp_all add: number_of_node_kinds_def number_of_edge_kinds_def number_of_property_kinds_def
      edge_storage_size_def property_storage_size_def)

end
