(* ===== verification/Strings_Pool.thy ===== *)
theory Strings_Pool
  imports Simple_Schema "HOL-Library.Sublist"
begin

text \<open>
  The string interner of \<open>strings_pool.rs\<close>: the FxHash construction on 64-bit words, the
  open-addressing lookup table with one-byte tags and linear probing, \<open>intern\<close>, \<open>get\<close>, \<open>find\<close>,
  \<open>truncate\<close> and \<open>rebuild_lookup\<close>. A Rust string is its UTF-8 bytes. The two probing loops are
  \<open>partial_function (option)\<close>: that they end is a theorem, from the invariant that the table
  is less than half full. \<open>get_unchecked\<close> out of range is modelled as a panic, so that the
  theorem that nothing panics covers the safety comment of \<open>slice\<close>.
\<close>

unbundle bit_operations_syntax

section \<open>Hashing\<close>

definition hash_multiplier :: u64 where
  "hash_multiplier = 0x517cc1b727220a95"

definition min_lookup_slots :: nat where
  "min_lookup_slots = 16"

definition mix :: "u64 \<Rightarrow> u64 \<Rightarrow> u64" where
  "mix hash word = (word_rotl 5 hash XOR word) * hash_multiplier"

text \<open>\<open>u64::from_le_bytes\<close>.\<close>

fun from_le_bytes :: "bytes \<Rightarrow> u64" where
  "from_le_bytes [] = 0"
| "from_le_bytes (b # bs) = ucast b OR push_bit 8 (from_le_bytes bs)"

text \<open>The loop over \<open>chunks_exact(8)\<close>, with the remainder it leaves.\<close>

function hash_chunks :: "u64 \<Rightarrow> bytes \<Rightarrow> u64 \<times> bytes" where
  "hash_chunks hash bs =
     (if 8 \<le> length bs then hash_chunks (mix hash (from_le_bytes (take 8 bs))) (drop 8 bs)
      else (hash, bs))"
  by pat_completeness auto
termination by (relation "measure (\<lambda>(h, bs). length bs)") auto

declare hash_chunks.simps [simp del]

definition hash_str :: "bytes \<Rightarrow> u32" where
  "hash_str bs =
     (let (hash, remainder) = hash_chunks 0 bs;
          tail = remainder @ replicate (8 - length remainder) 0;
          hash' = mix hash (from_le_bytes tail XOR of_nat (length bs))
      in ucast (hash' XOR drop_bit 32 hash'))"

definition tag_of :: "u32 \<Rightarrow> u8" where
  "tag_of hash = ucast (drop_bit 24 hash) OR 1"

section \<open>The lookup table\<close>

partial_function (option) probe_free :: "u8 list \<Rightarrow> nat \<Rightarrow> nat option" where
  "probe_free tags slot =
     (if tags ! slot \<noteq> 0 then probe_free tags ((slot + 1) AND (length tags - 1)) else Some slot)"

definition insert_slot :: "u8 list \<Rightarrow> u32 list \<Rightarrow> u32 \<Rightarrow> u32 \<Rightarrow> (u8 list \<times> u32 list) res" where
  "insert_slot tags slots hash sid =
     andthen (assert (tags \<noteq> [])) (\<lambda>_.
     andthen (from_loop (probe_free tags (unat hash AND (length tags - 1)))) (\<lambda>slot.
     andthen (store_at tags slot (tag_of hash)) (\<lambda>tags'.
     andthen (store_at slots slot sid) (\<lambda>slots'.
     Ok (tags', slots')))))"

record pool =
  sp_buffer :: bytes
  sp_ranges :: "(u32 \<times> u32) list"
  sp_hashes :: "u32 list"
  sp_tags :: "u8 list"
  sp_slots :: "u32 list"

definition pool_new :: pool where
  "pool_new = \<lparr>sp_buffer = [], sp_ranges = [], sp_hashes = [], sp_tags = [], sp_slots = []\<rparr>"

definition pool_slice :: "pool \<Rightarrow> u32 \<times> u32 \<Rightarrow> bytes res" where
  "pool_slice p r =
     (let start = unat (fst r); len = unat (snd r) in
      expect (get_range (sp_buffer p) start (start + len)))"

definition pool_resolve :: "pool \<Rightarrow> nat \<Rightarrow> bytes res" where
  "pool_resolve p index = andthen (index_at (sp_ranges p) index) (pool_slice p)"

definition pool_get :: "pool \<Rightarrow> raw_string_id \<Rightarrow> bytes option res" where
  "pool_get p sid =
     (case get_at (sp_ranges p) (unat (rs_index sid)) of
        None \<Rightarrow> Ok None
      | Some rng \<Rightarrow> map_ok Some (pool_slice p rng))"

definition pool_len :: "pool \<Rightarrow> nat" where
  "pool_len p = length (sp_ranges p)"

definition pool_is_empty :: "pool \<Rightarrow> bool" where
  "pool_is_empty p \<longleftrightarrow> sp_ranges p = []"

partial_function (option) probe_find ::
  "pool \<Rightarrow> bytes \<Rightarrow> u8 \<Rightarrow> nat \<Rightarrow> raw_string_id option res option" where
  "probe_find p string tag slot =
     (if sp_tags p ! slot = 0 then Some (Ok None)
      else if sp_tags p ! slot = tag then
        (case andthen (index_at (sp_slots p) slot) (\<lambda>sid. pool_resolve p (unat sid)) of
           Ok s \<Rightarrow>
             if s = string then Some (Ok (Some (RawStringId (sp_slots p ! slot))))
             else probe_find p string tag ((slot + 1) AND (length (sp_tags p) - 1))
         | Err e \<Rightarrow> Some (Err e)
         | Panic \<Rightarrow> Some Panic
         | Diverge \<Rightarrow> Some Diverge)
      else probe_find p string tag ((slot + 1) AND (length (sp_tags p) - 1)))"

definition pool_find :: "pool \<Rightarrow> bytes \<Rightarrow> u32 \<Rightarrow> raw_string_id option res" where
  "pool_find p string hash =
     (if sp_tags p = [] then Ok None
      else andthen
        (from_loop (probe_find p string (tag_of hash) (unat hash AND (length (sp_tags p) - 1))))
        (\<lambda>r. r))"

definition rebuild_lookup :: "nat \<Rightarrow> pool \<Rightarrow> pool res" where
  "rebuild_lookup capacity p =
     (let capacity = max capacity min_lookup_slots in
      andthen
        (for_each (\<lambda>(index, hash) (tags, slots). insert_slot tags slots hash (of_nat index))
           (List.enumerate 0 (sp_hashes p)) (replicate capacity 0, replicate capacity 0))
        (\<lambda>(tags, slots). Ok (p\<lparr>sp_tags := tags, sp_slots := slots\<rparr>)))"

text \<open>\<open>intern\<close>, with the pool it leaves. The asserts come before any write.\<close>

definition pool_push :: "bytes \<Rightarrow> u32 \<Rightarrow> pool \<Rightarrow> pool res" where
  "pool_push string hash p =
     andthen (assert (length (sp_ranges p) < u32_max)) (\<lambda>_.
     let start = length (sp_buffer p) in
     andthen (assert (start + length string \<le> u32_max)) (\<lambda>_.
     let sid = of_nat (length (sp_ranges p));
         p' = p\<lparr>sp_buffer := sp_buffer p @ string,
                sp_ranges := sp_ranges p @ [(of_nat start, of_nat (length string))],
                sp_hashes := sp_hashes p @ [hash]\<rparr> in
     if length (sp_tags p') \<le> length (sp_ranges p') * 2
     then rebuild_lookup (max (length (sp_tags p') * 2) min_lookup_slots) p'
     else andthen (insert_slot (sp_tags p') (sp_slots p') hash sid) (\<lambda>(tags, slots).
            Ok (p'\<lparr>sp_tags := tags, sp_slots := slots\<rparr>))))"

definition intern :: "bytes \<Rightarrow> (pool, error, raw_string_id) step" where
  "intern string p =
     (let hash = hash_str string in
      case pool_find p string hash of
        Ok (Some sid) \<Rightarrow> (Ok sid, p)
      | Ok None \<Rightarrow>
          (case pool_push string hash p of
             Ok p' \<Rightarrow> (Ok (RawStringId (of_nat (length (sp_ranges p)))), p')
           | Err e \<Rightarrow> (Err e, p)
           | Panic \<Rightarrow> (Panic, p)
           | Diverge \<Rightarrow> (Diverge, p))
      | Err e \<Rightarrow> (Err e, p)
      | Panic \<Rightarrow> (Panic, p)
      | Diverge \<Rightarrow> (Diverge, p))"

definition pool_truncate :: "nat \<Rightarrow> pool \<Rightarrow> pool res" where
  "pool_truncate len p =
     (if length (sp_ranges p) \<le> len then Ok p
      else
        let end = unat (fst (sp_ranges p ! len));
            p' = p\<lparr>sp_ranges := take len (sp_ranges p),
                   sp_hashes := take len (sp_hashes p),
                   sp_buffer := take end (sp_buffer p)\<rparr>
        in rebuild_lookup (length (sp_tags p')) p')"

section \<open>Probing\<close>

text \<open>
  The slot reached after \<open>d\<close> steps from a hash. The table's length is a power of two, so the
  mask of the code is a remainder.
\<close>

definition slot_at :: "nat \<Rightarrow> nat \<Rightarrow> nat \<Rightarrow> nat" where
  "slot_at n h d = (h + d) mod n"

definition is_pow2 :: "nat \<Rightarrow> bool" where
  "is_pow2 n \<longleftrightarrow> (\<exists>k. n = 2 ^ k)"

lemma is_pow2_pos: "is_pow2 n \<Longrightarrow> 0 < n"
  by (auto simp: is_pow2_def)

lemma is_pow2_double: "is_pow2 n \<Longrightarrow> is_pow2 (n * 2)"
  unfolding is_pow2_def by (metis power_Suc2)

lemma is_pow2_max: "is_pow2 m \<Longrightarrow> is_pow2 n \<Longrightarrow> is_pow2 (max m n)"
  by (simp add: max_def)

lemma is_pow2_16 [simp]: "is_pow2 16"
  unfolding is_pow2_def by (rule exI [of _ 4]) simp

lemma and_pow2: "is_pow2 n \<Longrightarrow> (a::nat) AND (n - 1) = a mod n"
proof -
  assume "is_pow2 n"
  then obtain k where n: "n = 2 ^ k" by (auto simp: is_pow2_def)
  have "a AND mask k = a mod 2 ^ k"
    by (metis take_bit_eq_mask take_bit_eq_mod)
  then show ?thesis by (simp add: n mask_eq_exp_minus_1)
qed

lemma slot_at_less: "0 < n \<Longrightarrow> slot_at n h d < n"
  by (simp add: slot_at_def)

lemma slot_at_start: "is_pow2 n \<Longrightarrow> h AND (n - 1) = slot_at n h 0"
  unfolding slot_at_def and_pow2 by simp

lemma slot_at_step: "is_pow2 n \<Longrightarrow> (slot_at n h d + 1) AND (n - 1) = slot_at n h (Suc d)"
  unfolding slot_at_def and_pow2 by (simp add: mod_Suc_eq)

lemma slot_at_reaches:
  assumes "p < n"
  shows "\<exists>d. slot_at n h d = p"
proof
  have "(h + (p + (n - h mod n))) mod n = (h mod n + (p + (n - h mod n))) mod n"
    by (rule mod_add_left_eq [symmetric])
  also have "h mod n + (p + (n - h mod n)) = p + n"
    using assms mod_less_divisor [of n h] by linarith
  finally show "slot_at n h (p + (n - h mod n)) = p"
    using assms by (simp add: slot_at_def)
qed

lemma tag_of_nonzero [simp]: "tag_of h \<noteq> 0"
proof
  assume "tag_of h = 0"
  then have "bit (tag_of h) 0 = bit (0 :: u8) 0" by simp
  then show False by (simp add: tag_of_def bit_or_iff)
qed

lemma probe_free_Some:
  assumes "is_pow2 (length tags)" and "tags ! slot_at (length tags) h (d + e) = 0"
    and "\<And>e'. e' < e \<Longrightarrow> tags ! slot_at (length tags) h (d + e') \<noteq> 0"
  shows "probe_free tags (slot_at (length tags) h d) = Some (slot_at (length tags) h (d + e))"
  using assms(2,3)
proof (induction e arbitrary: d)
  case 0
  then show ?case by (simp add: probe_free.simps)
next
  case (Suc e)
  have "tags ! slot_at (length tags) h d \<noteq> 0" using Suc.prems(2) [of 0] by simp
  moreover have "probe_free tags (slot_at (length tags) h (Suc d)) =
      Some (slot_at (length tags) h (Suc d + e))"
    using Suc.IH [of "Suc d"] Suc.prems(1) Suc.prems(2) [of "Suc _"] by simp
  ultimately show ?case
    by (subst probe_free.simps) (simp add: slot_at_step [OF assms(1), simplified])
qed

text \<open>The first empty slot from a hash.\<close>

lemma first_free:
  assumes "p < length tags" and "tags ! p = 0"
  obtains d where "tags ! slot_at (length tags) h d = 0"
    and "\<And>e. e < d \<Longrightarrow> tags ! slot_at (length tags) h e \<noteq> 0"
proof -
  obtain d0 where "slot_at (length tags) h d0 = p"
    using slot_at_reaches [OF assms(1)] by blast
  then have "tags ! slot_at (length tags) h d0 = 0" using assms(2) by simp
  then have "tags ! slot_at (length tags) h (LEAST d. tags ! slot_at (length tags) h d = 0) = 0"
    by (rule LeastI)
  then show ?thesis using that not_less_Least by blast
qed

section \<open>The table's invariant\<close>

definition reaches :: "u8 list \<Rightarrow> u32 list \<Rightarrow> u32 \<Rightarrow> nat \<Rightarrow> nat \<Rightarrow> bool" where
  "reaches tags slots h i d \<longleftrightarrow>
     tags ! slot_at (length tags) (unat h) d = tag_of h \<and>
     unat (slots ! slot_at (length tags) (unat h) d) = i \<and>
     (\<forall>e<d. tags ! slot_at (length tags) (unat h) e \<noteq> 0)"

definition lookup_ok :: "u8 list \<Rightarrow> u32 list \<Rightarrow> u32 list \<Rightarrow> bool" where
  "lookup_ok tags slots hashes \<longleftrightarrow>
     length slots = length tags \<and>
     (\<forall>i<length hashes. \<exists>d. reaches tags slots (hashes ! i) i d) \<and>
     (\<forall>p<length tags. tags ! p \<noteq> 0 \<longrightarrow>
        unat (slots ! p) < length hashes \<and> tags ! p = tag_of (hashes ! unat (slots ! p))) \<and>
     card {p. p < length tags \<and> tags ! p \<noteq> 0} \<le> length hashes"

lemma lookup_ok_empty: "lookup_ok (replicate n 0) (replicate n 0) []"
  by (simp add: lookup_ok_def)

lemma lookup_ok_free:
  assumes "lookup_ok tags slots hashes" and "length hashes < length tags"
  obtains p where "p < length tags" and "tags ! p = 0"
proof (rule ccontr)
  assume "\<not> thesis"
  then have "{p. p < length tags \<and> tags ! p \<noteq> 0} = {..<length tags}"
    using that by auto
  then have "card {p. p < length tags \<and> tags ! p \<noteq> 0} = length tags" by simp
  then show False using assms by (simp add: lookup_ok_def)
qed

lemma insert_slot_ok:
  assumes ok: "lookup_ok tags slots hashes" and pow: "is_pow2 (length tags)"
    and room: "length hashes < length tags" and fits: "length hashes \<le> u32_max"
  shows "\<exists>tags' slots'. insert_slot tags slots h (of_nat (length hashes)) = Ok (tags', slots') \<and>
    length tags' = length tags \<and> lookup_ok tags' slots' (hashes @ [h])"
proof -
  let ?n = "length tags" and ?h = "unat h"
  obtain p where "p < ?n" "tags ! p = 0" using lookup_ok_free [OF ok room] .
  then obtain d where free: "tags ! slot_at ?n ?h d = 0"
    and before: "\<And>e. e < d \<Longrightarrow> tags ! slot_at ?n ?h e \<noteq> 0"
    using first_free [of p tags ?h] by blast
  define q where "q = slot_at ?n ?h d"
  have q: "q < ?n" and q0: "tags ! q = 0"
    using free slot_at_less [OF is_pow2_pos [OF pow]] by (simp_all add: q_def)
  have len: "length slots = ?n" using ok by (simp add: lookup_ok_def)
  define tags' slots' where "tags' = tags[q := tag_of h]" and "slots' = slots[q := of_nat (length hashes)]"
  have run: "insert_slot tags slots h (of_nat (length hashes)) = Ok (tags', slots')"
    using probe_free_Some [OF pow, of ?h 0 d] free before q len is_pow2_pos [OF pow]
    by (simp add: insert_slot_def slot_at_start [OF pow, simplified] q_def tags'_def slots'_def
        slot_at_less)
  have old: "\<exists>d. reaches tags' slots' (hashes ! i) i d" if i: "i < length hashes" for i
  proof -
    obtain d' where d': "reaches tags slots (hashes ! i) i d'"
      using ok i by (auto simp: lookup_ok_def)
    have ne: "slot_at ?n (unat (hashes ! i)) d' \<noteq> q"
      using d' q0 by (auto simp: reaches_def)
    have "tags' ! slot_at ?n (unat (hashes ! i)) e \<noteq> 0" if "e < d'" for e
      using d' that q by (simp add: reaches_def tags'_def nth_list_update slot_at_less is_pow2_pos [OF pow])
    then have "reaches tags' slots' (hashes ! i) i d'"
      using d' ne by (simp add: reaches_def tags'_def slots'_def)
    then show ?thesis ..
  qed
  have new: "reaches tags' slots' h (length hashes) d"
    using before q len q_def fits by (auto simp: reaches_def tags'_def slots'_def nth_list_update)
  have "{p. p < length tags' \<and> tags' ! p \<noteq> 0} = insert q {p. p < ?n \<and> tags ! p \<noteq> 0}"
    using q by (auto simp: tags'_def nth_list_update)
  then have "card {p. p < length tags' \<and> tags' ! p \<noteq> 0} \<le> Suc (length hashes)"
    using ok by (simp add: lookup_ok_def card_insert_if)
  moreover have "unat (slots' ! p) < Suc (length hashes) \<and>
      tags' ! p = tag_of ((hashes @ [h]) ! unat (slots' ! p))"
    if "p < length tags'" "tags' ! p \<noteq> 0" for p
    using that ok q len fits
    by (cases "p = q") (auto simp: tags'_def slots'_def lookup_ok_def less_Suc_eq nth_append)
  moreover have "\<exists>d. reaches tags' slots' ((hashes @ [h]) ! i) i d" if "i < Suc (length hashes)" for i
    using that old new by (cases "i = length hashes") (auto simp: nth_append)
  ultimately have "lookup_ok tags' slots' (hashes @ [h])"
    using len by (simp add: lookup_ok_def tags'_def slots'_def)
  then show ?thesis using run by (simp add: tags'_def)
qed

lemma insert_all_ok:
  assumes "is_pow2 n" and "length hashes < n" and "length hashes \<le> u32_max"
  shows "\<exists>tags slots.
    for_each (\<lambda>(index, hash) (tags, slots). insert_slot tags slots hash (of_nat index))
      (List.enumerate 0 hashes) (replicate n 0, replicate n 0) = Ok (tags, slots) \<and>
    length tags = n \<and> lookup_ok tags slots hashes"
  using assms(2,3)
proof (induction hashes rule: rev_induct)
  case Nil
  then show ?case by (simp add: lookup_ok_empty)
next
  case (snoc h hashes)
  then obtain tags slots where run:
    "for_each (\<lambda>(index, hash) (tags, slots). insert_slot tags slots hash (of_nat index))
      (List.enumerate 0 hashes) (replicate n 0, replicate n 0) = Ok (tags, slots)"
    and len: "length tags = n" and ok: "lookup_ok tags slots hashes"
    by auto
  obtain tags' slots' where "insert_slot tags slots h (of_nat (length hashes)) = Ok (tags', slots')"
    and "length tags' = length tags" and "lookup_ok tags' slots' (hashes @ [h])"
    using insert_slot_ok [OF ok, of h] snoc.prems assms(1) len by auto
  then show ?case
    using run len by (simp add: enumerate_append_eq for_each_append)
qed

section \<open>The pool's invariant\<close>

text \<open>
  \<open>range_layout n ss\<close>: the ranges of the strings \<open>ss\<close> laid out one after the other from byte \<open>n\<close>.
  \<open>pool_repr p ss\<close>: the pool \<open>p\<close> holds exactly the distinct strings \<open>ss\<close>, in the order they were
  first interned, and its table finds each of them.
\<close>

fun range_layout :: "nat \<Rightarrow> bytes list \<Rightarrow> (u32 \<times> u32) list" where
  "range_layout n [] = []"
| "range_layout n (s # ss) = (of_nat n, of_nat (length s)) # range_layout (n + length s) ss"

definition table_ok :: "pool \<Rightarrow> bool" where
  "table_ok p \<longleftrightarrow>
     (sp_hashes p = [] \<and> sp_tags p = []) \<or>
     (is_pow2 (length (sp_tags p)) \<and> min_lookup_slots \<le> length (sp_tags p) \<and>
      length (sp_hashes p) * 2 < length (sp_tags p) \<and>
      lookup_ok (sp_tags p) (sp_slots p) (sp_hashes p))"

definition pool_repr :: "pool \<Rightarrow> bytes list \<Rightarrow> bool" where
  "pool_repr p ss \<longleftrightarrow>
     sp_buffer p = concat ss \<and> sp_ranges p = range_layout 0 ss \<and> sp_hashes p = map hash_str ss \<and>
     distinct ss \<and> length ss \<le> u32_max \<and> length (concat ss) \<le> u32_max \<and> table_ok p"

text \<open>There is room for one more string.\<close>

definition pool_room :: "bytes list \<Rightarrow> bytes \<Rightarrow> bool" where
  "pool_room ss s \<longleftrightarrow> length ss < u32_max \<and> length (concat ss) + length s \<le> u32_max"

lemma length_range_layout [simp]: "length (range_layout n ss) = length ss"
  by (induction ss arbitrary: n) auto

lemma range_layout_append:
  "range_layout n (ss @ ts) = range_layout n ss @ range_layout (n + length (concat ss)) ts"
  by (induction ss arbitrary: n) (auto simp: add.assoc)

lemma range_layout_nth:
  "i < length ss \<Longrightarrow> range_layout n ss ! i =
     (of_nat (n + length (concat (take i ss))), of_nat (length (ss ! i)))"
  by (induction ss arbitrary: n i) (auto simp: nth_Cons' take_Cons' add.assoc)

lemma range_layout_take: "take k (range_layout n ss) = range_layout n (take k ss)"
  by (induction ss arbitrary: n k) (auto simp: take_Cons')

lemma concat_take_nth_drop:
  "i < length ss \<Longrightarrow> concat ss = concat (take i ss) @ ss ! i @ concat (drop (Suc i) ss)"
  by (metis append_take_drop_id concat.simps(2) concat_append Cons_nth_drop_Suc)

lemma length_concat_take_le: "length (concat (take i ss)) \<le> length (concat ss)"
  by (metis append_take_drop_id concat_append length_append le_add1)

lemma pool_reprD:
  assumes "pool_repr p ss"
  shows "sp_buffer p = concat ss" and "sp_ranges p = range_layout 0 ss"
    and "sp_hashes p = map hash_str ss" and "distinct ss" and "length ss \<le> u32_max"
    and "length (concat ss) \<le> u32_max" and "table_ok p"
  using assms by (simp_all add: pool_repr_def)

lemma pool_repr_new: "pool_repr pool_new []"
  by (simp add: pool_repr_def pool_new_def table_ok_def)

lemma pool_len_repr: "pool_repr p ss \<Longrightarrow> pool_len p = length ss"
  by (simp add: pool_len_def pool_reprD(2))

lemma pool_slice_nth:
  assumes "pool_repr p ss" and "i < length ss"
  shows "pool_slice p (sp_ranges p ! i) = Ok (ss ! i)"
proof -
  have "length (concat (take i ss)) + length (ss ! i) \<le> length (concat ss)"
    by (simp add: concat_take_nth_drop [OF assms(2)])
  moreover have "take (length (ss ! i)) (drop (length (concat (take i ss))) (concat ss)) = ss ! i"
    by (simp add: concat_take_nth_drop [OF assms(2)])
  moreover from calculation(1) have "length (concat (take i ss)) \<le> u32_max" "length (ss ! i) \<le> u32_max"
    using pool_reprD(6) [OF assms(1)] by simp_all
  ultimately show ?thesis
    using assms by (simp add: pool_slice_def pool_reprD(1,2) range_layout_nth get_range_def)
qed

lemma pool_resolve_nth:
  "pool_repr p ss \<Longrightarrow> i < length ss \<Longrightarrow> pool_resolve p i = Ok (ss ! i)"
  using pool_slice_nth [of p ss i] by (simp add: pool_resolve_def pool_reprD(2))

lemma pool_get_repr:
  assumes "pool_repr p ss"
  shows "pool_get p sid = Ok (get_at ss (unat (rs_index sid)))"
proof (cases "unat (rs_index sid) < length ss")
  case True
  then show ?thesis
    using pool_slice_nth [OF assms True] assms by (simp add: pool_get_def pool_reprD(2))
next
  case False
  then show ?thesis using assms by (simp add: pool_get_def pool_reprD(2) get_at_def)
qed

section \<open>\<open>find\<close> is exact\<close>

lemma probe_find_step:
  assumes "sp_tags p ! slot \<noteq> 0"
    and "sp_tags p ! slot = tag \<Longrightarrow>
      \<exists>s. andthen (index_at (sp_slots p) slot) (\<lambda>i. pool_resolve p (unat i)) = Ok s \<and> s \<noteq> string"
  shows "probe_find p string tag slot =
    probe_find p string tag ((slot + 1) AND (length (sp_tags p) - 1))"
  using assms by (subst probe_find.simps) auto

text \<open>Probing skips every slot that does not answer, up to the first one that does.\<close>

lemma probe_find_skip:
  assumes pow: "is_pow2 (length (sp_tags p))"
    and skip: "\<And>e'. e' < e \<Longrightarrow> sp_tags p ! slot_at (length (sp_tags p)) h (d + e') \<noteq> 0 \<and>
      (\<exists>s. andthen (index_at (sp_slots p) (slot_at (length (sp_tags p)) h (d + e')))
         (\<lambda>i. pool_resolve p (unat i)) = Ok s \<and> s \<noteq> string)"
  shows "probe_find p string tag (slot_at (length (sp_tags p)) h d) =
    probe_find p string tag (slot_at (length (sp_tags p)) h (d + e))"
  using skip
proof (induction e arbitrary: d)
  case (Suc e)
  have "probe_find p string tag (slot_at (length (sp_tags p)) h d) =
      probe_find p string tag (slot_at (length (sp_tags p)) h (Suc d))"
    using probe_find_step [of p "slot_at (length (sp_tags p)) h d" tag string] Suc.prems [of 0]
    by (simp add: slot_at_step [OF pow, simplified])
  also have "\<dots> = probe_find p string tag (slot_at (length (sp_tags p)) h (Suc d + e))"
    using Suc.IH [of "Suc d"] Suc.prems [of "Suc _"] by simp
  finally show ?case by simp
qed simp

lemma table_resolves:
  assumes repr: "pool_repr p ss" and ok: "lookup_ok (sp_tags p) (sp_slots p) (sp_hashes p)"
    and q: "q < length (sp_tags p)" "sp_tags p ! q \<noteq> 0"
  shows "\<exists>i<length ss. unat (sp_slots p ! q) = i \<and>
    andthen (index_at (sp_slots p) q) (\<lambda>i. pool_resolve p (unat i)) = Ok (ss ! i)"
proof -
  have "unat (sp_slots p ! q) < length ss" and "q < length (sp_slots p)"
    using ok q pool_reprD(3) [OF repr] by (simp_all add: lookup_ok_def)
  then show ?thesis using pool_resolve_nth [OF repr] by simp
qed

lemma pool_find_repr:
  assumes repr: "pool_repr p ss"
  shows "pool_find p s (hash_str s) =
    Ok (map_option (\<lambda>i. RawStringId (of_nat i)) (position ((=) s) ss))"
proof (cases "sp_tags p = []")
  case True
  then have "ss = []" using pool_reprD(3,7) [OF repr] by (auto simp: table_ok_def is_pow2_def)
  then show ?thesis using True by (simp add: pool_find_def)
next
  case False
  let ?n = "length (sp_tags p)" and ?h = "unat (hash_str s)"
  have pow: "is_pow2 ?n" and half: "length (sp_hashes p) * 2 < ?n"
    and ok: "lookup_ok (sp_tags p) (sp_slots p) (sp_hashes p)"
    using pool_reprD(7) [OF repr] False by (auto simp: table_ok_def)
  have hit: "\<exists>i<length ss. unat (sp_slots p ! slot_at ?n ?h d) = i \<and>
      andthen (index_at (sp_slots p) (slot_at ?n ?h d)) (\<lambda>i. pool_resolve p (unat i)) = Ok (ss ! i)"
    if "sp_tags p ! slot_at ?n ?h d \<noteq> 0" for d
    using table_resolves [OF repr ok] that slot_at_less [OF is_pow2_pos [OF pow]] by blast
  have run: "pool_find p s (hash_str s) =
      andthen (from_loop (probe_find p s (tag_of (hash_str s)) (slot_at ?n ?h 0))) (\<lambda>r. r)"
    using False by (simp add: pool_find_def slot_at_start [OF pow, simplified])
  show ?thesis
  proof (cases "position ((=) s) ss")
    case None
    then have absent: "s \<notin> set ss" by (auto simp: position_eq_None)
    have "length (sp_hashes p) < ?n" using half by simp
    then obtain q where "q < ?n" "sp_tags p ! q = 0" using lookup_ok_free [OF ok] by blast
    then obtain d where d: "sp_tags p ! slot_at ?n ?h d = 0"
      and before: "\<And>e. e < d \<Longrightarrow> sp_tags p ! slot_at ?n ?h e \<noteq> 0"
      using first_free by blast
    have "probe_find p s (tag_of (hash_str s)) (slot_at ?n ?h 0) =
        probe_find p s (tag_of (hash_str s)) (slot_at ?n ?h (0 + d))"
      by (rule probe_find_skip [OF pow]) (use before hit absent nth_mem in fastforce)
    also have "\<dots> = Some (Ok None)" using d by (simp add: probe_find.simps)
    finally show ?thesis using run None by simp
  next
    case (Some i)
    then have i: "i < length ss" "ss ! i = s" by (auto simp: position_eq_Some)
    obtain d where d: "reaches (sp_tags p) (sp_slots p) (hash_str s) i d"
      using ok i pool_reprD(3) [OF repr] by (auto simp: lookup_ok_def)
    define e where "e = (LEAST e. unat (sp_slots p ! slot_at ?n ?h e) = i)"
    have di: "unat (sp_slots p ! slot_at ?n ?h d) = i" using d by (simp add: reaches_def)
    have ei: "unat (sp_slots p ! slot_at ?n ?h e) = i"
      unfolding e_def using di by (rule LeastI)
    have ed: "e \<le> d" unfolding e_def using di by (rule Least_le)
    have before: "unat (sp_slots p ! slot_at ?n ?h e') \<noteq> i" if "e' < e" for e'
      using that unfolding e_def by (rule not_less_Least)
    have used: "sp_tags p ! slot_at ?n ?h e' \<noteq> 0" if "e' \<le> e" for e'
      using d ed that by (cases "e' = d") (simp_all add: reaches_def)
    have tag: "sp_tags p ! slot_at ?n ?h e = tag_of (hash_str s)"
    proof -
      have "sp_tags p ! slot_at ?n ?h e = tag_of (sp_hashes p ! unat (sp_slots p ! slot_at ?n ?h e))"
        using ok used [of e] slot_at_less [OF is_pow2_pos [OF pow], of ?h e]
        unfolding lookup_ok_def by blast
      then show ?thesis using ei i by (simp add: pool_reprD(3) [OF repr])
    qed
    have "probe_find p s (tag_of (hash_str s)) (slot_at ?n ?h 0) =
        probe_find p s (tag_of (hash_str s)) (slot_at ?n ?h (0 + e))"
    proof (rule probe_find_skip [OF pow])
      fix e' assume e': "e' < e"
      obtain j where j: "j < length ss" "unat (sp_slots p ! slot_at ?n ?h e') = j"
        "andthen (index_at (sp_slots p) (slot_at ?n ?h e')) (\<lambda>i. pool_resolve p (unat i)) = Ok (ss ! j)"
        using hit [OF used [of e']] e' by auto
      then have "ss ! j \<noteq> s"
        using before [OF e'] i pool_reprD(4) [OF repr] nth_eq_iff_index_eq by metis
      then show "sp_tags p ! slot_at ?n ?h (0 + e') \<noteq> 0 \<and>
        (\<exists>s'. andthen (index_at (sp_slots p) (slot_at ?n ?h (0 + e')))
           (\<lambda>i. pool_resolve p (unat i)) = Ok s' \<and> s' \<noteq> s)"
        using used [of e'] e' j(3) by simp
    qed
    also have "\<dots> = Some (Ok (Some (RawStringId (sp_slots p ! slot_at ?n ?h e))))"
      using tag hit [OF used [of e]] ei i by (subst probe_find.simps) auto
    also have "sp_slots p ! slot_at ?n ?h e = of_nat i" using ei by auto
    finally show ?thesis using run Some by simp
  qed
qed

section \<open>\<open>intern\<close> and \<open>truncate\<close>\<close>

lemma rebuild_lookup_ok:
  assumes "is_pow2 n" and "length (sp_hashes p) * 2 < max n min_lookup_slots"
    and "length (sp_hashes p) \<le> u32_max"
  shows "\<exists>tags slots. rebuild_lookup n p = Ok (p\<lparr>sp_tags := tags, sp_slots := slots\<rparr>) \<and>
    table_ok (p\<lparr>sp_tags := tags, sp_slots := slots\<rparr>)"
proof -
  have pow: "is_pow2 (max n min_lookup_slots)"
    using assms(1) by (simp add: is_pow2_max min_lookup_slots_def)
  obtain tags slots where "for_each (\<lambda>(index, hash) (tags, slots). insert_slot tags slots hash (of_nat index))
      (List.enumerate 0 (sp_hashes p))
      (replicate (max n min_lookup_slots) 0, replicate (max n min_lookup_slots) 0) = Ok (tags, slots)"
    and "length tags = max n min_lookup_slots" and "lookup_ok tags slots (sp_hashes p)"
    using insert_all_ok [OF pow, of "sp_hashes p"] assms(2,3) by auto
  then show ?thesis
    using pow assms(2) by (intro exI [of _ tags] exI [of _ slots]) (simp add: rebuild_lookup_def table_ok_def)
qed

lemma pool_push_repr:
  assumes repr: "pool_repr p ss" and new: "s \<notin> set ss" and room: "pool_room ss s"
  shows "\<exists>p'. pool_push s (hash_str s) p = Ok p' \<and> pool_repr p' (ss @ [s])"
proof -
  define p1 where "p1 = p\<lparr>sp_buffer := concat (ss @ [s]), sp_ranges := range_layout 0 (ss @ [s]),
    sp_hashes := map hash_str (ss @ [s])\<rparr>"
  have room': "length ss < u32_max" "length (concat ss) + length s \<le> u32_max"
    using room by (simp_all add: pool_room_def)
  have step: "pool_push s (hash_str s) p =
      (if length (sp_tags p) \<le> Suc (length ss) * 2
       then rebuild_lookup (max (length (sp_tags p) * 2) min_lookup_slots) p1
       else andthen (insert_slot (sp_tags p) (sp_slots p) (hash_str s) (of_nat (length ss)))
         (\<lambda>(tags, slots). Ok (p1\<lparr>sp_tags := tags, sp_slots := slots\<rparr>)))"
    using room' pool_reprD(1-3) [OF repr]
    by (simp add: pool_push_def p1_def range_layout_append mult.commute)
  have fin: "pool_repr (p1\<lparr>sp_tags := tags, sp_slots := slots\<rparr>) (ss @ [s])"
    if "table_ok (p1\<lparr>sp_tags := tags, sp_slots := slots\<rparr>)" for tags slots
    using that room' new pool_reprD(4) [OF repr] by (simp add: pool_repr_def p1_def)
  show ?thesis
  proof (cases "length (sp_tags p) \<le> Suc (length ss) * 2")
    case True
    let ?m = "max (length (sp_tags p) * 2) min_lookup_slots"
    have "is_pow2 ?m \<and> Suc (length ss) * 2 < ?m"
      using pool_reprD(3,7) [OF repr]
      by (auto simp: table_ok_def is_pow2_max is_pow2_double min_lookup_slots_def max_def)
    then obtain tags slots where "rebuild_lookup ?m p1 = Ok (p1\<lparr>sp_tags := tags, sp_slots := slots\<rparr>)"
      and "table_ok (p1\<lparr>sp_tags := tags, sp_slots := slots\<rparr>)"
      using rebuild_lookup_ok [of ?m p1] room' by (auto simp: p1_def)
    then show ?thesis using True step fin by auto
  next
    case False
    then have "sp_tags p \<noteq> []" by auto
    then have pow: "is_pow2 (length (sp_tags p))" and ok: "lookup_ok (sp_tags p) (sp_slots p) (sp_hashes p)"
      and big: "min_lookup_slots \<le> length (sp_tags p)"
      using pool_reprD(7) [OF repr] by (auto simp: table_ok_def)
    obtain tags slots where ins: "insert_slot (sp_tags p) (sp_slots p) (hash_str s) (of_nat (length ss)) = Ok (tags, slots)"
      and "length tags = length (sp_tags p)" and "lookup_ok tags slots (sp_hashes p @ [hash_str s])"
      using insert_slot_ok [OF ok pow, of "hash_str s"] False room' pool_reprD(3) [OF repr] by auto
    then have "table_ok (p1\<lparr>sp_tags := tags, sp_slots := slots\<rparr>)"
      using pow big False pool_reprD(3) [OF repr] by (simp add: table_ok_def p1_def)
    then show ?thesis using False step fin ins by auto
  qed
qed

lemma pool_push_full:
  assumes "pool_repr p ss" and "\<not> pool_room ss s"
  shows "pool_push s h p = Panic"
proof (cases "length ss < u32_max")
  case True
  then have "u32_max < length (concat ss) + length s" using assms(2) by (simp add: pool_room_def)
  then show ?thesis
    using True by (simp add: pool_push_def pool_reprD(1,2) [OF assms(1)] assert_def)
next
  case False
  then show ?thesis by (simp add: pool_push_def pool_reprD(2) [OF assms(1)] assert_def)
qed

text \<open>Interning a string the pool holds returns its index and leaves the pool alone.\<close>

lemma intern_old:
  assumes "pool_repr p ss" and "position ((=) s) ss = Some i"
  shows "intern s p = (Ok (RawStringId (of_nat i)), p)"
  using assms by (simp add: intern_def pool_find_repr)

lemma intern_new:
  assumes "pool_repr p ss" and "s \<notin> set ss" and "pool_room ss s"
  shows "\<exists>p'. intern s p = (Ok (RawStringId (of_nat (length ss))), p') \<and> pool_repr p' (ss @ [s])"
proof -
  have "position ((=) s) ss = None" using assms(2) by (auto simp: position_eq_None)
  then show ?thesis
    using pool_push_repr [OF assms] by (auto simp: intern_def pool_find_repr [OF assms(1)] pool_reprD(2) [OF assms(1)])
qed

lemma intern_full:
  assumes "pool_repr p ss" and "s \<notin> set ss" and "\<not> pool_room ss s"
  shows "intern s p = (Panic, p)"
proof -
  have "position ((=) s) ss = None" using assms(2) by (auto simp: position_eq_None)
  then show ?thesis
    using pool_push_full [OF assms(1,3)] by (simp add: intern_def pool_find_repr [OF assms(1)])
qed

lemma pool_truncate_repr:
  assumes repr: "pool_repr p ss"
  shows "\<exists>p'. pool_truncate n p = Ok p' \<and> pool_repr p' (take n ss)"
proof (cases "length ss \<le> n")
  case True
  then show ?thesis using repr by (simp add: pool_truncate_def pool_reprD(2))
next
  case False
  define p1 where "p1 = p\<lparr>sp_ranges := range_layout 0 (take n ss), sp_hashes := map hash_str (take n ss),
    sp_buffer := concat (take n ss)\<rparr>"
  have split: "concat ss = concat (take n ss) @ concat (drop n ss)"
    by (metis append_take_drop_id concat_append)
  have cut: "length (concat (take n ss)) \<le> length (concat ss)" by (simp add: split)
  have step: "pool_truncate n p = rebuild_lookup (length (sp_tags p)) p1"
    using False cut pool_reprD(1-3,6) [OF repr]
    by (simp add: pool_truncate_def p1_def range_layout_nth range_layout_take take_map Let_def)
      (simp add: split)
  have tags: "is_pow2 (length (sp_tags p))" "length ss * 2 < length (sp_tags p)"
    using False pool_reprD(3,7) [OF repr] by (auto simp: table_ok_def)
  then have "length (sp_hashes p1) * 2 < max (length (sp_tags p)) min_lookup_slots"
    and "length (sp_hashes p1) \<le> u32_max"
    using False pool_reprD(5) [OF repr] by (auto simp: p1_def)
  then obtain tags slots where "rebuild_lookup (length (sp_tags p)) p1 = Ok (p1\<lparr>sp_tags := tags, sp_slots := slots\<rparr>)"
    and "table_ok (p1\<lparr>sp_tags := tags, sp_slots := slots\<rparr>)"
    using rebuild_lookup_ok [OF tags(1)] by blast
  then show ?thesis
    using step cut pool_reprD(4-6) [OF repr] False
    by (auto simp: pool_repr_def p1_def distinct_take)
qed

section \<open>The interner's contract\<close>

text \<open>The specification: a list of distinct strings, where a string's handle is its position.\<close>

definition abs_intern :: "bytes list \<Rightarrow> bytes \<Rightarrow> (nat \<times> bytes list) option" where
  "abs_intern ss s =
     (case position ((=) s) ss of
        Some i \<Rightarrow> Some (i, ss)
      | None \<Rightarrow> if pool_room ss s then Some (length ss, ss @ [s]) else None)"

locale interner =
  fixes repr :: "'p \<Rightarrow> bytes list \<Rightarrow> bool"
    and put :: "bytes \<Rightarrow> ('p, error, raw_string_id) step"
    and fetch :: "'p \<Rightarrow> raw_string_id \<Rightarrow> bytes option res"
    and cut :: "nat \<Rightarrow> 'p \<Rightarrow> 'p res"
  assumes repr_bound: "repr p ss \<Longrightarrow> length ss \<le> u32_max"
    and repr_distinct: "repr p ss \<Longrightarrow> distinct ss"
    and fetch: "repr p ss \<Longrightarrow> fetch p j = Ok (get_at ss (unat (rs_index j)))"
    and put_Some: "repr p ss \<Longrightarrow> abs_intern ss s = Some (i, ss') \<Longrightarrow>
      \<exists>p'. put s p = (Ok (RawStringId (of_nat i)), p') \<and> repr p' ss'"
    and put_None: "repr p ss \<Longrightarrow> abs_intern ss s = None \<Longrightarrow> put s p = (Panic, p)"
    and cut: "repr p ss \<Longrightarrow> \<exists>p'. cut n p = Ok p' \<and> repr p' (take n ss)"

lemma abs_intern_Some:
  assumes "abs_intern ss s = Some (i, ss')"
  shows "prefix ss ss'" and "i < length ss'" and "ss' ! i = s" and "i \<le> length ss"
  using assms
  by (auto simp: abs_intern_def position_eq_Some nth_append split: option.splits if_splits)

context interner
begin

text \<open>A call either succeeds and only appends, or panics and changes nothing.\<close>

lemma put_cases:
  assumes "repr p ss"
  obtains (stored) i p' ss' where "put s p = (Ok i, p')" "repr p' ss'" "prefix ss ss'"
      "abs_intern ss s = Some (unat (rs_index i), ss')"
      "unat (rs_index i) < length ss'" "ss' ! unat (rs_index i) = s"
  | (full) "put s p = (Panic, p)" "abs_intern ss s = None"
proof (cases "abs_intern ss s")
  case None
  then show ?thesis using full put_None [OF assms] by blast
next
  case (Some r)
  obtain i ss' where r: "r = (i, ss')" by (cases r)
  then obtain p' where p': "put s p = (Ok (RawStringId (of_nat i)), p')" "repr p' ss'"
    using put_Some [OF assms] Some by blast
  have "i < length ss'" using abs_intern_Some(2) Some r by blast
  then have "unat (of_nat i :: u32) = i" using repr_bound [OF p'(2)] by simp
  then show ?thesis
    using stored [of "RawStringId (of_nat i)" p' ss'] p' abs_intern_Some [of ss s i ss'] Some r by simp
qed

lemma put_fetch:
  assumes "repr p ss" and "put s p = (Ok i, p')"
  shows "fetch p' i = Ok (Some s)"
using assms(1)
proof (cases rule: put_cases [where s = s])
  case (stored j p'' ss')
  then show ?thesis using assms(2) fetch [of p' ss' i] by simp
qed (use assms in simp)

lemma put_stable:
  assumes "repr p ss" and "put s p = (r, p')" and "fetch p j = Ok (Some t)"
  shows "fetch p' j = Ok (Some t)"
using assms(1)
proof (cases rule: put_cases [where s = s])
  case (stored i p'' ss')
  then have "repr p' ss'" and "prefix ss ss'" using assms(2) by simp_all
  moreover have "get_at ss (unat (rs_index j)) = Some t" using fetch [OF assms(1)] assms(3) by simp
  ultimately show ?thesis
    by (auto simp: fetch get_at_eq_Some prefix_def nth_append)
qed (use assms in simp)

text \<open>Two calls give the same handle exactly for equal strings.\<close>

lemma put_injective:
  assumes "repr p ss" and "put s p = (Ok i, p')" and "put t p' = (Ok j, p'')"
  shows "i = j \<longleftrightarrow> s = t"
proof -
  obtain ss' where ss': "repr p' ss'" "get_at ss' (unat (rs_index i)) = Some s"
  using assms(1)
  proof (cases rule: put_cases [where s = s])
    case (stored i' q ss')
    then show ?thesis using that assms(2) by simp
  qed (use assms in simp)
  obtain ss'' where ss'': "repr p'' ss''" "prefix ss' ss''" "get_at ss'' (unat (rs_index j)) = Some t"
  using ss'(1)
  proof (cases rule: put_cases [where s = t])
    case (stored i' q ss'')
    then show ?thesis using that assms(3) by simp
  qed (use assms in simp)
  have "get_at ss'' (unat (rs_index i)) = Some s"
    using ss'(2) ss''(2) by (auto simp: get_at_eq_Some prefix_def nth_append)
  then have "unat (rs_index i) = unat (rs_index j) \<longleftrightarrow> s = t"
    using ss''(3) repr_distinct [OF ss''(1)] by (auto simp: get_at_eq_Some nth_eq_iff_index_eq)
  then show ?thesis
    by (cases i; cases j) (auto simp: word_unat_eq_iff)
qed

text \<open>Whatever a sequence of calls does, it only appends, and cutting back undoes it.\<close>

definition extends :: "bytes list \<Rightarrow> 'p \<Rightarrow> bool" where
  "extends ss p \<longleftrightarrow> (\<exists>ss'. repr p ss' \<and> prefix ss ss')"

lemma extends_refl: "repr p ss \<Longrightarrow> extends ss p"
  by (auto simp: extends_def)

lemma put_extends: "extends ss p \<Longrightarrow> extends ss (snd (put s p))"
proof -
  assume "extends ss p"
  then obtain ss' where ss': "repr p ss'" "prefix ss ss'" by (auto simp: extends_def)
  show ?thesis
    using ss'(1)
  proof (cases rule: put_cases [where s = s])
    case (stored i p' ss'')
    then show ?thesis using ss'(2) prefix_order.trans by (auto simp: extends_def)
  qed (use ss' in \<open>auto simp: extends_def\<close>)
qed

lemma extends_cut: "extends ss p \<Longrightarrow> \<exists>p'. cut (length ss) p = Ok p' \<and> repr p' ss"
  using cut [of p _ "length ss"] by (fastforce simp: extends_def prefix_def)

lemma puts_rollback:
  assumes "repr p ss"
  shows "\<exists>p'. cut (length ss) (snd (sfor_each (\<lambda>s v. put s) xs v p)) = Ok p' \<and> repr p' ss"
proof -
  have "extends ss (snd (sfor_each (\<lambda>s v. put s) xs v p))"
    by (rule sfor_each_inv [of "extends ss"]) (simp_all add: extends_refl [OF assms] put_extends)
  then show ?thesis by (rule extends_cut)
qed

end

interpretation sp: interner pool_repr intern pool_get pool_truncate
proof
  fix p ss s i ss' assume repr: "pool_repr p ss" and some: "abs_intern ss s = Some (i, ss')"
  show "\<exists>p'. intern s p = (Ok (RawStringId (of_nat i)), p') \<and> pool_repr p' ss'"
  proof (cases "position ((=) s) ss")
    case None
    then have "s \<notin> set ss" by (auto simp: position_eq_None)
    then show ?thesis
      using some None intern_new [OF repr, of s] by (cases "pool_room ss s") (auto simp: abs_intern_def)
  next
    case (Some j)
    then show ?thesis using some repr intern_old [OF repr] by (auto simp: abs_intern_def)
  qed
next
  fix p ss s assume "pool_repr p ss" and "abs_intern ss s = None"
  then show "intern s p = (Panic, p)"
    using intern_full by (auto simp: abs_intern_def position_eq_None split: option.splits if_splits)
qed (simp_all add: pool_reprD(4,5) pool_get_repr pool_truncate_repr)

section \<open>The probing loops end\<close>

lemma probe_free_free:
  assumes "probe_free tags slot = Some s" and "is_pow2 (length tags)" and "slot < length tags"
  shows "s < length tags \<and> tags ! s = 0"
proof -
  have step: "(a + 1) mod n < n" if "a < n" for a n :: nat
    by (rule mod_less_divisor) (use that in simp)
  have "is_pow2 (length tags) \<longrightarrow> slot < length tags \<longrightarrow> s < length tags \<and> tags ! s = 0"
  proof (rule probe_free.raw_induct [OF _ assms(1)])
    fix loop :: "u8 list \<Rightarrow> nat \<Rightarrow> nat option" and tags slot s
    assume IH: "\<And>tags slot s. loop tags slot = Some s \<Longrightarrow>
        is_pow2 (length tags) \<longrightarrow> slot < length tags \<longrightarrow> s < length tags \<and> tags ! s = 0"
      and run: "(if tags ! slot \<noteq> 0 then loop tags ((slot + 1) AND (length tags - 1)) else Some slot) = Some s"
    show "is_pow2 (length tags) \<longrightarrow> slot < length tags \<longrightarrow> s < length tags \<and> tags ! s = 0"
    proof (intro impI)
      assume pow: "is_pow2 (length tags)" and slot: "slot < length tags"
      then have "(slot + 1) AND (length tags - 1) < length tags" by (simp only: and_pow2 step)
      then show "s < length tags \<and> tags ! s = 0" using IH run pow slot by (auto split: if_splits)
    qed
  qed
  then show ?thesis using assms(2,3) by blast
qed

lemma probe_find_ends:
  assumes "is_pow2 (length (sp_tags p))" and "sp_tags p ! slot_at (length (sp_tags p)) h (d + e) = 0"
  shows "\<exists>r. probe_find p string tag (slot_at (length (sp_tags p)) h d) = Some r"
  using assms(2)
proof (induction e arbitrary: d)
  case (Suc e)
  have "\<exists>r. probe_find p string tag (slot_at (length (sp_tags p)) h (Suc d)) = Some r"
    using Suc.IH [of "Suc d"] Suc.prems by simp
  then show ?case
    by (subst probe_find.simps) (auto simp: slot_at_step [OF assms(1), simplified] split: outcome.split)
qed (simp add: probe_find.simps)

section \<open>Properties\<close>

text \<open>C16: \<open>intern\<close> implements the list specification: it always ends, returns the position of the
  string (a new one at the end), keeps the pool's invariant, and panics only when the pool is
  full, before it has written anything.\<close>

theorem intern_refines:
  assumes "pool_repr p ss"
  shows "case abs_intern ss s of
      Some (i, ss') \<Rightarrow> \<exists>p'. intern s p = (Ok (RawStringId (of_nat i)), p') \<and> pool_repr p' ss'
    | None \<Rightarrow> intern s p = (Panic, p)"
  using sp.put_Some [OF assms, of s] sp.put_None [OF assms, of s]
  by (auto split: option.splits)

theorem intern_refines_witness:
  "\<exists>p'. intern [104, 105] pool_new = (Ok (RawStringId 0), p') \<and> pool_repr p' [[104, 105]]"
  using intern_refines [OF pool_repr_new, of "[104, 105]"]
  by (simp add: abs_intern_def pool_room_def u32_max_def)

text \<open>C17: a handle resolves to the string it was made for, no later call changes what any handle
  resolves to, and two handles are equal exactly when their strings are.\<close>

theorem intern_handles:
  assumes "pool_repr p ss" and "intern s p = (Ok i, p')" and "intern t p' = (Ok j, p'')"
  shows "pool_get p' i = Ok (Some s) \<and> pool_get p'' i = Ok (Some s) \<and> pool_get p'' j = Ok (Some t) \<and>
    (i = j \<longleftrightarrow> s = t)"
proof -
  obtain ss' where "pool_repr p' ss'"
    using sp.put_extends [OF sp.extends_refl [OF assms(1)], of s] assms(2)
    by (auto simp: sp.extends_def)
  then show ?thesis
    using sp.put_fetch [OF assms(1,2)] sp.put_fetch [OF _ assms(3)] sp.put_stable [OF _ assms(3)]
      sp.put_injective [OF assms] by blast
qed

theorem intern_handles_witness:
  "\<exists>i j p' p''. intern [104] pool_new = (Ok i, p') \<and> intern [105] p' = (Ok j, p'') \<and>
     pool_get p'' i = Ok (Some [104]) \<and> i \<noteq> j"
proof -
  obtain p' where 1: "intern [104] pool_new = (Ok (RawStringId 0), p')" "pool_repr p' [[104]]"
    using sp.put_Some [OF pool_repr_new, of "[104]" 0 "[[104]]"]
    by (auto simp: abs_intern_def pool_room_def u32_max_def)
  obtain p'' where 2: "intern [105] p' = (Ok (RawStringId 1), p'')"
    using sp.put_Some [OF 1(2), of "[105]" 1 "[[104], [105]]"]
    by (auto simp: abs_intern_def pool_room_def u32_max_def)
  show ?thesis using 1 2 intern_handles [OF pool_repr_new 1(1) 2] by auto
qed

text \<open>C18: rolling the pool back to its length before a sequence of \<open>intern\<close> calls succeeds,
  however the sequence ended, and the pool then holds exactly the strings it held before.\<close>

theorem truncate_undoes_intern:
  assumes "pool_repr p ss"
  shows "\<exists>p'. pool_truncate (pool_len p) (snd (sfor_each (\<lambda>s v. intern s) xs v p)) = Ok p' \<and>
    pool_repr p' ss \<and> (\<forall>i. pool_get p' i = pool_get p i)"
proof -
  obtain p' where "pool_truncate (length ss) (snd (sfor_each (\<lambda>s v. intern s) xs v p)) = Ok p'"
    and "pool_repr p' ss"
    using sp.puts_rollback [OF assms] by blast
  then show ?thesis using assms by (simp add: pool_len_repr pool_get_repr)
qed

theorem truncate_undoes_intern_witness:
  "\<exists>p'. pool_truncate (pool_len pool_new) (snd (sfor_each (\<lambda>s v. intern s) [[104], [105]] undefined pool_new)) = Ok p' \<and>
     pool_repr p' []"
  using truncate_undoes_intern [OF pool_repr_new] by blast

text \<open>C19: on a table with one free slot, from any start and whatever its tags are, both probing loops end;
  the insertion loop ends only on such a table, so a full table would never return.\<close>

theorem probing_ends:
  assumes "is_pow2 (length (sp_tags p))" and "slot < length (sp_tags p)"
  shows "((\<exists>s. probe_free (sp_tags p) slot = Some s) \<longleftrightarrow> 0 \<in> set (sp_tags p)) \<and>
    (0 \<in> set (sp_tags p) \<longrightarrow> (\<exists>r. probe_find p string tag slot = Some r))"
proof -
  have slot: "slot_at (length (sp_tags p)) slot 0 = slot" using assms(2) by (simp add: slot_at_def)
  have "0 \<in> set (sp_tags p)" if "probe_free (sp_tags p) slot = Some s" for s
    using probe_free_free [OF that assms] by (auto simp: in_set_conv_nth)
  moreover have "\<exists>s r. probe_free (sp_tags p) slot = Some s \<and> probe_find p string tag slot = Some r"
    if free: "0 \<in> set (sp_tags p)"
  proof -
    obtain q where q: "q < length (sp_tags p)" "sp_tags p ! q = 0"
      using free unfolding in_set_conv_nth by blast
    obtain d where d: "sp_tags p ! slot_at (length (sp_tags p)) slot d = 0"
      "\<And>e. e < d \<Longrightarrow> sp_tags p ! slot_at (length (sp_tags p)) slot e \<noteq> 0"
      using first_free [OF q] by blast
    then show ?thesis
      using probe_free_Some [OF assms(1), of slot 0 d] probe_find_ends [OF assms(1), of slot 0 d] slot by auto
  qed
  ultimately show ?thesis by blast
qed

theorem probing_ends_witness:
  "probe_free [1, 1] 1 = None \<and> (\<exists>s. probe_free [1, 0] 0 = Some s)"
proof
  have "is_pow2 (Suc (Suc 0))" unfolding is_pow2_def by (rule exI [of _ 1]) simp
  then show "probe_free [1, 1] 1 = None" "\<exists>s. probe_free [1, 0] 0 = Some s"
    using probing_ends [of "pool_new\<lparr>sp_tags := [1, 1]\<rparr>" 1] probing_ends [of "pool_new\<lparr>sp_tags := [1, 0]\<rparr>" 0] by auto
qed

end
