(* ===== verification/Flat_Storage.thy ===== *)
theory Flat_Storage
  imports Csr Strings_Pool
begin

text \<open>
  The slots and the three storages of \<open>storage.rs\<close>. \<open>OffsetStorage\<close>, the trait both kinds of slot
  implement, is the locale \<open>offset_storage\<close>; the abstraction of a slot is the list of its rows
  (\<open>prop_rows\<close>, \<open>edge_rows\<close>), one per node, and \<open>prop_slot_ok\<close>, \<open>edge_slot_ok\<close> say when a slot stands
  for rows at all.
\<close>

section \<open>Slots\<close>

record edge_slot =
  es_offsets :: "offset list"
  es_neighbors :: "raw_node_id list"
  es_values :: storage_array

record prop_slot =
  ps_offsets :: "offset list"
  ps_values :: storage_array

definition default_edge_slot :: edge_slot where
  "default_edge_slot = \<lparr>es_offsets = [], es_neighbors = [], es_values = default_storage_array\<rparr>"

definition default_prop_slot :: prop_slot where
  "default_prop_slot = \<lparr>ps_offsets = [], ps_values = default_storage_array\<rparr>"

text \<open>\<open>OffsetStorage::get_offset\<close> on the slot's offsets.\<close>

definition get_offset :: "offset list \<Rightarrow> nat \<Rightarrow> (offset \<times> offset) option" where
  "get_offset offsets index =
     (case get_range offsets index (index + 1 + 1) of
        Some [start, fin] \<Rightarrow> Some (start, fin)
      | _ \<Rightarrow> None)"

definition get_neighbors :: "edge_slot \<Rightarrow> offset \<Rightarrow> offset \<Rightarrow> raw_node_id list" where
  "get_neighbors slot start fin = slice_or_empty (es_neighbors slot) (offset_value start) (offset_value fin)"

definition get_value :: "edge_slot \<Rightarrow> offset \<Rightarrow> stored_property option" where
  "get_value slot index = sa_get (es_values slot) (offset_value index)"

definition get_values :: "prop_slot \<Rightarrow> offset \<Rightarrow> offset \<Rightarrow> storage_array_iter" where
  "get_values slot start fin = sa_iter_range (ps_values slot) (offset_value start) (offset_value fin)"

section \<open>The storages\<close>

type_synonym node_meta_storage = "node_meta list list"
type_synonym edge_storage = "edge_slot list"
type_synonym prop_storage = "prop_slot list"

definition node_meta_storage_new :: "('n, 'e, 'p, 'r) schema \<Rightarrow> node_meta_storage" where
  "node_meta_storage_new S = replicate (number_of_node_kinds S) []"

definition edge_storage_new :: "('n, 'e, 'p, 'r) schema \<Rightarrow> edge_storage res" where
  "edge_storage_new S =
     for_each (\<lambda>(nk, d, ek) storage.
         let slot_index = edge_storage_slot S nk d ek in
         andthen (index_at storage slot_index) (\<lambda>slot.
         store_at storage slot_index (slot\<lparr>es_values := sa_new (e_property_type S ek)\<rparr>)))
       (edge_storage_slots S)
       (replicate (edge_storage_size S) default_edge_slot)"

definition prop_storage_new :: "('n, 'e, 'p, 'r) schema \<Rightarrow> prop_storage res" where
  "prop_storage_new S =
     for_each (\<lambda>(nk, pk) storage.
         let slot_index = property_storage_slot S nk pk in
         andthen (index_at storage slot_index) (\<lambda>slot.
         store_at storage slot_index (slot\<lparr>ps_values := sa_new (p_property_type S pk)\<rparr>)))
       (property_storage_slots S)
       (replicate (property_storage_size S) default_prop_slot)"

section \<open>The contract of \<open>OffsetStorage\<close>\<close>

text \<open>
  \<open>offsets\<close> borrows the offsets and \<open>with_offsets\<close> is what a write through \<open>offsets_mut\<close> leaves: a
  lens, whose writes do not reach the slot's array. \<open>payload\<close> is that array as a list.
\<close>

locale offset_storage =
  fixes offsets :: "'s \<Rightarrow> offset list"
    and with_offsets :: "offset list \<Rightarrow> 's \<Rightarrow> 's"
    and payload :: "'s \<Rightarrow> 'a list"
  assumes offsets_with: "offsets (with_offsets os s) = os"
    and with_offsets_id: "with_offsets (offsets s) s = s"
    and payload_with: "payload (with_offsets os s) = payload s"

text \<open>A slot of \<open>n\<close> nodes without offsets has no elements; every node's row is empty.\<close>

definition slot_csr :: "offset list \<Rightarrow> 'a list \<Rightarrow> nat \<Rightarrow> 'a list list \<Rightarrow> bool" where
  "slot_csr offs xs n rows \<longleftrightarrow> length rows = n \<and>
     (if offs = [] then xs = [] \<and> rows = replicate n [] else csr offs xs rows)"

definition slot_rows :: "offset list \<Rightarrow> 'a list \<Rightarrow> nat \<Rightarrow> 'a list list" where
  "slot_rows offs xs n = (if offs = [] then replicate n [] else csr_rows offs xs)"

definition slot_ok :: "offset list \<Rightarrow> nat \<Rightarrow> nat \<Rightarrow> bool" where
  "slot_ok offs len n \<longleftrightarrow> (if offs = [] then len = 0 else csr_ok offs n len)"

lemma slot_ok_iff: "slot_ok offs (length xs) n \<longleftrightarrow> (\<exists>rows. slot_csr offs xs n rows)"
  by (auto simp: slot_ok_def slot_csr_def csr_ok_iff)

lemma slot_csr_rows: "slot_csr offs xs n rows \<Longrightarrow> slot_rows offs xs n = rows"
  by (auto simp: slot_csr_def slot_rows_def csr_decode split: if_splits)

lemma slot_ok_csr: "slot_ok offs (length xs) n \<Longrightarrow> slot_csr offs xs n (slot_rows offs xs n)"
  using slot_ok_iff slot_csr_rows by metis

lemma slot_csr_length: "slot_csr offs xs n rows \<Longrightarrow> length rows = n"
  by (simp add: slot_csr_def)

lemma slot_csr_concat: "slot_csr offs xs n rows \<Longrightarrow> concat rows = xs"
  by (auto simp: slot_csr_def csr_def split: if_splits)

lemma slot_csr_unique: "slot_csr offs xs n rows \<Longrightarrow> slot_csr offs xs n rows' \<Longrightarrow> rows = rows'"
  using slot_csr_rows by metis

lemma get_offset_Some:
  "get_offset offs i = Some (a, b) \<longleftrightarrow> Suc i < length offs \<and> a = offs ! i \<and> b = offs ! Suc i"
proof (cases "Suc i < length offs")
  case True
  then have "take 2 (drop i offs) = [offs ! i, offs ! Suc i]"
    by (simp add: numeral_2_eq_2 take_Suc_conv_app_nth)
  moreover have "get_range offs i (i + 1 + 1) = Some (take 2 (drop i offs))"
    using True by (simp add: get_range_def numeral_2_eq_2)
  ultimately show ?thesis using True by (auto simp: get_offset_def)
qed (simp add: get_offset_def get_range_def)

lemma get_offset_None: "get_offset offs i = None \<longleftrightarrow> length offs \<le> Suc i"
proof -
  have "get_offset offs i = None \<longleftrightarrow> (\<forall>a b. get_offset offs i \<noteq> Some (a, b))"
    by (cases "get_offset offs i") auto
  then show ?thesis by (auto simp: get_offset_Some not_less)
qed

context offset_storage
begin

definition rows :: "'s \<Rightarrow> nat \<Rightarrow> 'a list list" where
  "rows s n = slot_rows (offsets s) (payload s) n"

definition ok :: "'s \<Rightarrow> nat \<Rightarrow> bool" where
  "ok s n \<longleftrightarrow> slot_ok (offsets s) (length (payload s)) n"

lemma ok_csr: "ok s n \<Longrightarrow> slot_csr (offsets s) (payload s) n (rows s n)"
  unfolding ok_def rows_def by (rule slot_ok_csr)

lemma length_rows: "ok s n \<Longrightarrow> length (rows s n) = n"
  by (rule slot_csr_length [OF ok_csr])

lemma concat_rows: "ok s n \<Longrightarrow> concat (rows s n) = payload s"
  by (rule slot_csr_concat [OF ok_csr])

text \<open>The range a well-formed slot reports for a node is in order, in bounds, and is its row.\<close>

lemma get_offset_row:
  assumes "ok s n" and "get_offset (offsets s) i = Some (a, b)"
  shows "i < n" and "offset_value a \<le> offset_value b" and "offset_value b \<le> length (payload s)"
    and "slice_or_empty (payload s) (offset_value a) (offset_value b) = rows s n ! i"
    and "offset_value b - offset_value a = length (rows s n ! i)"
proof -
  have ne: "Suc i < length (offsets s)" and ab: "a = offsets s ! i" "b = offsets s ! Suc i"
    using assms(2) by (simp_all add: get_offset_Some)
  then have csr: "csr (offsets s) (payload s) (rows s n)" and n: "length (rows s n) = n"
    using ok_csr [OF assms(1)] by (auto simp: slot_csr_def split: if_splits)
  show i: "i < n" using ne csr_length [OF csr] n by simp
  show "offset_value a \<le> offset_value b" "offset_value b \<le> length (payload s)"
    "slice_or_empty (payload s) (offset_value a) (offset_value b) = rows s n ! i"
    "offset_value b - offset_value a = length (rows s n ! i)"
    using csr_row(1-4) [OF csr, of i] i n by (simp_all add: ab)
qed

lemma get_offset_in_range:
  assumes "ok s n" and "offsets s \<noteq> []" and "i < n"
  shows "\<exists>a b. get_offset (offsets s) i = Some (a, b)"
  using assms csr_length [of "offsets s" "payload s" "rows s n"] ok_csr [OF assms(1)]
  by (auto simp: get_offset_Some slot_csr_def split: if_splits)

lemma no_offsets:
  assumes "ok s n" and "offsets s = []"
  shows "payload s = []" and "rows s n = replicate n []"
  using assms by (auto simp: ok_def rows_def slot_ok_def slot_rows_def)

text \<open>Writing new offsets: the rows are those the new offsets cut the same array into.\<close>

lemma ok_with_offsets:
  "slot_csr os (payload s) n rs \<Longrightarrow> ok (with_offsets os s) n \<and> rows (with_offsets os s) n = rs"
  using slot_ok_iff [of os "payload s" n] slot_csr_rows [of os "payload s" n rs]
  by (auto simp: ok_def rows_def offsets_with payload_with)

end

text \<open>
  The elements of an edge slot are its half-edges: a neighbor, and a value unless the slot's
  type is \<open>None\<close>.
\<close>

definition edge_halves :: "edge_slot \<Rightarrow> (raw_node_id \<times> stored_property option) list" where
  "edge_halves slot =
     (if sa_typ (es_values slot) = TNone then map (\<lambda>n. (n, None)) (es_neighbors slot)
      else zip (es_neighbors slot) (map Some (sa_values (es_values slot))))"

definition prop_rows :: "prop_slot \<Rightarrow> nat \<Rightarrow> stored_property list list" where
  "prop_rows slot n = slot_rows (ps_offsets slot) (sa_values (ps_values slot)) n"

definition edge_rows :: "edge_slot \<Rightarrow> nat \<Rightarrow> (raw_node_id \<times> stored_property option) list list" where
  "edge_rows slot n = slot_rows (es_offsets slot) (edge_halves slot) n"

definition prop_slot_ok :: "property_type \<Rightarrow> nat \<Rightarrow> prop_slot \<Rightarrow> bool" where
  "prop_slot_ok t n slot \<longleftrightarrow> sa_typ (ps_values slot) = t \<and>
     slot_ok (ps_offsets slot) (length (sa_values (ps_values slot))) n"

definition edge_slot_ok :: "property_type \<Rightarrow> nat \<Rightarrow> edge_slot \<Rightarrow> bool" where
  "edge_slot_ok t n slot \<longleftrightarrow> sa_typ (es_values slot) = t \<and>
     slot_ok (es_offsets slot) (length (es_neighbors slot)) n \<and>
     (t \<noteq> TNone \<longrightarrow> length (sa_values (es_values slot)) = length (es_neighbors slot))"

interpretation ps: offset_storage ps_offsets "\<lambda>os s. s\<lparr>ps_offsets := os\<rparr>" "\<lambda>s. sa_values (ps_values s)"
  by unfold_locales simp_all

interpretation es: offset_storage es_offsets "\<lambda>os s. s\<lparr>es_offsets := os\<rparr>" edge_halves
  by unfold_locales (simp_all add: edge_halves_def)

lemma length_edge_halves:
  "edge_slot_ok t n slot \<Longrightarrow> length (edge_halves slot) = length (es_neighbors slot)"
  by (auto simp: edge_halves_def edge_slot_ok_def)

lemma edge_halves_neighbors:
  "edge_slot_ok t n slot \<Longrightarrow> map fst (edge_halves slot) = es_neighbors slot"
  by (auto simp: edge_halves_def edge_slot_ok_def comp_def)

lemma edge_halves_nth:
  assumes "edge_slot_ok t n slot" and "i < length (es_neighbors slot)"
  shows "edge_halves slot ! i = (es_neighbors slot ! i, sa_get (es_values slot) i)"
  using assms by (auto simp: edge_halves_def edge_slot_ok_def sa_get_values get_at_def)

lemma prop_rows_eq: "prop_rows = ps.rows"
  by (intro ext) (simp add: prop_rows_def ps.rows_def)

lemma edge_rows_eq: "edge_rows = es.rows"
  by (intro ext) (simp add: edge_rows_def es.rows_def)

lemma prop_slot_ok_iff: "prop_slot_ok t n slot \<longleftrightarrow> sa_typ (ps_values slot) = t \<and> ps.ok slot n"
  by (simp add: prop_slot_ok_def ps.ok_def)

lemma edge_slot_ok_ok: "edge_slot_ok t n slot \<Longrightarrow> es.ok slot n"
  using length_edge_halves by (auto simp: edge_slot_ok_def es.ok_def)

lemma prop_slot_ok_csr:
  "prop_slot_ok t n slot \<Longrightarrow> slot_csr (ps_offsets slot) (sa_values (ps_values slot)) n (prop_rows slot n)"
  unfolding prop_rows_eq by (rule ps.ok_csr) (simp add: prop_slot_ok_iff)

lemma edge_slot_ok_csr:
  "edge_slot_ok t n slot \<Longrightarrow> slot_csr (es_offsets slot) (edge_halves slot) n (edge_rows slot n)"
  unfolding edge_rows_eq by (rule es.ok_csr) (rule edge_slot_ok_ok)

section \<open>The empty storages\<close>

text \<open>A loop that writes every slot once leaves the array of what it wrote.\<close>

lemma for_each_store_all:
  assumes "\<And>k. k \<in> set ks \<Longrightarrow> f k = (\<lambda>st. andthen (index_at st (ix k)) (\<lambda>x. store_at st (ix k) (g k x)))"
    and "map ix ks = [0..<length xs]"
  shows "for_each f ks xs = Ok (map2 g ks xs)"
proof -
  have "for_each f (take m ks) xs = Ok (map2 g (take m ks) (take m xs) @ drop m xs)" if "m \<le> length ks" for m
    using that
  proof (induction m)
    case (Suc m)
    have len: "length ks = length xs" using arg_cong [OF assms(2), of length] by simp
    have ix: "ix (ks ! m) = m" using arg_cong [OF assms(2), of "\<lambda>l. l ! m"] Suc.prems len by simp
    let ?ys = "map2 g (take m ks) (take m xs) @ drop m xs"
    have ys: "length ?ys = length xs" "?ys ! m = xs ! m"
      using Suc.prems len by (simp_all add: nth_append)
    have "?ys[m := g (ks ! m) (xs ! m)] = map2 g (take (Suc m) ks) (take (Suc m) xs) @ drop (Suc m) xs"
      using Suc.prems len
      by (simp add: take_Suc_conv_app_nth list_update_append flip: Cons_nth_drop_Suc)
    then have "f (ks ! m) ?ys = Ok (map2 g (take (Suc m) ks) (take (Suc m) xs) @ drop (Suc m) xs)"
      using assms(1) [of "ks ! m"] Suc.prems len ys by (simp add: ix)
    then show ?case
      using Suc by (simp add: take_Suc_conv_app_nth for_each_append)
  qed simp
  from this [of "length ks"] show ?thesis
    using arg_cong [OF assms(2), of length] by simp
qed

lemma map2_replicate: "map2 g ks (replicate (length ks) x) = map (\<lambda>k. g k x) ks"
  by (induction ks) auto

context schema_laws
begin

lemma length_edge_slots: "length (edge_storage_slots S) = edge_storage_size S"
  using arg_cong [OF edge_slots_in_order, of length] by simp

lemma length_property_slots: "length (property_storage_slots S) = property_storage_size S"
  using arg_cong [OF property_slots_in_order, of length] by simp

lemma edge_storage_new_Ok:
  "edge_storage_new S = Ok (map (\<lambda>(nk, d, ek).
     \<lparr>es_offsets = [], es_neighbors = [], es_values = sa_new (e_property_type S ek)\<rparr>) (edge_storage_slots S))"
proof -
  have "edge_storage_new S = Ok (map2 (\<lambda>(nk, d, ek) slot. slot\<lparr>es_values := sa_new (e_property_type S ek)\<rparr>)
      (edge_storage_slots S) (replicate (edge_storage_size S) default_edge_slot))"
    unfolding edge_storage_new_def
    by (rule for_each_store_all [where ix = "\<lambda>(nk, d, ek). edge_storage_slot S nk d ek"])
      (auto simp: edge_slots_in_order Let_def)
  then show ?thesis
    using map2_replicate [of "\<lambda>(nk, d, ek) slot. slot\<lparr>es_values := sa_new (e_property_type S ek)\<rparr>"
        "edge_storage_slots S" default_edge_slot]
    by (simp add: length_edge_slots default_edge_slot_def case_prod_beta)
qed

lemma prop_storage_new_Ok:
  "prop_storage_new S = Ok (map (\<lambda>(nk, pk).
     \<lparr>ps_offsets = [], ps_values = sa_new (p_property_type S pk)\<rparr>) (property_storage_slots S))"
proof -
  have "prop_storage_new S = Ok (map2 (\<lambda>(nk, pk) slot. slot\<lparr>ps_values := sa_new (p_property_type S pk)\<rparr>)
      (property_storage_slots S) (replicate (property_storage_size S) default_prop_slot))"
    unfolding prop_storage_new_def
    by (rule for_each_store_all [where ix = "\<lambda>(nk, pk). property_storage_slot S nk pk"])
      (auto simp: property_slots_in_order Let_def)
  then show ?thesis
    using map2_replicate [of "\<lambda>(nk, pk) slot. slot\<lparr>ps_values := sa_new (p_property_type S pk)\<rparr>"
        "property_storage_slots S" default_prop_slot]
    by (simp add: length_property_slots default_prop_slot_def case_prod_beta)
qed

end

end
