(* ===== verification/Properties.thy ===== *)
theory Properties
  imports Flat_Storage
begin

text \<open>
  Property values as a caller supplies them (\<open>property.rs\<close>, \<open>builder/convert.rs\<close>, \<open>resolve_property\<close> of
  \<open>graph/mod.rs\<close>) and the nodes a diff adds (\<open>NewNode\<close> of \<open>node.rs\<close>). The \<open>BTreeMap\<close> of a new node is an
  association list in the order of its keys, which is the order the map iterates in.
\<close>

section \<open>Values\<close>

datatype property_value =
  VBool bool
| VByte u8
| VShort i16
| VInt i32
| VLong i64
| VFloat f32
| VDouble f64
| VNodeId raw_node_id
| VString bytes
| VEnum raw_enum_id

fun pv_typ :: "property_value \<Rightarrow> property_type" where
  "pv_typ (VBool v) = TBool"
| "pv_typ (VByte v) = TByte"
| "pv_typ (VShort v) = TShort"
| "pv_typ (VInt v) = TInt"
| "pv_typ (VLong v) = TLong"
| "pv_typ (VFloat v) = TFloat"
| "pv_typ (VDouble v) = TDouble"
| "pv_typ (VNodeId v) = TNodeId"
| "pv_typ (VString v) = TString"
| "pv_typ (VEnum v) = TEnum"

text \<open>The \<open>From\<close> conversions that do more than wrap their argument.\<close>

definition value_of_node :: "('n, 'e, 'p, 'r) schema \<Rightarrow> 'n node_id \<Rightarrow> property_value res" where
  "value_of_node S n = map_ok VNodeId (raw_of_node S n)"

definition value_of_enum :: "nat \<Rightarrow> nat \<Rightarrow> property_value res" where
  "value_of_enum enum_property_index variant = map_ok VEnum (raw_enum_new enum_property_index variant)"

text \<open>The \<open>TryFrom<PropertyValue>\<close> conversions.\<close>

definition value_to_bool :: "property_value \<Rightarrow> bool res" where
  "value_to_bool value = (case value of VBool v \<Rightarrow> Ok v | other \<Rightarrow> Err (invalid_property_type TBool (pv_typ other)))"

definition value_to_byte :: "property_value \<Rightarrow> u8 res" where
  "value_to_byte value = (case value of VByte v \<Rightarrow> Ok v | other \<Rightarrow> Err (invalid_property_type TByte (pv_typ other)))"

definition value_to_short :: "property_value \<Rightarrow> i16 res" where
  "value_to_short value = (case value of VShort v \<Rightarrow> Ok v | other \<Rightarrow> Err (invalid_property_type TShort (pv_typ other)))"

definition value_to_int :: "property_value \<Rightarrow> i32 res" where
  "value_to_int value = (case value of VInt v \<Rightarrow> Ok v | other \<Rightarrow> Err (invalid_property_type TInt (pv_typ other)))"

definition value_to_long :: "property_value \<Rightarrow> i64 res" where
  "value_to_long value = (case value of VLong v \<Rightarrow> Ok v | other \<Rightarrow> Err (invalid_property_type TLong (pv_typ other)))"

definition value_to_float :: "property_value \<Rightarrow> f32 res" where
  "value_to_float value = (case value of VFloat v \<Rightarrow> Ok v | other \<Rightarrow> Err (invalid_property_type TFloat (pv_typ other)))"

definition value_to_double :: "property_value \<Rightarrow> f64 res" where
  "value_to_double value = (case value of VDouble v \<Rightarrow> Ok v | other \<Rightarrow> Err (invalid_property_type TDouble (pv_typ other)))"

definition value_to_raw_node :: "property_value \<Rightarrow> raw_node_id res" where
  "value_to_raw_node value = (case value of VNodeId v \<Rightarrow> Ok v | other \<Rightarrow> Err (invalid_property_type TNodeId (pv_typ other)))"

definition value_to_string :: "property_value \<Rightarrow> bytes res" where
  "value_to_string value = (case value of VString v \<Rightarrow> Ok v | other \<Rightarrow> Err (invalid_property_type TString (pv_typ other)))"

text \<open>\<open>to_stored_property\<close>: a string goes through the pool, every other value is copied.\<close>

fun to_stored_property :: "property_value \<Rightarrow> (pool, error, stored_property) step" where
  "to_stored_property (VBool v) = sret (SBool v)"
| "to_stored_property (VByte v) = sret (SByte v)"
| "to_stored_property (VShort v) = sret (SShort v)"
| "to_stored_property (VInt v) = sret (SInt v)"
| "to_stored_property (VLong v) = sret (SLong v)"
| "to_stored_property (VFloat v) = sret (SFloat v)"
| "to_stored_property (VDouble v) = sret (SDouble v)"
| "to_stored_property (VNodeId v) = sret (SNodeId v)"
| "to_stored_property (VString s) = sbind (intern s) (\<lambda>i. sret (SStringId i))"
| "to_stored_property (VEnum v) = sret (SEnum v)"

text \<open>\<open>Graph::resolve_string\<close> and \<open>Graph::resolve_property\<close>, on the graph's pool.\<close>

definition resolve_string :: "pool \<Rightarrow> raw_string_id \<Rightarrow> bytes res" where
  "resolve_string strings string_id =
     andthen (pool_get strings string_id) (ok_or (UnresolvedStringId (raw_string_str string_id)))"

fun resolve_property :: "pool \<Rightarrow> stored_property \<Rightarrow> property_value res" where
  "resolve_property strings (SBool v) = Ok (VBool v)"
| "resolve_property strings (SByte v) = Ok (VByte v)"
| "resolve_property strings (SShort v) = Ok (VShort v)"
| "resolve_property strings (SInt v) = Ok (VInt v)"
| "resolve_property strings (SLong v) = Ok (VLong v)"
| "resolve_property strings (SFloat v) = Ok (VFloat v)"
| "resolve_property strings (SDouble v) = Ok (VDouble v)"
| "resolve_property strings (SNodeId v) = Ok (VNodeId v)"
| "resolve_property strings (SStringId i) = map_ok VString (resolve_string strings i)"
| "resolve_property strings (SEnum v) = Ok (VEnum v)"
text \<open>\<open>QuantifiedProperty\<close> and its \<open>From\<close> conversions.\<close>

datatype quantified_property = QOne property_value | QMulti "property_value list"

fun quantified_values :: "quantified_property \<Rightarrow> property_value list" where
  "quantified_values (QOne p) = [p]"
| "quantified_values (QMulti ps) = ps"

section \<open>New nodes\<close>

record ('n, 'p) new_node =
  nn_kind :: 'n
  nn_properties :: "('p \<times> property_value list) list"

definition new_node_new :: "'n \<Rightarrow> ('n, 'p) new_node" where
  "new_node_new kind = \<lparr>nn_kind = kind, nn_properties = []\<rparr>"

text \<open>\<open>BTreeMap::entry(k).or_default()\<close>, then a write to the entry.\<close>

fun btree_get :: "('k :: linorder \<times> 'v) list \<Rightarrow> 'k \<Rightarrow> 'v option" where
  "btree_get [] k = None"
| "btree_get ((k', v) # m) k = (if k = k' then Some v else btree_get m k)"

fun btree_put :: "'k :: linorder \<Rightarrow> 'v \<Rightarrow> ('k \<times> 'v) list \<Rightarrow> ('k \<times> 'v) list" where
  "btree_put k v [] = [(k, v)]"
| "btree_put k v ((k', v') # m) =
     (if k < k' then (k, v) # (k', v') # m
      else if k = k' then (k, v) # m
      else (k', v') # btree_put k v m)"

definition add_property ::
  "('n, 'e, 'p :: linorder, 'r) schema \<Rightarrow> 'p \<Rightarrow> property_value \<Rightarrow> (('n, 'p) new_node, error, unit) step" where
  "add_property S prop_kind value node =
     (if prop_kind \<notin> set (n_properties S (nn_kind node))
      then (Err (PropertyNotSupported (p_str S prop_kind) (n_str S (nn_kind node))), node)
      else let props = (case btree_get (nn_properties node) prop_kind of Some ps \<Rightarrow> ps | None \<Rightarrow> []) in
        if p_quantity S prop_kind = One \<and> props \<noteq> []
        then (Err (PropertyAlreadySet (p_str S prop_kind)), node)
        else (Ok (), node\<lparr>nn_properties := btree_put prop_kind (props @ [value]) (nn_properties node)\<rparr>))"

text \<open>What a new node may hold: declared kinds in order, at least one value each, one where the
  quantity is \<open>One\<close>. The types of the values are not checked here.\<close>

definition new_node_ok :: "('n, 'e, 'p :: linorder, 'r) schema \<Rightarrow> ('n, 'p) new_node \<Rightarrow> bool" where
  "new_node_ok S node \<longleftrightarrow> sorted_wrt (<) (map fst (nn_properties node)) \<and>
     (\<forall>(k, vs)\<in>set (nn_properties node). k \<in> set (n_properties S (nn_kind node)) \<and> vs \<noteq> [] \<and>
       (p_quantity S k = One \<longrightarrow> length vs = 1))"

lemma btree_get_Some:
  "sorted_wrt (<) (map fst m) \<Longrightarrow> btree_get m k = Some v \<longleftrightarrow> (k, v) \<in> set m"
proof (induction m k rule: btree_get.induct)
  case (2 k' v' m k)
  then show ?case by (cases "k = k'") force+
qed simp

lemma btree_get_None: "btree_get m k = None \<longleftrightarrow> k \<notin> fst ` set m"
  by (induction m k rule: btree_get.induct) auto

lemma btree_get_put: "btree_get (btree_put k v m) k' = (if k' = k then Some v else btree_get m k')"
  by (induction k v m rule: btree_put.induct) auto

lemma set_btree_put: "set (btree_put k v m) \<subseteq> insert (k, v) (set m)"
  by (induction k v m rule: btree_put.induct) auto

lemma sorted_btree_put: "sorted_wrt (<) (map fst m) \<Longrightarrow> sorted_wrt (<) (map fst (btree_put k v m))"
proof (induction k v m rule: btree_put.induct)
  case (2 k v k' v' m)
  have "\<forall>x\<in>set (btree_put k v m). x = (k, v) \<or> x \<in> set m"
    using set_btree_put [of k v m] by auto
  then show ?case using 2 by fastforce
qed simp

lemma add_property_inv:
  assumes "new_node_ok S node"
  shows "new_node_ok S (snd (add_property S k v node))"
proof -
  let ?props = "case btree_get (nn_properties node) k of Some ps \<Rightarrow> ps | None \<Rightarrow> []"
  have sorted: "sorted_wrt (<) (map fst (nn_properties node))"
    using assms by (simp add: new_node_ok_def)
  have "\<forall>x\<in>set (btree_put k (?props @ [v]) (nn_properties node)).
      x = (k, ?props @ [v]) \<or> x \<in> set (nn_properties node)"
    using set_btree_put [of k "?props @ [v]" "nn_properties node"] by auto
  then show ?thesis
    using assms sorted_btree_put [OF sorted, of k "?props @ [v]"]
    by (auto simp: add_property_def new_node_ok_def Let_def)
qed

section \<open>Storing and resolving\<close>

text \<open>A stored value that belongs to a pool resolves to the value it was made from.\<close>

definition stored_as :: "bytes list \<Rightarrow> property_value \<Rightarrow> stored_property \<Rightarrow> bool" where
  "stored_as ss v p \<longleftrightarrow> (case (v, p) of
      (VString s, SStringId i) \<Rightarrow> get_at ss (unat (rs_index i)) = Some s
    | (VString s, _) \<Rightarrow> False
    | (_, SStringId i) \<Rightarrow> False
    | _ \<Rightarrow> \<forall>pool. resolve_property pool p = Ok v)"

lemma stored_as_typ: "stored_as ss v p \<Longrightarrow> sp_typ p = pv_typ v"
  by (cases v; cases p) (simp_all add: stored_as_def)

lemma stored_as_resolve:
  "stored_as ss v p \<Longrightarrow> pool_repr pool ss \<Longrightarrow> resolve_property pool p = Ok v"
  by (cases v; cases p) (simp_all add: stored_as_def resolve_string_def pool_get_repr)

lemma stored_as_prefix: "stored_as ss v p \<Longrightarrow> prefix ss ss' \<Longrightarrow> stored_as ss' v p"
  by (cases v; cases p) (auto simp: stored_as_def get_at_eq_Some prefix_def nth_append)

lemma stored_as_unique: "distinct ss \<Longrightarrow> stored_as ss v p \<Longrightarrow> stored_as ss v q \<Longrightarrow> p = q"
proof -
  have "i = j" if "distinct ss" "get_at ss (unat (rs_index i)) = Some s" "get_at ss (unat (rs_index j)) = Some s"
    for i j s
    using that by (cases i; cases j) (auto simp: get_at_eq_Some nth_eq_iff_index_eq word_unat_eq_iff)
  then show "distinct ss \<Longrightarrow> stored_as ss v p \<Longrightarrow> stored_as ss v q \<Longrightarrow> p = q"
    by (cases v; cases p; cases q) (simp_all add: stored_as_def)
qed

text \<open>\<open>to_stored_property\<close> succeeds or panics with a full pool, and only appends to the pool.\<close>

lemma to_stored_cases:
  assumes "pool_repr pool ss"
  obtains (stored) p pool' ss' where "to_stored_property v pool = (Ok p, pool')" "pool_repr pool' ss'"
      "prefix ss ss'" "stored_as ss' v p"
  | (full) "to_stored_property v pool = (Panic, pool)"
proof (cases "\<exists>s. v = VString s")
  case True
  then obtain s where v: "v = VString s" by blast
  show ?thesis
    using assms
  proof (cases rule: sp.put_cases [where s = s])
    case (stored i p' ss')
    then show ?thesis
      by (intro that(1) [of "SStringId i" p' ss']) (simp_all add: v stored_as_def get_at_eq_Some)
  next
    case full
    then show ?thesis by (intro that(2)) (simp add: v)
  qed
next
  case False
  then show ?thesis
    using assms by (cases v) (auto intro!: that(1) [of _ pool ss] simp: stored_as_def)
qed

lemma to_stored_extends: "sp.extends ss pool \<Longrightarrow> sp.extends ss (snd (to_stored_property v pool))"
proof -
  assume "sp.extends ss pool"
  then obtain ss' where ss': "pool_repr pool ss'" "prefix ss ss'" by (auto simp: sp.extends_def)
  show ?thesis
    using ss'(1)
  proof (cases rule: to_stored_cases [where v = v])
    case (stored p pool' ss'')
    then show ?thesis using ss'(2) prefix_order.trans by (auto simp: sp.extends_def)
  qed (use ss' in \<open>auto simp: sp.extends_def\<close>)
qed

text \<open>Rust moves the string in and gives an equal one back: storing then resolving is the identity.\<close>

lemma resolve_stored:
  assumes "pool_repr pool ss" and "to_stored_property v pool = (Ok p, pool')"
  shows "resolve_property pool' p = Ok v" and "sp_typ p = pv_typ v"
  using assms(1)
proof (atomize (full), cases rule: to_stored_cases [where v = v])
  case (stored p' pool'' ss')
  then show "resolve_property pool' p = Ok v \<and> sp_typ p = pv_typ v"
    using assms(2) stored_as_resolve stored_as_typ by auto
qed (use assms(2) in simp)

end
