(* ===== verification/Graph.thy ===== *)
theory Graph
  imports Properties Simple_Schema
begin

text \<open>
  The graph and its queries (\<open>graph/mod.rs\<close>, and the trait methods of \<open>node.rs\<close> and \<open>edge.rs\<close> that
  call them). An iterator a query returns is modelled by the list a loop over it visits, with a
  panic raised inside it as the outcome of the query. \<open>graph_ok\<close> is the structural invariant: every
  slot stands for rows, one per node of its kind, and every neighbor exists.
\<close>

section \<open>The graph\<close>

record graph =
  g_node_meta :: node_meta_storage
  g_edges :: edge_storage
  g_props :: prop_storage
  g_strings :: pool

definition graph_new :: "('n, 'e, 'p, 'r) schema \<Rightarrow> graph res" where
  "graph_new S =
     andthen (edge_storage_new S) (\<lambda>es.
     andthen (prop_storage_new S) (\<lambda>ps.
     Ok \<lparr>g_node_meta = node_meta_storage_new S, g_edges = es, g_props = ps, g_strings = pool_new\<rparr>))"

definition graph_resolve_string :: "graph \<Rightarrow> raw_string_id \<Rightarrow> bytes res" where
  "graph_resolve_string g = resolve_string (g_strings g)"

definition graph_resolve_property :: "graph \<Rightarrow> stored_property \<Rightarrow> property_value res" where
  "graph_resolve_property g = resolve_property (g_strings g)"

section \<open>Nodes\<close>

text \<open>The free function \<open>node_is_deleted\<close>: a node past the end of its kind counts as deleted.\<close>

definition node_is_deleted :: "('n, 'e, 'p, 'r) schema \<Rightarrow> node_meta_storage \<Rightarrow> 'n node_id \<Rightarrow> bool res" where
  "node_is_deleted S nodes node_ref =
     andthen (index_at nodes (n_index S (nid_kind node_ref))) (\<lambda>metas.
     Ok (case get_at metas (nid_seq node_ref) of Some m \<Rightarrow> is_deleted m | None \<Rightarrow> True))"

definition is_node_deleted :: "('n, 'e, 'p, 'r) schema \<Rightarrow> graph \<Rightarrow> 'n node_id \<Rightarrow> bool res" where
  "is_node_deleted S g node_ref = node_is_deleted S (g_node_meta g) node_ref"

definition node_count_by_kind :: "('n, 'e, 'p, 'r) schema \<Rightarrow> graph \<Rightarrow> 'n \<Rightarrow> nat res" where
  "node_count_by_kind S g nk =
     map_ok (\<lambda>metas. length (filter (\<lambda>m. \<not> is_deleted m) metas)) (index_at (g_node_meta g) (n_index S nk))"

definition node_count :: "('n, 'e, 'p, 'r) schema \<Rightarrow> graph \<Rightarrow> nat res" where
  "node_count S g = map_ok sum_list (map_each (node_count_by_kind S g) (n_all S))"

definition nodes_by_kind :: "('n, 'e, 'p, 'r) schema \<Rightarrow> graph \<Rightarrow> 'n \<Rightarrow> 'n node_id list res" where
  "nodes_by_kind S g nk =
     map_ok (\<lambda>metas. map (\<lambda>(seq, _). NodeId nk seq)
         (filter (\<lambda>(_, meta). \<not> is_deleted meta) (enumerate 0 metas)))
       (index_at (g_node_meta g) (n_index S nk))"

definition nodes_by_kind_with_deleted :: "('n, 'e, 'p, 'r) schema \<Rightarrow> graph \<Rightarrow> 'n \<Rightarrow> 'n node_id list res" where
  "nodes_by_kind_with_deleted S g nk =
     map_ok (\<lambda>metas. map (\<lambda>(seq, _). NodeId nk seq) (enumerate 0 metas))
       (index_at (g_node_meta g) (n_index S nk))"

definition node_count_by_kind_with_deleted :: "('n, 'e, 'p, 'r) schema \<Rightarrow> graph \<Rightarrow> 'n \<Rightarrow> nat res" where
  "node_count_by_kind_with_deleted S g nk = map_ok length (index_at (g_node_meta g) (n_index S nk))"

section \<open>Properties of a node\<close>

definition get_node_property ::
  "('n, 'e, 'p, 'r) schema \<Rightarrow> graph \<Rightarrow> raw_node_id \<Rightarrow> 'p \<Rightarrow> stored_property list res" where
  "get_node_property S g node_ref property_kind =
     andthen (resolve_node_kind S node_ref) (\<lambda>kind.
     andthen (index_at (g_props g) (property_storage_slot S kind property_kind)) (\<lambda>slot.
     andthen (ok_or PropertyIndexNotFound (get_offset (ps_offsets slot) (raw_seq node_ref))) (\<lambda>(start, fin).
     if start > fin \<or> offset_value fin > sa_len (ps_values slot)
     then Err (PropertyIndexOutOfBounds (offset_value start) (offset_value fin) (sa_len (ps_values slot)))
     else Ok (iter_items (get_values slot start fin)))))"

section \<open>Edges of a node\<close>

definition get_edges_offset :: "raw_node_id \<Rightarrow> edge_slot \<Rightarrow> (offset \<times> offset) res" where
  "get_edges_offset node slot =
     (if es_offsets slot = [] then Ok (offset_zero, offset_zero)
      else case get_offset (es_offsets slot) (raw_seq node) of
        Some (start, fin) \<Rightarrow> Ok (start, fin)
      | None \<Rightarrow> Err (NodeOffsetNotFound (raw_seq node)))"

text \<open>\<open>expect\<close> on a \<open>Result\<close>: an error is a panic.\<close>

fun expect_ok :: "('e, 'a) outcome \<Rightarrow> ('f, 'a) outcome" where
  "expect_ok (Ok a) = Ok a"
| "expect_ok (Err e) = Panic"
| "expect_ok Panic = Panic"
| "expect_ok Diverge = Diverge"

definition get_edges_with_deleted ::
  "('n, 'e, 'p, 'r) schema \<Rightarrow> graph \<Rightarrow> 'n node_id \<Rightarrow> 'e \<Rightarrow> dir \<Rightarrow> ('n, 'e) edge_id list res" where
  "get_edges_with_deleted S g near edge_kind d =
     andthen (index_at (g_edges g) (edge_storage_slot S (nid_kind near) d edge_kind)) (\<lambda>slot.
     andthen (raw_of_node S near) (\<lambda>raw.
     andthen (get_edges_offset raw slot) (\<lambda>(start, fin).
     andthen (offset_checked_sub fin start) (\<lambda>_.
     map_each (\<lambda>(seq, nb).
         andthen (expect_ok (node_of_raw S nb)) (\<lambda>far.
         Ok (from_half near far edge_kind d seq)))
       (enumerate 0 (get_neighbors slot start fin))))))"

fun filter_each :: "('x \<Rightarrow> ('e, bool) outcome) \<Rightarrow> 'x list \<Rightarrow> ('e, 'x list) outcome" where
  "filter_each p [] = Ok []"
| "filter_each p (x # xs) =
     andthen (p x) (\<lambda>b. map_ok (\<lambda>ys. if b then x # ys else ys) (filter_each p xs))"

definition get_edges ::
  "('n, 'e, 'p, 'r) schema \<Rightarrow> graph \<Rightarrow> 'n node_id \<Rightarrow> 'e \<Rightarrow> dir \<Rightarrow> ('n, 'e) edge_id list res" where
  "get_edges S g near edge_kind d =
     andthen (get_edges_with_deleted S g near edge_kind d)
       (filter_each (\<lambda>e. map_ok Not (is_node_deleted S g (neighbor e))))"

definition get_edges_count ::
  "('n, 'e, 'p, 'r) schema \<Rightarrow> graph \<Rightarrow> raw_node_id \<Rightarrow> 'e \<Rightarrow> dir \<Rightarrow> nat res" where
  "get_edges_count S g node_ref edge_kind d =
     andthen (node_of_raw S node_ref) (\<lambda>n.
     case get_edges S g n edge_kind d of
       Ok es \<Rightarrow> Ok (length es)
     | Err (NodeOffsetNotFound _) \<Rightarrow> Ok 0
     | Err e \<Rightarrow> Err e
     | Panic \<Rightarrow> Panic
     | Diverge \<Rightarrow> Diverge)"

definition get_edges_count_with_deleted ::
  "('n, 'e, 'p, 'r) schema \<Rightarrow> graph \<Rightarrow> raw_node_id \<Rightarrow> 'e \<Rightarrow> dir \<Rightarrow> nat res" where
  "get_edges_count_with_deleted S g node_ref edge_kind d =
     andthen (resolve_node_kind S node_ref) (\<lambda>kind.
     andthen (index_at (g_edges g) (edge_storage_slot S kind d edge_kind)) (\<lambda>slot.
     case get_edges_offset node_ref slot of
       Ok (start, fin) \<Rightarrow> offset_checked_sub fin start
     | Err _ \<Rightarrow> Ok 0
     | Panic \<Rightarrow> Panic
     | Diverge \<Rightarrow> Diverge))"

definition get_edge_property ::
  "('n, 'e, 'p, 'r) schema \<Rightarrow> graph \<Rightarrow> ('n, 'e) edge_id \<Rightarrow> stored_property option res" where
  "get_edge_property S g edge =
     andthen (raw_of_node S (src_node edge)) (\<lambda>src.
     andthen (raw_of_node S (dst_node edge)) (\<lambda>dst.
     let (node_ref, d, _, _) = orient_edge (edge_id_dir edge) src dst in
     andthen (resolve_node_kind S node_ref) (\<lambda>node_kind.
     andthen (index_at (g_edges g) (edge_storage_slot S node_kind d (edge_id_kind edge))) (\<lambda>slot.
     andthen (get_edges_offset node_ref slot) (\<lambda>(start, _).
     andthen (offset_new (offset_value start + edge_id_seq edge)) (\<lambda>i.
     Ok (get_value slot i)))))))"

text \<open>The provided methods of \<open>StoredNode\<close> and \<open>StoredEdge\<close>, for a handle on \<open>(g, kind, seq)\<close>.\<close>

definition stored_node_id :: "('n, 'e, 'p, 'r) schema \<Rightarrow> 'n \<Rightarrow> nat \<Rightarrow> raw_node_id res" where
  "stored_node_id S kind seq = raw_node_new (n_index S kind) seq"

definition get_edges_out ::
  "('n, 'e, 'p, 'r) schema \<Rightarrow> graph \<Rightarrow> 'n \<Rightarrow> nat \<Rightarrow> 'e \<Rightarrow> ('n, 'e) edge_id list res" where
  "get_edges_out S g kind seq edge_kind = get_edges S g (NodeId kind seq) edge_kind src_half"

definition get_edges_in ::
  "('n, 'e, 'p, 'r) schema \<Rightarrow> graph \<Rightarrow> 'n \<Rightarrow> nat \<Rightarrow> 'e \<Rightarrow> ('n, 'e) edge_id list res" where
  "get_edges_in S g kind seq edge_kind = get_edges S g (NodeId kind seq) edge_kind dst_half"

definition get_edges_out_with_deleted ::
  "('n, 'e, 'p, 'r) schema \<Rightarrow> graph \<Rightarrow> 'n \<Rightarrow> nat \<Rightarrow> 'e \<Rightarrow> ('n, 'e) edge_id list res" where
  "get_edges_out_with_deleted S g kind seq edge_kind =
     get_edges_with_deleted S g (NodeId kind seq) edge_kind src_half"

definition get_edges_in_with_deleted ::
  "('n, 'e, 'p, 'r) schema \<Rightarrow> graph \<Rightarrow> 'n \<Rightarrow> nat \<Rightarrow> 'e \<Rightarrow> ('n, 'e) edge_id list res" where
  "get_edges_in_with_deleted S g kind seq edge_kind =
     get_edges_with_deleted S g (NodeId kind seq) edge_kind dst_half"

section \<open>The structural invariant\<close>

definition kind_count :: "('n, 'e, 'p, 'r) schema \<Rightarrow> graph \<Rightarrow> 'n \<Rightarrow> nat" where
  "kind_count S g nk = length (g_node_meta g ! n_index S nk)"

definition edge_slot_of :: "('n, 'e, 'p, 'r) schema \<Rightarrow> graph \<Rightarrow> 'n \<Rightarrow> dir \<Rightarrow> 'e \<Rightarrow> edge_slot" where
  "edge_slot_of S g nk d ek = g_edges g ! edge_storage_slot S nk d ek"

definition prop_slot_of :: "('n, 'e, 'p, 'r) schema \<Rightarrow> graph \<Rightarrow> 'n \<Rightarrow> 'p \<Rightarrow> prop_slot" where
  "prop_slot_of S g nk pk = g_props g ! property_storage_slot S nk pk"

definition node_exists :: "('n, 'e, 'p, 'r) schema \<Rightarrow> graph \<Rightarrow> raw_node_id \<Rightarrow> bool" where
  "node_exists S g r \<longleftrightarrow> (case n_from_index S (raw_kind r) of
     Some nk \<Rightarrow> raw_seq r < kind_count S g nk | None \<Rightarrow> False)"

definition graph_ok :: "('n, 'e, 'p, 'r) schema \<Rightarrow> graph \<Rightarrow> bool" where
  "graph_ok S g \<longleftrightarrow>
     length (g_node_meta g) = number_of_node_kinds S \<and>
     length (g_edges g) = edge_storage_size S \<and>
     length (g_props g) = property_storage_size S \<and>
     sum_list (map length (g_node_meta g)) \<le> u32_max \<and>
     (\<forall>nk d ek. edge_slot_ok (e_property_type S ek) (kind_count S g nk) (edge_slot_of S g nk d ek)) \<and>
     (\<forall>nk pk. prop_slot_ok (p_property_type S pk) (kind_count S g nk) (prop_slot_of S g nk pk)) \<and>
     (\<forall>nk d ek. \<forall>r\<in>set (es_neighbors (edge_slot_of S g nk d ek)). node_exists S g r) \<and>
     (\<exists>ss. pool_repr (g_strings g) ss)"

text \<open>The abstract graph: the rows of each slot.\<close>

definition edge_row :: "('n, 'e, 'p, 'r) schema \<Rightarrow> graph \<Rightarrow> 'n \<Rightarrow> dir \<Rightarrow> 'e \<Rightarrow> nat \<Rightarrow>
    (raw_node_id \<times> stored_property option) list" where
  "edge_row S g nk d ek seq = edge_rows (edge_slot_of S g nk d ek) (kind_count S g nk) ! seq"

definition prop_row :: "('n, 'e, 'p, 'r) schema \<Rightarrow> graph \<Rightarrow> 'n \<Rightarrow> 'p \<Rightarrow> nat \<Rightarrow> stored_property list" where
  "prop_row S g nk pk seq = prop_rows (prop_slot_of S g nk pk) (kind_count S g nk) ! seq"

lemma graph_okD:
  assumes "graph_ok S g"
  shows "length (g_node_meta g) = number_of_node_kinds S"
    and "length (g_edges g) = edge_storage_size S"
    and "length (g_props g) = property_storage_size S"
    and "edge_slot_ok (e_property_type S ek) (kind_count S g nk) (edge_slot_of S g nk d ek)"
    and "prop_slot_ok (p_property_type S pk) (kind_count S g nk) (prop_slot_of S g nk pk)"
    and "r \<in> set (es_neighbors (edge_slot_of S g nk d ek)) \<Longrightarrow> node_exists S g r"
    and "\<exists>ss. pool_repr (g_strings g) ss"
    and "sum_list (map length (g_node_meta g)) \<le> u32_max"
  using assms unfolding graph_ok_def by blast+

lemma expect_ok_eq_Ok [simp]: "expect_ok x = Ok a \<longleftrightarrow> x = Ok a"
  by (cases x) simp_all

lemma filter_each_Ok: "(\<And>x. x \<in> set xs \<Longrightarrow> p x = Ok (q x)) \<Longrightarrow> filter_each p xs = Ok (filter q xs)"
  by (induction xs) auto

lemma length_filter_map_eq: "map P xs = map Q ys \<Longrightarrow> length (filter P xs) = length (filter Q ys)"
proof -
  have "length (filter R zs) = length (filter id (map R zs))" for R :: "'z \<Rightarrow> bool" and zs
    by (simp add: filter_map)
  then show "map P xs = map Q ys \<Longrightarrow> length (filter P xs) = length (filter Q ys)" by metis
qed

lemma map_each_enumerate:
  assumes "\<And>j x. j < length xs \<Longrightarrow> f (n + j, xs ! j) = Ok (h (n + j) (xs ! j))"
  shows "map_each f (enumerate n xs) = Ok (map (\<lambda>j. h (n + j) (xs ! j)) [0..<length xs])"
proof -
  have "map_each f (enumerate n xs) = Ok (map (\<lambda>(j, x). h j x) (enumerate n xs))"
  proof (rule map_each_Ok_cong)
    fix y assume "y \<in> set (enumerate n xs)"
    then obtain j where "j < length xs" and "y = (n + j, xs ! j)"
      by (auto simp: in_set_conv_nth nth_enumerate_eq)
    then show "f y = Ok (case y of (j, x) \<Rightarrow> h j x)" using assms by simp
  qed
  then show ?thesis by (auto simp: nth_enumerate_eq intro!: nth_equalityI)
qed

section \<open>The queries on a well-formed graph\<close>

context schema_laws
begin

lemma index_edges: "graph_ok S g \<Longrightarrow> index_at (g_edges g) (edge_storage_slot S nk d ek) = Ok (edge_slot_of S g nk d ek)"
  using edge_slot_less [of nk d ek] graph_okD(2) [of S g] by (simp add: edge_slot_of_def)

lemma index_props: "graph_ok S g \<Longrightarrow> index_at (g_props g) (property_storage_slot S nk pk) = Ok (prop_slot_of S g nk pk)"
  using property_slot_less [of nk pk] graph_okD(3) [of S g] by (simp add: prop_slot_of_def)

lemma index_meta: "graph_ok S g \<Longrightarrow> index_at (g_node_meta g) (n_index S nk) = Ok (g_node_meta g ! n_index S nk)"
  using node_index_less [of nk] graph_okD(1) [of S g] by simp

lemma kind_count_le: "graph_ok S g \<Longrightarrow> kind_count S g nk \<le> u32_max"
proof -
  assume ok: "graph_ok S g"
  have "n_index S nk < length (map length (g_node_meta g))"
    using node_index_less [of nk] graph_okD(1) [OF ok] by simp
  then have "map length (g_node_meta g) ! n_index S nk \<le> sum_list (map length (g_node_meta g))"
    by (intro elem_le_sum_list)
  then show ?thesis
    using graph_okD(8) [OF ok] node_index_less [of nk] graph_okD(1) [OF ok] by (simp add: kind_count_def)
qed

lemma node_exists_iff:
  "node_exists S g r \<longleftrightarrow> (\<exists>n. node_of_raw S r = Ok n \<and> nid_seq n < kind_count S g (nid_kind n))"
proof (cases "n_from_index S (raw_kind r)")
  case None
  then show ?thesis by (simp add: node_exists_def node_of_raw_def resolve_node_kind_def)
next
  case (Some nk)
  then have "node_of_raw S r = Ok (NodeId nk (raw_seq r))"
    by (simp add: node_of_raw_def resolve_node_kind_def)
  then show ?thesis using Some by (simp add: node_exists_def)
qed

text \<open>The node a stored neighbor names.\<close>

definition typed_node :: "raw_node_id \<Rightarrow> 'n node_id" where
  "typed_node r = NodeId (n_all S ! raw_kind r) (raw_seq r)"

lemma typed_node_Ok: "node_of_raw S r = Ok n \<Longrightarrow> typed_node r = n"
  using node_laws(2) [of "nid_kind n"] by (cases n) (auto simp: typed_node_def node_of_raw_Ok)

lemma node_exists_typed:
  "node_exists S g r \<Longrightarrow> node_of_raw S r = Ok (typed_node r) \<and> nid_seq (typed_node r) < kind_count S g (nid_kind (typed_node r))"
  using typed_node_Ok by (auto simp: node_exists_iff)

text \<open>The offsets of a node of a well-formed slot, when it has any.\<close>

lemma edge_offsets_cases:
  assumes "graph_ok S g" and "seq < kind_count S g nk"
  obtains (none) "es_offsets (edge_slot_of S g nk d ek) = []" "edge_row S g nk d ek seq = []"
    "es_neighbors (edge_slot_of S g nk d ek) = []"
  | (some) a b where "get_offset (es_offsets (edge_slot_of S g nk d ek)) seq = Some (a, b)"
    "offset_value a \<le> offset_value b"
    "slice_or_empty (edge_halves (edge_slot_of S g nk d ek)) (offset_value a) (offset_value b) = edge_row S g nk d ek seq"
    "offset_value b \<le> length (edge_halves (edge_slot_of S g nk d ek))"
    "offset_value b - offset_value a = length (edge_row S g nk d ek seq)"
    "es_offsets (edge_slot_of S g nk d ek) \<noteq> []"
proof (cases "es_offsets (edge_slot_of S g nk d ek) = []")
  case True
  have ok: "edge_slot_ok (e_property_type S ek) (kind_count S g nk) (edge_slot_of S g nk d ek)"
    using assms(1) by (rule graph_okD)
  show ?thesis
    using True assms(2) es.no_offsets [OF edge_slot_ok_ok [OF ok] True] ok
    by (intro none) (simp_all add: edge_row_def edge_rows_eq edge_slot_ok_def slot_ok_def)
next
  case False
  have ok: "es.ok (edge_slot_of S g nk d ek) (kind_count S g nk)"
    using graph_okD(4) [OF assms(1)] by (rule edge_slot_ok_ok)
  then obtain a b where ab: "get_offset (es_offsets (edge_slot_of S g nk d ek)) seq = Some (a, b)"
    using es.get_offset_in_range [OF ok False assms(2)] by blast
  show ?thesis
    using es.get_offset_row [OF ok ab] False by (intro some [OF ab]) (simp_all add: edge_row_def edge_rows_eq)
qed

lemma map_slice: "map f (slice_or_empty xs a b) = slice_or_empty (map f xs) a b"
  by (rule map_slice_or_empty)

lemma raw_of_node_in_range:
  assumes "graph_ok S g" and "nid_seq n < kind_count S g (nid_kind n)"
  obtains r where "raw_of_node S n = Ok r" "raw_kind r = n_index S (nid_kind n)" "raw_seq r = nid_seq n"
    "node_exists S g r"
proof -
  have "nid_seq n \<le> u32_max" using assms(2) kind_count_le [OF assms(1), of "nid_kind n"] by linarith
  then have r: "raw_of_node S n = Ok (RawNodeId (of_nat (n_index S (nid_kind n))) (of_nat (nid_seq n)))"
    by (simp add: raw_of_node_def)
  then show ?thesis
    using that [OF r] assms(2) raw_node_roundtrip [OF r] by (simp add: raw_of_node_Ok node_exists_iff)
qed

text \<open>The edges of a node are its row, each half-edge with its position and its neighbor.\<close>

definition row_edges :: "'n node_id \<Rightarrow> 'e \<Rightarrow> dir \<Rightarrow> raw_node_id list \<Rightarrow> ('n, 'e) edge_id list" where
  "row_edges n ek d nbs = map (\<lambda>j. from_half n (typed_node (nbs ! j)) ek d j) [0..<length nbs]"

lemma row_neighbors_exist:
  assumes "graph_ok S g" and "seq < kind_count S g nk" and "h \<in> set (edge_row S g nk d ek seq)"
  shows "node_exists S g (fst h)"
proof -
  let ?slot = "edge_slot_of S g nk d ek"
  have ok: "es.ok ?slot (kind_count S g nk)"
    using graph_okD(4) [OF assms(1)] by (rule edge_slot_ok_ok)
  have "edge_row S g nk d ek seq \<in> set (es.rows ?slot (kind_count S g nk))"
    using assms(2) es.length_rows [OF ok] by (simp add: edge_row_def edge_rows_eq)
  then have "h \<in> set (edge_halves ?slot)"
    using assms(3) es.concat_rows [OF ok] by (metis UN_I set_concat)
  then have "fst h \<in> set (map fst (edge_halves ?slot))" by simp
  then show ?thesis
    using graph_okD(4,6) [OF assms(1)] edge_halves_neighbors by metis
qed

lemma get_edges_with_deleted_row:
  assumes ok: "graph_ok S g" and n: "nid_seq n < kind_count S g (nid_kind n)"
  shows "get_edges_with_deleted S g n ek d =
    Ok (row_edges n ek d (map fst (edge_row S g (nid_kind n) d ek (nid_seq n))))"
proof -
  let ?row = "edge_row S g (nid_kind n) d ek (nid_seq n)"
  let ?slot = "edge_slot_of S g (nid_kind n) d ek"
  obtain r where r: "raw_of_node S n = Ok r" "raw_seq r = nid_seq n"
    using raw_of_node_in_range [OF ok n] by blast
  have nbs: "map fst (edge_halves ?slot) = es_neighbors ?slot"
    using graph_okD(4) [OF ok] by (rule edge_halves_neighbors)
  have conv: "map_each (\<lambda>(seq, nb). andthen (expect_ok (node_of_raw S nb)) (\<lambda>far. Ok (from_half n far ek d seq)))
      (enumerate 0 (map fst ?row)) = Ok (row_edges n ek d (map fst ?row))"
  proof -
    have "node_of_raw S (map fst ?row ! j) = Ok (typed_node (map fst ?row ! j))" if "j < length ?row" for j
      using row_neighbors_exist [OF ok n nth_mem [OF that]] node_exists_typed that by simp
    then show ?thesis
      by (subst map_each_enumerate [where h = "\<lambda>j nb. from_half n (typed_node nb) ek d j"])
        (simp_all add: row_edges_def)
  qed
  show ?thesis
  proof (cases rule: edge_offsets_cases [OF ok n, of d ek])
    case 1
    then show ?thesis
      using conv by (simp add: get_edges_with_deleted_def index_edges [OF ok] r get_edges_offset_def
          offset_checked_sub_cases get_neighbors_def slice_or_empty_def get_range_def)
  next
    case (2 a b)
    have "get_neighbors ?slot a b = map fst ?row"
      using 2(3) by (simp add: get_neighbors_def map_slice nbs flip: 2(3))
    then show ?thesis
      using conv 2 by (simp add: get_edges_with_deleted_def index_edges [OF ok] r get_edges_offset_def
          offset_checked_sub_cases)
  qed
qed

lemma is_node_deleted_Ok:
  "graph_ok S g \<Longrightarrow> is_node_deleted S g n = Ok (case get_at (g_node_meta g ! n_index S (nid_kind n)) (nid_seq n) of
     Some m \<Rightarrow> is_deleted m | None \<Rightarrow> True)"
  by (simp add: is_node_deleted_def node_is_deleted_def index_meta)

definition deleted :: "graph \<Rightarrow> 'n node_id \<Rightarrow> bool" where
  "deleted g n \<longleftrightarrow> is_node_deleted S g n = Ok True"

lemma is_node_deleted_deleted: "graph_ok S g \<Longrightarrow> is_node_deleted S g n = Ok (deleted g n)"
  by (simp add: deleted_def is_node_deleted_Ok)

lemma get_edges_row:
  assumes "graph_ok S g" and "nid_seq n < kind_count S g (nid_kind n)"
  shows "get_edges S g n ek d =
    Ok (filter (\<lambda>e. \<not> deleted g (neighbor e))
      (row_edges n ek d (map fst (edge_row S g (nid_kind n) d ek (nid_seq n)))))"
  unfolding get_edges_def get_edges_with_deleted_row [OF assms]
  using filter_each_Ok [of _ "\<lambda>e. map_ok Not (is_node_deleted S g (neighbor e))" "\<lambda>e. \<not> deleted g (neighbor e)"]
  by (simp add: is_node_deleted_deleted [OF assms(1)])

text \<open>A node past the end of its kind: an error, or no edges where the slot has no offsets.\<close>

lemma get_edges_offset_out_of_range:
  assumes "graph_ok S g" and "kind_count S g nk \<le> raw_seq r"
  shows "get_edges_offset r (edge_slot_of S g nk d ek) =
    (if es_offsets (edge_slot_of S g nk d ek) = [] then Ok (offset_zero, offset_zero)
     else Err (NodeOffsetNotFound (raw_seq r)))"
proof (cases "es_offsets (edge_slot_of S g nk d ek) = []")
  case False
  have "es.ok (edge_slot_of S g nk d ek) (kind_count S g nk)"
    using graph_okD(4) [OF assms(1)] by (rule edge_slot_ok_ok)
  then have "get_offset (es_offsets (edge_slot_of S g nk d ek)) (raw_seq r) = None"
    using es.get_offset_row(1) assms(2) by (metis leD not_None_eq prod.exhaust)
  then show ?thesis using False by (simp add: get_edges_offset_def)
qed (simp add: get_edges_offset_def)

lemma get_edges_count_with_deleted_row:
  assumes ok: "graph_ok S g" and r: "node_of_raw S r = Ok n"
  shows "get_edges_count_with_deleted S g r ek d =
    Ok (if nid_seq n < kind_count S g (nid_kind n)
        then length (edge_row S g (nid_kind n) d ek (nid_seq n)) else 0)"
proof -
  have k: "resolve_node_kind S r = Ok (nid_kind n)" and seq: "raw_seq r = nid_seq n"
    using r by (auto simp: node_of_raw_def andthen_eq_Ok)
  show ?thesis
  proof (cases "nid_seq n < kind_count S g (nid_kind n)")
    case True
    show ?thesis
      by (cases rule: edge_offsets_cases [OF ok True, of d ek])
        (simp_all add: get_edges_count_with_deleted_def k seq index_edges [OF ok] True get_edges_offset_def
          offset_checked_sub_cases)
  next
    case False
    then show ?thesis
      using get_edges_offset_out_of_range [OF ok, of "nid_kind n" r d ek]
      by (simp add: get_edges_count_with_deleted_def k seq index_edges [OF ok] offset_checked_sub_cases)
  qed
qed

lemma get_edges_count_row:
  assumes ok: "graph_ok S g" and r: "node_of_raw S r = Ok n" and n: "nid_seq n < kind_count S g (nid_kind n)"
  shows "get_edges_count S g r ek d =
    Ok (length (filter (\<lambda>h. \<not> deleted g (typed_node (fst h))) (edge_row S g (nid_kind n) d ek (nid_seq n))))"
proof -
  let ?row = "edge_row S g (nid_kind n) d ek (nid_seq n)"
  have "map (\<lambda>e. \<not> deleted g (neighbor e)) (row_edges n ek d (map fst ?row)) =
      map (\<lambda>h. \<not> deleted g (typed_node (fst h))) ?row"
    by (intro nth_equalityI) (simp_all add: row_edges_def)
  then have "length (filter (\<lambda>e. \<not> deleted g (neighbor e)) (row_edges n ek d (map fst ?row))) =
      length (filter (\<lambda>h. \<not> deleted g (typed_node (fst h))) ?row)"
    by (rule length_filter_map_eq)
  then show ?thesis by (simp add: get_edges_count_def r get_edges_row [OF ok n])
qed

lemma get_edge_property_row:
  assumes ok: "graph_ok S g" and n: "nid_seq n < kind_count S g (nid_kind n)"
    and j: "j < length (edge_row S g (nid_kind n) d ek (nid_seq n))"
  shows "get_edge_property S g (from_half n (typed_node (fst (edge_row S g (nid_kind n) d ek (nid_seq n) ! j))) ek d j) =
    Ok (snd (edge_row S g (nid_kind n) d ek (nid_seq n) ! j))"
proof -
  let ?row = "edge_row S g (nid_kind n) d ek (nid_seq n)"
  let ?slot = "edge_slot_of S g (nid_kind n) d ek"
  let ?far = "typed_node (fst (?row ! j))"
  obtain r where r: "raw_of_node S n = Ok r" "raw_kind r = n_index S (nid_kind n)" "raw_seq r = nid_seq n"
    using raw_of_node_in_range [OF ok n] by blast
  have "nid_seq ?far < kind_count S g (nid_kind ?far)"
    using row_neighbors_exist [OF ok n nth_mem [OF j]] node_exists_typed by blast
  then obtain f where f: "raw_of_node S ?far = Ok f"
    using raw_of_node_in_range [OF ok] by blast
  have k: "resolve_node_kind S r = Ok (nid_kind n)"
    by (simp add: resolve_node_kind_Ok r)
  obtain a b where ab: "get_offset (es_offsets ?slot) (nid_seq n) = Some (a, b)"
    "offset_value a \<le> offset_value b" "offset_value b \<le> length (edge_halves ?slot)"
    "slice_or_empty (edge_halves ?slot) (offset_value a) (offset_value b) = ?row"
    "offset_value b - offset_value a = length ?row" "es_offsets ?slot \<noteq> []"
    using edge_offsets_cases [OF ok n, of d ek] j by (metis length_0_conv not_less0)
  have le: "offset_value a + j < length (edge_halves ?slot)" using ab j by linarith
  have slot: "edge_slot_ok (e_property_type S ek) (kind_count S g (nid_kind n)) ?slot"
    using ok by (rule graph_okD)
  have row: "?row = take (offset_value b - offset_value a) (drop (offset_value a) (edge_halves ?slot))"
    using ab(2-4) by simp
  have "?row ! j = edge_halves ?slot ! (offset_value a + j)"
    using ab(2,3,5) j by (subst row) simp
  then have v: "snd (?row ! j) = sa_get (es_values ?slot) (offset_value a + j)"
    using edge_halves_nth [OF slot] le length_edge_halves [OF slot] by simp
  have bound: "offset_value a + j \<le> u32_max" using ab j offset_value_le [of b] by linarith
  then have "offset_value (a + of_nat j) = offset_value a + j"
    using offset_value_of_nat [OF bound] by simp
  then show ?thesis
    using bound r k f ab(1,6) v
    by (cases d) (simp_all add: get_edge_property_def from_half_def index_edges [OF ok] get_edges_offset_def
        offset_new_cases get_value_def)
qed

lemma get_node_property_row:
  assumes ok: "graph_ok S g" and r: "node_of_raw S r = Ok n"
  shows "get_node_property S g r pk =
    (if nid_seq n < kind_count S g (nid_kind n) \<and> ps_offsets (prop_slot_of S g (nid_kind n) pk) \<noteq> []
     then Ok (prop_row S g (nid_kind n) pk (nid_seq n)) else Err PropertyIndexNotFound)"
proof -
  let ?slot = "prop_slot_of S g (nid_kind n) pk"
  let ?c = "kind_count S g (nid_kind n)"
  have k: "resolve_node_kind S r = Ok (nid_kind n)" and seq: "raw_seq r = nid_seq n"
    using r by (auto simp: node_of_raw_def andthen_eq_Ok)
  have pok: "ps.ok ?slot ?c" and ty: "sa_typ (ps_values ?slot) \<noteq> TNone"
    using graph_okD(5) [OF ok] prop_type_not_none by (simp_all add: prop_slot_ok_iff)
  show ?thesis
  proof (cases "get_offset (ps_offsets ?slot) (nid_seq n)")
    case None
    then have "\<not> (nid_seq n < ?c \<and> ps_offsets ?slot \<noteq> [])"
      using ps.get_offset_in_range [OF pok] by (metis option.distinct(1))
    then show ?thesis using None by (auto simp: get_node_property_def k seq index_props [OF ok])
  next
    case (Some ab)
    then obtain a b where ab: "get_offset (ps_offsets ?slot) (nid_seq n) = Some (a, b)" by (cases ab) auto
    then have "ps_offsets ?slot \<noteq> []" by (auto simp: get_offset_def get_range_def)
    then show ?thesis
      using ps.get_offset_row [OF pok ab] ab ty
      by (auto simp: get_node_property_def k seq index_props [OF ok] get_values_def sa_iter_range_items
          prop_row_def prop_rows_eq sa_len_values offset_less_value)
  qed
qed

lemma node_count_by_kind_nodes:
  assumes "graph_ok S g"
  shows "\<exists>ns. nodes_by_kind S g nk = Ok ns \<and> node_count_by_kind S g nk = Ok (length ns) \<and> distinct ns \<and>
    set ns = {n. nid_kind n = nk \<and> nid_seq n < kind_count S g nk \<and> \<not> deleted g n}"
proof -
  let ?m = "g_node_meta g ! n_index S nk"
  let ?live = "filter (\<lambda>(_, meta). \<not> is_deleted meta) (enumerate 0 ?m)"
  let ?ns = "map (\<lambda>(seq, _). NodeId nk seq) ?live"
  have "map snd ?live = filter (\<lambda>m. \<not> is_deleted m) ?m"
    using filter_map [of "\<lambda>m. \<not> is_deleted m" snd "enumerate 0 ?m"] by (simp add: comp_def case_prod_beta')
  then have len: "length ?ns = length (filter (\<lambda>m. \<not> is_deleted m) ?m)"
    by (metis length_map)
  have "distinct (map fst ?live)"
    by (rule distinct_map_filter) simp
  then have "distinct (map (NodeId nk) (map fst ?live))"
    by (simp only: distinct_map [of "NodeId nk"]) (simp add: inj_on_def)
  then have dist: "distinct ?ns" by (simp add: comp_def case_prod_beta')
  have set: "set ?ns = {n. nid_kind n = nk \<and> nid_seq n < kind_count S g nk \<and> \<not> deleted g n}"
  proof (rule set_eqI)
    fix n :: "'n node_id"
    obtain k s where [simp]: "n = NodeId k s" by (cases n)
    have "n \<in> set ?ns \<longleftrightarrow> k = nk \<and> s < length ?m \<and> \<not> is_deleted (?m ! s)"
      by (auto simp: in_set_enumerate_eq image_iff)
    then show "n \<in> set ?ns \<longleftrightarrow> n \<in> {n. nid_kind n = nk \<and> nid_seq n < kind_count S g nk \<and> \<not> deleted g n}"
      using assms by (auto simp: kind_count_def deleted_def is_node_deleted_Ok)
  qed
  show ?thesis
    using len dist set by (intro exI [of _ ?ns]) (simp add: nodes_by_kind_def node_count_by_kind_def index_meta [OF assms])
qed

section \<open>The empty graph\<close>

lemma nth_slots:
  "edge_storage_slots S ! edge_storage_slot S nk d ek = (nk, d, ek)"
  "property_storage_slots S ! property_storage_slot S nk pk = (nk, pk)"
proof -
  have "map (\<lambda>(nk, d, ek). edge_storage_slot S nk d ek) (edge_storage_slots S) ! edge_storage_slot S nk d ek =
      edge_storage_slot S nk d ek"
    by (simp only: edge_slots_in_order) (simp add: edge_slot_less)
  then show "edge_storage_slots S ! edge_storage_slot S nk d ek = (nk, d, ek)"
    using edge_slot_inj edge_slot_less [of nk d ek] by (auto simp: length_edge_slots split: prod.splits)
  have "map (\<lambda>(nk, pk). property_storage_slot S nk pk) (property_storage_slots S) ! property_storage_slot S nk pk =
      property_storage_slot S nk pk"
    by (simp only: property_slots_in_order) (simp add: property_slot_less)
  then show "property_storage_slots S ! property_storage_slot S nk pk = (nk, pk)"
    using property_slot_inj property_slot_less [of nk pk] by (auto simp: length_property_slots split: prod.splits)
qed

lemma graph_new_ok: "\<exists>g. graph_new S = Ok g \<and> graph_ok S g \<and> (\<forall>nk. kind_count S g nk = 0)"
proof -
  let ?g = "\<lparr>g_node_meta = node_meta_storage_new S,
    g_edges = map (\<lambda>(nk, d, ek). \<lparr>es_offsets = [], es_neighbors = [], es_values = sa_new (e_property_type S ek)\<rparr>) (edge_storage_slots S),
    g_props = map (\<lambda>(nk, pk). \<lparr>ps_offsets = [], ps_values = sa_new (p_property_type S pk)\<rparr>) (property_storage_slots S),
    g_strings = pool_new\<rparr>"
  have e: "edge_slot_of S ?g nk d ek = \<lparr>es_offsets = [], es_neighbors = [], es_values = sa_new (e_property_type S ek)\<rparr>" for nk d ek
    by (simp add: edge_slot_of_def nth_slots length_edge_slots edge_slot_less)
  have p: "prop_slot_of S ?g nk pk = \<lparr>ps_offsets = [], ps_values = sa_new (p_property_type S pk)\<rparr>" for nk pk
    by (simp add: prop_slot_of_def nth_slots length_property_slots property_slot_less)
  have c: "kind_count S ?g nk = 0" for nk
    using node_index_less [of nk] by (simp add: kind_count_def node_meta_storage_new_def)
  have "graph_ok S ?g"
    unfolding graph_ok_def e p c
    using pool_repr_new
    by (auto simp: length_edge_slots length_property_slots node_meta_storage_new_def edge_slot_ok_def prop_slot_ok_def
        slot_ok_def sum_list_replicate)
  then show ?thesis
    using c by (auto simp: graph_new_def edge_storage_new_Ok prop_storage_new_Ok)
qed

end

end
