(* ===== verification/Slots.thy ===== *)
theory Slots
  imports Graph
begin

text \<open>
  \<open>builder/slots.rs\<close>: the per-slot passes that turn the bucketed changes of a diff into the new
  contents of each storage slot, and the staged records of \<open>builder/staged.rs\<close> they fill. The build
  modelled is the one with debug assertions: \<open>debug_assert!\<close> and arithmetic overflow panic.
\<close>

section \<open>Buckets\<close>

text \<open>\<open>SlotBuckets<T>\<close>: per slot, nothing or one entry per node.\<close>

type_synonym 't buckets = "'t list option list"

definition buckets_new :: "nat \<Rightarrow> 't buckets" where
  "buckets_new slot_count = map (\<lambda>_. None) [0..<slot_count]"

lemma nth_buckets_new [simp]: "i < n \<Longrightarrow> buckets_new n ! i = None" "length (buckets_new n) = n"
  by (simp_all add: buckets_new_def)

definition buckets_get :: "'t buckets \<Rightarrow> nat \<Rightarrow> 't list option res" where
  "buckets_get b slot_index = index_at b slot_index"

definition buckets_take :: "'t buckets \<Rightarrow> nat \<Rightarrow> ('t list option \<times> 't buckets) res" where
  "buckets_take b slot_index = map_ok (\<lambda>x. (x, b[slot_index := None])) (index_at b slot_index)"

text \<open>\<open>bucket\<close> borrows the slot's entries, creating \<open>len\<close> defaults; \<open>f\<close> is what the caller writes.\<close>

definition buckets_bucket ::
  "'t \<Rightarrow> 't buckets \<Rightarrow> nat \<Rightarrow> nat \<Rightarrow> ('t list \<Rightarrow> 't list res) \<Rightarrow> 't buckets res" where
  "buckets_bucket default_entry b slot_index len f =
     andthen (index_at b slot_index) (\<lambda>cur.
     andthen (f (case cur of Some v \<Rightarrow> v | None \<Rightarrow> map (\<lambda>_. default_entry) [0..<len])) (\<lambda>v.
     Ok (b[slot_index := Some v])))"

record slot_half_edge =
  sh_seq :: nat
  sh_neighbor :: raw_node_id
  sh_property :: "stored_property option"

record slot_half_edges =
  she_halves :: "slot_half_edge list"
  she_counts :: "u32 list"

type_synonym edge_half_buckets = "slot_half_edges option list"

definition half_buckets_new :: "nat \<Rightarrow> edge_half_buckets" where
  "half_buckets_new slot_count = map (\<lambda>_. None) [0..<slot_count]"

definition half_buckets_push ::
  "edge_half_buckets \<Rightarrow> nat \<Rightarrow> nat \<Rightarrow> slot_half_edge \<Rightarrow> edge_half_buckets res" where
  "half_buckets_push b slot_index len half =
     andthen (index_at b slot_index) (\<lambda>cur.
     let entry = (case cur of Some e \<Rightarrow> e
       | None \<Rightarrow> \<lparr>she_halves = [], she_counts = replicate len 0\<rparr>) in
     andthen (index_at (she_counts entry) (sh_seq half)) (\<lambda>c.
     andthen (expect (u32_checked_add c 1)) (\<lambda>c'.
     Ok (b[slot_index := Some \<lparr>she_halves = she_halves entry @ [half],
                               she_counts = (she_counts entry)[sh_seq half := c']\<rparr>]))))"

definition half_buckets_take ::
  "edge_half_buckets \<Rightarrow> nat \<Rightarrow> (slot_half_edges option \<times> edge_half_buckets) res" where
  "half_buckets_take b slot_index = map_ok (\<lambda>x. (x, b[slot_index := None])) (index_at b slot_index)"

section \<open>Staged records\<close>

record prop_replace =
  pr_slot :: nat
  pr_values :: storage_array
  pr_offsets :: "offset list"

record prop_append =
  pa_slot :: nat
  pa_values :: storage_array
  pa_tail :: "offset list"

record edge_replace =
  er_slot :: nat
  er_neighbors :: "raw_node_id list"
  er_values :: storage_array
  er_offsets :: "offset list"

record edge_insert =
  ei_slot :: nat
  ei_neighbors :: "raw_node_id list"
  ei_values :: storage_array
  ei_batches :: "(nat \<times> nat) list"
  ei_offsets :: "offset list"

section \<open>Property updates\<close>

definition append_property_batch ::
  "storage_array \<Rightarrow> offset \<Rightarrow> property_value list \<Rightarrow> (pool, error, storage_array \<times> offset) step" where
  "append_property_batch values cumulative props =
     sbind (sfor_each (\<lambda>prop values.
         sbind (to_stored_property prop) (\<lambda>sp. slift (sa_try_push values sp))) props values) (\<lambda>values.
     sbind (slift (offset_checked_add_delta cumulative (length props))) (\<lambda>c.
     sret (values, c)))"

definition update_node ::
  "prop_slot \<Rightarrow> quantified_property option list \<Rightarrow> nat \<Rightarrow> storage_array \<times> offset list \<times> offset \<Rightarrow>
     (pool, error, storage_array \<times> offset list \<times> offset) step" where
  "update_node slot seq_updates fin = (\<lambda>(new_values, new_offsets, cumulative).
     let start = fin - 1 in
     sbind (slift (index_at (ps_offsets slot) start)) (\<lambda>orig_start.
     sbind (slift (index_at (ps_offsets slot) fin)) (\<lambda>orig_end.
     sbind (slift (index_at seq_updates start)) (\<lambda>u.
     sbind (case u of
         Some q \<Rightarrow> append_property_batch new_values cumulative (quantified_values q)
       | None \<Rightarrow> slift (
           andthen (for_each (\<lambda>prop values. sa_try_push values prop)
             (iter_items (sa_iter_range (ps_values slot) (offset_value orig_start) (offset_value orig_end)))
             new_values) (\<lambda>values.
           andthen (offset_checked_sub orig_end orig_start) (\<lambda>n.
           andthen (offset_checked_add_delta cumulative n) (\<lambda>c.
           Ok (values, c))))))
       (\<lambda>(values, c). sret (values, new_offsets @ [c], c))))))"

definition update_slot ::
  "prop_slot \<Rightarrow> quantified_property option list \<Rightarrow> (pool, error, storage_array \<times> offset list) step" where
  "update_slot slot seq_updates =
     sbind (sfor_each (update_node slot seq_updates) [1..<length (ps_offsets slot)]
       (sa_with_capacity (sa_typ (ps_values slot)) (sa_len (ps_values slot)), [offset_zero], offset_zero))
     (\<lambda>(values, offsets, _). sret (values, offsets))"

definition update_kind ::
  "('n, 'e, 'p, 'r) schema \<Rightarrow> prop_storage \<Rightarrow> 'n \<times> 'p \<Rightarrow>
     quantified_property option buckets \<times> prop_replace list \<Rightarrow>
     (pool, error, quantified_property option buckets \<times> prop_replace list) step" where
  "update_kind S property_storage = (\<lambda>(nk, pk) (pending, replacements).
     let slot_index = property_storage_slot S nk pk in
     sbind (slift (buckets_take pending slot_index)) (\<lambda>(taken, pending).
     case taken of
       None \<Rightarrow> sret (pending, replacements)
     | Some seq_updates \<Rightarrow>
         sbind (slift (index_at property_storage slot_index)) (\<lambda>slot.
         if ps_offsets slot = []
         then (case position (\<lambda>u. u \<noteq> None) seq_updates of
             Some seq \<Rightarrow> slift (Err (NodeOffsetNotFound seq))
           | None \<Rightarrow> sret (pending, replacements))
         else sbind (update_slot slot seq_updates) (\<lambda>(values, offsets).
           sret (pending, replacements @
             [\<lparr>pr_slot = slot_index, pr_values = values, pr_offsets = offsets\<rparr>])))))"

definition prepare_property_updates ::
  "('n, 'e, 'p, 'r) schema \<Rightarrow> prop_storage \<Rightarrow> quantified_property option buckets \<Rightarrow>
     (pool, error, prop_replace list) step" where
  "prepare_property_updates S property_storage pending =
     sbind (sfor_each (update_kind S property_storage) (property_storage_slots S) (pending, []))
     (\<lambda>(_, replacements). sret replacements)"

section \<open>Edge removals\<close>

text \<open>The absolute positions to remove from a slot, each local position checked against the degree.\<close>

definition collect_removals :: "edge_slot \<Rightarrow> nat list list \<Rightarrow> nat list res" where
  "collect_removals slot seq_removals =
     for_each (\<lambda>(start, local_seqs) absolute.
         if local_seqs = [] then Ok absolute
         else
           andthen (ok_or (NodeOffsetNotFound start) (get_offset (es_offsets slot) start)) (\<lambda>(orig_start, orig_end).
           andthen (offset_checked_sub orig_end orig_start) (\<lambda>degree.
           for_each (\<lambda>local_seq absolute.
               if degree \<le> local_seq then Err (NodeOffsetNotFound local_seq)
               else Ok (absolute @ [offset_value orig_start + local_seq]))
             local_seqs absolute)))
       (enumerate 0 seq_removals) []"

definition filter_step ::
  "storage_array \<Rightarrow> nat \<times> raw_node_id \<Rightarrow> nat list \<times> raw_node_id list \<times> storage_array \<Rightarrow>
     (nat list \<times> raw_node_id list \<times> storage_array) res" where
  "filter_step old_values = (\<lambda>(i, nb) (removals, neighbors, values).
     if (case removals of r # _ \<Rightarrow> r = i | [] \<Rightarrow> False) then Ok (tl removals, neighbors, values)
     else andthen (case sa_get old_values i of Some v \<Rightarrow> sa_try_push values v | None \<Rightarrow> Ok values)
       (\<lambda>values. Ok (removals, neighbors @ [nb], values)))"

definition filter_removed :: "edge_slot \<Rightarrow> nat list \<Rightarrow> (raw_node_id list \<times> storage_array) res" where
  "filter_removed slot absolute =
     andthen (assert (length absolute \<le> length (es_neighbors slot))) (\<lambda>_.
     map_ok (\<lambda>(_, neighbors, values). (neighbors, values))
       (for_each (filter_step (es_values slot)) (enumerate 0 (es_neighbors slot))
         (absolute, [], sa_with_capacity (sa_typ (es_values slot))
            (sa_len (es_values slot) - length absolute))))"

definition shift_offsets :: "offset list \<Rightarrow> nat list list \<Rightarrow> offset list res" where
  "shift_offsets offsets seq_removals =
     map_ok fst (for_each (\<lambda>fin (new_offsets, removed_so_far).
         andthen (index_at seq_removals (fin - 1)) (\<lambda>local_seqs.
         let removed_so_far = removed_so_far + length local_seqs in
         andthen (index_at new_offsets fin) (\<lambda>cur.
         andthen (offset_checked_sub_delta cur removed_so_far) (\<lambda>cur'.
         Ok (new_offsets[fin := cur'], removed_so_far)))))
       [1..<length offsets] (offsets, 0))"

definition removal_slot ::
  "('n, 'e, 'p, 'r) schema \<Rightarrow> edge_storage \<Rightarrow> 'n \<times> dir \<times> 'e \<Rightarrow> nat list buckets \<times> edge_replace list \<Rightarrow>
     (nat list buckets \<times> edge_replace list) res" where
  "removal_slot S edge_storage = (\<lambda>(nk, d, ek) (pending, replacements).
     let slot_index = edge_storage_slot S nk d ek in
     andthen (buckets_take pending slot_index) (\<lambda>(taken, pending).
     case taken of
       None \<Rightarrow> Ok (pending, replacements)
     | Some seq_removals \<Rightarrow>
         andthen (index_at edge_storage slot_index) (\<lambda>slot.
         if es_offsets slot = [] then Ok (pending, replacements)
         else
           andthen (collect_removals slot seq_removals) (\<lambda>absolute.
           if absolute = [] then Ok (pending, replacements)
           else
             andthen (filter_removed slot (sort absolute)) (\<lambda>(neighbors, values).
             andthen (shift_offsets (es_offsets slot) seq_removals) (\<lambda>offsets.
             Ok (pending, replacements @ [\<lparr>er_slot = slot_index, er_neighbors = neighbors,
               er_values = values, er_offsets = offsets\<rparr>])))))))"

definition prepare_edge_removals ::
  "('n, 'e, 'p, 'r) schema \<Rightarrow> edge_storage \<Rightarrow> nat list buckets \<Rightarrow> edge_replace list res" where
  "prepare_edge_removals S edge_storage pending =
     map_ok snd (for_each (removal_slot S edge_storage) (edge_storage_slots S) (pending, []))"

section \<open>Properties of new nodes\<close>

definition append_nodes ::
  "property_value list option list \<Rightarrow> nat \<Rightarrow> storage_array \<Rightarrow> offset \<Rightarrow> offset list \<Rightarrow>
     (pool, error, storage_array \<times> offset list) step" where
  "append_nodes seq_property nodes_count values cumulative tail =
     sbind (sfor_each (\<lambda>local_index (values, cumulative, tail).
         sbind (case get_at seq_property local_index of
             Some (Some props) \<Rightarrow> append_property_batch values cumulative props
           | _ \<Rightarrow> sret (values, cumulative))
         (\<lambda>(values, cumulative). sret (values, cumulative, tail @ [cumulative])))
       [0..<nodes_count] (values, cumulative, tail))
     (\<lambda>(values, _, tail). sret (values, tail))"

definition new_node_slot ::
  "('n, 'e, 'p, 'r) schema \<Rightarrow> prop_storage \<Rightarrow> nat list \<Rightarrow> nat list \<Rightarrow> offset option list \<Rightarrow> 'n \<times> 'p \<Rightarrow>
     property_value list option buckets \<times> prop_append list \<Rightarrow>
     (pool, error, property_value list option buckets \<times> prop_append list) step" where
  "new_node_slot S property_storage graph_nodes_max_seq new_nodes_count property_last_offset =
     (\<lambda>(nk, pk) (slot_property, appends).
     sbind (slift (index_at new_nodes_count (n_index S nk))) (\<lambda>nodes_count.
     if nodes_count = 0 then sret (slot_property, appends)
     else
       let slot_index = property_storage_slot S nk pk in
       sbind (slift (index_at property_storage slot_index)) (\<lambda>slot.
       sbind (slift (index_at property_last_offset slot_index)) (\<lambda>baseline_last.
       sbind (slift (buckets_take slot_property slot_index)) (\<lambda>(taken, slot_property).
       case taken of
         None \<Rightarrow>
           (case (case baseline_last of Some l \<Rightarrow> Some l | None \<Rightarrow> last_opt (ps_offsets slot)) of
              None \<Rightarrow> sret (slot_property, appends)
            | Some l \<Rightarrow> sret (slot_property, appends @
                [\<lparr>pa_slot = slot_index, pa_values = sa_with_capacity (sa_typ (ps_values slot)) 0,
                  pa_tail = replicate nodes_count l\<rparr>]))
       | Some seq_property \<Rightarrow>
           sbind (if baseline_last = None \<and> ps_offsets slot = []
               then sbind (slift (index_at graph_nodes_max_seq (n_index S nk))) (\<lambda>m. sret (m + 1))
               else sret 0) (\<lambda>backfill_len.
           let (cumulative, offsets_tail) = (case baseline_last of
               Some l \<Rightarrow> (l, [])
             | None \<Rightarrow>
                 if ps_offsets slot = [] then (offset_zero, replicate backfill_len offset_zero)
                 else (case last_opt (ps_offsets slot) of Some l \<Rightarrow> l | None \<Rightarrow> offset_zero, [])) in
           sbind (append_nodes seq_property nodes_count
               (sa_with_capacity (sa_typ (ps_values slot)) nodes_count) cumulative offsets_tail)
             (\<lambda>(values, tail). sret (slot_property, appends @
               [\<lparr>pa_slot = slot_index, pa_values = values, pa_tail = tail\<rparr>]))))))))"

definition prepare_new_node_properties ::
  "('n, 'e, 'p, 'r) schema \<Rightarrow> prop_storage \<Rightarrow> nat list \<Rightarrow> nat list \<Rightarrow>
     property_value list option buckets \<Rightarrow> offset option list \<Rightarrow> (pool, error, prop_append list) step" where
  "prepare_new_node_properties S property_storage graph_nodes_max_seq new_nodes_count slot_property
      property_last_offset =
     sbind (sfor_each
       (new_node_slot S property_storage graph_nodes_max_seq new_nodes_count property_last_offset)
       (property_storage_slots S) (slot_property, []))
     (\<lambda>(_, appends). sret appends)"

section \<open>New edges\<close>

text \<open>The histogram turned into the start of each node's run.\<close>

fun run_starts :: "u32 \<Rightarrow> u32 list \<Rightarrow> u32 list res" where
  "run_starts acc [] = Ok []"
| "run_starts acc (degree # ds) =
     andthen (expect (u32_checked_add acc degree)) (\<lambda>acc'.
     map_ok (\<lambda>ss. acc # ss) (run_starts acc' ds))"

text \<open>The counting sort: \<open>order\<close> lists the halves by node, and each cursor ends behind its run.\<close>

definition place_halves :: "slot_half_edge list \<Rightarrow> u32 list \<Rightarrow> (u32 list \<times> u32 list) res" where
  "place_halves halves starts =
     for_each (\<lambda>(i, half) (cursors, order).
         andthen (index_at cursors (sh_seq half)) (\<lambda>cursor.
         andthen (store_at order (unat cursor) (of_nat i)) (\<lambda>order.
         andthen (expect (u32_checked_add cursor 1)) (\<lambda>cursor'.
         Ok (cursors[sh_seq half := cursor'], order)))))
       (enumerate 0 halves) (starts, replicate (length halves) 0)"

definition gather_step ::
  "property_type \<Rightarrow> slot_half_edge list \<Rightarrow> u32 \<Rightarrow> raw_node_id list \<times> storage_array \<Rightarrow>
     (raw_node_id list \<times> storage_array) res" where
  "gather_step property_type halves i = (\<lambda>(neighbors, values).
     andthen (index_at halves (unat i)) (\<lambda>half.
     let neighbors = neighbors @ [sh_neighbor half] in
     case (sh_property half, property_type \<noteq> TNone) of
       (Some prop, True) \<Rightarrow> map_ok (\<lambda>values. (neighbors, values)) (sa_try_push values prop)
     | (None, True) \<Rightarrow> Err (invalid_property_type property_type TNone)
     | (Some prop, False) \<Rightarrow> Err (invalid_property_type TNone (sp_typ prop))
     | (None, False) \<Rightarrow> Ok (neighbors, values)))"

text \<open>Where each run goes in the slot, and the offsets moved past the runs before them.\<close>

definition place_run ::
  "u32 \<times> offset \<Rightarrow> offset list \<times> (nat \<times> nat) list \<times> nat \<Rightarrow> (offset list \<times> (nat \<times> nat) list \<times> nat) res" where
  "place_run = (\<lambda>(count, offset) (moved, batches, prev_end).
     let run_end = unat count;
         batches = (if run_end > prev_end
           then batches @ [(offset_value offset + prev_end, run_end - prev_end)] else batches) in
     andthen (offset_checked_add_delta offset run_end) (\<lambda>offset.
     Ok (moved @ [offset], batches, run_end)))"

definition place_runs :: "u32 list \<Rightarrow> offset list \<Rightarrow> ((nat \<times> nat) list \<times> offset list \<times> nat) res" where
  "place_runs ends offsets =
     map_ok (\<lambda>(moved, batches, prev_end).
         (batches, take 1 offsets @ moved @ drop (1 + length moved) offsets, prev_end))
       (for_each place_run (zip ends (drop 1 offsets)) ([], [], 0))"

text \<open>\<open>Vec::resize\<close>.\<close>

definition vec_resize :: "'a list \<Rightarrow> nat \<Rightarrow> 'a \<Rightarrow> 'a list" where
  "vec_resize xs n x = take n xs @ replicate (n - length xs) x"

definition prepare_slot_edges ::
  "nat \<Rightarrow> edge_slot \<Rightarrow> offset list \<Rightarrow> slot_half_edges \<Rightarrow> edge_insert res" where
  "prepare_slot_edges slot_index slot offsets seq_halves =
     (let halves = she_halves seq_halves; counts = she_counts seq_halves;
          property_type = sa_typ (es_values slot) in
      andthen (assert (length counts = length offsets - 1)) (\<lambda>_.
      andthen (ok_or (OffsetOverflow (length halves)) (u32_try_from (length halves))) (\<lambda>_.
      andthen (run_starts 0 counts) (\<lambda>starts.
      andthen (place_halves halves starts) (\<lambda>(ends, order).
      andthen (for_each (gather_step property_type halves) order
        ([], sa_with_capacity property_type (length halves))) (\<lambda>(neighbors, values).
      andthen (place_runs ends offsets) (\<lambda>(batches, offsets, prev_end).
      andthen (assert (prev_end = length neighbors)) (\<lambda>_.
      Ok \<lparr>ei_slot = slot_index, ei_neighbors = neighbors, ei_values = values,
          ei_batches = batches, ei_offsets = offsets\<rparr>))))))))"

definition new_edge_slot ::
  "('n, 'e, 'p, 'r) schema \<Rightarrow> edge_storage \<Rightarrow> nat list \<Rightarrow> nat list \<Rightarrow> offset list option list \<Rightarrow>
     'n \<times> dir \<times> 'e \<Rightarrow> edge_half_buckets \<times> edge_insert list \<Rightarrow>
     (edge_half_buckets \<times> edge_insert list) res" where
  "new_edge_slot S edge_storage graph_nodes_max_seq new_nodes_count edge_offsets_baseline =
     (\<lambda>(nk, d, ek) (slot_edge_halves, inserts).
     let slot_index = edge_storage_slot S nk d ek in
     andthen (index_at new_nodes_count (n_index S nk)) (\<lambda>nodes_count.
     andthen (half_buckets_take slot_edge_halves slot_index) (\<lambda>(seq_halves, slot_edge_halves).
     if nodes_count = 0 \<and> seq_halves = None then Ok (slot_edge_halves, inserts)
     else
       andthen (index_at edge_storage slot_index) (\<lambda>slot.
       andthen (index_at graph_nodes_max_seq (n_index S nk)) (\<lambda>max_seq.
       let offsets_len = max_seq + nodes_count + 1 in
       andthen (index_at edge_offsets_baseline slot_index) (\<lambda>baseline.
       let offsets = (case baseline of Some b \<Rightarrow> b | None \<Rightarrow> es_offsets slot) in
       if offsets = [] \<and> seq_halves = None then Ok (slot_edge_halves, inserts)
       else
         let offsets =
           (if offsets = [] then replicate offsets_len offset_zero
            else if length offsets \<noteq> offsets_len
            then vec_resize offsets offsets_len
              (case last_opt offsets of Some l \<Rightarrow> l | None \<Rightarrow> offset_zero)
            else offsets) in
         case seq_halves of
           None \<Rightarrow> Ok (slot_edge_halves, inserts @
             [\<lparr>ei_slot = slot_index, ei_neighbors = [],
               ei_values = sa_with_capacity (sa_typ (es_values slot)) 0, ei_batches = [],
               ei_offsets = offsets\<rparr>])
         | Some halves \<Rightarrow>
             andthen (prepare_slot_edges slot_index slot offsets halves) (\<lambda>insert.
             Ok (slot_edge_halves, inserts @ [insert]))))))))"

definition prepare_new_edges ::
  "('n, 'e, 'p, 'r) schema \<Rightarrow> edge_storage \<Rightarrow> nat list \<Rightarrow> nat list \<Rightarrow> edge_half_buckets \<Rightarrow>
     offset list option list \<Rightarrow> edge_insert list res" where
  "prepare_new_edges S edge_storage graph_nodes_max_seq new_nodes_count slot_edge_halves
      edge_offsets_baseline =
     map_ok snd (for_each
       (new_edge_slot S edge_storage graph_nodes_max_seq new_nodes_count edge_offsets_baseline)
       (edge_storage_slots S) (slot_edge_halves, []))"

end
