(* ===== verification/Staged.thy ===== *)
theory Staged
  imports Slots
begin

text \<open>
  \<open>builder/staged.rs\<close>: a validated diff bound to its graph, the writes \<open>commit\<close> performs, the merge of
  new half-edges into a slot, and the rollback when a staged diff is dropped.
\<close>

record 'n staged_parts =
  st_new_node_meta :: node_meta_storage
  st_node_remapper :: "'n node_id list"
  st_node_tombstones :: "raw_node_id list"
  st_property_replacements :: "prop_replace list"
  st_edge_replacements :: "edge_replace list"
  st_property_appends :: "prop_append list"
  st_edge_inserts :: "edge_insert list"

definition staged_parts_default :: "('n, 'e, 'p, 'r) schema \<Rightarrow> 'n staged_parts" where
  "staged_parts_default S =
     \<lparr>st_new_node_meta = node_meta_storage_new S, st_node_remapper = [], st_node_tombstones = [],
      st_property_replacements = [], st_edge_replacements = [], st_property_appends = [],
      st_edge_inserts = []\<rparr>"

text \<open>The exclusive borrow of the graph, the pool length to roll back to, and the parts.\<close>

record 'n staged_diff =
  sd_graph :: graph
  sd_strings_baseline :: "nat option"
  sd_parts :: "'n staged_parts"

text \<open>\<open>Drop\<close>: the graph the borrow leaves behind.\<close>

definition staged_drop :: "'n staged_diff \<Rightarrow> graph res" where
  "staged_drop d =
     (case sd_strings_baseline d of
        Some baseline \<Rightarrow>
          map_ok (\<lambda>strings. (sd_graph d)\<lparr>g_strings := strings\<rparr>)
            (pool_truncate baseline (g_strings (sd_graph d)))
      | None \<Rightarrow> Ok (sd_graph d))"

section \<open>Merging new half-edges into a slot\<close>

definition merge_step ::
  "raw_node_id list \<Rightarrow> storage_array \<Rightarrow> raw_node_id list \<Rightarrow> storage_array \<Rightarrow> bool \<Rightarrow> nat \<times> nat \<Rightarrow>
     raw_node_id list \<times> storage_array \<times> nat \<times> nat \<Rightarrow> (raw_node_id list \<times> storage_array \<times> nat \<times> nat) res" where
  "merge_step old_neighbors old_values batch_neighbors batch_values has_values =
     (\<lambda>(place, count) (neighbors, values, copied, taken).
     andthen (if length neighbors \<le> place then Ok (place - length neighbors) else Err OffsetUnderflow)
       (\<lambda>tk.
     andthen (if tk > 0
         then
           andthen (ranged_slice old_neighbors copied (copied + tk)) (\<lambda>ns.
           andthen (if has_values then sa_try_extend_from_range values old_values copied (copied + tk)
                    else Ok values) (\<lambda>values.
           Ok (neighbors @ ns, values, copied + tk)))
         else Ok (neighbors, values, copied)) (\<lambda>(neighbors, values, copied).
     andthen (ranged_slice batch_neighbors taken (taken + count)) (\<lambda>ns.
     andthen (if has_values then sa_try_extend_from_range values batch_values taken (taken + count)
              else Ok values) (\<lambda>values.
     Ok (neighbors @ ns, values, copied, taken + count))))))"

definition merge_edge_batches ::
  "edge_slot \<Rightarrow> (nat \<times> nat) list \<Rightarrow> raw_node_id list \<Rightarrow> storage_array \<Rightarrow> edge_slot res" where
  "merge_edge_batches slot batches batch_neighbors batch_values =
     (let inserted = length batch_neighbors;
          old_neighbors = es_neighbors slot;
          values_typ = sa_typ (es_values slot);
          has_values = (values_typ \<noteq> TNone);
          old_values = es_values slot;
          slot = slot\<lparr>es_neighbors := [], es_values := default_storage_array\<rparr> in
      if old_neighbors = []
      then Ok (if has_values then slot\<lparr>es_neighbors := batch_neighbors, es_values := batch_values\<rparr>
               else slot\<lparr>es_neighbors := batch_neighbors\<rparr>)
      else
        andthen (for_each (merge_step old_neighbors old_values batch_neighbors batch_values has_values)
          batches ([], sa_with_capacity values_typ (length old_neighbors + inserted), 0, 0))
          (\<lambda>(neighbors, values, copied, taken).
        andthen (ranged_slice old_neighbors copied (length old_neighbors)) (\<lambda>ns.
        andthen (if has_values
            then map_ok (\<lambda>values. slot\<lparr>es_values := values\<rparr>)
              (sa_try_extend_from_range values old_values copied (length old_neighbors))
            else Ok slot) (\<lambda>slot.
        Ok (slot\<lparr>es_neighbors := neighbors @ ns\<rparr>)))))"

section \<open>\<open>commit\<close>\<close>

definition commit_tombstone :: "raw_node_id \<Rightarrow> node_meta_storage \<Rightarrow> node_meta_storage res" where
  "commit_tombstone node_ref metas =
     andthen (index_at metas (raw_kind node_ref)) (\<lambda>row.
     case get_at row (raw_seq node_ref) of
       Some meta \<Rightarrow> Ok (metas[raw_kind node_ref := row[raw_seq node_ref := set_is_deleted True meta]])
     | None \<Rightarrow> Ok metas)"

definition commit_prop_replace :: "prop_replace \<Rightarrow> prop_storage \<Rightarrow> prop_storage res" where
  "commit_prop_replace r ps =
     andthen (index_at ps (pr_slot r)) (\<lambda>slot.
     store_at ps (pr_slot r) (slot\<lparr>ps_values := pr_values r, ps_offsets := pr_offsets r\<rparr>))"

definition commit_edge_replace :: "edge_replace \<Rightarrow> edge_storage \<Rightarrow> edge_storage res" where
  "commit_edge_replace r es =
     andthen (index_at es (er_slot r)) (\<lambda>slot.
     store_at es (er_slot r)
       (slot\<lparr>es_neighbors := er_neighbors r, es_values := er_values r, es_offsets := er_offsets r\<rparr>))"

definition commit_new_nodes ::
  "('n, 'e, 'p, 'r) schema \<Rightarrow> node_meta_storage \<Rightarrow> 'n \<Rightarrow> node_meta_storage \<Rightarrow> node_meta_storage res" where
  "commit_new_nodes S new_node_meta kind metas =
     andthen (index_at metas (n_index S kind)) (\<lambda>nodes.
     andthen (index_at new_node_meta (n_index S kind)) (\<lambda>new_kind_nodes.
     store_at metas (n_index S kind) (nodes @ new_kind_nodes)))"

definition commit_prop_append :: "prop_append \<Rightarrow> prop_storage \<Rightarrow> prop_storage res" where
  "commit_prop_append a ps =
     andthen (index_at ps (pa_slot a)) (\<lambda>slot.
     andthen (expect_ok (sa_try_append (ps_values slot) (pa_values a))) (\<lambda>(values, _).
     store_at ps (pa_slot a) (slot\<lparr>ps_values := values, ps_offsets := ps_offsets slot @ pa_tail a\<rparr>)))"

definition commit_edge_insert :: "edge_insert \<Rightarrow> edge_storage \<Rightarrow> edge_storage res" where
  "commit_edge_insert ins es =
     andthen (index_at es (ei_slot ins)) (\<lambda>slot.
     andthen (if ei_batches ins \<noteq> []
         then expect_ok (merge_edge_batches slot (ei_batches ins) (ei_neighbors ins) (ei_values ins))
         else Ok slot) (\<lambda>slot.
     store_at es (ei_slot ins) (slot\<lparr>es_offsets := ei_offsets ins\<rparr>)))"

definition commit ::
  "('n, 'e, 'p, 'r) schema \<Rightarrow> 'n staged_diff \<Rightarrow> (graph \<times> 'n node_id list) res" where
  "commit S d =
     (let parts = sd_parts d; g = sd_graph d in
      andthen (for_each commit_tombstone (st_node_tombstones parts) (g_node_meta g)) (\<lambda>metas.
      andthen (for_each commit_prop_replace (st_property_replacements parts) (g_props g)) (\<lambda>ps.
      andthen (for_each commit_edge_replace (st_edge_replacements parts) (g_edges g)) (\<lambda>es.
      andthen (for_each (commit_new_nodes S (st_new_node_meta parts)) (n_all S) metas) (\<lambda>metas.
      andthen (for_each commit_prop_append (st_property_appends parts) ps) (\<lambda>ps.
      andthen (for_each commit_edge_insert (st_edge_inserts parts) es) (\<lambda>es.
      Ok (g\<lparr>g_node_meta := metas, g_props := ps, g_edges := es\<rparr>, st_node_remapper parts))))))))"

end
