(* ===== verification/Value_Key.thy ===== *)
theory Value_Key
  imports Storage
begin

unbundle bit_operations_syntax

text \<open>
  \<open>ValueKey\<close> of \<open>storage.rs\<close>: the canonical 64-bit encoding of a stored value that the pairing check
  of \<open>integrity.rs\<close> and the reverse-edge search of \<open>prepare.rs\<close> compare instead of the value. Within
  one type the encoding is exact and keeps the order of the numbers; a float's key orders as
  \<open>f64::total_cmp\<close> does.
\<close>

section \<open>The encoding\<close>

type_synonym value_key = u64

definition sign_flip_64 :: u64 where
  "sign_flip_64 = push_bit 63 1"

definition sign_flip_32 :: u32 where
  "sign_flip_32 = push_bit 31 1"

definition signed_key :: "i64 \<Rightarrow> u64" where
  "signed_key n = n XOR sign_flip_64"

definition float64_key :: "f64 \<Rightarrow> u64" where
  "float64_key bits = bits XOR (signed_drop_bit 63 bits OR sign_flip_64)"

definition float32_key :: "f32 \<Rightarrow> u64" where
  "float32_key bits = ucast (bits XOR (signed_drop_bit 31 bits OR sign_flip_32))"

definition node_key :: "raw_node_id \<Rightarrow> u64" where
  "node_key n = push_bit 32 (of_nat (raw_kind n)) OR of_nat (raw_seq n)"

definition string_key :: "raw_string_id \<Rightarrow> u64" where
  "string_key s = of_nat (unat (rs_index s))"

definition enum_key :: "raw_enum_id \<Rightarrow> u64" where
  "enum_key e = push_bit 16 (of_nat (raw_enum_index e)) OR of_nat (raw_enum_variant e)"

definition value_key :: "storage_array \<Rightarrow> nat \<Rightarrow> value_key" where
  "value_key values index =
     (let key = (case values of
          ABool v \<Rightarrow> map_option (\<lambda>b. of_bool b) (get_at v index)
        | AByte v \<Rightarrow> map_option ucast (get_at v index)
        | AShort v \<Rightarrow> map_option (\<lambda>n. signed_key (scast n)) (get_at v index)
        | AInt v \<Rightarrow> map_option (\<lambda>n. signed_key (scast n)) (get_at v index)
        | ALong v \<Rightarrow> map_option signed_key (get_at v index)
        | AFloat v \<Rightarrow> map_option float32_key (get_at v index)
        | ADouble v \<Rightarrow> map_option float64_key (get_at v index)
        | ANodeId v \<Rightarrow> map_option node_key (get_at v index)
        | AStringId v \<Rightarrow> map_option string_key (get_at v index)
        | AEnum v \<Rightarrow> map_option enum_key (get_at v index)
        | ANone \<Rightarrow> None)
      in (case key of Some k \<Rightarrow> k | None \<Rightarrow> 0))"

text \<open>The same encoding on a value; an array without an element at the index has the key zero.\<close>

fun sp_key :: "stored_property \<Rightarrow> value_key" where
  "sp_key (SBool b) = of_bool b"
| "sp_key (SByte b) = ucast b"
| "sp_key (SShort n) = signed_key (scast n)"
| "sp_key (SInt n) = signed_key (scast n)"
| "sp_key (SLong n) = signed_key n"
| "sp_key (SFloat f) = float32_key f"
| "sp_key (SDouble f) = float64_key f"
| "sp_key (SNodeId n) = node_key n"
| "sp_key (SStringId s) = string_key s"
| "sp_key (SEnum e) = enum_key e"

fun opt_key :: "stored_property option \<Rightarrow> value_key" where
  "opt_key (Some v) = sp_key v"
| "opt_key None = 0"

lemma value_key_get: "value_key a i = opt_key (sa_get a i)"
  by (cases a) (simp_all add: value_key_def option.case_eq_if get_at_def)

section \<open>Exactness\<close>

lemma xor_cancel: "a XOR m = b XOR m \<longleftrightarrow> a = (b :: 'a::len word)"
  by (metis xor.assoc xor.right_neutral xor_self_eq)

lemma signed_key_inject: "signed_key a = signed_key b \<longleftrightarrow> a = b"
  by (simp add: signed_key_def xor_cancel)

lemma scast_inject:
  assumes "LENGTH('a) \<le> LENGTH('b)"
  shows "(scast (a :: 'a::len word) :: 'b::len word) = scast b \<longleftrightarrow> a = b"
proof
  assume eq: "(scast a :: 'b word) = scast b"
  show "a = b"
  proof (rule bit_word_eqI)
    fix n assume "n < LENGTH('a)"
    then show "bit a n = bit b n"
      using arg_cong [OF eq, of "\<lambda>w. bit w n"] assms by (cases "n = LENGTH('a) - 1") (simp_all add: bit_signed_iff min_def split: if_splits)
  qed
qed simp

lemma ucast_inject:
  assumes "LENGTH('a) \<le> LENGTH('b)"
  shows "(ucast (a :: 'a::len word) :: 'b::len word) = ucast b \<longleftrightarrow> a = b"
proof
  assume eq: "(ucast a :: 'b word) = ucast b"
  show "a = b"
  proof (rule bit_word_eqI)
    fix n assume "n < LENGTH('a)"
    then show "bit a n = bit b n"
      using arg_cong [OF eq, of "\<lambda>w. bit w n"] assms by (simp add: bit_unsigned_iff)
  qed
qed simp

lemma signed_drop_bit_top:
  "signed_drop_bit (LENGTH('a) - 1) (w :: 'a::len word) = (if bit w (LENGTH('a) - 1) then -1 else 0)"
proof (rule bit_word_eqI)
  fix n
  show "bit (signed_drop_bit (LENGTH('a) - 1) w) n = bit (if bit w (LENGTH('a) - 1) then - 1 else 0 :: 'a word) n"
    if "n < LENGTH('a)"
    using that by (cases n) (auto simp: bit_signed_drop_bit_iff bit_minus_1_iff possible_bit_word)
qed

lemma float64_key_cases:
  "float64_key w = (if bit w 63 then NOT w else w XOR sign_flip_64)"
  using signed_drop_bit_top [of w] by (simp add: float64_key_def)

lemma float32_key_cases:
  "float32_key w = ucast (if bit w 31 then NOT w else w XOR sign_flip_32)"
  using signed_drop_bit_top [of w] by (simp add: float32_key_def)

lemma bit_sign_flip: "bit sign_flip_64 n \<longleftrightarrow> n = 63" "bit sign_flip_32 n \<longleftrightarrow> n = 31"
  unfolding sign_flip_64_def sign_flip_32_def push_bit_of_1 bit_exp_iff by auto

lemma bit_flip_top:
  "bit (w XOR sign_flip_64) 63 \<longleftrightarrow> \<not> bit w 63" "bit (v XOR sign_flip_32) 31 \<longleftrightarrow> \<not> bit v 31"
  by (simp_all add: bit_xor_iff bit_sign_flip)

lemma float64_key_inject: "float64_key a = float64_key b \<longleftrightarrow> a = b"
proof
  assume eq: "float64_key a = float64_key b"
  then have "bit (float64_key a) 63 = bit (float64_key b) 63" by simp
  then have "bit a 63 = bit b 63"
    by (simp add: float64_key_cases bit_flip_top bit_not_iff split: if_splits)
  then show "a = b"
    using eq by (simp add: float64_key_cases xor_cancel split: if_splits)
qed simp

lemma float32_key_inject: "float32_key a = float32_key b \<longleftrightarrow> a = b"
proof
  let ?k = "\<lambda>w :: 32 word. if bit w 31 then NOT w else w XOR sign_flip_32"
  assume "float32_key a = float32_key b"
  then have eq: "?k a = ?k b"
    by (simp add: float32_key_cases ucast_inject del: not_iff)
  then have "bit (?k a) 31 = bit (?k b) 31" by simp
  then have "bit a 31 = bit b 31"
    by (simp add: bit_flip_top bit_not_iff split: if_splits)
  then show "a = b"
    using eq by (simp add: xor_cancel split: if_splits)
qed simp

text \<open>A pair of halves shares no bit with the other, so both can be read back.\<close>

lemma pair_key_inject:
  fixes a b c d :: nat
  assumes "a < 2 ^ n" and "b < 2 ^ n" and "c < 2 ^ n" and "d < 2 ^ n" and "2 * n \<le> 64"
  shows "(push_bit n (of_nat a) OR of_nat b :: u64) = push_bit n (of_nat c) OR of_nat d \<longleftrightarrow> a = c \<and> b = d"
proof -
  have unat: "unat (push_bit n (of_nat x) OR of_nat y :: u64) = push_bit n x OR y"
    if "x < 2 ^ n" and "y < 2 ^ n" for x y
  proof -
    have "x * 2 ^ n < 2 ^ n * 2 ^ n" using that(1) by simp
    also have "\<dots> \<le> (2 :: nat) ^ 64"
      using power_increasing [OF assms(5), of "2 :: nat"] by (simp flip: power_add add: mult_2)
    finally have "x * 2 ^ n < 2 ^ 64" .
    moreover have "y < 2 ^ 64"
      using that(2) power_increasing [of n 64 "2 :: nat"] assms(5) by simp
    ultimately have "take_bit 64 (push_bit n x) = push_bit n x" and "take_bit 64 y = y"
      by (simp_all add: take_bit_nat_eq_self push_bit_nat_def)
    then have "take_bit 64 (push_bit n x OR y) = push_bit n x OR y"
      by (simp only: take_bit_or)
    moreover have "(push_bit n (of_nat x) OR of_nat y :: u64) = of_nat (push_bit n x OR y)"
      by (simp add: of_nat_or_eq of_nat_push_bit)
    moreover have "unat (of_nat m :: u64) = take_bit 64 m" for m
      by (simp add: unat_of_nat take_bit_eq_mod)
    ultimately show ?thesis by simp
  qed
  have hi: "drop_bit n (push_bit n x OR y) = x" and lo: "take_bit n (push_bit n x OR y) = y"
    if "y < 2 ^ n" for x y :: nat
  proof -
    have "drop_bit n y = 0" and "take_bit n y = y" and "take_bit n (push_bit n x) = 0"
      using that by (simp_all add: drop_bit_eq_div take_bit_nat_eq_self take_bit_push_bit)
    moreover have "drop_bit n (push_bit n x) = x"
      by (simp add: drop_bit_eq_div push_bit_eq_mult)
    ultimately show "drop_bit n (push_bit n x OR y) = x" and "take_bit n (push_bit n x OR y) = y"
      by (simp_all add: drop_bit_or take_bit_or)
  qed
  show ?thesis
    using hi lo assms unat [of a b] unat [of c d] by metis
qed

lemma node_key_inject: "node_key a = node_key b \<longleftrightarrow> a = b"
proof -
  have "raw_kind n < 2 ^ 32" "raw_seq n < 2 ^ 32" for n
    using raw_kind_le [of n] raw_seq_le [of n] by (simp_all add: u32_max_def)
  then show ?thesis
    using raw_node_eqI by (auto simp: node_key_def pair_key_inject [where n = 32])
qed

lemma enum_key_inject: "enum_key a = enum_key b \<longleftrightarrow> a = b"
proof -
  have "raw_enum_index n < 2 ^ 16" "raw_enum_variant n < 2 ^ 16" for n
    using unsigned_less [of "re_enum n", where ?'a = nat] unsigned_less [of "re_variant n", where ?'a = nat]
    by (simp_all add: raw_enum_index_def raw_enum_variant_def)
  then have "enum_key a = enum_key b \<longleftrightarrow>
      raw_enum_index a = raw_enum_index b \<and> raw_enum_variant a = raw_enum_variant b"
    by (simp add: enum_key_def pair_key_inject [where n = 16])
  then show ?thesis
    by (cases a; cases b) (auto simp: raw_enum_index_def raw_enum_variant_def intro: unsigned_word_eqI)
qed

lemma string_key_inject: "string_key a = string_key b \<longleftrightarrow> a = b"
  by (cases a; cases b) (simp add: string_key_def ucast_inject flip: unsigned_ucast_eq)

lemma sp_key_inject: "sp_typ v = sp_typ w \<Longrightarrow> sp_key v = sp_key w \<longleftrightarrow> v = w"
  by (cases v; cases w) (simp_all add: signed_key_inject float32_key_inject float64_key_inject
      node_key_inject string_key_inject enum_key_inject scast_inject ucast_inject of_bool_eq_iff)

text \<open>The key of a half-edge determines its value, in a slot whose every half has one.\<close>

lemma opt_key_inject:
  "(\<forall>v. x = Some v \<longrightarrow> sp_typ v = t) \<Longrightarrow> (\<forall>v. y = Some v \<longrightarrow> sp_typ v = t) \<Longrightarrow> (x = None \<longleftrightarrow> y = None) \<Longrightarrow>
     opt_key x = opt_key y \<longleftrightarrow> x = y"
  by (cases x; cases y) (auto simp: sp_key_inject)

section \<open>Order\<close>

lemma add_sign_flip: "w XOR sign_flip_64 = w + sign_flip_64"
proof -
  have disj: "v XOR sign_flip_64 = v + sign_flip_64" if "\<not> bit v 63" for v :: u64
  proof -
    have "v AND sign_flip_64 = 0"
      using that by (auto simp: bit_and_iff bit_sign_flip intro: bit_word_eqI)
    then show ?thesis by (metis add_0_right add_diff_cancel_right' and_zero_eq disjunctive_xor_eq_or disjunctive_add_eq_or)
  qed
  show ?thesis
  proof (cases "bit w 63")
    case True
    let ?v = "w XOR sign_flip_64"
    have "?v XOR sign_flip_64 = ?v + sign_flip_64"
      using True by (intro disj) (simp add: bit_flip_top)
    then have w: "?v + sign_flip_64 = w" by (simp add: xor.assoc)
    have "sign_flip_64 + sign_flip_64 = 0" by (simp add: sign_flip_64_def push_bit_eq_mult)
    then have "?v + sign_flip_64 + sign_flip_64 = ?v" by (simp only: add.assoc add_0_right)
    then show ?thesis by (simp only: w)
  qed (rule disj)
qed

lemma uint_signed_key: "uint (signed_key n) = sint n + 2 ^ 63"
proof -
  have "sint n = signed_take_bit 63 (uint n)"
    by (simp add: sint_uint)
  also have "\<dots> = take_bit 64 (uint n + 2 ^ 63) - 2 ^ 63"
    by (simp add: signed_take_bit_eq_take_bit_shift)
  also have "take_bit 64 (uint n + 2 ^ 63) = uint (n + sign_flip_64)"
    by (simp add: uint_word_ariths sign_flip_64_def take_bit_eq_mod push_bit_eq_mult)
  finally show ?thesis by (simp add: signed_key_def add_sign_flip)
qed

lemma signed_key_less: "signed_key a < signed_key b \<longleftrightarrow> sint a < sint b"
  by (simp add: word_less_def uint_signed_key)

text \<open>The standard library's \<open>f64::total_cmp\<close>: flip the low bits of the negatives, compare as signed.\<close>

definition total_cmp_64 :: "f64 \<Rightarrow> i64" where
  "total_cmp_64 bits = bits XOR drop_bit 1 (signed_drop_bit 63 bits)"

lemma float64_key_total_cmp: "float64_key w = signed_key (total_cmp_64 w)"
proof -
  have "drop_bit 1 (- 1 :: u64) XOR sign_flip_64 = - 1"
    by (rule bit_word_eqI) (auto simp: bit_xor_iff bit_sign_flip bit_mask_iff possible_bit_word)
  then have "(w XOR drop_bit 1 (- 1)) XOR sign_flip_64 = NOT w"
    by (simp add: xor.assoc)
  then show ?thesis
    using signed_drop_bit_top [of w]
    by (simp add: float64_key_cases signed_key_def total_cmp_64_def)
qed

lemma float64_key_less: "float64_key a < float64_key b \<longleftrightarrow> sint (total_cmp_64 a) < sint (total_cmp_64 b)"
  by (simp add: float64_key_total_cmp signed_key_less)

end
