(* ===== verification/Prepare.thy ===== *)
theory Prepare
  imports Staged Value_Key
begin

text \<open>
  \<open>builder/mod.rs\<close> and \<open>builder/prepare.rs\<close>: the diff a client collects, its classification by slot,
  and \<open>stage\<close>, \<open>prepare\<close> and \<open>apply\<close>, composed from the passes of the theory Slots. Staging only
  writes to the string pool of the graph, so it is a step on the pool.
\<close>

section \<open>The diff\<close>

datatype new_or_existing_node = NewNodeRef nat | Existing raw_node_id

record 'e new_edge =
  ne_src :: new_or_existing_node
  ne_dst :: new_or_existing_node
  ne_kind :: 'e
  ne_property :: "property_value option"

record ('n, 'e) half_edge =
  he_node :: "'n node_id"
  he_neighbor :: raw_node_id
  he_direction :: dir
  he_edge_kind :: 'e
  he_property :: "stored_property option"

datatype 'p change =
  RemoveNode raw_node_id
| UpdateNodeProperty raw_node_id 'p quantified_property
| RemoveEdge raw_edge_id

record ('n, 'e, 'p) graph_diff =
  gd_new_nodes :: "('n, 'p) new_node list"
  gd_new_edges :: "'e new_edge list"
  gd_changes :: "'p change list"

definition graph_diff_default :: "('n, 'e, 'p) graph_diff" where
  "graph_diff_default = \<lparr>gd_new_nodes = [], gd_new_edges = [], gd_changes = []\<rparr>"

definition existing_node :: "('n, 'e, 'p, 'r) schema \<Rightarrow> 'n node_id \<Rightarrow> new_or_existing_node res" where
  "existing_node S value = map_ok Existing (raw_of_node S value)"

definition add_node ::
  "('n, 'p) new_node \<Rightarrow> ('n, 'e, 'p) graph_diff \<Rightarrow> nat \<times> ('n, 'e, 'p) graph_diff" where
  "add_node node d =
     (let d = d\<lparr>gd_new_nodes := gd_new_nodes d @ [node]\<rparr> in (length (gd_new_nodes d) - 1, d))"

definition add_edge ::
  "new_or_existing_node \<Rightarrow> new_or_existing_node \<Rightarrow> 'e \<Rightarrow> property_value option \<Rightarrow> ('n, 'e, 'p) graph_diff \<Rightarrow>
     nat \<times> ('n, 'e, 'p) graph_diff" where
  "add_edge src dst kind property d =
     (let edge = \<lparr>ne_src = src, ne_dst = dst, ne_kind = kind, ne_property = property\<rparr>;
          d = d\<lparr>gd_new_edges := gd_new_edges d @ [edge]\<rparr> in (length (gd_new_edges d) - 1, d))"

definition remove_node ::
  "raw_node_id \<Rightarrow> ('n, 'e, 'p) graph_diff \<Rightarrow> nat \<times> ('n, 'e, 'p) graph_diff" where
  "remove_node node_ref d =
     (let d = d\<lparr>gd_changes := gd_changes d @ [RemoveNode node_ref]\<rparr> in (length (gd_changes d) - 1, d))"

definition remove_edge ::
  "('n, 'e, 'p, 'r) schema \<Rightarrow> ('n, 'e) edge_id \<Rightarrow> ('n, 'e, 'p) graph_diff \<Rightarrow>
     (nat \<times> ('n, 'e, 'p) graph_diff) res" where
  "remove_edge S edge d =
     andthen (raw_of_edge S edge) (\<lambda>raw.
     let d = d\<lparr>gd_changes := gd_changes d @ [RemoveEdge raw]\<rparr> in Ok (length (gd_changes d) - 1, d))"

definition update_node_property ::
  "raw_node_id \<Rightarrow> 'p \<Rightarrow> quantified_property \<Rightarrow> ('n, 'e, 'p) graph_diff \<Rightarrow>
     nat \<times> ('n, 'e, 'p) graph_diff" where
  "update_node_property node_ref property_kind value d =
     (let d = d\<lparr>gd_changes := gd_changes d @ [UpdateNodeProperty node_ref property_kind value]\<rparr> in
      (length (gd_changes d) - 1, d))"

section \<open>Removing edges\<close>

text \<open>\<open>None\<close> when the slot stores no values, or the position is past the node's own half-edges.\<close>

definition half_edge_value_key ::
  "edge_storage \<Rightarrow> raw_node_id \<Rightarrow> nat \<Rightarrow> nat \<Rightarrow> value_key option res" where
  "half_edge_value_key edge_storage node slot_index local_seq =
     andthen (index_at edge_storage slot_index) (\<lambda>slot.
     Ok (if es_values slot = ANone then None
         else case get_offset (es_offsets slot) (raw_seq node) of
           None \<Rightarrow> None
         | Some (start, fin) \<Rightarrow>
             (let index = offset_value start + local_seq in
              if index < offset_value fin then Some (value_key (es_values slot) index) else None)))"

definition find_reverse_edge_seq ::
  "('n, 'e, 'p, 'r) schema \<Rightarrow> edge_storage \<Rightarrow> raw_node_id \<Rightarrow> nat \<Rightarrow> dir \<Rightarrow> 'e \<Rightarrow> raw_node_id \<Rightarrow> nat list \<Rightarrow>
     value_key option \<Rightarrow> nat res" where
  "find_reverse_edge_seq S edge_storage node slot_index d edge_kind target excluded wanted =
     andthen (index_at edge_storage slot_index) (\<lambda>slot.
     andthen (ok_or (NodeOffsetNotFound (raw_seq node)) (get_offset (es_offsets slot) (raw_seq node)))
       (\<lambda>(start, fin).
     let candidates = map fst (filter (\<lambda>(local_seq, nb). nb = target \<and> local_seq \<notin> set excluded)
           (enumerate 0 (get_neighbors slot start fin)));
         matching_value = (case wanted of
             None \<Rightarrow> None
           | Some w \<Rightarrow> find (\<lambda>local_seq. value_key (es_values slot) (offset_value start + local_seq) = w)
               candidates) in
     case (case matching_value of Some i \<Rightarrow> Some i | None \<Rightarrow> get_at candidates 0) of
       Some i \<Rightarrow> Ok i
     | None \<Rightarrow>
         andthen (node_of_raw S node) (\<lambda>n.
         andthen (node_of_raw S target) (\<lambda>t.
         Err (ReverseEdgeNotFound (node_id_str S t) (node_id_str S n) (dir_str d) (e_str S edge_kind))))))"

section \<open>Classifying the changes\<close>

text \<open>The tombstones, the property updates and the edge removals, the latter two by slot and node.\<close>

type_synonym classified_changes =
  "raw_node_id list \<times> quantified_property option buckets \<times> nat list buckets"

definition classify_remove_edge ::
  "('n, 'e, 'p, 'r) schema \<Rightarrow> graph \<Rightarrow> raw_edge_id \<Rightarrow> nat list buckets \<Rightarrow> nat list buckets res" where
  "classify_remove_edge S g edge removals =
     andthen (resolve_edge_kind S (re_handle edge)) (\<lambda>edge_kind.
     let primary_seq = unat (eh_seq (re_handle edge)) in
     andthen (resolve_edge_direction (re_handle edge)) (\<lambda>d.
     let (primary, primary_dir, secondary, secondary_dir) = orient_edge d (re_src edge) (re_dst edge) in
     andthen (resolve_node_kind S primary) (\<lambda>primary_kind.
     let primary_slot_index = edge_storage_slot S primary_kind primary_dir edge_kind in
     andthen (map_ok length (index_at (g_node_meta g) (n_index S primary_kind))) (\<lambda>primary_count.
     andthen (map_ok (\<lambda>cur. case cur of Some v \<Rightarrow> v | None \<Rightarrow> map (\<lambda>_. []) [0..<primary_count])
       (buckets_get removals primary_slot_index)) (\<lambda>bucket.
     andthen (index_at bucket (raw_seq primary)) (\<lambda>queued.
     if primary_seq \<in> set queued then Ok (removals[primary_slot_index := Some bucket])
     else
       let removals = removals[primary_slot_index :=
             Some (bucket[raw_seq primary := queued @ [primary_seq]])] in
       andthen (resolve_node_kind S secondary) (\<lambda>secondary_kind.
       let secondary_slot_index = edge_storage_slot S secondary_kind secondary_dir edge_kind in
       andthen (map_ok length (index_at (g_node_meta g) (n_index S secondary_kind))) (\<lambda>secondary_count.
       andthen (buckets_get removals secondary_slot_index) (\<lambda>claimed.
       let already_claimed = (case claimed of
             Some b \<Rightarrow> (case get_at b (raw_seq secondary) of Some l \<Rightarrow> l | None \<Rightarrow> [])
           | None \<Rightarrow> []) in
       andthen (half_edge_value_key (g_edges g) primary primary_slot_index primary_seq) (\<lambda>wanted.
       andthen (find_reverse_edge_seq S (g_edges g) secondary secondary_slot_index secondary_dir edge_kind
         primary already_claimed wanted) (\<lambda>secondary_seq.
       buckets_bucket [] removals secondary_slot_index secondary_count (\<lambda>b.
         andthen (index_at b (raw_seq secondary)) (\<lambda>l.
         store_at b (raw_seq secondary) (l @ [secondary_seq]))))))))))))))"

definition classify_change ::
  "('n, 'e, 'p, 'r) schema \<Rightarrow> graph \<Rightarrow> 'p change \<Rightarrow> classified_changes \<Rightarrow> classified_changes res" where
  "classify_change S g change = (\<lambda>(node_tombstones, updates, removals).
     case change of
       RemoveNode node_ref \<Rightarrow>
         andthen (node_of_raw S node_ref) (\<lambda>node.
         andthen (index_at (g_node_meta g) (n_index S (nid_kind node))) (\<lambda>metas.
         Ok (if get_at metas (raw_seq node_ref) \<noteq> None then node_tombstones @ [node_ref] else node_tombstones,
             updates, removals)))
     | UpdateNodeProperty node_ref property_kind quantified \<Rightarrow>
         andthen (node_of_raw S node_ref) (\<lambda>node.
         andthen (map_ok length (index_at (g_node_meta g) (n_index S (nid_kind node)))) (\<lambda>count.
         andthen (buckets_bucket None updates (property_storage_slot S (nid_kind node) property_kind) count (\<lambda>b.
             if raw_seq node_ref < length b then Ok (b[raw_seq node_ref := Some quantified])
             else Err (NodeOffsetNotFound (raw_seq node_ref)))) (\<lambda>updates.
         Ok (node_tombstones, updates, removals))))
     | RemoveEdge edge \<Rightarrow>
         map_ok (\<lambda>removals. (node_tombstones, updates, removals)) (classify_remove_edge S g edge removals))"

definition classify_changes ::
  "('n, 'e, 'p, 'r) schema \<Rightarrow> 'p change list \<Rightarrow> graph \<Rightarrow> classified_changes res" where
  "classify_changes S changes g =
     for_each (classify_change S g) changes
       ([], buckets_new (property_storage_size S), buckets_new (edge_storage_size S))"

section \<open>Adding nodes and edges\<close>

definition count_new_nodes ::
  "('n, 'e, 'p, 'r) schema \<Rightarrow> ('n, 'p) new_node list \<Rightarrow> nat list res" where
  "count_new_nodes S new_nodes =
     for_each (\<lambda>node acc.
         andthen (index_at acc (n_index S (nn_kind node))) (\<lambda>c.
         store_at acc (n_index S (nn_kind node)) (c + 1)))
       new_nodes (replicate (number_of_node_kinds S) 0)"

text \<open>The counters, the metas, the ids handed out and the property values by slot and node.\<close>

type_synonym 'n placed_nodes =
  "nat list \<times> node_meta_storage \<times> 'n node_id list \<times> property_value list option buckets"

definition place_new_node ::
  "('n, 'e, 'p, 'r) schema \<Rightarrow> nat list \<Rightarrow> nat list \<Rightarrow> ('n, 'p) new_node \<Rightarrow> 'n placed_nodes \<Rightarrow>
     'n placed_nodes res" where
  "place_new_node S graph_nodes_max_seq new_nodes_count node =
     (\<lambda>(seq_counters, new_nodes, node_remapper, slot_property).
     let kind_index = n_index S (nn_kind node) in
     andthen (index_at seq_counters kind_index) (\<lambda>local_index.
     andthen (index_at graph_nodes_max_seq kind_index) (\<lambda>max_seq.
     let seq = local_index + max_seq in
     andthen (store_at seq_counters kind_index (local_index + 1)) (\<lambda>seq_counters.
     andthen (index_at new_nodes kind_index) (\<lambda>nodes_storage.
     andthen (store_at new_nodes kind_index (nodes_storage @ [default_node_meta])) (\<lambda>new_nodes.
     let node_remapper = node_remapper @ [NodeId (nn_kind node) seq] in
     map_ok (\<lambda>slot_property. (seq_counters, new_nodes, node_remapper, slot_property))
       (for_each (\<lambda>(prop_kind, new_values) slot_property.
           andthen (index_at new_nodes_count kind_index) (\<lambda>nodes_count.
           buckets_bucket None slot_property (property_storage_slot S (nn_kind node) prop_kind) nodes_count
             (\<lambda>b. store_at b local_index (Some new_values))))
         (nn_properties node) slot_property)))))))"

definition place_new_nodes ::
  "('n, 'e, 'p, 'r) schema \<Rightarrow> nat list \<Rightarrow> nat list \<Rightarrow> ('n, 'p) new_node list \<Rightarrow> 'n placed_nodes res" where
  "place_new_nodes S graph_nodes_max_seq new_nodes_count new_nodes =
     for_each (place_new_node S graph_nodes_max_seq new_nodes_count) new_nodes
       (replicate (number_of_node_kinds S) 0, node_meta_storage_new S, [],
        buckets_new (property_storage_size S))"

text \<open>An id of an existing node goes through the checked conversion; a dangling one resolves to none.\<close>

definition resolve_node_ref ::
  "('n, 'e, 'p, 'r) schema \<Rightarrow> 'n node_id list \<Rightarrow> new_or_existing_node \<Rightarrow> 'n node_id option" where
  "resolve_node_ref S node_remapper node = (case node of
       NewNodeRef i \<Rightarrow> get_at node_remapper i
     | Existing node_ref \<Rightarrow> (case node_of_raw S node_ref of Ok n \<Rightarrow> Some n | _ \<Rightarrow> None))"

definition edge_to_halves ::
  "('n, 'e, 'p, 'r) schema \<Rightarrow> 'e new_edge \<Rightarrow> (new_or_existing_node \<Rightarrow> 'n node_id option) \<Rightarrow>
     stored_property option \<Rightarrow> ('n, 'e) half_edge list option res" where
  "edge_to_halves S new_edge node_resolver property =
     (case node_resolver (ne_src new_edge) of
        None \<Rightarrow> Ok None
      | Some src_id \<Rightarrow>
        (case node_resolver (ne_dst new_edge) of
           None \<Rightarrow> Ok None
         | Some dst_id \<Rightarrow>
             andthen (raw_of_node S dst_id) (\<lambda>raw_dst.
             andthen (raw_of_node S src_id) (\<lambda>raw_src.
             Ok (Some
               [\<lparr>he_node = src_id, he_neighbor = raw_dst, he_direction = src_half,
                 he_edge_kind = ne_kind new_edge, he_property = property\<rparr>,
                \<lparr>he_node = dst_id, he_neighbor = raw_src, he_direction = dst_half,
                 he_edge_kind = ne_kind new_edge, he_property = property\<rparr>])))))"

fun any_each :: "('x \<Rightarrow> ('e, bool) outcome) \<Rightarrow> 'x list \<Rightarrow> ('e, bool) outcome" where
  "any_each p [] = Ok False"
| "any_each p (x # xs) = andthen (p x) (\<lambda>b. if b then Ok True else any_each p xs)"

text \<open>A half names a node that is not there after the diff: past both ranges, deleted, or staged for removal.\<close>

definition half_is_dropped ::
  "('n, 'e, 'p, 'r) schema \<Rightarrow> graph \<Rightarrow> nat list \<Rightarrow> nat list \<Rightarrow> raw_node_id list \<Rightarrow> ('n, 'e) half_edge \<Rightarrow> bool res" where
  "half_is_dropped S g graph_nodes_max_seq new_nodes_count staged_removed h =
     (let seq = nid_seq (he_node h); kind_index = n_index S (nid_kind (he_node h)) in
      andthen (index_at graph_nodes_max_seq kind_index) (\<lambda>existing_count.
      andthen (index_at new_nodes_count kind_index) (\<lambda>new_count.
      let node_count = existing_count + new_count in
      andthen (if seq < existing_count
          then
            andthen (node_is_deleted S (g_node_meta g) (he_node h)) (\<lambda>deleted.
            if deleted then Ok True
            else map_ok (\<lambda>raw. raw \<in> set staged_removed) (raw_of_node S (he_node h)))
          else Ok False) (\<lambda>is_removed.
      Ok (seq \<ge> node_count \<or> is_removed)))))"

definition push_half ::
  "('n, 'e, 'p, 'r) schema \<Rightarrow> nat list \<Rightarrow> nat list \<Rightarrow> ('n, 'e) half_edge \<Rightarrow> edge_half_buckets \<Rightarrow>
     edge_half_buckets res" where
  "push_half S graph_nodes_max_seq new_nodes_count half slot_edge_halves =
     (let kind = nid_kind (he_node half);
          slot_index = edge_storage_slot S kind (he_direction half) (he_edge_kind half) in
      andthen (index_at graph_nodes_max_seq (n_index S kind)) (\<lambda>existing_count.
      andthen (index_at new_nodes_count (n_index S kind)) (\<lambda>new_count.
      half_buckets_push slot_edge_halves slot_index (existing_count + new_count)
        \<lparr>sh_seq = nid_seq (he_node half), sh_neighbor = he_neighbor half,
         sh_property = he_property half\<rparr>)))"

definition push_new_edge ::
  "('n, 'e, 'p, 'r) schema \<Rightarrow> graph \<Rightarrow> nat list \<Rightarrow> nat list \<Rightarrow> raw_node_id list \<Rightarrow> 'n node_id list \<Rightarrow>
     'e new_edge \<Rightarrow> edge_half_buckets \<Rightarrow> (pool, error, edge_half_buckets) step" where
  "push_new_edge S g graph_nodes_max_seq new_nodes_count staged_removed node_remapper new_edge
      slot_edge_halves =
     sbind (case ne_property new_edge of
         None \<Rightarrow> sret None
       | Some prop \<Rightarrow> sbind (to_stored_property prop) (\<lambda>p. sret (Some p))) (\<lambda>property.
     sbind (slift (edge_to_halves S new_edge (resolve_node_ref S node_remapper) property)) (\<lambda>halves.
     case halves of
       None \<Rightarrow> sret slot_edge_halves
     | Some hs \<Rightarrow>
         slift
           (andthen (any_each (half_is_dropped S g graph_nodes_max_seq new_nodes_count staged_removed) hs)
             (\<lambda>dropped.
           if dropped then Ok slot_edge_halves
           else for_each (push_half S graph_nodes_max_seq new_nodes_count) hs slot_edge_halves))))"

section \<open>\<open>stage\<close>, \<open>prepare\<close>, \<open>apply\<close>\<close>

definition last_offsets :: "nat \<Rightarrow> prop_replace list \<Rightarrow> offset option list res" where
  "last_offsets slot_count rs =
     for_each (\<lambda>r v. store_at v (pr_slot r) (last_opt (pr_offsets r))) rs (replicate slot_count None)"

definition offsets_baseline :: "nat \<Rightarrow> edge_replace list \<Rightarrow> offset list option list res" where
  "offsets_baseline slot_count rs =
     for_each (\<lambda>r v. store_at v (er_slot r) (Some (er_offsets r))) rs (replicate slot_count None)"

definition stage ::
  "('n, 'e, 'p, 'r) schema \<Rightarrow> ('n, 'e, 'p) graph_diff \<Rightarrow> graph \<Rightarrow> (pool, error, 'n staged_parts) step" where
  "stage S d g =
     sbind (slift (classify_changes S (gd_changes d) g)) (\<lambda>(node_tombstones, updates, removals).
     sbind (prepare_property_updates S (g_props g) updates) (\<lambda>property_replacements.
     sbind (slift (prepare_edge_removals S (g_edges g) removals)) (\<lambda>edge_replacements.
     sbind (slift (last_offsets (property_storage_size S) property_replacements)) (\<lambda>property_last_offset.
     sbind (slift (offsets_baseline (edge_storage_size S) edge_replacements)) (\<lambda>edge_offsets_baseline.
     sbind (slift (map_each (node_count_by_kind_with_deleted S g) (n_all S))) (\<lambda>graph_nodes_max_seq.
     sbind (slift (count_new_nodes S (gd_new_nodes d))) (\<lambda>new_nodes_count.
     sbind (slift (place_new_nodes S graph_nodes_max_seq new_nodes_count (gd_new_nodes d)))
       (\<lambda>(seq_counters, new_nodes, node_remapper, slot_property).
     sbind (prepare_new_node_properties S (g_props g) graph_nodes_max_seq new_nodes_count slot_property
       property_last_offset) (\<lambda>property_appends.
     let node_tombstones = (if gd_new_edges d = [] then node_tombstones else sort node_tombstones);
         staged_removed = (if gd_new_edges d = [] then [] else node_tombstones) in
     sbind (sfor_each
         (push_new_edge S g graph_nodes_max_seq new_nodes_count staged_removed node_remapper)
         (gd_new_edges d) (half_buckets_new (edge_storage_size S))) (\<lambda>slot_edge_halves.
     sbind (slift (prepare_new_edges S (g_edges g) graph_nodes_max_seq new_nodes_count slot_edge_halves
       edge_offsets_baseline)) (\<lambda>edge_inserts.
     sret \<lparr>st_new_node_meta = new_nodes, st_node_remapper = node_remapper,
           st_node_tombstones = node_tombstones, st_property_replacements = property_replacements,
           st_edge_replacements = edge_replacements, st_property_appends = property_appends,
           st_edge_inserts = edge_inserts\<rparr>)))))))))))"

text \<open>The graph \<open>prepare\<close> borrows is the state; after an error it has its old pool length again.\<close>

definition prepare ::
  "('n, 'e, 'p, 'r) schema \<Rightarrow> ('n, 'e, 'p) graph_diff \<Rightarrow> (graph, error, 'n staged_diff) step" where
  "prepare S d g =
     (let strings_baseline = pool_len (g_strings g);
          (r, strings) = stage S d g (g_strings g);
          g' = g\<lparr>g_strings := strings\<rparr> in
      case r of
        Ok parts \<Rightarrow> (Ok \<lparr>sd_graph = g', sd_strings_baseline = Some strings_baseline, sd_parts = parts\<rparr>, g')
      | Err e \<Rightarrow>
          (case pool_truncate strings_baseline strings of
             Ok strings \<Rightarrow> (Err e, g\<lparr>g_strings := strings\<rparr>)
           | Err e \<Rightarrow> (Err e, g') | Panic \<Rightarrow> (Panic, g') | Diverge \<Rightarrow> (Diverge, g'))
      | Panic \<Rightarrow> (Panic, g')
      | Diverge \<Rightarrow> (Diverge, g'))"

definition apply_diff ::
  "('n, 'e, 'p, 'r) schema \<Rightarrow> ('n, 'e, 'p) graph_diff \<Rightarrow> graph \<Rightarrow> (graph \<times> 'n node_id list) res" where
  "apply_diff S d g = andthen (fst (prepare S d g)) (commit S)"

end
