(* ===== verification/Slots_Properties.thy ===== *)
theory Slots_Properties
  imports Slots
begin

text \<open>
  What the two property passes of \<open>builder/slots.rs\<close> do to the rows of a slot: an update replaces
  the row of each node it names and keeps every other row, new nodes append rows. Both leave a
  well-formed slot, only append to the strings pool, and panic only when the pool is full.
\<close>

section \<open>The pool while a diff is staged\<close>

fun value_strings :: "property_value \<Rightarrow> bytes set" where
  "value_strings (VString s) = {s}"
| "value_strings _ = {}"

text \<open>The one panic of staging: a string of the diff does not fit into the pool.\<close>

definition pool_full :: "bytes set \<Rightarrow> pool \<Rightarrow> bool" where
  "pool_full V pool \<longleftrightarrow> (\<exists>ss. pool_repr pool ss \<and> (\<exists>s\<in>V. abs_intern ss s = None))"

definition stored_all :: "bytes list \<Rightarrow> property_value list \<Rightarrow> stored_property list \<Rightarrow> bool" where
  "stored_all ss = list_all2 (stored_as ss)"

lemma stored_all_prefix: "stored_all ss vs ps \<Longrightarrow> prefix ss ss' \<Longrightarrow> stored_all ss' vs ps"
  unfolding stored_all_def by (erule list_all2_mono) (rule stored_as_prefix)

lemma stored_all_length: "stored_all ss vs ps \<Longrightarrow> length ps = length vs"
  by (simp add: stored_all_def list_all2_lengthD)

lemma stored_all_Nil [simp]: "stored_all ss [] ps \<longleftrightarrow> ps = []"
  by (simp add: stored_all_def)

lemma stored_all_snoc: "stored_all ss vs ps \<Longrightarrow> stored_as ss v p \<Longrightarrow> stored_all ss (vs @ [v]) (ps @ [p])"
  by (simp add: stored_all_def list_all2_appendI)

lemma stored_all_unique: "distinct ss \<Longrightarrow> stored_all ss vs ps \<Longrightarrow> stored_all ss vs qs \<Longrightarrow> ps = qs"
proof (induction vs arbitrary: ps qs)
  case (Cons v vs)
  then show ?case using stored_as_unique by (fastforce simp: stored_all_def list_all2_Cons1)
qed simp

lemma to_stored_spec:
  assumes "pool_repr pool ss" and "value_strings v \<subseteq> V"
  shows "sspec (\<lambda>p pool'. \<exists>ss'. pool_repr pool' ss' \<and> prefix ss ss' \<and> stored_as ss' v p)
    (\<lambda>e pool'. False) (pool_full V) (to_stored_property v pool)"
  using assms(1)
proof (cases rule: to_stored_cases [where v = v])
  case full
  then obtain s where v: "v = VString s" by (cases v) auto
  from assms(1) have "abs_intern ss s = None"
  proof (cases rule: sp.put_cases [where s = s])
    case (stored i p' ss')
    then show ?thesis using full v by simp
  qed
  then show ?thesis using full assms v by (auto simp: pool_full_def)
qed auto

section \<open>A batch of values\<close>

definition errors_extend :: "bytes list \<Rightarrow> error \<Rightarrow> pool \<Rightarrow> bool" where
  "errors_extend ss e pool \<longleftrightarrow> sp.extends ss pool"

lemma extendsI: "pool_repr pool ss' \<Longrightarrow> prefix ss ss' \<Longrightarrow> sp.extends ss pool"
  by (auto simp: sp.extends_def)

lemma append_property_batch_spec:
  assumes pool: "pool_repr pool ss" and V: "\<And>v. v \<in> set props \<Longrightarrow> value_strings v \<subseteq> V"
  shows "sspec (\<lambda>w pool'. case w of (a', c') \<Rightarrow> \<exists>ss' ps. pool_repr pool' ss' \<and> prefix ss ss' \<and> stored_all ss' props ps \<and>
      typed (sa_typ a) ps \<and> a' = sa_of (sa_typ a) (sa_values a @ ps) \<and>
      offset_value c' = offset_value c + length ps)
    (\<lambda>e. sp.extends ss) (pool_full V) (append_property_batch a c props pool)"
proof -
  let ?P = "\<lambda>done_props a' pool'. \<exists>ss' ps. pool_repr pool' ss' \<and> prefix ss ss' \<and> stored_all ss' done_props ps \<and>
      typed (sa_typ a) ps \<and> a' = sa_of (sa_typ a) (sa_values a @ ps)"
  have "sspec (?P props) (\<lambda>e. sp.extends ss) (pool_full V)
      (sfor_each (\<lambda>prop values. sbind (to_stored_property prop) (\<lambda>sp. slift (sa_try_push values sp))) props a pool)"
  proof (rule sspec_sfor_each)
    show "?P [] a pool"
      using pool by (intro exI [of _ ss] exI [of _ "[]"]) simp
  next
    fix ys y zs a' pool'
    assume split: "props = ys @ y # zs" and "?P ys a' pool'"
    then obtain ss' ps where inv: "pool_repr pool' ss'" "prefix ss ss'" "stored_all ss' ys ps"
      "typed (sa_typ a) ps" "a' = sa_of (sa_typ a) (sa_values a @ ps)" by blast
    have "sspec (\<lambda>p pool''. \<exists>ss''. pool_repr pool'' ss'' \<and> prefix ss' ss'' \<and> stored_as ss'' y p)
        (\<lambda>e pool''. False) (pool_full V) (to_stored_property y pool')"
      using to_stored_spec [OF inv(1)] V split by simp
    then show "sspec (?P (ys @ [y])) (\<lambda>e. sp.extends ss) (pool_full V)
        (sbind (to_stored_property y) (\<lambda>sp. slift (sa_try_push a' sp)) pool')"
      unfolding sspec_sbind sspec_slift
    proof (rule sspec_mono)
      fix p pool''
      assume "\<exists>ss''. pool_repr pool'' ss'' \<and> prefix ss' ss'' \<and> stored_as ss'' y p"
      then obtain ss'' where *: "pool_repr pool'' ss''" "prefix ss' ss''" "stored_as ss'' y p" by blast
      have pre: "prefix ss ss''" using inv(2) *(2) by (rule prefix_order.trans)
      have "stored_all ss'' (ys @ [y]) (ps @ [p])"
        using stored_all_snoc [OF stored_all_prefix [OF inv(3) *(2)] *(3)] .
      moreover have "sa_typ a' = sa_typ a" "sa_values a' = sa_values a @ ps" by (simp_all add: inv)
      ultimately show "ospec (\<lambda>a''. ?P (ys @ [y]) a'' pool'') (\<lambda>e. sp.extends ss pool'') (pool_full V pool'')
          (sa_try_push a' p)"
        using * pre inv(4) by (auto simp: sa_try_push_values intro: extendsI
            intro!: exI [of _ ss''] exI [of _ "ps @ [p]"])
    qed auto
  qed
  then show ?thesis
    unfolding append_property_batch_def sspec_sbind sspec_slift sspec_sret
    by (rule sspec_mono)
      (fastforce simp: offset_checked_add_delta_cases stored_all_length intro: extendsI)+
qed

section \<open>Updating the rows of a slot\<close>

lemma upt_split: "[a..<b] = ys @ y # zs \<Longrightarrow> y = a + length ys \<and> y < b"
proof -
  assume eq: "[a..<b] = ys @ y # zs"
  have "length ys < length [a..<b]" unfolding eq by simp
  moreover have "[a..<b] ! length ys = y" unfolding eq by simp
  ultimately show ?thesis by auto
qed

lemma csr_snoc:
  assumes "csr offs xs rows" and "offset_value c = length xs + length r"
  shows "csr (offs @ [c]) (xs @ r) (rows @ [r])"
  using csr_append [OF assms(1), of "[c]" "[r]"] assms(2) by simp

lemma csr_Nil: "csr [offset_zero] [] []"
  by (simp add: csr_def)

definition updated_row ::
  "bytes list \<Rightarrow> quantified_property option \<Rightarrow> stored_property list \<Rightarrow> stored_property list \<Rightarrow> bool" where
  "updated_row ss u old new \<longleftrightarrow>
     (case u of Some q \<Rightarrow> stored_all ss (quantified_values q) new | None \<Rightarrow> new = old)"

definition updated_rows ::
  "bytes list \<Rightarrow> quantified_property option list \<Rightarrow> stored_property list list \<Rightarrow> stored_property list list \<Rightarrow> bool" where
  "updated_rows ss us rows rows' \<longleftrightarrow> length rows' = length us \<and>
     (\<forall>i<length us. updated_row ss (us ! i) (rows ! i) (rows' ! i))"

lemma updated_row_prefix: "updated_row ss u old new \<Longrightarrow> prefix ss ss' \<Longrightarrow> updated_row ss' u old new"
  by (auto simp: updated_row_def intro: stored_all_prefix split: option.splits)

definition update_strings :: "quantified_property option list \<Rightarrow> bytes set" where
  "update_strings us = (\<Union>q\<in>{q. Some q \<in> set us}. \<Union>v\<in>set (quantified_values q). value_strings v)"

lemma pushes_old:
  assumes "typed t xs" and "typed t r"
  shows "for_each (\<lambda>prop values. sa_try_push values prop) r (sa_of t xs) = Ok (sa_of t (xs @ r))"
  using sa_pushes [of "sa_of t xs" r] assms by simp

lemma update_node_spec:
  assumes slot: "csr (ps_offsets slot) (sa_values (ps_values slot)) rows" "typed t (sa_values (ps_values slot))"
    and us: "length us = length rows" and k: "k < length rows" and V: "update_strings us \<subseteq> V"
    and pool: "pool_repr pool ss" and new: "csr offs (concat rows') rows'" "typed t (concat rows')"
      "offset_value c = length (concat rows')"
  shows "sspec (\<lambda>w pool'. case w of (a', offs', c') \<Rightarrow> \<exists>ss' r. pool_repr pool' ss' \<and> prefix ss ss' \<and>
      updated_row ss' (us ! k) (rows ! k) r \<and> typed t r \<and> a' = sa_of t (concat (rows' @ [r])) \<and>
      csr offs' (concat (rows' @ [r])) (rows' @ [r]) \<and> offset_value c' = length (concat (rows' @ [r])))
    (\<lambda>e. sp.extends ss) (pool_full V) (update_node slot us (Suc k) (sa_of t (concat rows'), offs, c) pool)"
proof -
  let ?a = "ps_offsets slot ! k" and ?b = "ps_offsets slot ! Suc k"
  have ix: "index_at (ps_offsets slot) k = Ok ?a" "index_at (ps_offsets slot) (Suc k) = Ok ?b"
    "index_at us k = Ok (us ! k)"
    using csr_length [OF slot(1)] us k by simp_all
  show ?thesis
  proof (cases "us ! k")
    case None
    have row: "iter_items (sa_iter_range (ps_values slot) (offset_value ?a) (offset_value ?b)) = rows ! k"
      using csr_row(4) [OF slot(1) k] by (simp add: sa_iter_range_items)
    have r: "typed t (rows ! k)"
    proof -
      have "set (rows ! k) \<subseteq> set (sa_values (ps_values slot))"
        using k by (auto simp: csr_concat [OF slot(1)] intro: nth_mem)
      then show ?thesis using slot(2) by (auto simp: typed_def)
    qed
    note len = csr_row(1-3) [OF slot(1) k]
    let ?m = "length (concat rows')" and ?n = "length (rows ! k)"
    have res: "update_node slot us (Suc k) (sa_of t (concat rows'), offs, c) pool =
        (map_ok (\<lambda>c'. (sa_of t (concat rows' @ rows ! k), offs @ [c'], c')) (offset_checked_add_delta c ?n), pool)"
      using None len
      by (cases "offset_checked_add_delta c ?n")
        (simp_all add: update_node_def ix row pushes_old [OF new(2) r] offset_checked_sub_cases sbind_def)
    show ?thesis
    proof (cases "offset_checked_add_delta c ?n")
      case (Ok c')
      then have c': "offset_value c' = length (concat rows') + ?n"
        using new(3) by (auto simp: offset_checked_add_delta_cases split: if_splits)
      have "csr (offs @ [c']) (concat (rows' @ [rows ! k])) (rows' @ [rows ! k])"
        using csr_snoc [OF new(1) c'] by simp
      then show ?thesis
        unfolding res Ok using pool r c' None
        by (simp add: updated_row_def) (rule exI [of _ ss], simp)
    qed (use res extendsI [OF pool, of ss] in \<open>auto simp: offset_checked_add_delta_cases split: if_splits\<close>)
  next
    case (Some q)
    have "Some q \<in> set us" using Some us k nth_mem by metis
    then have "value_strings v \<subseteq> V" if "v \<in> set (quantified_values q)" for v
      using V that unfolding update_strings_def by blast
    then have spec: "sspec (\<lambda>w pool'. case w of (a', c') \<Rightarrow> \<exists>ss' ps. pool_repr pool' ss' \<and> prefix ss ss' \<and>
        stored_all ss' (quantified_values q) ps \<and> typed t ps \<and> a' = sa_of t (concat rows' @ ps) \<and>
        offset_value c' = offset_value c + length ps)
        (\<lambda>e. sp.extends ss) (pool_full V) (append_property_batch (sa_of t (concat rows')) c (quantified_values q) pool)"
      using append_property_batch_spec [OF pool, of "quantified_values q" V "sa_of t (concat rows')" c] new(2) by simp
    have step: "update_node slot us (Suc k) (sa_of t (concat rows'), offs, c) pool =
        sbind (append_property_batch (sa_of t (concat rows')) c (quantified_values q))
          (\<lambda>(values, c'). sret (values, offs @ [c'], c')) pool"
      by (simp add: update_node_def ix Some)
    show ?thesis
      unfolding step sspec_sbind
    proof (rule sspec_mono [OF spec])
      fix res pool'
      assume "case res of (a', c') \<Rightarrow> \<exists>ss' ps. pool_repr pool' ss' \<and> prefix ss ss' \<and>
        stored_all ss' (quantified_values q) ps \<and> typed t ps \<and> a' = sa_of t (concat rows' @ ps) \<and>
        offset_value c' = offset_value c + length ps"
      then obtain a' c' ss' ps where *: "res = (a', c')" "pool_repr pool' ss'" "prefix ss ss'"
        "stored_all ss' (quantified_values q) ps" "typed t ps" "a' = sa_of t (concat rows' @ ps)"
        "offset_value c' = length (concat rows') + length ps"
        using new(3) by (cases res) auto
      have "csr (offs @ [c']) (concat (rows' @ [ps])) (rows' @ [ps])"
        using csr_snoc [OF new(1) *(7)] by simp
      then show "sspec (\<lambda>w pool'. case w of (a', offs', c') \<Rightarrow> \<exists>ss' r. pool_repr pool' ss' \<and> prefix ss ss' \<and>
          updated_row ss' (us ! k) (rows ! k) r \<and> typed t r \<and> a' = sa_of t (concat (rows' @ [r])) \<and>
          csr offs' (concat (rows' @ [r])) (rows' @ [r]) \<and> offset_value c' = length (concat (rows' @ [r])))
        (\<lambda>e. sp.extends ss) (pool_full V) ((case res of (values, c') \<Rightarrow> sret (values, offs @ [c'], c')) pool')"
        using * Some by (simp add: updated_row_def) (rule exI [of _ ss'], simp, rule exI [of _ ps], simp)
    qed auto
  qed
qed

lemma update_slot_spec:
  assumes slot: "slot_csr (ps_offsets slot) (sa_values (ps_values slot)) n rows" "ps_offsets slot \<noteq> []"
    and us: "length us = n" and V: "update_strings us \<subseteq> V" and pool: "pool_repr pool ss"
  shows "sspec (\<lambda>w pool'. case w of (a', offs') \<Rightarrow> \<exists>ss' rows'. pool_repr pool' ss' \<and> prefix ss ss' \<and>
      updated_rows ss' us rows rows' \<and> sa_typ a' = sa_typ (ps_values slot) \<and>
      slot_csr offs' (sa_values a') n rows' \<and> offs' \<noteq> [])
    (\<lambda>e. sp.extends ss) (pool_full V) (update_slot slot us pool)"
proof -
  let ?t = "sa_typ (ps_values slot)"
  have csr: "csr (ps_offsets slot) (sa_values (ps_values slot)) rows" and n: "length rows = n"
    using slot by (auto simp: slot_csr_def)
  let ?P = "\<lambda>ys w pool'. case w of (a', offs', c') \<Rightarrow> \<exists>ss' rows'. pool_repr pool' ss' \<and> prefix ss ss' \<and>
      length rows' = length ys \<and> (\<forall>i<length ys. updated_row ss' (us ! i) (rows ! i) (rows' ! i)) \<and>
      typed ?t (concat rows') \<and> a' = sa_of ?t (concat rows') \<and> csr offs' (concat rows') rows' \<and>
      offset_value c' = length (concat rows')"
  have "sspec (?P [1..<Suc n]) (\<lambda>e. sp.extends ss) (pool_full V)
      (sfor_each (update_node slot us) [1..<Suc n] (sa_new ?t, [offset_zero], offset_zero) pool)"
  proof (rule sspec_sfor_each)
    show "?P [] (sa_new ?t, [offset_zero], offset_zero) pool"
      using pool csr_Nil by (auto simp: sa_of_Nil intro!: exI [of _ ss])
  next
    fix ys y zs v pool'
    assume split: "[1..<Suc n] = ys @ y # zs" and "?P ys v pool'"
    then obtain offs c ss' rows' where v: "v = (sa_of ?t (concat rows'), offs, c)" and
      inv: "pool_repr pool' ss'" "prefix ss ss'" "length rows' = length ys"
        "\<forall>i<length ys. updated_row ss' (us ! i) (rows ! i) (rows' ! i)"
        "typed ?t (concat rows')" "csr offs (concat rows') rows'" "offset_value c = length (concat rows')"
      by (cases v) auto
    have y: "y = Suc (length ys)" and k: "length ys < length rows"
      using upt_split [OF split] n by auto
    have "sspec (\<lambda>w pool''. case w of (a', offs', c') \<Rightarrow> \<exists>ss'' r. pool_repr pool'' ss'' \<and> prefix ss' ss'' \<and>
      updated_row ss'' (us ! length ys) (rows ! length ys) r \<and> typed ?t r \<and> a' = sa_of ?t (concat (rows' @ [r])) \<and>
      csr offs' (concat (rows' @ [r])) (rows' @ [r]) \<and> offset_value c' = length (concat (rows' @ [r])))
      (\<lambda>e. sp.extends ss') (pool_full V) (update_node slot us y v pool')"
      unfolding v y using csr us n k V inv by (intro update_node_spec) simp_all
    then show "sspec (?P (ys @ [y])) (\<lambda>e. sp.extends ss) (pool_full V) (update_node slot us y v pool')"
    proof (rule sspec_mono)
      fix w pool''
      assume "case w of (a', offs', c') \<Rightarrow> \<exists>ss'' r. pool_repr pool'' ss'' \<and> prefix ss' ss'' \<and>
        updated_row ss'' (us ! length ys) (rows ! length ys) r \<and> typed ?t r \<and> a' = sa_of ?t (concat (rows' @ [r])) \<and>
        csr offs' (concat (rows' @ [r])) (rows' @ [r]) \<and> offset_value c' = length (concat (rows' @ [r]))"
      then obtain a' offs' c' ss'' r where w: "w = (a', offs', c')" and *: "pool_repr pool'' ss''" "prefix ss' ss''"
        "updated_row ss'' (us ! length ys) (rows ! length ys) r" "typed ?t r" "a' = sa_of ?t (concat (rows' @ [r]))"
        "csr offs' (concat (rows' @ [r])) (rows' @ [r])" "offset_value c' = length (concat (rows' @ [r]))"
        by (cases w) blast
      have "\<forall>i<length (ys @ [y]). updated_row ss'' (us ! i) (rows ! i) ((rows' @ [r]) ! i)"
        using inv(3,4) *(2,3) by (auto simp: nth_append less_Suc_eq intro: updated_row_prefix)
      moreover have "prefix ss ss''" using inv(2) *(2) by (rule prefix_order.trans)
      ultimately show "?P (ys @ [y]) w pool''"
        unfolding w prod.case using * inv(3,5) by (intro exI [of _ ss''] exI [of _ "rows' @ [r]"]) simp
    next
      fix e pool''
      assume "sp.extends ss' pool''"
      then show "sp.extends ss pool''"
        using inv(2) prefix_order.trans by (auto simp: sp.extends_def)
    qed
  qed
  moreover have "length (ps_offsets slot) = Suc n" using csr_length [OF csr] n by simp
  ultimately show ?thesis
    unfolding update_slot_def sspec_sbind sa_with_capacity_new
  proof (simp only:, elim sspec_mono)
    fix w pool'
    assume "?P [1..<Suc n] w pool'"
    then obtain a' offs' c' ss' rows' where w: "w = (a', offs', c')" and *: "pool_repr pool' ss'" "prefix ss ss'"
      "length rows' = n" "\<forall>i<n. updated_row ss' (us ! i) (rows ! i) (rows' ! i)"
      "typed ?t (concat rows')" "a' = sa_of ?t (concat rows')" "csr offs' (concat rows') rows'"
      by (cases w) auto
    have "offs' \<noteq> []" using csr_length [OF *(7)] by auto
    then show "sspec (\<lambda>w pool'. case w of (a', offs') \<Rightarrow> \<exists>ss' rows'. pool_repr pool' ss' \<and> prefix ss ss' \<and>
        updated_rows ss' us rows rows' \<and> sa_typ a' = ?t \<and> slot_csr offs' (sa_values a') n rows' \<and> offs' \<noteq> [])
      (\<lambda>e. sp.extends ss) (pool_full V) ((case w of (values, offsets, _) \<Rightarrow> sret (values, offsets)) pool')"
      using * us by (auto simp: w updated_rows_def slot_csr_def intro!: exI [of _ ss'] exI [of _ rows'])
  qed auto
qed

section \<open>The update pass over all slots\<close>

text \<open>What committing a replacement does to the storage.\<close>

definition put_replace :: "prop_replace \<Rightarrow> prop_storage \<Rightarrow> prop_storage" where
  "put_replace r ps = ps[pr_slot r := \<lparr>ps_offsets = pr_offsets r, ps_values = pr_values r\<rparr>]"

definition slot_updates :: "quantified_property option buckets \<Rightarrow> nat \<Rightarrow> nat \<Rightarrow> quantified_property option list" where
  "slot_updates pending i n = (case pending ! i of Some us \<Rightarrow> us | None \<Rightarrow> replicate n None)"

lemma length_fold_put_replace [simp]: "length (fold put_replace rs ps) = length ps"
  by (induction rs arbitrary: ps) (simp_all add: put_replace_def)

text \<open>A slot before and after: well-formed, of the same type, its rows updated.\<close>

definition slot_updated :: "bytes list \<Rightarrow> nat \<Rightarrow> quantified_property option list \<Rightarrow> prop_slot \<Rightarrow> prop_slot \<Rightarrow> bool" where
  "slot_updated ss n us slot slot' \<longleftrightarrow> prop_slot_ok (sa_typ (ps_values slot)) n slot' \<and>
     updated_rows ss us (prop_rows slot n) (prop_rows slot' n)"

lemma slot_updated_same:
  assumes "prop_slot_ok t n slot" and "\<forall>u\<in>set us. u = None" and "length us = n"
  shows "slot_updated ss n us slot slot"
proof -
  have "length (prop_rows slot n) = n"
    using assms(1) by (rule slot_csr_length [OF prop_slot_ok_csr])
  moreover have "us ! i = None" if "i < length us" for i
    using assms(2) nth_mem [OF that] by simp
  ultimately show ?thesis
    using assms(1,3) by (simp add: slot_updated_def updated_rows_def updated_row_def prop_slot_ok_def)
qed

lemma updated_rows_prefix: "updated_rows ss us rows rows' \<Longrightarrow> prefix ss ss' \<Longrightarrow> updated_rows ss' us rows rows'"
  by (auto simp: updated_rows_def intro: updated_row_prefix)

lemma slot_updated_prefix: "slot_updated ss n us slot slot' \<Longrightarrow> prefix ss ss' \<Longrightarrow> slot_updated ss' n us slot slot'"
  by (auto simp: slot_updated_def intro: updated_rows_prefix)

definition updates_ok ::
  "('n, 'e, 'p, 'r) schema \<Rightarrow> ('n \<Rightarrow> nat) \<Rightarrow> bytes set \<Rightarrow> quantified_property option buckets \<Rightarrow> bool" where
  "updates_ok S cnt V pending \<longleftrightarrow> length pending = property_storage_size S \<and>
     (\<forall>nk pk us. pending ! property_storage_slot S nk pk = Some us \<longrightarrow>
        length us = cnt nk \<and> update_strings us \<subseteq> V)"

definition props_ok :: "('n, 'e, 'p, 'r) schema \<Rightarrow> ('n \<Rightarrow> nat) \<Rightarrow> prop_storage \<Rightarrow> bool" where
  "props_ok S cnt ps \<longleftrightarrow> length ps = property_storage_size S \<and>
     (\<forall>nk pk. prop_slot_ok (p_property_type S pk) (cnt nk) (ps ! property_storage_slot S nk pk))"

text \<open>The slots of \<open>ks\<close> are updated by the replacements \<open>rs\<close>, the others are as they were.\<close>

definition updated_upto ::
  "('n, 'e, 'p, 'r) schema \<Rightarrow> ('n \<Rightarrow> nat) \<Rightarrow> quantified_property option buckets \<Rightarrow> prop_storage \<Rightarrow>
     bytes list \<Rightarrow> prop_replace list \<Rightarrow> ('n \<times> 'p) set \<Rightarrow> bool" where
  "updated_upto S cnt pending ps ss rs ks \<longleftrightarrow>
     (\<forall>r\<in>set rs. pr_slot r < length ps \<and> pr_offsets r \<noteq> []) \<and>
     (\<forall>nk pk. let i = property_storage_slot S nk pk in
        if (nk, pk) \<in> ks
        then slot_updated ss (cnt nk) (slot_updates pending i (cnt nk)) (ps ! i) (fold put_replace rs ps ! i)
        else fold put_replace rs ps ! i = ps ! i)"

lemma updated_uptoD:
  assumes "updated_upto S cnt pending ps ss rs ks"
  shows "\<And>r. r \<in> set rs \<Longrightarrow> pr_slot r < length ps" and "\<And>r. r \<in> set rs \<Longrightarrow> pr_offsets r \<noteq> []"
    and "(nk, pk) \<in> ks \<Longrightarrow> slot_updated ss (cnt nk) (slot_updates pending (property_storage_slot S nk pk) (cnt nk))
      (ps ! property_storage_slot S nk pk) (fold put_replace rs ps ! property_storage_slot S nk pk)"
    and "(nk, pk) \<notin> ks \<Longrightarrow>
      fold put_replace rs ps ! property_storage_slot S nk pk = ps ! property_storage_slot S nk pk"
  using assms by (auto simp: updated_upto_def Let_def)

lemma updated_uptoI:
  assumes "\<And>r. r \<in> set rs \<Longrightarrow> pr_slot r < length ps \<and> pr_offsets r \<noteq> []"
    and "\<And>nk pk. (nk, pk) \<in> ks \<Longrightarrow> slot_updated ss (cnt nk) (slot_updates pending (property_storage_slot S nk pk) (cnt nk))
      (ps ! property_storage_slot S nk pk) (fold put_replace rs ps ! property_storage_slot S nk pk)"
    and "\<And>nk pk. (nk, pk) \<notin> ks \<Longrightarrow>
      fold put_replace rs ps ! property_storage_slot S nk pk = ps ! property_storage_slot S nk pk"
  shows "updated_upto S cnt pending ps ss rs ks"
  using assms by (simp add: updated_upto_def Let_def)

context schema_laws
begin

lemma updated_upto_same:
  assumes ps: "props_ok S cnt ps" and upd: "updated_upto S cnt pending ps ss rs ks" and "prefix ss ss'"
    and new: "length (slot_updates pending (property_storage_slot S nk pk) (cnt nk)) = cnt nk"
      "\<forall>u\<in>set (slot_updates pending (property_storage_slot S nk pk) (cnt nk)). u = None"
    and "(nk, pk) \<notin> ks"
  shows "updated_upto S cnt pending ps ss' rs (insert (nk, pk) ks)"
proof -
  have "slot_updated ss' (cnt nk) (slot_updates pending (property_storage_slot S nk pk) (cnt nk))
      (ps ! property_storage_slot S nk pk) (ps ! property_storage_slot S nk pk)"
    using ps new by (intro slot_updated_same) (auto simp: props_ok_def)
  moreover note D = updated_uptoD [OF upd]
  ultimately show ?thesis
    using D(1,2) D(3) [THEN slot_updated_prefix [OF _ \<open>prefix ss ss'\<close>]] D(4) \<open>(nk, pk) \<notin> ks\<close>
    by (intro updated_uptoI) auto
qed

lemma updated_upto_put:
  assumes ps: "props_ok S cnt ps" and upd: "updated_upto S cnt pending ps ss rs ks" and "prefix ss ss'"
    and new: "slot_updated ss' (cnt nk) (slot_updates pending (property_storage_slot S nk pk) (cnt nk))
      (ps ! property_storage_slot S nk pk) \<lparr>ps_offsets = pr_offsets r, ps_values = pr_values r\<rparr>"
    and r: "pr_slot r = property_storage_slot S nk pk" "pr_offsets r \<noteq> []"
  shows "updated_upto S cnt pending ps ss' (rs @ [r]) (insert (nk, pk) ks)"
proof -
  let ?i = "property_storage_slot S nk pk"
  have len: "length ps = property_storage_size S" using ps by (simp add: props_ok_def)
  have at: "fold put_replace (rs @ [r]) ps ! property_storage_slot S nk' pk' =
      (if (nk', pk') = (nk, pk) then \<lparr>ps_offsets = pr_offsets r, ps_values = pr_values r\<rparr>
       else fold put_replace rs ps ! property_storage_slot S nk' pk')" for nk' pk'
    using property_slot_inj [of nk' pk' nk pk] property_slot_less [of nk pk] len
    by (auto simp: put_replace_def r nth_list_update)
  note D = updated_uptoD [OF upd]
  show ?thesis
  proof (rule updated_uptoI)
    fix nk' pk' assume "(nk', pk') \<in> insert (nk, pk) ks"
    then show "slot_updated ss' (cnt nk') (slot_updates pending (property_storage_slot S nk' pk') (cnt nk'))
        (ps ! property_storage_slot S nk' pk') (fold put_replace (rs @ [r]) ps ! property_storage_slot S nk' pk')"
      unfolding at using new D(3) [THEN slot_updated_prefix [OF _ \<open>prefix ss ss'\<close>]] by auto
  qed (use at D r property_slot_less [of nk pk] len in auto)
qed

lemma prepare_property_updates_spec:
  assumes ps: "props_ok S cnt ps" and pend: "updates_ok S cnt V pending" and pool: "pool_repr pool ss"
  shows "sspec (\<lambda>rs pool'. \<exists>ss'. pool_repr pool' ss' \<and> prefix ss ss' \<and> updated_upto S cnt pending ps ss' rs UNIV)
    (\<lambda>e. sp.extends ss) (pool_full V) (prepare_property_updates S ps pending pool)"
proof -
  let ?ix = "\<lambda>(nk, pk). property_storage_slot S nk pk"
  let ?P = "\<lambda>ys w pool'. case w of (pending', rs) \<Rightarrow> \<exists>ss'. pool_repr pool' ss' \<and> prefix ss ss' \<and>
      updated_upto S cnt pending ps ss' rs (set ys) \<and> length pending' = length pending \<and>
      (\<forall>k. k \<notin> set ys \<longrightarrow> pending' ! ?ix k = pending ! ?ix k)"
  let ?body = "update_kind S ps"
  have "sspec (?P (property_storage_slots S)) (\<lambda>e. sp.extends ss) (pool_full V)
      (sfor_each ?body (property_storage_slots S) (pending, []) pool)"
  proof (rule sspec_sfor_each)
    show "?P [] (pending, []) pool"
      using pool by (auto simp: updated_upto_def intro!: exI [of _ ss])
  next
    fix ys y zs w pool'
    assume split: "property_storage_slots S = ys @ y # zs" and "?P ys w pool'"
    then obtain pending' rs ss' where w: "w = (pending', rs)" and inv: "pool_repr pool' ss'" "prefix ss ss'"
      "updated_upto S cnt pending ps ss' rs (set ys)" "length pending' = length pending"
      "\<forall>k. k \<notin> set ys \<longrightarrow> pending' ! ?ix k = pending ! ?ix k" by (cases w) auto
    obtain nk pk where y: "y = (nk, pk)" by (cases y)
    let ?i = "property_storage_slot S nk pk"
    have "distinct (map ?ix (property_storage_slots S))" by (simp add: property_slots_in_order)
    then have notin: "(nk, pk) \<notin> set ys"
      unfolding split y by (auto simp: image_iff)
    have i: "?i < length pending" "?i < length ps"
      using property_slot_less [of nk pk] pend ps by (simp_all add: updates_ok_def props_ok_def)
    have pi: "pending' ! ?i = pending ! ?i" using inv(5) notin by auto
    have ok: "prop_slot_ok (p_property_type S pk) (cnt nk) (ps ! ?i)" using ps by (simp add: props_ok_def)
    have pending'': "\<forall>k. k \<notin> set (ys @ [y]) \<longrightarrow> pending'[?i := None] ! ?ix k = pending ! ?ix k"
    proof (intro allI impI)
      fix k assume k: "k \<notin> set (ys @ [y])"
      then have "?i \<noteq> ?ix k" using property_slot_inj [of nk pk "fst k" "snd k"] by (cases k) (auto simp: y)
      then show "pending'[?i := None] ! ?ix k = pending ! ?ix k" using inv(5) k by (cases k) auto
    qed
    have ext: "sp.extends ss pool'" using inv(1,2) by (rule extendsI)
    have take: "?body y w pool' = (case pending ! ?i of
        None \<Rightarrow> sret (pending'[?i := None], rs) pool'
      | Some us \<Rightarrow> (if ps_offsets (ps ! ?i) = []
          then (case position (\<lambda>u. u \<noteq> None) us of
                 Some seq \<Rightarrow> slift (Err (NodeOffsetNotFound seq))
               | None \<Rightarrow> sret (pending'[?i := None], rs)) pool'
          else sbind (update_slot (ps ! ?i) us) (\<lambda>(values, offsets). sret (pending'[?i := None], rs @
                 [\<lparr>pr_slot = ?i, pr_values = values, pr_offsets = offsets\<rparr>])) pool'))"
      using i inv(4) pi by (simp add: y w update_kind_def buckets_take_def Let_def split: option.split)
    show "sspec (?P (ys @ [y])) (\<lambda>e. sp.extends ss) (pool_full V) (?body y w pool')"
    proof (cases "pending ! ?i")
      case None
      then have "updated_upto S cnt pending ps ss' rs (insert (nk, pk) (set ys))"
        using notin by (intro updated_upto_same [OF ps inv(3)]) (auto simp: slot_updates_def)
      then show ?thesis
        unfolding take using None inv pending'' by (auto simp: y intro!: exI [of _ ss'])
    next
      case (Some us)
      have us: "slot_updates pending ?i (cnt nk) = us" "length us = cnt nk" "update_strings us \<subseteq> V"
        using Some pend by (auto simp: slot_updates_def updates_ok_def)
      show ?thesis
      proof (cases "ps_offsets (ps ! ?i) = []")
        case True
        show ?thesis
        proof (cases "position (\<lambda>u. u \<noteq> None) us")
          case None
          then have "updated_upto S cnt pending ps ss' rs (insert (nk, pk) (set ys))"
            using notin us by (intro updated_upto_same [OF ps inv(3)]) (auto simp: position_eq_None)
          then show ?thesis
            unfolding take using None Some True inv pending'' by (auto simp: y intro!: exI [of _ ss'])
        next
          case (Some j)
          then show ?thesis unfolding take using \<open>pending ! ?i = Some us\<close> True ext by simp
        qed
      next
        case False
        have "sspec (\<lambda>w pool''. case w of (a', offs') \<Rightarrow> \<exists>ss'' rows'. pool_repr pool'' ss'' \<and> prefix ss' ss'' \<and>
            updated_rows ss'' us (prop_rows (ps ! ?i) (cnt nk)) rows' \<and> sa_typ a' = sa_typ (ps_values (ps ! ?i)) \<and>
            slot_csr offs' (sa_values a') (cnt nk) rows' \<and> offs' \<noteq> [])
          (\<lambda>e. sp.extends ss') (pool_full V) (update_slot (ps ! ?i) us pool')"
          by (rule update_slot_spec [OF prop_slot_ok_csr [OF ok] False us(2,3) inv(1)])
        then show ?thesis
          unfolding take Some option.case if_not_P [OF False] sspec_sbind
        proof (rule sspec_mono)
          fix w' pool''
          assume "case w' of (a', offs') \<Rightarrow> \<exists>ss'' rows'. pool_repr pool'' ss'' \<and> prefix ss' ss'' \<and>
            updated_rows ss'' us (prop_rows (ps ! ?i) (cnt nk)) rows' \<and> sa_typ a' = sa_typ (ps_values (ps ! ?i)) \<and>
            slot_csr offs' (sa_values a') (cnt nk) rows' \<and> offs' \<noteq> []"
          then obtain a' offs' ss'' rows' where w': "w' = (a', offs')" and *: "pool_repr pool'' ss''" "prefix ss' ss''"
            "updated_rows ss'' us (prop_rows (ps ! ?i) (cnt nk)) rows'" "sa_typ a' = sa_typ (ps_values (ps ! ?i))"
            "slot_csr offs' (sa_values a') (cnt nk) rows'" "offs' \<noteq> []" by (cases w') blast
          have "slot_updated ss'' (cnt nk) us (ps ! ?i) \<lparr>ps_offsets = offs', ps_values = a'\<rparr>"
            using *(3-5) slot_csr_rows [OF *(5)] slot_ok_iff
            by (auto simp: slot_updated_def prop_slot_ok_def prop_rows_def)
          then have "updated_upto S cnt pending ps ss'' (rs @ [\<lparr>pr_slot = ?i, pr_values = a', pr_offsets = offs'\<rparr>])
              (insert (nk, pk) (set ys))"
            using *(2,6) us(1) by (intro updated_upto_put [OF ps inv(3)]) simp_all
          then show "sspec (?P (ys @ [y])) (\<lambda>e. sp.extends ss) (pool_full V)
              ((case w' of (values, offsets) \<Rightarrow> sret (pending'[?i := None], rs @
                 [\<lparr>pr_slot = ?i, pr_values = values, pr_offsets = offsets\<rparr>])) pool'')"
            using * inv(2,4) pending'' prefix_order.trans [OF inv(2) *(2)]
            unfolding w' by (auto simp: y intro!: exI [of _ ss''])
        next
          fix e pool'' assume "sp.extends ss' pool''"
          then show "sp.extends ss pool''"
            using inv(2) prefix_order.trans by (auto simp: sp.extends_def)
        qed
      qed
    qed
  qed
  moreover have "set (property_storage_slots S) = UNIV"
    using property_slot_mem by auto
  ultimately show ?thesis
    unfolding prepare_property_updates_def sspec_sbind
    by (elim sspec_mono) (auto split: prod.splits)
qed

end

section \<open>Appending the rows of new nodes\<close>

definition new_values :: "property_value list option list \<Rightarrow> nat \<Rightarrow> property_value list" where
  "new_values l j = (case get_at l j of Some (Some ps) \<Rightarrow> ps | _ \<Rightarrow> [])"

definition new_strings :: "property_value list option list \<Rightarrow> bytes set" where
  "new_strings l = (\<Union>ps\<in>{ps. Some ps \<in> set l}. \<Union>v\<in>set ps. value_strings v)"

lemma append_nodes_spec:
  assumes V: "new_strings l \<subseteq> V" and pool: "pool_repr pool ss"
  shows "sspec (\<lambda>w pool'. case w of (a', tail') \<Rightarrow> \<exists>ss' new. pool_repr pool' ss' \<and> prefix ss ss' \<and> length new = m \<and>
      (\<forall>j<m. stored_all ss' (new_values l j) (new ! j)) \<and> typed t (concat new) \<and> a' = sa_of t (concat new) \<and>
      (\<exists>ts. tail' = tail @ ts \<and> map offset_value ts = tl (psums (offset_value c) (map length new))))
    (\<lambda>e. sp.extends ss) (pool_full V) (append_nodes l m (sa_new t) c tail pool)"
proof -
  let ?body = "\<lambda>local_index (values, cumulative, tail).
         sbind (case get_at l local_index of
             Some (Some props) \<Rightarrow> append_property_batch values cumulative props
           | _ \<Rightarrow> sret (values, cumulative))
         (\<lambda>(values, cumulative). sret (values, cumulative, tail @ [cumulative]))"
  let ?P = "\<lambda>ys w pool'. case w of (a', c', tail') \<Rightarrow> \<exists>ss' new. pool_repr pool' ss' \<and> prefix ss ss' \<and>
      length new = length ys \<and> (\<forall>j<length ys. stored_all ss' (new_values l j) (new ! j)) \<and>
      typed t (concat new) \<and> a' = sa_of t (concat new) \<and> offset_value c' = offset_value c + length (concat new) \<and>
      (\<exists>ts. tail' = tail @ ts \<and> map offset_value ts = tl (psums (offset_value c) (map length new)))"
  have "sspec (?P [0..<m]) (\<lambda>e. sp.extends ss) (pool_full V) (sfor_each ?body [0..<m] (sa_new t, c, tail) pool)"
  proof (rule sspec_sfor_each)
    show "?P [] (sa_new t, c, tail) pool"
      using pool by (auto simp: sa_of_Nil intro!: exI [of _ ss])
  next
    fix ys y zs w pool'
    assume split: "[0..<m] = ys @ y # zs" and "?P ys w pool'"
    then obtain c' tail' ss' new ts where w: "w = (sa_of t (concat new), c', tail @ ts)" and
      inv: "pool_repr pool' ss'" "prefix ss ss'" "length new = length ys"
        "\<forall>j<length ys. stored_all ss' (new_values l j) (new ! j)" "typed t (concat new)"
        "offset_value c' = offset_value c + length (concat new)"
        "map offset_value ts = tl (psums (offset_value c) (map length new))"
      by (cases w) auto
    have y: "y = length ys" using upt_split [OF split] by simp
    have "sspec (\<lambda>w pool''. case w of (a'', c'') \<Rightarrow> \<exists>ss'' ps. pool_repr pool'' ss'' \<and> prefix ss' ss'' \<and>
        stored_all ss'' (new_values l y) ps \<and> typed t ps \<and> a'' = sa_of t (concat new @ ps) \<and>
        offset_value c'' = offset_value c' + length ps) (\<lambda>e. sp.extends ss') (pool_full V)
      ((case get_at l y of Some (Some props) \<Rightarrow> append_property_batch (sa_of t (concat new)) c' props
        | _ \<Rightarrow> sret (sa_of t (concat new), c')) pool')"
    proof (cases "\<exists>props. get_at l y = Some (Some props)")
      case True
      then obtain props where props: "get_at l y = Some (Some props)" by blast
      then have "Some props \<in> set l" using nth_mem by (fastforce simp: get_at_eq_Some)
      then have "value_strings v \<subseteq> V" if "v \<in> set props" for v
        using V that unfolding new_strings_def by blast
      then show ?thesis
        using append_property_batch_spec [OF inv(1), of props V "sa_of t (concat new)" c'] inv(5) props
        by (simp add: new_values_def)
    next
      case False
      then have "new_values l y = []" and "(case get_at l y of Some (Some props) \<Rightarrow> append_property_batch (sa_of t (concat new)) c' props
        | _ \<Rightarrow> sret (sa_of t (concat new), c')) = sret (sa_of t (concat new), c')"
        by (auto simp: new_values_def split: option.splits)
      then show ?thesis using inv(1) by (auto intro!: exI [of _ ss'])
    qed
    then show "sspec (?P (ys @ [y])) (\<lambda>e. sp.extends ss) (pool_full V) (?body y w pool')"
      unfolding w prod.case sspec_sbind
    proof (rule sspec_mono)
      fix w' pool''
      assume "case w' of (a'', c'') \<Rightarrow> \<exists>ss'' ps. pool_repr pool'' ss'' \<and> prefix ss' ss'' \<and>
        stored_all ss'' (new_values l y) ps \<and> typed t ps \<and> a'' = sa_of t (concat new @ ps) \<and>
        offset_value c'' = offset_value c' + length ps"
      then obtain c'' ss'' ps where w': "w' = (sa_of t (concat new @ ps), c'')" and *: "pool_repr pool'' ss''"
        "prefix ss' ss''" "stored_all ss'' (new_values l y) ps" "typed t ps" "offset_value c'' = offset_value c' + length ps"
        by (cases w') blast
      have "\<forall>j<length (ys @ [y]). stored_all ss'' (new_values l j) ((new @ [ps]) ! j)"
        using inv(3,4) *(2,3) y by (auto simp: nth_append less_Suc_eq intro: stored_all_prefix)
      moreover have "map offset_value (ts @ [c'']) = tl (psums (offset_value c) (map length (new @ [ps])))"
        using inv(6,7) *(5) by (cases "psums (offset_value c) (map length new)") (auto simp: psums_snoc length_concat)
      moreover have "prefix ss ss''" using inv(2) *(2) by (rule prefix_order.trans)
      ultimately have "?P (ys @ [y]) (sa_of t (concat new @ ps), c'', (tail @ ts) @ [c'']) pool''"
        unfolding prod.case using * inv(3,5,6)
        by (intro exI [of _ ss''] exI [of _ "new @ [ps]"]) simp
      then show "sspec (?P (ys @ [y])) (\<lambda>e. sp.extends ss) (pool_full V)
          ((case w' of (values, cumulative) \<Rightarrow> sret (values, cumulative, (tail @ ts) @ [cumulative])) pool'')"
        unfolding w' by simp
    next
      fix e pool'' assume "sp.extends ss' pool''"
      then show "sp.extends ss pool''" using inv(2) prefix_order.trans by (auto simp: sp.extends_def)
    qed auto
  qed
  then show ?thesis
    unfolding append_nodes_def sspec_sbind
  proof (rule sspec_mono)
    fix w pool' assume "?P [0..<m] w pool'"
    then show "sspec (\<lambda>w pool'. case w of (a', tail') \<Rightarrow> \<exists>ss' new. pool_repr pool' ss' \<and> prefix ss ss' \<and> length new = m \<and>
      (\<forall>j<m. stored_all ss' (new_values l j) (new ! j)) \<and> typed t (concat new) \<and> a' = sa_of t (concat new) \<and>
      (\<exists>ts. tail' = tail @ ts \<and> map offset_value ts = tl (psums (offset_value c) (map length new))))
      (\<lambda>e. sp.extends ss) (pool_full V) ((case w of (values, _, tail) \<Rightarrow> sret (values, tail)) pool')"
      by (cases w) auto
  qed
qed

definition put_append :: "prop_append \<Rightarrow> prop_storage \<Rightarrow> prop_storage" where
  "put_append a ps = ps[pa_slot a :=
     \<lparr>ps_offsets = ps_offsets (ps ! pa_slot a) @ pa_tail a,
      ps_values = sa_of (sa_typ (ps_values (ps ! pa_slot a)))
        (sa_values (ps_values (ps ! pa_slot a)) @ sa_values (pa_values a))\<rparr>]"

lemma length_fold_put_append [simp]: "length (fold put_append rs ps) = length ps"
  by (induction rs arbitrary: ps) (simp_all add: put_append_def)

definition slot_news :: "property_value list option buckets \<Rightarrow> nat \<Rightarrow> property_value list option list" where
  "slot_news pending i = (case pending ! i of Some l \<Rightarrow> l | None \<Rightarrow> [])"

definition slot_appended ::
  "bytes list \<Rightarrow> nat \<Rightarrow> nat \<Rightarrow> property_value list option list \<Rightarrow> prop_slot \<Rightarrow> prop_slot \<Rightarrow> bool" where
  "slot_appended ss n m l slot slot' \<longleftrightarrow> prop_slot_ok (sa_typ (ps_values slot)) (n + m) slot' \<and>
     (\<exists>new. length new = m \<and> prop_rows slot' (n + m) = prop_rows slot n @ new \<and>
        (\<forall>j<m. stored_all ss (new_values l j) (new ! j)))"

lemma slot_appended_prefix: "slot_appended ss n m l slot slot' \<Longrightarrow> prefix ss ss' \<Longrightarrow> slot_appended ss' n m l slot slot'"
  unfolding slot_appended_def using stored_all_prefix by blast

lemma slot_csr_prop_ok:
  "slot_csr offs vs n rows \<Longrightarrow> typed t vs \<Longrightarrow>
     prop_slot_ok t n \<lparr>ps_offsets = offs, ps_values = sa_of t vs\<rparr> \<and>
     prop_rows \<lparr>ps_offsets = offs, ps_values = sa_of t vs\<rparr> n = rows"
  using slot_csr_rows [of offs vs n rows] slot_ok_iff [of offs vs n] by (auto simp: prop_slot_ok_def prop_rows_def)

text \<open>Appending \<open>m\<close> rows: the tail continues the prefix sums, after a backfill where there were none.\<close>

lemma slot_appendedI:
  assumes slot: "prop_slot_ok t n slot" and new: "length new = m" "typed t (concat new)"
    and stored: "\<forall>j<m. stored_all ss (new_values l j) (new ! j)"
    and tail: "map offset_value ts = tl (psums (length (sa_values (ps_values slot))) (map length new))"
    and tail': "tail = (if ps_offsets slot = [] then replicate (Suc n) offset_zero @ ts else ts)"
  shows "slot_appended ss n m l slot
    \<lparr>ps_offsets = ps_offsets slot @ tail, ps_values = sa_of t (sa_values (ps_values slot) @ concat new)\<rparr>"
proof -
  let ?vs = "sa_values (ps_values slot)"
  have sc: "slot_csr (ps_offsets slot) ?vs n (prop_rows slot n)" and t: "sa_typ (ps_values slot) = t"
    using prop_slot_ok_csr [OF slot] slot by (simp_all add: prop_slot_ok_def)
  have "slot_csr (ps_offsets slot @ tail) (?vs @ concat new) (n + m) (prop_rows slot n @ new)"
  proof (cases "ps_offsets slot = []")
    case True
    then have "?vs = []" and rows: "prop_rows slot n = replicate n []" using sc by (simp_all add: slot_csr_def)
    then have "csr (replicate (Suc n) offset_zero @ ts) ([] @ concat new) (replicate n [] @ new)"
      using tail by (intro csr_append csr_empty) simp
    then show ?thesis using True tail' new(1) \<open>?vs = []\<close> rows by (simp add: slot_csr_def)
  next
    case False
    then have "csr (ps_offsets slot) ?vs (prop_rows slot n)" "length (prop_rows slot n) = n"
      using sc by (simp_all add: slot_csr_def)
    then show ?thesis
      using csr_append [of "ps_offsets slot" ?vs "prop_rows slot n" ts new] tail tail' False new(1)
      by (simp add: slot_csr_def)
  qed
  moreover have "typed t (?vs @ concat new)" using new(2) t by auto
  ultimately show ?thesis
    using slot_csr_prop_ok stored new(1) by (auto simp: slot_appended_def t)
qed

lemma slot_appended_0: "prop_slot_ok t n slot \<Longrightarrow> slot_appended ss n 0 l slot slot"
  by (simp add: slot_appended_def prop_slot_ok_def)

lemma slot_appended_none:
  assumes "prop_slot_ok t n slot" and "ps_offsets slot = []"
  shows "slot_appended ss n m [] slot slot"
proof -
  have "sa_values (ps_values slot) = []" using assms by (simp add: prop_slot_ok_def slot_ok_def)
  then show ?thesis
    using assms by (auto simp: slot_appended_def prop_slot_ok_def slot_ok_def prop_rows_def slot_rows_def
        new_values_def replicate_add get_at_def intro!: exI [of _ "replicate m []"])
qed

definition appended_upto ::
  "('n, 'e, 'p, 'r) schema \<Rightarrow> ('n \<Rightarrow> nat) \<Rightarrow> ('n \<Rightarrow> nat) \<Rightarrow> property_value list option buckets \<Rightarrow> prop_storage \<Rightarrow>
     bytes list \<Rightarrow> prop_append list \<Rightarrow> ('n \<times> 'p) set \<Rightarrow> bool" where
  "appended_upto S cnt m pending ps ss as ks \<longleftrightarrow>
     (\<forall>a\<in>set as. pa_slot a < length ps \<and> sa_typ (pa_values a) = sa_typ (ps_values (ps ! pa_slot a))) \<and>
     (\<forall>nk pk. let i = property_storage_slot S nk pk in
        if (nk, pk) \<in> ks
        then slot_appended ss (cnt nk) (m nk) (slot_news pending i) (ps ! i) (fold put_append as ps ! i)
        else fold put_append as ps ! i = ps ! i)"

lemma appended_uptoD:
  assumes "appended_upto S cnt m pending ps ss as ks"
  shows "\<And>a. a \<in> set as \<Longrightarrow> pa_slot a < length ps"
    and "\<And>a. a \<in> set as \<Longrightarrow> sa_typ (pa_values a) = sa_typ (ps_values (ps ! pa_slot a))"
    and "(nk, pk) \<in> ks \<Longrightarrow> slot_appended ss (cnt nk) (m nk) (slot_news pending (property_storage_slot S nk pk))
      (ps ! property_storage_slot S nk pk) (fold put_append as ps ! property_storage_slot S nk pk)"
    and "(nk, pk) \<notin> ks \<Longrightarrow>
      fold put_append as ps ! property_storage_slot S nk pk = ps ! property_storage_slot S nk pk"
  using assms by (auto simp: appended_upto_def Let_def)

lemma appended_uptoI:
  assumes "\<And>a. a \<in> set as \<Longrightarrow> pa_slot a < length ps \<and> sa_typ (pa_values a) = sa_typ (ps_values (ps ! pa_slot a))"
    and "\<And>nk pk. (nk, pk) \<in> ks \<Longrightarrow> slot_appended ss (cnt nk) (m nk) (slot_news pending (property_storage_slot S nk pk))
      (ps ! property_storage_slot S nk pk) (fold put_append as ps ! property_storage_slot S nk pk)"
    and "\<And>nk pk. (nk, pk) \<notin> ks \<Longrightarrow>
      fold put_append as ps ! property_storage_slot S nk pk = ps ! property_storage_slot S nk pk"
  shows "appended_upto S cnt m pending ps ss as ks"
  using assms by (simp add: appended_upto_def Let_def)

text \<open>The last offset of each slot once the replacements are in.\<close>

definition last_offsets_ok :: "prop_storage \<Rightarrow> prop_storage \<Rightarrow> offset option list \<Rightarrow> bool" where
  "last_offsets_ok ps0 ps1 plo \<longleftrightarrow> length plo = length ps0 \<and> length ps1 = length ps0 \<and>
     (\<forall>i<length ps0. case plo ! i of
        None \<Rightarrow> ps_offsets (ps1 ! i) = ps_offsets (ps0 ! i)
      | Some l \<Rightarrow> ps_offsets (ps1 ! i) \<noteq> [] \<and> last (ps_offsets (ps1 ! i)) = l)"

definition news_ok :: "('n, 'e, 'p, 'r) schema \<Rightarrow> bytes set \<Rightarrow> property_value list option buckets \<Rightarrow> bool" where
  "news_ok S V pending \<longleftrightarrow> length pending = property_storage_size S \<and>
     (\<forall>i<property_storage_size S. \<forall>l. pending ! i = Some l \<longrightarrow> new_strings l \<subseteq> V)"

definition counts_ok :: "('n, 'e, 'p, 'r) schema \<Rightarrow> ('n \<Rightarrow> nat) \<Rightarrow> nat list \<Rightarrow> bool" where
  "counts_ok S cnt cs \<longleftrightarrow> length cs = number_of_node_kinds S \<and> (\<forall>nk. cs ! n_index S nk = cnt nk)"

context schema_laws
begin

lemma appended_upto_skip:
  assumes "appended_upto S cnt m pending ps ss as ks" and "prefix ss ss'" and "(nk, pk) \<notin> ks"
    and "slot_appended ss' (cnt nk) (m nk) (slot_news pending (property_storage_slot S nk pk))
      (ps ! property_storage_slot S nk pk) (ps ! property_storage_slot S nk pk)"
  shows "appended_upto S cnt m pending ps ss' as (insert (nk, pk) ks)"
  using appended_uptoD(1,2) [OF assms(1)] appended_uptoD(3) [OF assms(1), THEN slot_appended_prefix [OF _ assms(2)]]
    appended_uptoD(4) [OF assms(1)] assms(3,4)
  by (intro appended_uptoI) auto

lemma appended_upto_put:
  assumes len: "length ps = property_storage_size S" and app: "appended_upto S cnt m pending ps ss as ks"
    and pre: "prefix ss ss'" and notin: "(nk, pk) \<notin> ks"
    and a: "pa_slot a = property_storage_slot S nk pk"
      "sa_typ (pa_values a) = sa_typ (ps_values (ps ! property_storage_slot S nk pk))"
    and new: "slot_appended ss' (cnt nk) (m nk) (slot_news pending (property_storage_slot S nk pk))
      (ps ! property_storage_slot S nk pk)
      \<lparr>ps_offsets = ps_offsets (ps ! property_storage_slot S nk pk) @ pa_tail a,
       ps_values = sa_of (sa_typ (ps_values (ps ! property_storage_slot S nk pk)))
         (sa_values (ps_values (ps ! property_storage_slot S nk pk)) @ sa_values (pa_values a))\<rparr>"
  shows "appended_upto S cnt m pending ps ss' (as @ [a]) (insert (nk, pk) ks)"
proof -
  note D = appended_uptoD [OF app]
  have at: "fold put_append (as @ [a]) ps ! property_storage_slot S nk' pk' =
      (if (nk', pk') = (nk, pk)
       then \<lparr>ps_offsets = ps_offsets (ps ! property_storage_slot S nk pk) @ pa_tail a,
         ps_values = sa_of (sa_typ (ps_values (ps ! property_storage_slot S nk pk)))
           (sa_values (ps_values (ps ! property_storage_slot S nk pk)) @ sa_values (pa_values a))\<rparr>
       else fold put_append as ps ! property_storage_slot S nk' pk')" for nk' pk'
    using property_slot_inj [of nk' pk' nk pk] property_slot_less [of nk pk] len D(4) [OF notin]
    by (auto simp: put_append_def a nth_list_update)
  show ?thesis
  proof (rule appended_uptoI)
    fix nk' pk' assume "(nk', pk') \<in> insert (nk, pk) ks"
    then show "slot_appended ss' (cnt nk') (m nk') (slot_news pending (property_storage_slot S nk' pk'))
        (ps ! property_storage_slot S nk' pk') (fold put_append (as @ [a]) ps ! property_storage_slot S nk' pk')"
      unfolding at using new D(3) [THEN slot_appended_prefix [OF _ pre]] by auto
  qed (use at D a property_slot_less [of nk pk] len in auto)
qed

lemma prepare_new_node_properties_spec:
  assumes ps: "props_ok S cnt ps0" "props_ok S cnt ps1" and plo: "last_offsets_ok ps0 ps1 plo"
    and cs: "counts_ok S cnt max_seq" "counts_ok S m nnc" and pend: "news_ok S V pending" and pool: "pool_repr pool ss"
  shows "sspec (\<lambda>as pool'. \<exists>ss'. pool_repr pool' ss' \<and> prefix ss ss' \<and> appended_upto S cnt m pending ps1 ss' as UNIV)
    (\<lambda>e. sp.extends ss) (pool_full V) (prepare_new_node_properties S ps0 max_seq nnc pending plo pool)"
proof -
  let ?ix = "\<lambda>(nk, pk). property_storage_slot S nk pk"
  let ?P = "\<lambda>ys w pool'. case w of (pending', as) \<Rightarrow> \<exists>ss'. pool_repr pool' ss' \<and> prefix ss ss' \<and>
      appended_upto S cnt m pending ps1 ss' as (set ys) \<and> length pending' = length pending \<and>
      (\<forall>k. k \<notin> set ys \<longrightarrow> pending' ! ?ix k = pending ! ?ix k)"
  have "sspec (?P (property_storage_slots S)) (\<lambda>e. sp.extends ss) (pool_full V)
      (sfor_each (new_node_slot S ps0 max_seq nnc plo) (property_storage_slots S) (pending, []) pool)"
  proof (rule sspec_sfor_each)
    show "?P [] (pending, []) pool"
      using pool by (auto simp: appended_upto_def intro!: exI [of _ ss])
  next
    fix ys y zs w pool'
    assume split: "property_storage_slots S = ys @ y # zs" and "?P ys w pool'"
    then obtain pending' as ss' where w: "w = (pending', as)" and inv: "pool_repr pool' ss'" "prefix ss ss'"
      "appended_upto S cnt m pending ps1 ss' as (set ys)" "length pending' = length pending"
      "\<forall>k. k \<notin> set ys \<longrightarrow> pending' ! ?ix k = pending ! ?ix k" by (cases w) auto
    obtain nk pk where y: "y = (nk, pk)" by (cases y)
    let ?i = "property_storage_slot S nk pk"
    have "distinct (map ?ix (property_storage_slots S))" by (simp add: property_slots_in_order)
    then have notin: "(nk, pk) \<notin> set ys"
      unfolding split y by (auto simp: image_iff)
    have i: "?i < length pending" "?i < length ps0" "?i < length plo" "length ps1 = property_storage_size S"
      using property_slot_less [of nk pk] pend ps plo by (simp_all add: news_ok_def props_ok_def last_offsets_ok_def)
    have pi: "pending' ! ?i = pending ! ?i" using inv(5) notin by auto
    have ok: "prop_slot_ok (p_property_type S pk) (cnt nk) (ps0 ! ?i)"
      "prop_slot_ok (p_property_type S pk) (cnt nk) (ps1 ! ?i)" using ps by (simp_all add: props_ok_def)
    then have ty: "sa_typ (ps_values (ps0 ! ?i)) = p_property_type S pk" "sa_typ (ps_values (ps1 ! ?i)) = p_property_type S pk"
      by (simp_all add: prop_slot_ok_def)
    have ix: "index_at nnc (n_index S nk) = Ok (m nk)" "index_at max_seq (n_index S nk) = Ok (cnt nk)"
      using cs node_index_less [of nk] by (simp_all add: counts_ok_def)
    have pending'': "\<forall>k. k \<notin> set (ys @ [y]) \<longrightarrow> pending'[?i := None] ! ?ix k = pending ! ?ix k"
    proof (intro allI impI)
      fix k assume k: "k \<notin> set (ys @ [y])"
      then have "?i \<noteq> ?ix k" using property_slot_inj [of nk pk "fst k" "snd k"] by (cases k) (auto simp: y)
      then show "pending'[?i := None] ! ?ix k = pending ! ?ix k" using inv(5) k by (cases k) auto
    qed
    have plo_i: "case plo ! ?i of None \<Rightarrow> ps_offsets (ps1 ! ?i) = ps_offsets (ps0 ! ?i)
        | Some l \<Rightarrow> ps_offsets (ps1 ! ?i) \<noteq> [] \<and> last (ps_offsets (ps1 ! ?i)) = l"
      using plo i(2) by (simp add: last_offsets_ok_def)
    have last_value: "offset_value (last (ps_offsets (ps1 ! ?i))) = length (sa_values (ps_values (ps1 ! ?i)))"
      if "ps_offsets (ps1 ! ?i) \<noteq> []"
      using prop_slot_ok_csr [OF ok(2)] that csr_last by (auto simp: slot_csr_def)
    show "sspec (?P (ys @ [y])) (\<lambda>e. sp.extends ss) (pool_full V) (new_node_slot S ps0 max_seq nnc plo y w pool')"
    proof (cases "m nk = 0")
      case True
      have "appended_upto S cnt m pending ps1 ss' as (insert (nk, pk) (set ys))"
        using notin slot_appended_0 [OF ok(2)] True by (intro appended_upto_skip [OF inv(3)]) auto
      then show ?thesis
        using inv ix True by (auto simp: y w new_node_slot_def intro!: exI [of _ ss'])
    next
      case False
      show ?thesis
      proof (cases "pending ! ?i")
        case None
        let ?last = "case plo ! ?i of Some l \<Rightarrow> Some l | None \<Rightarrow> last_opt (ps_offsets (ps0 ! ?i))"
        have step: "new_node_slot S ps0 max_seq nnc plo y w pool' =
          (case ?last of None \<Rightarrow> (Ok (pending'[?i := None], as), pool')
           | Some l \<Rightarrow> (Ok (pending'[?i := None], as @ [\<lparr>pa_slot = ?i, pa_values = sa_new (p_property_type S pk),
               pa_tail = replicate (m nk) l\<rparr>]), pool'))"
          using i ix False None pi inv(4)
          by (simp add: y w new_node_slot_def buckets_take_def Let_def ty split: option.split)
        show ?thesis
        proof (cases ?last)
          case None
          then have "ps_offsets (ps1 ! ?i) = []"
            using plo_i by (auto simp: last_opt_def split: option.splits if_splits)
          then have "appended_upto S cnt m pending ps1 ss' as (insert (nk, pk) (set ys))"
            using notin slot_appended_none [OF ok(2)] \<open>pending ! ?i = None\<close>
            by (intro appended_upto_skip [OF inv(3)]) (auto simp: slot_news_def)
          then show ?thesis
            unfolding step None using inv pending'' by (auto simp: y intro!: exI [of _ ss'])
        next
          case (Some l)
          then have l: "ps_offsets (ps1 ! ?i) \<noteq> []" "last (ps_offsets (ps1 ! ?i)) = l"
            using plo_i by (auto simp: last_opt_def split: option.splits if_splits)
          have "slot_appended ss' (cnt nk) (m nk) [] (ps1 ! ?i) \<lparr>ps_offsets = ps_offsets (ps1 ! ?i) @ replicate (m nk) l,
              ps_values = sa_of (p_property_type S pk) (sa_values (ps_values (ps1 ! ?i)) @ concat (replicate (m nk) []))\<rparr>"
            by (rule slot_appendedI [OF ok(2)])
              (use l last_value in \<open>auto simp: new_values_def get_at_def map_replicate\<close>)
          then have "appended_upto S cnt m pending ps1 ss' (as @ [\<lparr>pa_slot = ?i, pa_values = sa_new (p_property_type S pk),
               pa_tail = replicate (m nk) l\<rparr>]) (insert (nk, pk) (set ys))"
            using notin \<open>pending ! ?i = None\<close> ty
            by (intro appended_upto_put [OF i(4) inv(3)]) (auto simp: slot_news_def)
          then show ?thesis
            unfolding step Some using inv pending'' by (auto simp: y intro!: exI [of _ ss'])
        qed
      next
        case (Some l)
        have V: "new_strings l \<subseteq> V" using pend Some property_slot_less [of nk pk] by (auto simp: news_ok_def)
        obtain c tail where start: "(case plo ! ?i of Some l \<Rightarrow> (l, [])
             | None \<Rightarrow> if ps_offsets (ps0 ! ?i) = [] then (offset_zero, replicate (cnt nk + 1) offset_zero)
                 else (case last_opt (ps_offsets (ps0 ! ?i)) of Some l \<Rightarrow> l | None \<Rightarrow> offset_zero, [])) = (c, tail)"
          by (rule prod.exhaust)
        have c: "offset_value c = length (sa_values (ps_values (ps1 ! ?i)))" and
          tail: "tail = (if ps_offsets (ps1 ! ?i) = [] then replicate (Suc (cnt nk)) offset_zero else [])"
          using start plo_i last_value ok(2)
          by (auto simp: last_opt_def prop_slot_ok_def slot_ok_def split: option.splits if_splits)
        have step: "new_node_slot S ps0 max_seq nnc plo y w pool' =
          sbind (append_nodes l (m nk) (sa_new (p_property_type S pk)) c tail)
             (\<lambda>(values, tail). sret (pending'[?i := None], as @
               [\<lparr>pa_slot = ?i, pa_values = values, pa_tail = tail\<rparr>])) pool'"
          using i ix False Some pi inv(4) start
          by (auto simp: y w new_node_slot_def buckets_take_def Let_def ty split: option.splits if_splits)
        show ?thesis
          unfolding step sspec_sbind
        proof (rule sspec_mono [OF append_nodes_spec [OF V inv(1)]])
          fix w' pool''
          assume "case w' of (a', tail') \<Rightarrow> \<exists>ss'' new. pool_repr pool'' ss'' \<and> prefix ss' ss'' \<and> length new = m nk \<and>
            (\<forall>j<m nk. stored_all ss'' (new_values l j) (new ! j)) \<and> typed (p_property_type S pk) (concat new) \<and>
            a' = sa_of (p_property_type S pk) (concat new) \<and>
            (\<exists>ts. tail' = tail @ ts \<and> map offset_value ts = tl (psums (offset_value c) (map length new)))"
          then obtain ts ss'' new where w': "w' = (sa_of (p_property_type S pk) (concat new), tail @ ts)" and
            *: "pool_repr pool'' ss''" "prefix ss' ss''" "length new = m nk"
              "\<forall>j<m nk. stored_all ss'' (new_values l j) (new ! j)" "typed (p_property_type S pk) (concat new)"
              "map offset_value ts = tl (psums (offset_value c) (map length new))"
            by (cases w') blast
          have "slot_appended ss'' (cnt nk) (m nk) l (ps1 ! ?i) \<lparr>ps_offsets = ps_offsets (ps1 ! ?i) @ (tail @ ts),
              ps_values = sa_of (p_property_type S pk) (sa_values (ps_values (ps1 ! ?i)) @ concat new)\<rparr>"
            using *(6) by (intro slot_appendedI [OF ok(2) *(3,5,4)]) (simp_all add: c tail)
          then have "appended_upto S cnt m pending ps1 ss'' (as @ [\<lparr>pa_slot = ?i,
              pa_values = sa_of (p_property_type S pk) (concat new), pa_tail = tail @ ts\<rparr>]) (insert (nk, pk) (set ys))"
            using notin Some ty *(2,5)
            by (intro appended_upto_put [OF i(4) inv(3)]) (auto simp: slot_news_def)
          then show "sspec (?P (ys @ [y])) (\<lambda>e. sp.extends ss) (pool_full V)
              ((case w' of (values, tail) \<Rightarrow> sret (pending'[?i := None], as @
               [\<lparr>pa_slot = ?i, pa_values = values, pa_tail = tail\<rparr>])) pool'')"
            using * inv(4) pending'' prefix_order.trans [OF inv(2) *(2)]
            unfolding w' by (auto simp: y intro!: exI [of _ ss''])
        next
          fix e pool'' assume "sp.extends ss' pool''"
          then show "sp.extends ss pool''" using inv(2) prefix_order.trans by (auto simp: sp.extends_def)
        qed
      qed
    qed
  qed
  moreover have "set (property_storage_slots S) = UNIV"
    using property_slot_mem by auto
  ultimately show ?thesis
    unfolding prepare_new_node_properties_def sspec_sbind
    by (elim sspec_mono) (auto split: prod.splits)
qed

end

end
