(* ===== verification/Halves.thy ===== *)
theory Halves
  imports Graph
begin

text \<open>
  Half-edges as one list: a slot's neighbors and values are the two columns of its half-edges. The
  passes over edge slots filter or merge both columns in step; here is what that means for the list.
\<close>

definition halves_typed :: "property_type \<Rightarrow> (raw_node_id \<times> stored_property option) list \<Rightarrow> bool" where
  "halves_typed t hs \<longleftrightarrow> (\<forall>h\<in>set hs. case snd h of None \<Rightarrow> t = TNone | Some v \<Rightarrow> sp_typ v = t)"

definition halves_values :: "property_type \<Rightarrow> (raw_node_id \<times> stored_property option) list \<Rightarrow> stored_property list" where
  "halves_values t hs = (if t = TNone then [] else map (the \<circ> snd) hs)"

definition slot_of_halves ::
  "property_type \<Rightarrow> offset list \<Rightarrow> (raw_node_id \<times> stored_property option) list \<Rightarrow> edge_slot" where
  "slot_of_halves t offs hs =
     \<lparr>es_offsets = offs, es_neighbors = map fst hs, es_values = sa_of t (halves_values t hs)\<rparr>"

lemma halves_typed_simps [simp]:
  "halves_typed t []" "halves_typed t (hs @ hs') \<longleftrightarrow> halves_typed t hs \<and> halves_typed t hs'"
  by (auto simp: halves_typed_def)

lemma halves_typed_subset: "halves_typed t hs \<Longrightarrow> set hs' \<subseteq> set hs \<Longrightarrow> halves_typed t hs'"
  by (auto simp: halves_typed_def)

lemma halves_values_append [simp]: "halves_values t (hs @ hs') = halves_values t hs @ halves_values t hs'"
  by (simp add: halves_values_def)

lemma typed_halves_values: "halves_typed t hs \<Longrightarrow> typed t (halves_values t hs)"
  by (auto simp: halves_typed_def halves_values_def typed_def split: option.splits)

lemma slot_of_halves_fields:
  assumes "halves_typed t hs"
  shows "es_offsets (slot_of_halves t offs hs) = offs" and "sa_typ (es_values (slot_of_halves t offs hs)) = t"
    and "es_neighbors (slot_of_halves t offs hs) = map fst hs"
    and "sa_values (es_values (slot_of_halves t offs hs)) = halves_values t hs"
    and "edge_halves (slot_of_halves t offs hs) = hs"
proof -
  show val: "sa_values (es_values (slot_of_halves t offs hs)) = halves_values t hs"
    using typed_halves_values [OF assms] by (simp add: slot_of_halves_def)
  show "edge_halves (slot_of_halves t offs hs) = hs"
  proof (cases "t = TNone")
    case True
    then have "map (\<lambda>n. (n, None)) (map fst hs) = hs"
      using assms by (auto simp: halves_typed_def comp_def intro!: map_idI split: option.splits)
    then show ?thesis using True by (simp add: edge_halves_def slot_of_halves_def)
  next
    case False
    have "h = (fst h, Some (the (snd h)))" if "h \<in> set hs" for h
    proof -
      have "snd h \<noteq> None"
        using bspec [OF assms [unfolded halves_typed_def] that] False by (cases "snd h") auto
      then show ?thesis by (cases h) auto
    qed
    then have "zip (map fst hs) (map Some (map (the \<circ> snd) hs)) = hs"
      by (simp add: zip_map_map comp_def zip_same_conv_map map_idI)
    then show ?thesis using False val by (simp add: edge_halves_def slot_of_halves_def halves_values_def)
  qed
qed (simp_all add: slot_of_halves_def)

lemma edge_slot_halves:
  assumes "edge_slot_ok t n slot"
  shows "halves_typed t (edge_halves slot)" and "slot = slot_of_halves t (es_offsets slot) (edge_halves slot)"
proof -
  have t: "sa_typ (es_values slot) = t" using assms by (simp add: edge_slot_ok_def)
  have len: "t \<noteq> TNone \<Longrightarrow> length (sa_values (es_values slot)) = length (es_neighbors slot)"
    using assms by (simp add: edge_slot_ok_def)
  show "halves_typed t (edge_halves slot)"
    using sa_values_typ [of _ "es_values slot"]
    by (auto simp: halves_typed_def edge_halves_def t dest!: set_zip_rightD)
  have "halves_values t (edge_halves slot) = sa_values (es_values slot)"
    using len t by (auto simp: halves_values_def edge_halves_def comp_def map_snd_zip [THEN trans, OF _ refl]
        simp flip: map_map [of the snd] intro!: nth_equalityI)
  then show "slot = slot_of_halves t (es_offsets slot) (edge_halves slot)"
    using edge_halves_neighbors [OF assms] sa_of_id [of "es_values slot"] by (simp add: slot_of_halves_def t)
qed

lemma edge_slot_ok_of_halves:
  assumes "halves_typed t hs" and "slot_csr offs hs n rows"
  shows "edge_slot_ok t n (slot_of_halves t offs hs)" and "edge_rows (slot_of_halves t offs hs) n = rows"
  using slot_of_halves_fields [OF assms(1), of offs] slot_csr_rows [OF assms(2)] slot_ok_iff [of offs hs n] assms(2)
  by (auto simp: edge_slot_ok_def edge_rows_def halves_values_def)

end
