(* ===== verification/Slots_Removals.thy ===== *)
theory Slots_Removals
  imports Slots_Properties Halves
begin

text \<open>
  What \<open>prepare_edge_removals\<close> does to the rows of an edge slot: each node's row loses exactly the
  positions the diff names for it, and every other half-edge keeps its neighbor, its value and its
  order. A position past the end of a row is an error; the pass never panics.
\<close>

section \<open>Positions\<close>

fun abs_removed :: "nat \<Rightarrow> 'a list list \<Rightarrow> nat list list \<Rightarrow> nat list" where
  "abs_removed a (r # rows) (R # Rs) = map ((+) a) R @ abs_removed (a + length r) rows Rs"
| "abs_removed a _ _ = []"

definition in_rows :: "'a list list \<Rightarrow> nat list list \<Rightarrow> bool" where
  "in_rows rows Rs \<longleftrightarrow> list_all2 (\<lambda>r R. \<forall>j\<in>set R. j < length r) rows Rs"

definition remove_at :: "'a list \<Rightarrow> nat list \<Rightarrow> 'a list" where
  "remove_at r R = nths r (- set R)"

lemma in_rows_simps [simp]:
  "in_rows [] Rs \<longleftrightarrow> Rs = []" "in_rows (r # rows) [] \<longleftrightarrow> False"
  "in_rows (r # rows) (R # Rs) \<longleftrightarrow> (\<forall>j\<in>set R. j < length r) \<and> in_rows rows Rs"
  by (simp_all add: in_rows_def)

lemma in_rows_length: "in_rows rows Rs \<Longrightarrow> length rows = length Rs"
  by (simp add: in_rows_def list_all2_lengthD)

lemma in_rows_nth: "in_rows rows Rs \<Longrightarrow> i < length Rs \<Longrightarrow> j \<in> set (Rs ! i) \<Longrightarrow> j < length (rows ! i)"
  by (auto simp: in_rows_def list_all2_conv_all_nth)

lemma in_rowsI: "length rows = length Rs \<Longrightarrow> (\<And>i j. i < length Rs \<Longrightarrow> j \<in> set (Rs ! i) \<Longrightarrow> j < length (rows ! i)) \<Longrightarrow> in_rows rows Rs"
  by (auto simp: in_rows_def list_all2_conv_all_nth)

lemma in_rows_snoc:
  "length xs = length zs \<Longrightarrow> in_rows (xs @ [a]) (zs @ [b]) \<longleftrightarrow> in_rows xs zs \<and> (\<forall>j\<in>set b. j < length a)"
  by (simp add: in_rows_def list_all2_append)

lemma abs_removed_shift: "abs_removed (a + b) rows Rs = map ((+) a) (abs_removed b rows Rs)"
  by (induction b rows Rs rule: abs_removed.induct) (auto simp: add.assoc)

lemma abs_removed_bounds:
  "in_rows rows Rs \<Longrightarrow> x \<in> set (abs_removed a rows Rs) \<Longrightarrow> a \<le> x \<and> x < a + length (concat rows)"
proof (induction a rows Rs rule: abs_removed.induct)
  case (1 a r rows R Rs)
  then show ?case by fastforce
qed auto

lemma abs_removed_distinct:
  "in_rows rows Rs \<Longrightarrow> \<forall>R\<in>set Rs. distinct R \<Longrightarrow> distinct (abs_removed a rows Rs)"
proof (induction a rows Rs rule: abs_removed.induct)
  case (1 a r rows R Rs)
  have "x \<notin> set (abs_removed (a + length r) rows Rs)" if "x \<in> set (map ((+) a) R)" for x
    using abs_removed_bounds [of rows Rs x "a + length r"] that 1 by fastforce
  then show ?case using 1 by (auto simp: distinct_map inj_on_def)
qed auto

lemma length_abs_removed: "in_rows rows Rs \<Longrightarrow> length (abs_removed a rows Rs) = sum_list (map length Rs)"
  by (induction a rows Rs rule: abs_removed.induct) auto

lemma abs_removed_snoc:
  "length rows = length Rs \<Longrightarrow> abs_removed a (rows @ [r]) (Rs @ [R]) =
     abs_removed a rows Rs @ map ((+) (a + length (concat rows))) R"
  by (induction a rows Rs rule: abs_removed.induct) (auto simp: add.assoc)

lemma nths_cong_on: "(\<And>i. i < length xs \<Longrightarrow> i \<in> A \<longleftrightarrow> i \<in> B) \<Longrightarrow> nths xs A = nths xs B"
  unfolding nths_def by (rule arg_cong [of _ _ "map fst"], rule filter_cong) (auto simp: set_zip)

text \<open>Removing the absolute positions from the array is removing the local ones from each row.\<close>

lemma nths_concat_removed:
  "in_rows rows Rs \<Longrightarrow> nths (concat rows) (- set (abs_removed 0 rows Rs)) = concat (map2 remove_at rows Rs)"
proof (induction rows arbitrary: Rs)
  case (Cons r rows)
  then obtain R Rs' where Rs: "Rs = R # Rs'" by (cases Rs) auto
  have tail: "abs_removed (length r) rows Rs' = map ((+) (length r)) (abs_removed 0 rows Rs')"
    using abs_removed_shift [of "length r" 0] by simp
  have "nths r (- set (abs_removed 0 (r # rows) Rs)) = remove_at r R"
    unfolding remove_at_def by (rule nths_cong_on) (auto simp: Rs tail)
  moreover have "{j. j + length r \<in> - set (abs_removed 0 (r # rows) Rs)} = - set (abs_removed 0 rows Rs')"
    using Cons.prems by (fastforce simp: Rs tail)
  ultimately show ?case
    using Cons by (simp add: nths_append Rs)
qed (simp add: in_rows_def)

lemma length_remove_at:
  assumes "distinct R" and "\<forall>j\<in>set R. j < length r"
  shows "length (remove_at r R) = length r - length R"
proof -
  have "{i. i < length r \<and> i \<in> - set R} = {..<length r} - set R" by auto
  then have "length (remove_at r R) = card ({..<length r} - set R)"
    by (simp add: remove_at_def length_nths)
  also have "\<dots> = length r - card (set R)"
    using assms(2) by (subst card_Diff_subset) auto
  finally show ?thesis using assms(1) by (simp add: distinct_card)
qed

lemma remove_at_Nil [simp]: "remove_at r [] = r" "remove_at [] R = []"
  by (simp_all add: remove_at_def nths_all)

section \<open>Collecting the positions\<close>

lemma enumerate_split:
  "enumerate n xs = ys @ y # zs \<Longrightarrow> y = (n + length ys, xs ! length ys) \<and> length ys < length xs \<and> ys = enumerate n (take (length ys) xs)"
proof -
  assume eq: "enumerate n xs = ys @ y # zs"
  have len: "length ys < length (enumerate n xs)" unfolding eq by simp
  have "enumerate n xs ! length ys = y" unfolding eq by simp
  moreover have "ys = take (length ys) (enumerate n xs)" unfolding eq by simp
  moreover have "take (length ys) (enumerate n xs) = enumerate n (take (length ys) xs)"
    using len by (intro nth_equalityI) (simp_all add: nth_enumerate_eq)
  ultimately show ?thesis using len by (auto simp: nth_enumerate_eq)
qed

lemma collect_removals_spec:
  assumes csr: "csr (es_offsets slot) (edge_halves slot) rows" and len: "length Rs = length rows"
  shows "ospec (\<lambda>ab. in_rows rows Rs \<and> ab = abs_removed 0 rows Rs) (\<lambda>_. \<not> in_rows rows Rs) False (collect_removals slot Rs)"
proof -
  let ?f = "\<lambda>(start, local_seqs) absolute.
         if local_seqs = [] then Ok absolute
         else
           andthen (ok_or (NodeOffsetNotFound start) (get_offset (es_offsets slot) start)) (\<lambda>(orig_start, orig_end).
           andthen (offset_checked_sub orig_end orig_start) (\<lambda>degree.
           for_each (\<lambda>local_seq absolute.
               if degree \<le> local_seq then Err (NodeOffsetNotFound local_seq)
               else Ok (absolute @ [offset_value orig_start + local_seq]))
             local_seqs absolute))"
  let ?P = "\<lambda>ys ab. in_rows (take (length ys) rows) (take (length ys) Rs) \<and>
      ab = abs_removed 0 (take (length ys) rows) (take (length ys) Rs)"
  have "ospec (?P (enumerate 0 Rs)) (\<lambda>_. \<not> in_rows rows Rs) False (for_each ?f (enumerate 0 Rs) [])"
  proof (rule ospec_for_each)
    fix ys y zs ab
    assume split: "enumerate 0 Rs = ys @ y # zs" and inv: "?P ys ab"
    let ?k = "length ys"
    have y: "y = (?k, Rs ! ?k)" and k: "?k < length Rs" using enumerate_split [OF split] by auto
    have kr: "?k < length rows" using k len by simp
    have go: "get_offset (es_offsets slot) ?k = Some (es_offsets slot ! ?k, es_offsets slot ! Suc ?k)"
      using csr_length [OF csr] kr by (simp add: get_offset_Some)
    have deg: "offset_checked_sub (es_offsets slot ! Suc ?k) (es_offsets slot ! ?k) = Ok (length (rows ! ?k))"
      using csr_row(1,3) [OF csr kr] by (simp add: offset_checked_sub_cases)
    have start: "offset_value (es_offsets slot ! ?k) = length (concat (take ?k rows))"
      using csr_nth [OF csr, of ?k] kr by (simp add: length_concat)
    have inner: "for_each (\<lambda>local_seq absolute.
               if length (rows ! ?k) \<le> local_seq then Err (NodeOffsetNotFound local_seq)
               else Ok (absolute @ [offset_value (es_offsets slot ! ?k) + local_seq])) R abs0 =
        (case find (\<lambda>j. length (rows ! ?k) \<le> j) R of Some j \<Rightarrow> Err (NodeOffsetNotFound j)
         | None \<Rightarrow> Ok (abs0 @ map ((+) (offset_value (es_offsets slot ! ?k))) R))" for R abs0
      by (induction R arbitrary: abs0) (auto split: option.split)
    have res: "?f y ab = (case find (\<lambda>j. length (rows ! ?k) \<le> j) (Rs ! ?k) of Some j \<Rightarrow> Err (NodeOffsetNotFound j)
         | None \<Rightarrow> Ok (ab @ map ((+) (offset_value (es_offsets slot ! ?k))) (Rs ! ?k)))"
      unfolding y by (simp add: go deg inner)
    show "ospec (?P (ys @ [y])) (\<lambda>_. \<not> in_rows rows Rs) False (?f y ab)"
    proof (cases "find (\<lambda>j. length (rows ! ?k) \<le> j) (Rs ! ?k)")
      case None
      have "\<forall>j\<in>set (Rs ! ?k). j < length (rows ! ?k)" using None by (auto simp: find_None_iff not_le)
      then show ?thesis
        unfolding res None using inv k kr start
        by (simp add: take_Suc_conv_app_nth abs_removed_snoc in_rows_snoc)
    next
      case (Some j)
      then have "j \<in> set (Rs ! ?k)" and "length (rows ! ?k) \<le> j" by (auto simp: find_Some_iff)
      then show ?thesis using in_rows_nth [OF _ k, of rows j] by (auto simp: res Some)
    qed
  qed simp
  then show ?thesis
    unfolding collect_removals_def by (rule ospec_mono) (use len in auto)
qed

section \<open>Filtering the columns\<close>

lemma nths_take_Suc: "k < length xs \<Longrightarrow> nths (take (Suc k) xs) A = nths (take k xs) A @ (if k \<in> A then [xs ! k] else [])"
  by (simp add: take_Suc_conv_app_nth nths_append)

lemma sorted_filter_ge_hd:
  assumes "sorted xs" and "distinct xs"
  shows "filter (\<lambda>r. k \<le> r) xs = (if k \<in> set xs then k # filter (\<lambda>r. Suc k \<le> r) xs else filter (\<lambda>r. Suc k \<le> r) xs)"
  using assms
proof (induction xs)
  case (Cons x xs)
  then show ?case by (cases "x = k") (auto simp: filter_id_conv intro!: filter_cong)
qed simp

lemma filter_removed_spec:
  assumes ok: "edge_slot_ok t n slot" and ab: "distinct ab" "\<forall>x\<in>set ab. x < length (es_neighbors slot)"
  shows "filter_removed slot (sort ab) =
    Ok (map fst (nths (edge_halves slot) (- set ab)), sa_of t (halves_values t (nths (edge_halves slot) (- set ab))))"
proof -
  let ?H = "edge_halves slot" and ?nb = "es_neighbors slot"
  let ?kept = "\<lambda>k. nths (take k ?H) (- set ab)"
  let ?P = "\<lambda>ys (rem, ns, vs). rem = filter (\<lambda>r. length ys \<le> r) (sort ab) \<and> ns = map fst (?kept (length ys)) \<and>
      vs = sa_of t (halves_values t (?kept (length ys)))"
  have lenH: "length ?H = length ?nb" using ok by (rule length_edge_halves)
  have typed: "halves_typed t ?H" using ok by (rule edge_slot_halves)
  have kept_typed: "halves_typed t (?kept k)" for k
    using typed by (rule halves_typed_subset) (meson order_trans set_nths_subset set_take_subset)
  have ty: "sa_typ (es_values slot) = t" using ok by (simp add: edge_slot_ok_def)
  have "ospec (?P (enumerate 0 ?nb)) (\<lambda>e. False) False
    (for_each (filter_step (es_values slot)) (enumerate 0 ?nb) (sort ab, [], sa_new t))"
  proof (rule ospec_for_each)
    show "?P [] (sort ab, [], sa_new t)" by (simp add: halves_values_def sa_of_Nil)
  next
    fix ys y zs st
    assume split: "enumerate 0 ?nb = ys @ y # zs" and inv: "?P ys st"
    let ?k = "length ys"
    have y: "y = (?k, ?nb ! ?k)" and k: "?k < length ?nb" using enumerate_split [OF split] by auto
    have st: "st = (filter (\<lambda>r. ?k \<le> r) (sort ab), map fst (?kept ?k), sa_of t (halves_values t (?kept ?k)))"
      using inv by (cases st) auto
    have Hk: "?H ! ?k = (?nb ! ?k, sa_get (es_values slot) ?k)" using edge_halves_nth [OF ok k] .
    have mem: "?H ! ?k \<in> set ?H" using k lenH by simp
    show "ospec (?P (ys @ [y])) (\<lambda>e. False) False (filter_step (es_values slot) y st)"
    proof (cases "?k \<in> set ab")
      case True
      then have f: "filter (\<lambda>r. ?k \<le> r) (sort ab) = ?k # filter (\<lambda>r. Suc ?k \<le> r) (sort ab)"
        using sorted_filter_ge_hd [of "sort ab" ?k] ab(1) by simp
      then show ?thesis
        using True k lenH by (simp add: filter_step_def y st nths_take_Suc)
    next
      case False
      then have f: "filter (\<lambda>r. ?k \<le> r) (sort ab) = filter (\<lambda>r. Suc ?k \<le> r) (sort ab)"
        using sorted_filter_ge_hd [of "sort ab" ?k] ab(1) by simp
      then have hd: "\<not> (case filter (\<lambda>r. ?k \<le> r) (sort ab) of r # _ \<Rightarrow> r = ?k | [] \<Rightarrow> False)"
      proof -
        have "\<forall>x\<in>set (filter (\<lambda>r. ?k \<le> r) (sort ab)). x \<noteq> ?k" using False by auto
        then show ?thesis by (cases "filter (\<lambda>r. ?k \<le> r) (sort ab)") auto
      qed
      have kept: "?kept (Suc ?k) = ?kept ?k @ [?H ! ?k]" using False k lenH by (simp add: nths_take_Suc)
      have "(case sa_get (es_values slot) ?k of
            Some v \<Rightarrow> sa_try_push (sa_of t (halves_values t (?kept ?k))) v | None \<Rightarrow> Ok (sa_of t (halves_values t (?kept ?k)))) =
          Ok (sa_of t (halves_values t (?kept (Suc ?k))))"
      proof (cases "sa_get (es_values slot) ?k")
        case None
        then have "t = TNone" using bspec [OF typed [unfolded halves_typed_def] mem] by (simp add: Hk)
        then show ?thesis using None by (simp add: halves_values_def)
      next
        case (Some v)
        then have v: "sp_typ v = t" using bspec [OF typed [unfolded halves_typed_def] mem] by (simp add: Hk)
        then have "t \<noteq> TNone" by auto
        then have "halves_values t (?kept (Suc ?k)) = halves_values t (?kept ?k) @ [v]"
          unfolding kept by (simp add: halves_values_def Hk Some)
        then show ?thesis
          using Some v typed_halves_values [OF kept_typed, of ?k] by (simp add: sa_try_push_values)
      qed
      then show ?thesis
        using hd f kept by (simp add: filter_step_def y st Hk)
    qed
  qed
  then obtain st where st: "for_each (filter_step (es_values slot)) (enumerate 0 ?nb) (sort ab, [], sa_new t) = Ok st"
    and P: "?P (enumerate 0 ?nb) st"
    by (cases "for_each (filter_step (es_values slot)) (enumerate 0 ?nb) (sort ab, [], sa_new t)") auto
  have "card (set ab) \<le> card {..<length ?nb}" using ab(2) by (intro card_mono) auto
  then have "length ab \<le> length ?nb" using ab(1) by (simp add: distinct_card)
  then show ?thesis
    using st P lenH by (cases st) (simp add: filter_removed_def ty)
qed

section \<open>Shifting the offsets\<close>

lemma sum_take_minus:
  fixes ls ks :: "nat list"
  assumes "length ls = length ks" and "\<forall>i<length ks. ks ! i \<le> ls ! i"
  shows "sum_list (take j (map2 (-) ls ks)) = sum_list (take j ls) - sum_list (take j ks) \<and>
    sum_list (take j ks) \<le> sum_list (take j ls)"
  using assms
proof (induction ls arbitrary: ks j)
  case (Cons l ls)
  then obtain k ks' where ks: "ks = k # ks'" by (cases ks) auto
  have le: "\<forall>i<length ks'. ks' ! i \<le> ls ! i" and k: "k \<le> l"
    using Cons.prems(2) by (auto simp: ks nth_Cons split: nat.splits dest: spec [of _ 0] spec [of _ "Suc _"])
  show ?case
  proof (cases j)
    case (Suc j')
    then show ?thesis using Cons.IH [of ks' j'] Cons.prems(1) le k by (simp add: ks)
  qed simp
qed simp

lemma shift_offsets_spec:
  assumes offs: "map offset_value offs = psums 0 (map length rows)" and rows: "in_rows rows Rs" "\<forall>R\<in>set Rs. distinct R"
  shows "ospec (\<lambda>offs'. map offset_value offs' = psums 0 (map length (map2 remove_at rows Rs)))
    (\<lambda>e. False) False (shift_offsets offs Rs)"
proof -
  let ?ls = "map length rows" and ?ks = "map length Rs"
  have n: "length rows = length Rs" using rows(1) by (rule in_rows_length)
  have len: "length offs = Suc (length Rs)" using arg_cong [OF offs, of length] n by simp
  have lens: "map length (map2 remove_at rows Rs) = map2 (-) ?ls ?ks"
    using rows n in_rows_nth [OF rows(1)] by (intro nth_equalityI) (simp_all add: length_remove_at)
  have le: "\<forall>i<length ?ks. ?ks ! i \<le> ?ls ! i"
  proof (intro allI impI)
    fix i assume i: "i < length ?ks"
    have "card (set (Rs ! i)) \<le> card {..<length (rows ! i)}"
      using in_rows_nth [OF rows(1)] i by (intro card_mono) auto
    then show "?ks ! i \<le> ?ls ! i" using rows(2) i n by (simp add: distinct_card)
  qed
  have minus: "sum_list (take j (map2 (-) ?ls ?ks)) = sum_list (take j ?ls) - sum_list (take j ?ks)"
    "sum_list (take j ?ks) \<le> sum_list (take j ?ls)" for j
    using sum_take_minus [of ?ls ?ks, OF _ le] n by simp_all
  have val: "offset_value (offs ! j) = sum_list (take j ?ls)" if "j \<le> length Rs" for j
  proof -
    have "offset_value (offs ! j) = map offset_value offs ! j" using that len by simp
    also have "\<dots> = sum_list (take j ?ls)" unfolding offs using that n by (simp add: nth_psums)
    finally show ?thesis .
  qed
  let ?f = "\<lambda>fin (new_offsets, removed_so_far).
         andthen (index_at Rs (fin - 1)) (\<lambda>local_seqs.
         let removed_so_far = removed_so_far + length local_seqs in
         andthen (index_at new_offsets fin) (\<lambda>cur.
         andthen (offset_checked_sub_delta cur removed_so_far) (\<lambda>cur'.
         Ok (new_offsets[fin := cur'], removed_so_far))))"
  let ?P = "\<lambda>ys w. case w of (os, removed) \<Rightarrow> removed = sum_list (take (length ys) ?ks) \<and> length os = length offs \<and>
      (\<forall>j<length offs. offset_value (os ! j) =
        (if j \<le> length ys then sum_list (take j (map2 (-) ?ls ?ks)) else offset_value (offs ! j)))"
  have "ospec (?P [1..<length offs]) (\<lambda>e. False) False (for_each ?f [1..<length offs] (offs, 0))"
  proof (rule ospec_for_each)
    show "?P [] (offs, 0)" using val [of 0] by simp
  next
    fix ys y zs w
    assume split: "[1..<length offs] = ys @ y # zs" and inv: "?P ys w"
    then obtain os where w: "w = (os, sum_list (take (length ys) ?ks))" and os: "length os = length offs"
      "\<And>j. j < length offs \<Longrightarrow> offset_value (os ! j) =
        (if j \<le> length ys then sum_list (take j (map2 (-) ?ls ?ks)) else offset_value (offs ! j))" by (cases w) auto
    let ?k = "length ys"
    have y: "y = Suc ?k" and k: "?k < length Rs" using upt_split [OF split] len by auto
    have sum: "sum_list (take ?k ?ks) + length (Rs ! ?k) = sum_list (take (Suc ?k) ?ks)"
      using k by (simp add: take_Suc_conv_app_nth)
    have cur: "offset_value (os ! Suc ?k) = sum_list (take (Suc ?k) ?ls)"
      using os(2) [of "Suc ?k"] k len val [of "Suc ?k"] by simp
    let ?new = "of_nat (sum_list (take (Suc ?k) (map2 (-) ?ls ?ks))) :: offset"
    have sub: "offset_checked_sub_delta (os ! Suc ?k) (sum_list (take (Suc ?k) ?ks)) = Ok ?new"
      using minus [of "Suc ?k"] by (simp add: offset_checked_sub_delta_cases cur)
    have "sum_list (take (Suc ?k) (map2 (-) ?ls ?ks)) \<le> u32_max"
      using offset_value_le [of "os ! Suc ?k"] minus(1) [of "Suc ?k"] cur by linarith
    then have new: "offset_value ?new = sum_list (take (Suc ?k) (map2 (-) ?ls ?ks))"
      by (rule offset_value_of_nat)
    have "?f y w = Ok (os[Suc ?k := ?new], sum_list (take (Suc ?k) ?ks))"
      using k len os(1) sub by (simp add: y w Let_def sum)
    moreover have "?P (ys @ [y]) (os[Suc ?k := ?new], sum_list (take (Suc ?k) ?ks))"
      using os new len k by (auto simp: nth_list_update le_Suc_eq)
    ultimately show "ospec (?P (ys @ [y])) (\<lambda>e. False) False (?f y w)"
      by (simp only: ospec.simps)
  qed
  then show ?thesis
    unfolding shift_offsets_def ospec_map_ok
  proof (rule ospec_mono)
    fix w assume "?P [1..<length offs] w"
    then have w: "length (fst w) = length offs"
      "\<And>j. j < length offs \<Longrightarrow> offset_value (fst w ! j) = sum_list (take j (map2 (-) ?ls ?ks))"
      using len by (cases w; force)+
    show "map offset_value (fst w) = psums 0 (map length (map2 remove_at rows Rs))"
      unfolding lens using w len n by (intro nth_equalityI) (simp_all add: nth_psums)
  qed simp_all
qed

section \<open>The pass over all slots\<close>

definition put_edge_replace :: "edge_replace \<Rightarrow> edge_storage \<Rightarrow> edge_storage" where
  "put_edge_replace r es = es[er_slot r :=
     \<lparr>es_offsets = er_offsets r, es_neighbors = er_neighbors r, es_values = er_values r\<rparr>]"

lemma length_fold_put_edge_replace [simp]: "length (fold put_edge_replace rs es) = length es"
  by (induction rs arbitrary: es) (simp_all add: put_edge_replace_def)

definition slot_removals :: "nat list buckets \<Rightarrow> nat \<Rightarrow> nat \<Rightarrow> nat list list" where
  "slot_removals pending i n = (case pending ! i of Some Rs \<Rightarrow> Rs | None \<Rightarrow> replicate n [])"

definition slot_removed :: "nat \<Rightarrow> nat list list \<Rightarrow> edge_slot \<Rightarrow> edge_slot \<Rightarrow> bool" where
  "slot_removed n Rs slot slot' \<longleftrightarrow> edge_slot_ok (sa_typ (es_values slot)) n slot' \<and>
     edge_rows slot' n = map2 remove_at (edge_rows slot n) Rs \<and>
     (es_offsets slot = [] \<or> in_rows (edge_rows slot n) Rs)"

definition edges_ok :: "('n, 'e, 'p, 'r) schema \<Rightarrow> ('n \<Rightarrow> nat) \<Rightarrow> edge_storage \<Rightarrow> bool" where
  "edges_ok S cnt es \<longleftrightarrow> length es = edge_storage_size S \<and>
     (\<forall>nk d ek. edge_slot_ok (e_property_type S ek) (cnt nk) (es ! edge_storage_slot S nk d ek))"

definition removals_ok :: "('n, 'e, 'p, 'r) schema \<Rightarrow> ('n \<Rightarrow> nat) \<Rightarrow> nat list buckets \<Rightarrow> bool" where
  "removals_ok S cnt pending \<longleftrightarrow> length pending = edge_storage_size S \<and>
     (\<forall>nk d ek Rs. pending ! edge_storage_slot S nk d ek = Some Rs \<longrightarrow>
        length Rs = cnt nk \<and> (\<forall>R\<in>set Rs. distinct R))"

lemma map2_remove_none: "length rows = n \<Longrightarrow> map2 remove_at rows (replicate n []) = rows"
  by (intro nth_equalityI) simp_all

lemma remove_slot_spec:
  assumes ok: "edge_slot_ok t n slot" and Rs: "length Rs = n" "\<forall>R\<in>set Rs. distinct R"
    and ne: "es_offsets slot \<noteq> []"
  shows "ospec (\<lambda>absolute. in_rows (edge_rows slot n) Rs \<and>
      (absolute = [] \<longrightarrow> slot_removed n Rs slot slot) \<and>
      ospec (\<lambda>(neighbors, values). ospec (\<lambda>offs. offs \<noteq> [] \<and>
          slot_removed n Rs slot \<lparr>es_offsets = offs, es_neighbors = neighbors, es_values = values\<rparr>)
          (\<lambda>e. False) False (shift_offsets (es_offsets slot) Rs))
        (\<lambda>e. False) False (filter_removed slot (sort absolute)))
    (\<lambda>_. \<not> in_rows (edge_rows slot n) Rs) False (collect_removals slot Rs)"
proof -
  let ?rows = "edge_rows slot n" and ?H = "edge_halves slot"
  have sc: "slot_csr (es_offsets slot) ?H n ?rows" using ok by (rule edge_slot_ok_csr)
  then have csr: "csr (es_offsets slot) ?H ?rows" and n: "length ?rows = n" using ne by (simp_all add: slot_csr_def)
  have t: "sa_typ (es_values slot) = t" using ok by (simp add: edge_slot_ok_def)
  have "ospec (\<lambda>ab. in_rows ?rows Rs \<and> ab = abs_removed 0 ?rows Rs) (\<lambda>_. \<not> in_rows ?rows Rs) False (collect_removals slot Rs)"
    using csr Rs(1) n by (intro collect_removals_spec) simp_all
  then show ?thesis
  proof (rule ospec_mono)
    fix ab assume *: "in_rows ?rows Rs \<and> ab = abs_removed 0 ?rows Rs"
    have dist: "distinct ab" using * Rs(2) abs_removed_distinct by blast
    have bound: "\<forall>x\<in>set ab. x < length (es_neighbors slot)"
      using * abs_removed_bounds [of ?rows Rs _ 0] csr_concat [OF csr] length_edge_halves [OF ok] by auto
    let ?H' = "nths ?H (- set ab)" and ?rows' = "map2 remove_at ?rows Rs"
    have H': "?H' = concat ?rows'"
      using nths_concat_removed [of ?rows Rs] * csr_concat [OF csr] by simp
    have typed: "halves_typed t ?H'"
      using edge_slot_halves(1) [OF ok] set_nths_subset by (rule halves_typed_subset)
    have lenR: "length ?rows' = n" using n Rs(1) by simp
    have shift: "ospec (\<lambda>offs'. map offset_value offs' = psums 0 (map length ?rows')) (\<lambda>e. False) False
        (shift_offsets (es_offsets slot) Rs)"
      using csr * Rs(2) by (intro shift_offsets_spec) (simp_all add: csr_def)
    have done_slot: "offs \<noteq> [] \<and> slot_removed n Rs slot (slot_of_halves t offs ?H')"
      if "map offset_value offs = psums 0 (map length ?rows')" for offs
    proof -
      have "csr offs ?H' ?rows'" using that H' by (simp add: csr_def)
      moreover have "offs \<noteq> []" using that by auto
      ultimately have "slot_csr offs ?H' n ?rows'" using lenR by (simp add: slot_csr_def)
      then show ?thesis
        using edge_slot_ok_of_halves [OF typed] * \<open>offs \<noteq> []\<close> by (simp add: slot_removed_def t)
    qed
    have same: "slot_removed n Rs slot slot" if "ab = []"
    proof -
      have "sum_list (map length Rs) = 0" using * that length_abs_removed [of ?rows Rs 0] by simp
      then have "Rs = replicate n []" using Rs(1) by (auto intro!: replicate_eqI simp: sum_list_eq_0_iff)
      then show ?thesis using ok * n map2_remove_none [of ?rows n] by (simp add: slot_removed_def t)
    qed
    show "in_rows ?rows Rs \<and> (ab = [] \<longrightarrow> slot_removed n Rs slot slot) \<and>
      ospec (\<lambda>(neighbors, values). ospec (\<lambda>offs. offs \<noteq> [] \<and>
          slot_removed n Rs slot \<lparr>es_offsets = offs, es_neighbors = neighbors, es_values = values\<rparr>)
          (\<lambda>e. False) False (shift_offsets (es_offsets slot) Rs))
        (\<lambda>e. False) False (filter_removed slot (sort ab))"
      using * same filter_removed_spec [OF ok dist bound]
        ospec_mono [OF shift, of "\<lambda>offs. offs \<noteq> [] \<and> slot_removed n Rs slot (slot_of_halves t offs ?H')"] done_slot
      by (simp add: slot_of_halves_def)
  qed simp_all
qed

definition removed_upto ::
  "('n, 'e, 'p, 'r) schema \<Rightarrow> ('n \<Rightarrow> nat) \<Rightarrow> nat list buckets \<Rightarrow> edge_storage \<Rightarrow> edge_replace list \<Rightarrow>
     ('n \<times> dir \<times> 'e) set \<Rightarrow> bool" where
  "removed_upto S cnt pending es rs ks \<longleftrightarrow>
     (\<forall>r\<in>set rs. er_slot r < length es \<and> er_offsets r \<noteq> []) \<and>
     (\<forall>nk d ek. let i = edge_storage_slot S nk d ek in
        if (nk, d, ek) \<in> ks
        then slot_removed (cnt nk) (slot_removals pending i (cnt nk)) (es ! i) (fold put_edge_replace rs es ! i)
        else fold put_edge_replace rs es ! i = es ! i)"

definition removals_beyond ::
  "('n, 'e, 'p, 'r) schema \<Rightarrow> ('n \<Rightarrow> nat) \<Rightarrow> edge_storage \<Rightarrow> nat list buckets \<Rightarrow> bool" where
  "removals_beyond S cnt es pending \<longleftrightarrow> (\<exists>nk d ek.
     \<not> in_rows (edge_rows (es ! edge_storage_slot S nk d ek) (cnt nk))
       (slot_removals pending (edge_storage_slot S nk d ek) (cnt nk)))"

lemma removed_uptoD:
  assumes "removed_upto S cnt pending es rs ks"
  shows "\<And>r. r \<in> set rs \<Longrightarrow> er_slot r < length es" and "\<And>r. r \<in> set rs \<Longrightarrow> er_offsets r \<noteq> []"
    and "(nk, d, ek) \<in> ks \<Longrightarrow> slot_removed (cnt nk) (slot_removals pending (edge_storage_slot S nk d ek) (cnt nk))
      (es ! edge_storage_slot S nk d ek) (fold put_edge_replace rs es ! edge_storage_slot S nk d ek)"
    and "(nk, d, ek) \<notin> ks \<Longrightarrow>
      fold put_edge_replace rs es ! edge_storage_slot S nk d ek = es ! edge_storage_slot S nk d ek"
  using assms by (auto simp: removed_upto_def Let_def)

lemma removed_uptoI:
  assumes "\<And>r. r \<in> set rs \<Longrightarrow> er_slot r < length es \<and> er_offsets r \<noteq> []"
    and "\<And>nk d ek. (nk, d, ek) \<in> ks \<Longrightarrow> slot_removed (cnt nk) (slot_removals pending (edge_storage_slot S nk d ek) (cnt nk))
      (es ! edge_storage_slot S nk d ek) (fold put_edge_replace rs es ! edge_storage_slot S nk d ek)"
    and "\<And>nk d ek. (nk, d, ek) \<notin> ks \<Longrightarrow>
      fold put_edge_replace rs es ! edge_storage_slot S nk d ek = es ! edge_storage_slot S nk d ek"
  shows "removed_upto S cnt pending es rs ks"
  using assms by (simp add: removed_upto_def Let_def)

context schema_laws
begin

lemma edge_slot_neq: "(nk, d, ek) \<noteq> (nk', d', ek') \<Longrightarrow> edge_storage_slot S nk d ek \<noteq> edge_storage_slot S nk' d' ek'"
  using edge_slot_inj by blast

lemma removed_upto_skip:
  assumes "removed_upto S cnt pending es rs ks" and "(nk, d, ek) \<notin> ks"
    and "slot_removed (cnt nk) (slot_removals pending (edge_storage_slot S nk d ek) (cnt nk))
      (es ! edge_storage_slot S nk d ek) (es ! edge_storage_slot S nk d ek)"
  shows "removed_upto S cnt pending es rs (insert (nk, d, ek) ks)"
  using removed_uptoD [OF assms(1)] assms(2,3) by (intro removed_uptoI) auto

lemma removed_upto_put:
  assumes len: "length es = edge_storage_size S" and rem: "removed_upto S cnt pending es rs ks"
    and r: "er_slot r = edge_storage_slot S nk d ek" "er_offsets r \<noteq> []"
    and new: "slot_removed (cnt nk) (slot_removals pending (edge_storage_slot S nk d ek) (cnt nk))
      (es ! edge_storage_slot S nk d ek)
      \<lparr>es_offsets = er_offsets r, es_neighbors = er_neighbors r, es_values = er_values r\<rparr>"
  shows "removed_upto S cnt pending es (rs @ [r]) (insert (nk, d, ek) ks)"
proof -
  note D = removed_uptoD [OF rem]
  have at: "fold put_edge_replace (rs @ [r]) es ! edge_storage_slot S nk' d' ek' =
      (if (nk', d', ek') = (nk, d, ek)
       then \<lparr>es_offsets = er_offsets r, es_neighbors = er_neighbors r, es_values = er_values r\<rparr>
       else fold put_edge_replace rs es ! edge_storage_slot S nk' d' ek')" for nk' d' ek'
    using edge_slot_neq [of nk' d' ek' nk d ek] edge_slot_less [of nk d ek] len
    by (auto simp: put_edge_replace_def r nth_list_update)
  show ?thesis
  proof (rule removed_uptoI)
    fix nk' d' ek' assume "(nk', d', ek') \<in> insert (nk, d, ek) ks"
    then show "slot_removed (cnt nk') (slot_removals pending (edge_storage_slot S nk' d' ek') (cnt nk'))
        (es ! edge_storage_slot S nk' d' ek') (fold put_edge_replace (rs @ [r]) es ! edge_storage_slot S nk' d' ek')"
      unfolding at using new D(3) by auto
  qed (use at D r edge_slot_less [of nk d ek] len in auto)
qed

lemma edge_slot_visit:
  assumes "edge_storage_slots S = ys @ (nk, d, ek) # zs"
  shows "(nk, d, ek) \<notin> set ys"
proof -
  have "distinct (map (\<lambda>(nk, d, ek). edge_storage_slot S nk d ek) (edge_storage_slots S))"
    by (simp add: edge_slots_in_order)
  then show ?thesis unfolding assms by (auto simp: image_iff)
qed

text \<open>Taking a slot's bucket leaves the buckets of the slots still to come.\<close>

lemma taken_others:
  assumes "\<forall>nk d ek. (nk, d, ek) \<notin> ks \<longrightarrow> p' ! edge_storage_slot S nk d ek = p ! edge_storage_slot S nk d ek"
  shows "\<forall>nk d ek. (nk, d, ek) \<notin> insert (nk0, d0, ek0) ks \<longrightarrow>
    p'[edge_storage_slot S nk0 d0 ek0 := x] ! edge_storage_slot S nk d ek = p ! edge_storage_slot S nk d ek"
proof (intro allI impI)
  fix nk d ek assume k: "(nk, d, ek) \<notin> insert (nk0, d0, ek0) ks"
  then have "edge_storage_slot S nk0 d0 ek0 \<noteq> edge_storage_slot S nk d ek"
    by (intro edge_slot_neq) auto
  then show "p'[edge_storage_slot S nk0 d0 ek0 := x] ! edge_storage_slot S nk d ek = p ! edge_storage_slot S nk d ek"
    using assms k by simp
qed

text \<open>The one error: a position past the end of its row.\<close>

lemma prepare_edge_removals_spec:
  assumes es: "edges_ok S cnt es" and pend: "removals_ok S cnt pending"
  shows "ospec (\<lambda>rs. removed_upto S cnt pending es rs UNIV) (\<lambda>_. removals_beyond S cnt es pending) False (prepare_edge_removals S es pending)"
proof -
  let ?P = "\<lambda>ys w. case w of (p', rs) \<Rightarrow> removed_upto S cnt pending es rs (set ys) \<and> length p' = length pending \<and>
      (\<forall>nk d ek. (nk, d, ek) \<notin> set ys \<longrightarrow> p' ! edge_storage_slot S nk d ek = pending ! edge_storage_slot S nk d ek)"
  have "ospec (?P (edge_storage_slots S)) (\<lambda>_. removals_beyond S cnt es pending) False (for_each (removal_slot S es) (edge_storage_slots S) (pending, []))"
  proof (rule ospec_for_each)
    show "?P [] (pending, [])" by (auto simp: removed_upto_def)
  next
    fix ys y zs w
    assume split: "edge_storage_slots S = ys @ y # zs" and inv: "?P ys w"
    obtain nk d ek where y: "y = (nk, d, ek)" by (cases y)
    obtain p' rs where w: "w = (p', rs)" by (cases w)
    let ?i = "edge_storage_slot S nk d ek"
    have rem: "removed_upto S cnt pending es rs (set ys)" and len: "length p' = length pending"
      and others: "\<forall>nk d ek. (nk, d, ek) \<notin> set ys \<longrightarrow> p' ! edge_storage_slot S nk d ek = pending ! edge_storage_slot S nk d ek"
      using inv by (simp_all add: w)
    have notin: "(nk, d, ek) \<notin> set ys" using edge_slot_visit split y by blast
    have i: "?i < length pending" "?i < length es" "length es = edge_storage_size S"
      using edge_slot_less [of nk d ek] pend es by (simp_all add: removals_ok_def edges_ok_def)
    have pi: "p' ! ?i = pending ! ?i" using others notin by blast
    have ok: "edge_slot_ok (e_property_type S ek) (cnt nk) (es ! ?i)" using es by (simp add: edges_ok_def)
    have others': "\<forall>nk' d' ek'. (nk', d', ek') \<notin> set (ys @ [y]) \<longrightarrow>
        p'[?i := None] ! edge_storage_slot S nk' d' ek' = pending ! edge_storage_slot S nk' d' ek'"
      using taken_others [OF others, of nk d ek None] by (simp add: y)
    have rows: "length (edge_rows (es ! ?i) (cnt nk)) = cnt nk"
      using slot_csr_length [OF edge_slot_ok_csr [OF ok]] .
    have skip: "?P (ys @ [y]) (p'[?i := None], rs)"
      if "slot_removed (cnt nk) (slot_removals pending ?i (cnt nk)) (es ! ?i) (es ! ?i)"
      using removed_upto_skip [OF rem notin that] others' len by (simp add: y)
    show "ospec (?P (ys @ [y])) (\<lambda>_. removals_beyond S cnt es pending) False (removal_slot S es y w)"
    proof (cases "pending ! ?i")
      case None
      have "slot_removed (cnt nk) (slot_removals pending ?i (cnt nk)) (es ! ?i) (es ! ?i)"
        using ok map2_remove_none [OF rows] rows None
        by (auto simp: slot_removed_def slot_removals_def edge_slot_ok_def intro!: in_rowsI)
      then show ?thesis
        using skip i len pi None by (simp add: removal_slot_def y w buckets_take_def Let_def)
    next
      case (Some Rs)
      have Rs: "length Rs = cnt nk" "\<forall>R\<in>set Rs. distinct R" and sr: "slot_removals pending ?i (cnt nk) = Rs"
        using pend Some by (auto simp: removals_ok_def slot_removals_def)
      show ?thesis
      proof (cases "es_offsets (es ! ?i) = []")
        case True
        then have "edge_rows (es ! ?i) (cnt nk) = replicate (cnt nk) []" by (simp add: edge_rows_def slot_rows_def)
        then have "map2 remove_at (edge_rows (es ! ?i) (cnt nk)) Rs = edge_rows (es ! ?i) (cnt nk)"
          using Rs(1) by (intro nth_equalityI) simp_all
        then have "slot_removed (cnt nk) (slot_removals pending ?i (cnt nk)) (es ! ?i) (es ! ?i)"
          using ok True by (auto simp: slot_removed_def sr edge_slot_ok_def)
        then show ?thesis
          using skip i len pi Some True by (simp add: removal_slot_def y w buckets_take_def Let_def)
      next
        case False
        have put: "?P (ys @ [y]) (p'[?i := None], rs @ [\<lparr>er_slot = ?i, er_neighbors = neighbors, er_values = vals, er_offsets = offs\<rparr>])"
          if "offs \<noteq> []" and "slot_removed (cnt nk) Rs (es ! ?i) \<lparr>es_offsets = offs, es_neighbors = neighbors, es_values = vals\<rparr>"
          for offs neighbors vals
          using removed_upto_put [OF i(3) rem, of "\<lparr>er_slot = ?i, er_neighbors = neighbors, er_values = vals, er_offsets = offs\<rparr>" nk d ek]
            that sr others' len by (simp add: y)
        have step: "removal_slot S es y w =
          andthen (collect_removals (es ! ?i) Rs) (\<lambda>absolute.
           if absolute = [] then Ok (p'[?i := None], rs)
           else
             andthen (filter_removed (es ! ?i) (sort absolute)) (\<lambda>(neighbors, values).
             andthen (shift_offsets (es_offsets (es ! ?i)) Rs) (\<lambda>offsets.
             Ok (p'[?i := None], rs @ [\<lparr>er_slot = ?i, er_neighbors = neighbors,
               er_values = values, er_offsets = offsets\<rparr>]))))"
          using i len pi Some False by (simp add: removal_slot_def y w buckets_take_def Let_def)
        show ?thesis
          unfolding step ospec_andthen
        proof (rule ospec_mono [OF remove_slot_spec [OF ok Rs False]])
          fix ab
          assume *: "in_rows (edge_rows (es ! ?i) (cnt nk)) Rs \<and> (ab = [] \<longrightarrow> slot_removed (cnt nk) Rs (es ! ?i) (es ! ?i)) \<and>
            ospec (\<lambda>(neighbors, values). ospec (\<lambda>offs. offs \<noteq> [] \<and>
              slot_removed (cnt nk) Rs (es ! ?i) \<lparr>es_offsets = offs, es_neighbors = neighbors, es_values = values\<rparr>)
              (\<lambda>e. False) False (shift_offsets (es_offsets (es ! ?i)) Rs))
            (\<lambda>e. False) False (filter_removed (es ! ?i) (sort ab))"
          show "ospec (?P (ys @ [y])) (\<lambda>_. removals_beyond S cnt es pending) False
            (if ab = [] then Ok (p'[?i := None], rs)
             else andthen (filter_removed (es ! ?i) (sort ab)) (\<lambda>(neighbors, values).
               andthen (shift_offsets (es_offsets (es ! ?i)) Rs) (\<lambda>offsets.
               Ok (p'[?i := None], rs @ [\<lparr>er_slot = ?i, er_neighbors = neighbors,
                 er_values = values, er_offsets = offsets\<rparr>]))))"
          proof (cases "ab = []")
            case True
            then show ?thesis using * skip sr by simp
          next
            case False
            obtain neighbors vals where f: "filter_removed (es ! ?i) (sort ab) = Ok (neighbors, vals)"
              using * by (cases "filter_removed (es ! ?i) (sort ab)") auto
            obtain offs where offs: "shift_offsets (es_offsets (es ! ?i)) Rs = Ok offs"
              using * f by (cases "shift_offsets (es_offsets (es ! ?i)) Rs") auto
            have "offs \<noteq> []" and "slot_removed (cnt nk) Rs (es ! ?i)
                \<lparr>es_offsets = offs, es_neighbors = neighbors, es_values = vals\<rparr>"
              using * f offs by simp_all
            then show ?thesis using False f offs put [of offs neighbors vals] by simp
          qed
        qed (use sr in \<open>auto simp: removals_beyond_def\<close>)
      qed
    qed
  qed
  moreover have "set (edge_storage_slots S) = UNIV" using edge_slot_mem by auto
  ultimately show ?thesis
    unfolding prepare_edge_removals_def ospec_map_ok by (elim ospec_mono) (auto split: prod.splits)
qed

end

end
