(* ===== verification/Slots_Inserts.thy ===== *)
theory Slots_Inserts
  imports Staged Slots_Removals
begin

text \<open>
  New edges. \<open>prepare_new_edges\<close> sorts a slot's new half-edges by node with a counting sort and works
  out where each run goes; \<open>commit\<close> merges the runs into the slot. Together they append to each
  node's row its new half-edges, in the order the diff added them.
\<close>

lemma ospec_total: "ospec Q (\<lambda>e. False) False m \<longleftrightarrow> (\<exists>a. m = Ok a \<and> Q a)"
  by (cases m) simp_all

lemma offset_checked_add_delta_Ok:
  "offset_checked_add_delta a n = Ok c \<longleftrightarrow> offset_value a + n \<le> u32_max \<and> offset_value c = offset_value a + n"
  using of_nat_offset_value [of c] by (auto simp: offset_checked_add_delta_cases intro!: offset_eqI)

lemma halves_values_Nil [simp]: "halves_values t [] = []"
  by (simp add: halves_values_def)

section \<open>Half-edges by node\<close>

definition half_of :: "slot_half_edge \<Rightarrow> raw_node_id \<times> stored_property option" where
  "half_of h = (sh_neighbor h, sh_property h)"

definition halves_at :: "slot_half_edge list \<Rightarrow> nat \<Rightarrow> (raw_node_id \<times> stored_property option) list" where
  "halves_at hs i = map half_of (filter (\<lambda>h. sh_seq h = i) hs)"

definition index_run :: "slot_half_edge list \<Rightarrow> nat \<Rightarrow> nat \<Rightarrow> nat list" where
  "index_run hs k i = filter (\<lambda>j. sh_seq (hs ! j) = i) [0..<k]"

lemma index_run_Suc: "index_run hs (Suc k) i = index_run hs k i @ (if sh_seq (hs ! k) = i then [k] else [])"
  by (simp add: index_run_def)

lemma index_run_0 [simp]: "index_run hs 0 i = []"
  by (simp add: index_run_def)

lemma map_index_run: "map (\<lambda>j. half_of (hs ! j)) (index_run hs (length hs) i) = halves_at hs i"
proof -
  have "filter (\<lambda>h. sh_seq h = i) hs = filter (\<lambda>h. sh_seq h = i) (map ((!) hs) [0..<length hs])"
    by (simp add: map_nth)
  then have "filter (\<lambda>h. sh_seq h = i) hs = map ((!) hs) (index_run hs (length hs) i)"
    by (simp add: index_run_def filter_map comp_def)
  then show ?thesis by (simp add: halves_at_def)
qed

lemma length_index_run: "length (index_run hs (length hs) i) = length (halves_at hs i)"
  using arg_cong [OF map_index_run [of hs i], of length] by simp

lemma index_run_mono: "k \<le> n \<Longrightarrow> length (index_run hs k i) \<le> length (index_run hs n i)"
  by (induction n) (auto simp: index_run_Suc le_Suc_eq)

text \<open>What the buckets of a slot hold: the halves in order, and how many each node has.\<close>

definition half_edges_ok :: "nat \<Rightarrow> slot_half_edges \<Rightarrow> bool" where
  "half_edges_ok n e \<longleftrightarrow> length (she_counts e) = n \<and> (\<forall>h\<in>set (she_halves e). sh_seq h < n) \<and>
     (\<forall>i<n. unat (she_counts e ! i) = length (halves_at (she_halves e) i))"

lemma sum_halves_at:
  "\<forall>h\<in>set hs. sh_seq h < n \<Longrightarrow> sum_list (map (\<lambda>i. length (halves_at hs i)) [0..<n]) = length hs"
proof (induction hs)
  case (Cons h hs)
  have 1: "map (\<lambda>i. length (halves_at (h # hs) i)) [0..<n] =
      map (\<lambda>i. (if i = sh_seq h then 1 else 0) + length (halves_at hs i)) [0..<n]"
    by (simp add: halves_at_def)
  have 2: "sum_list (map (\<lambda>i. (if i = sh_seq h then 1 else 0) + length (halves_at hs i)) [0..<n]) =
      sum_list (map (\<lambda>i. if i = sh_seq h then 1 else 0) [0..<n]) + sum_list (map (\<lambda>i. length (halves_at hs i)) [0..<n])"
    by (rule sum_list_addf)
  have "sum_list (map (\<lambda>i. if i = sh_seq h then 1 else 0) [0..<n]) = (1 :: nat)"
    using Cons.prems by (simp add: sum_list_map_remove1 [of "sh_seq h"] sum_list_distinct_conv_sum_set)
  then show ?case using Cons unfolding 1 2 by simp
qed (simp add: halves_at_def)

section \<open>The counting sort\<close>

lemma u32_checked_add_Some: "unat a + unat b \<le> u32_max \<Longrightarrow> u32_checked_add a b = Some (a + b)"
  by (simp add: u32_checked_add_def)

lemma run_starts_spec:
  assumes "unat acc + sum_list (map unat counts) \<le> u32_max"
  shows "\<exists>starts. run_starts acc counts = Ok starts \<and> map unat starts @ [unat acc + sum_list (map unat counts)] =
    psums (unat acc) (map unat counts)"
  using assms
proof (induction counts arbitrary: acc)
  case (Cons c counts)
  then have "unat acc + unat c \<le> u32_max" by simp
  then have add: "u32_checked_add acc c = Some (acc + c)" "unat (acc + c) = unat acc + unat c"
    by (simp_all add: u32_checked_add_Some unat_add_u32)
  then obtain starts where "run_starts (acc + c) counts = Ok starts"
    "map unat starts @ [unat acc + unat c + sum_list (map unat counts)] = psums (unat acc + unat c) (map unat counts)"
    using Cons.IH [of "acc + c"] Cons.prems by (auto simp: add.assoc)
  then show ?case using add by (simp add: add.assoc)
qed simp

text \<open>Runs of consecutive positions do not overlap.\<close>

lemma psums_disjoint:
  assumes "i < length cs" and "i' < length cs" and "i \<noteq> i'" and "x < cs ! i" and "y < cs ! i'"
  shows "sum_list (take i cs) + x \<noteq> sum_list (take i' cs) + (y :: nat)"
proof -
  have less: "sum_list (take a cs) + cs ! a \<le> sum_list (take b cs)" if "a < b" "b \<le> length cs" for a b
  proof -
    have "take b cs = take (Suc a) cs @ take (b - Suc a) (drop (Suc a) cs)"
      using that by (metis Suc_leI le_add_diff_inverse take_add)
    then show ?thesis using that by (simp add: take_Suc_conv_app_nth)
  qed
  show ?thesis
    using assms less [of i i'] less [of i' i] by (cases "i < i'") auto
qed

lemma slices_concat:
  assumes "\<forall>i<length rows. take (length (rows ! i)) (drop (sum_list (map length (take i rows))) xs) = rows ! i"
    and "length xs = sum_list (map length rows)"
  shows "xs = concat rows"
  using assms
proof (induction rows arbitrary: xs)
  case (Cons r rows)
  have r: "take (length r) xs = r" using Cons.prems(1) by force
  have "drop (length r) xs = concat rows"
  proof (rule Cons.IH)
    show "\<forall>i<length rows. take (length (rows ! i)) (drop (sum_list (map length (take i rows))) (drop (length r) xs)) = rows ! i"
    proof (intro allI impI)
      fix i assume "i < length rows"
      then show "take (length (rows ! i)) (drop (sum_list (map length (take i rows))) (drop (length r) xs)) = rows ! i"
        using Cons.prems(1) [rule_format, of "Suc i"] by (simp add: add.commute)
    qed
  qed (use Cons.prems(2) in simp)
  then show ?case using r by (metis append_take_drop_id concat.simps(2))
qed simp

lemma place_halves_spec:
  fixes starts :: "u32 list"
  assumes seqs: "\<forall>h\<in>set hs. sh_seq h < n" and small: "length hs \<le> u32_max"
    and starts: "map unat starts @ [length hs] = psums 0 (map (\<lambda>i. length (halves_at hs i)) [0..<n])"
  shows "\<exists>ends order. place_halves hs starts = Ok (ends, order) \<and>
    map unat order = concat (map (index_run hs (length hs)) [0..<n]) \<and>
    map unat ends = tl (psums 0 (map (\<lambda>i. length (halves_at hs i)) [0..<n]))"
proof -
  let ?cs = "map (\<lambda>i. length (halves_at hs i)) [0..<n]"
  let ?start = "\<lambda>i. sum_list (take i ?cs)"
  let ?run = "\<lambda>k i. index_run hs k i"
  have len_starts: "length starts = n" using arg_cong [OF starts, of length] by simp
  have start: "unat (starts ! i) = ?start i" if "i < n" for i
  proof -
    have "unat (starts ! i) = (map unat starts @ [length hs]) ! i" using that len_starts by (simp add: nth_append)
    also have "\<dots> = ?start i" unfolding starts using that by (simp add: nth_psums)
    finally show ?thesis .
  qed
  have total: "sum_list ?cs = length hs" using seqs by (rule sum_halves_at)
  have cs: "?cs ! i = length (halves_at hs i)" if "i < n" for i using that by simp
  let ?f = "\<lambda>(i, half) (cursors, order).
         andthen (index_at cursors (sh_seq half)) (\<lambda>cursor.
         andthen (store_at order (unat cursor) (of_nat i :: u32)) (\<lambda>order.
         andthen (expect (u32_checked_add cursor 1)) (\<lambda>cursor'.
         Ok (cursors[sh_seq half := cursor'], order))))"
  let ?P = "\<lambda>ys w. case w of (cursors :: u32 list, order :: u32 list) \<Rightarrow> length cursors = n \<and> length order = length hs \<and>
      (\<forall>i<n. unat (cursors ! i) = ?start i + length (?run (length ys) i)) \<and>
      (\<forall>i<n. \<forall>j<length (?run (length ys) i). unat (order ! (?start i + j)) = ?run (length ys) i ! j)"
  have "ospec (?P (enumerate 0 hs)) (\<lambda>e :: error. False) False (for_each ?f (enumerate 0 hs) (starts, replicate (length hs) 0))"
  proof (rule ospec_for_each)
    show "?P [] (starts, replicate (length hs) 0)" using len_starts start by simp
  next
    fix ys y zs w
    assume split: "enumerate 0 hs = ys @ y # zs" and inv: "?P ys w"
    let ?k = "length ys"
    obtain cursors order :: "u32 list" where w: "w = (cursors, order)" by (cases w)
    have y: "y = (?k, hs ! ?k)" and k: "?k < length hs" using enumerate_split [OF split] by auto
    let ?s = "sh_seq (hs ! ?k)"
    have s: "?s < n" using seqs k by simp
    have len: "length cursors = n" "length order = length hs"
      and cur: "\<And>i. i < n \<Longrightarrow> unat (cursors ! i) = ?start i + length (?run ?k i)"
      and ord: "\<And>i j. i < n \<Longrightarrow> j < length (?run ?k i) \<Longrightarrow> unat (order ! (?start i + j)) = ?run ?k i ! j"
      using inv by (auto simp: w)
    let ?pos = "?start ?s + length (?run ?k ?s)"
    have run_le: "length (?run (Suc ?k) i) \<le> ?cs ! i" if "i < n" for i
      using index_run_mono [of "Suc ?k" "length hs" hs i] k that by (simp add: length_index_run)
    have lt: "length (?run ?k ?s) < ?cs ! ?s" using run_le [OF s] by (simp add: index_run_Suc)
    have pos: "?pos < length hs"
      using sum_take_add_le [of ?s ?cs] s lt total by simp
    have add: "u32_checked_add (cursors ! ?s) 1 = Some (cursors ! ?s + 1)"
      "unat (cursors ! ?s + 1) = Suc (unat (cursors ! ?s))"
      using pos small cur [OF s] by (simp_all add: u32_checked_add_Some unat_add_u32)
    have res: "?f y w = Ok (cursors[?s := cursors ! ?s + 1], order[?pos := of_nat ?k])"
      using s len pos cur [OF s] add(1) by (simp add: y w)
    have "?P (ys @ [y]) (cursors[?s := cursors ! ?s + 1], order[?pos := of_nat ?k])"
      unfolding prod.case
    proof (intro conjI allI impI)
      fix i assume i: "i < n"
      show "unat (cursors[?s := cursors ! ?s + 1] ! i) = ?start i + length (?run (length (ys @ [y])) i)"
        using i cur len s add(2) by (auto simp: nth_list_update index_run_Suc)
    next
      fix i j assume i: "i < n" and j: "j < length (?run (length (ys @ [y])) i)"
      show "unat (order[?pos := of_nat ?k] ! (?start i + j)) = ?run (length (ys @ [y])) i ! j"
      proof (cases "i = ?s \<and> j = length (?run ?k ?s)")
        case True
        have "?k \<le> u32_max" using k small by simp
        then show ?thesis using True pos len by (simp add: index_run_Suc)
      next
        case False
        then have j': "j < length (?run ?k i)" using j by (auto simp: index_run_Suc split: if_splits)
        have "?start i + j \<noteq> ?pos"
        proof (cases "i = ?s")
          case False
          have "j < ?cs ! i" using run_le [OF i] j by simp
          then show ?thesis using psums_disjoint [of i ?cs ?s j "length (?run ?k ?s)"] False i s lt by simp
        qed (use j' in simp)
        then show ?thesis using ord [OF i j'] j' by (simp add: index_run_Suc nth_append)
      qed
    qed (use len in simp_all)
    then show "ospec (?P (ys @ [y])) (\<lambda>e :: error. False) False (?f y w)" unfolding res by simp
  qed
  then have "ospec (?P (enumerate 0 hs)) (\<lambda>e :: error. False) False (place_halves hs starts)"
    unfolding place_halves_def .
  then obtain ends order where res: "place_halves hs starts = Ok (ends, order)"
    and P: "?P (enumerate 0 hs) (ends, order)"
    unfolding ospec_total by blast
  let ?rows = "map (index_run hs (length hs)) [0..<n]"
  have lens: "map length ?rows = ?cs" by (simp add: length_index_run)
  have "map unat order = concat ?rows"
  proof (rule slices_concat)
    show "length (map unat order) = sum_list (map length ?rows)" unfolding lens using P total by simp
    show "\<forall>i<length ?rows. take (length (?rows ! i)) (drop (sum_list (map length (take i ?rows))) (map unat order)) = ?rows ! i"
    proof (intro allI impI)
      fix i assume "i < length ?rows"
      then have i: "i < n" by simp
      have st: "sum_list (map length (take i ?rows)) = ?start i"
        by (simp only: lens flip: take_map)
      let ?r = "index_run hs (length hs) i"
      have row: "?rows ! i = ?r" using i by simp
      have lo: "length order = length hs" and ord: "\<And>j. j < length ?r \<Longrightarrow> unat (order ! (?start i + j)) = ?r ! j"
        using P i by simp_all
      have le: "?start i + length ?r \<le> length order"
        using sum_take_add_le [of i ?cs] i total lo by (simp add: length_index_run)
      show "take (length (?rows ! i)) (drop (sum_list (map length (take i ?rows))) (map unat order)) = ?rows ! i"
        unfolding st row
      proof (rule nth_equalityI)
        show len: "length (take (length ?r) (drop (?start i) (map unat order))) = length ?r"
          using le by (simp add: min_absorb2)
        fix j assume "j < length (take (length ?r) (drop (?start i) (map unat order)))"
        then have j: "j < length ?r" unfolding len .
        then have "?start i + j < length order" using le by linarith
        then show "take (length ?r) (drop (?start i) (map unat order)) ! j = ?r ! j"
          using ord [OF j] j by simp
      qed
    qed
  qed
  moreover have "map unat ends = tl (psums 0 ?cs)"
  proof (rule nth_equalityI)
    show "length (map unat ends) = length (tl (psums 0 ?cs))" using P by simp
    fix i assume "i < length (map unat ends)"
    then have i: "i < n" using P by simp
    then have "unat (ends ! i) = ?start i + ?cs ! i" using P by (simp add: length_index_run)
    then show "map unat ends ! i = tl (psums 0 ?cs) ! i"
      using i P by (simp add: nth_tl nth_psums take_Suc_conv_app_nth)
  qed
  ultimately show ?thesis using res by blast
qed

section \<open>Gathering the columns\<close>

lemma gather_spec:
  assumes "\<forall>i\<in>set order. unat i < length hs" and "halves_typed t done_halves"
  shows "ospec (\<lambda>(ns, vs). let all = done_halves @ map (\<lambda>i. half_of (hs ! unat i)) order in
      halves_typed t all \<and> ns = map fst all \<and> vs = sa_of t (halves_values t all)) (\<lambda>e. True) False
    (for_each (gather_step t hs) order (map fst done_halves, sa_of t (halves_values t done_halves)))"
  using assms
proof (induction order arbitrary: done_halves)
  case (Cons i order)
  let ?h = "hs ! unat i"
  have i: "unat i < length hs" using Cons.prems(1) by simp
  show ?case
  proof (cases "halves_typed t [half_of ?h]")
    case True
    have typed: "halves_typed t (done_halves @ [half_of ?h])" using True Cons.prems(2) by simp
    have "gather_step t hs i (map fst done_halves, sa_of t (halves_values t done_halves)) =
        Ok (map fst (done_halves @ [half_of ?h]), sa_of t (halves_values t (done_halves @ [half_of ?h])))"
    proof (cases "sh_property ?h")
      case None
      then have "t = TNone" using True by (simp add: halves_typed_def half_of_def)
      then show ?thesis using i None by (simp add: gather_step_def half_of_def halves_values_def)
    next
      case (Some v)
      then have v: "sp_typ v = t" using True by (simp add: halves_typed_def half_of_def)
      then have "t \<noteq> TNone" by auto
      then show ?thesis
        using i Some v typed_halves_values [OF Cons.prems(2)]
        by (simp add: gather_step_def half_of_def sa_try_push_values) (simp add: halves_values_def)
    qed
    then show ?thesis
      using Cons.IH [OF _ typed] Cons.prems(1) by simp
  next
    case False
    have "\<exists>e. gather_step t hs i (map fst done_halves, sa_of t (halves_values t done_halves)) = Err e"
      using False i
      by (cases "sh_property ?h") (auto simp: gather_step_def halves_typed_def half_of_def sa_try_push_values split: bool.split)
    then show ?thesis by auto
  qed
qed simp

section \<open>Placing the runs\<close>

fun runs :: "nat \<Rightarrow> 'a list list \<Rightarrow> 'b list list \<Rightarrow> (nat \<times> nat) list" where
  "runs p (x # xs) (y # ys) =
     (if y = [] then [] else [(p + length x, length y)]) @ runs (p + length x + length y) xs ys"
| "runs p _ _ = []"

lemma place_runs_loop:
  assumes "length xs = length ys"
    and "map unat ends = tl (psums prev (map length ys))"
    and "map offset_value offs = tl (psums q (map length xs))"
  shows "ospec (\<lambda>(moved, batches, prev'). map offset_value moved = map offset_value moved0 @
        tl (psums (q + prev) (map length (map2 (@) xs ys))) \<and>
      batches = batches0 @ runs (q + prev) xs ys \<and> prev' = prev + length (concat ys))
    (\<lambda>e. True) False
    (for_each place_run (zip ends offs) (moved0, batches0, prev))"
  using assms
proof (induction xs arbitrary: ys ends offs prev q moved0 batches0)
  case Nil
  then show ?case by simp
next
  case (Cons x xs)
  obtain y ys' where ys: "ys = y # ys'" using Cons.prems(1) by (cases ys) auto
  have tl_psums: "tl (psums a (l # ls)) = (a + l) # tl (psums (a + l) ls)" for a l and ls :: "nat list"
    by (cases ls) auto
  obtain c ends' where ends: "ends = c # ends'" "unat c = prev + length y"
      "map unat ends' = tl (psums (prev + length y) (map length ys'))"
    using Cons.prems(2) by (cases ends) (auto simp: ys tl_psums simp del: psums.simps)
  obtain f offs' where offs: "offs = f # offs'" "offset_value f = q + length x"
      "map offset_value offs' = tl (psums (q + length x) (map length xs))"
    using Cons.prems(3) by (cases offs) (auto simp: tl_psums simp del: psums.simps)
  show ?case
  proof (cases "offset_checked_add_delta f (unat c)")
    case (Ok f')
    then have f': "offset_value f' = q + prev + length x + length y"
      using offs(2) ends(2) by (simp add: offset_checked_add_delta_Ok)
    let ?b = "if y = [] then [] else [(q + prev + length x, length y)]"
    have batch: "(if unat c > prev then batches0 @ [(offset_value f + prev, unat c - prev)] else batches0) = batches0 @ ?b"
      by (auto simp: offs(2) ends(2))
    have sum: "q + length x + (prev + length y) = q + prev + length x + length y" by simp
    have step: "place_run (c, f) (moved0, batches0, prev) = Ok (moved0 @ [f'], batches0 @ ?b, prev + length y)"
      using Ok batch by (simp add: place_run_def Let_def ends(2))
    have len: "length xs = length ys'" using Cons.prems(1) by (simp add: ys)
    show ?thesis
      unfolding ends(1) offs(1) zip_Cons_Cons for_each.simps step andthen.simps
    proof (rule ospec_mono [OF Cons.IH [OF len ends(3) offs(3), of "moved0 @ [f']" "batches0 @ ?b"]])
      fix w
      assume "case w of (moved, batches, prev') \<Rightarrow> map offset_value moved = map offset_value (moved0 @ [f']) @
          tl (psums (q + length x + (prev + length y)) (map length (map2 (@) xs ys'))) \<and>
        batches = (batches0 @ ?b) @ runs (q + length x + (prev + length y)) xs ys' \<and>
        prev' = prev + length y + length (concat ys')"
      then show "case w of (moved, batches, prev') \<Rightarrow> map offset_value moved = map offset_value moved0 @
          tl (psums (q + prev) (map length (map2 (@) (x # xs) ys))) \<and>
        batches = batches0 @ runs (q + prev) (x # xs) ys \<and> prev' = prev + length (concat ys)"
        unfolding sum using f' by (auto simp: ys tl_psums add.assoc simp del: psums.simps)
    qed simp_all
  next
    case (Err e)
    then show ?thesis by (simp add: ends(1) offs(1) place_run_def Let_def)
  qed (auto simp: offset_checked_add_delta_cases split: if_splits)
qed

lemma place_runs_spec:
  assumes "length xs = length ys" and "map unat ends = tl (psums 0 (map length ys))"
    and offs: "map offset_value offs = psums 0 (map length xs)"
  shows "ospec (\<lambda>(batches, offs', prev_end). map offset_value offs' = psums 0 (map length (map2 (@) xs ys)) \<and>
      batches = runs 0 xs ys \<and> prev_end = length (concat ys)) (\<lambda>e. True) False (place_runs ends offs)"
proof -
  obtain f fs where f: "offs = f # fs" "offset_value f = 0" "map offset_value fs = tl (psums 0 (map length xs))"
    using offs by (cases offs; cases "map length xs") auto
  have cons: "0 # tl (psums 0 ls) = psums 0 ls" for ls
    by (cases ls) auto
  show ?thesis
    unfolding place_runs_def ospec_map_ok
  proof (rule ospec_mono [OF place_runs_loop [of xs ys ends 0 "drop 1 offs" 0 "[]" "[]"]])
    fix w
    assume w: "case w of (moved, batches, prev') \<Rightarrow> map offset_value moved = map offset_value [] @
        tl (psums (0 + 0) (map length (map2 (@) xs ys))) \<and>
      batches = [] @ runs (0 + 0) xs ys \<and> prev' = 0 + length (concat ys)"
    obtain moved batches prev' where w': "w = (moved, batches, prev')" by (cases w)
    have m: "map offset_value moved = tl (psums 0 (map length (map2 (@) xs ys)))" using w by (simp add: w')
    have "length moved = length fs"
      using arg_cong [OF m, of length] arg_cong [OF f(3), of length] assms(1) by simp
    then show "case (case w of (moved, batches, prev_end) \<Rightarrow>
          (batches, take 1 offs @ moved @ drop (1 + length moved) offs, prev_end)) of
        (batches, offs', prev_end) \<Rightarrow> map offset_value offs' = psums 0 (map length (map2 (@) xs ys)) \<and>
          batches = runs 0 xs ys \<and> prev_end = length (concat ys)"
      using w m f cons by (simp add: w')
  qed (use assms f in simp_all)
qed

section \<open>Merging\<close>

text \<open>Both columns at once: the merge as an operation on half-edges.\<close>

lemma slice_halves:
  assumes "a \<le> b" and "b \<le> length H"
  shows "ranged_slice (map fst H) a b = Ok (map fst (take (b - a) (drop a H)))"
    and "t \<noteq> TNone \<Longrightarrow> ranged_slice (halves_values t H) a b = Ok (halves_values t (take (b - a) (drop a H)))"
  using assms by (simp_all add: ranged_slice_cases halves_values_def take_map drop_map)

lemma extend_halves:
  assumes "halves_typed t H" and "halves_typed t built" and "t \<noteq> TNone" and "a \<le> b" and "b \<le> length H"
  shows "sa_try_extend_from_range (sa_of t (halves_values t built)) (sa_of t (halves_values t H)) a b =
    Ok (sa_of t (halves_values t (built @ take (b - a) (drop a H))))"
  using slice_halves(2) [OF assms(4,5,3)] typed_halves_values [OF assms(1)] typed_halves_values [OF assms(2)] assms(3)
  by (simp add: sa_try_extend_from_range_values)

lemma merge_loop:
  fixes xs ys :: "(raw_node_id \<times> stored_property option) list list"
  assumes "length xs = length ys" and "halves_typed t H" "halves_typed t B" "halves_typed t built"
    and "H = olds @ pend @ concat xs" and "B = news @ concat ys"
  shows "\<exists>built' copied'. for_each (merge_step (map fst H) (sa_of t (halves_values t H)) (map fst B) (sa_of t (halves_values t B)) (t \<noteq> TNone))
      (runs (length built + length pend) xs ys)
      (map fst built, sa_of t (halves_values t built), length olds, length news) =
      Ok (map fst built', sa_of t (halves_values t built'), copied', length B) \<and>
    halves_typed t built' \<and> copied' \<le> length H \<and>
    built' @ drop copied' H = built @ pend @ concat (map2 (@) xs ys)"
  using assms
proof (induction xs arbitrary: ys built olds pend news)
  case Nil
  then show ?case by (intro exI [of _ built] exI [of _ "length olds"]) simp
next
  case (Cons x xs)
  obtain y ys' where ys: "ys = y # ys'" using Cons.prems(1) by (cases ys) auto
  show ?case
  proof (cases "y = []")
    case True
    have "runs (length built + length pend) (x # xs) ys = runs (length built + length (pend @ x)) xs ys'"
      by (simp add: ys True add.assoc)
    then show ?thesis
      using Cons.IH [of ys' built olds "pend @ x" news] Cons.prems by (simp add: ys True)
  next
    case False
    let ?built' = "built @ pend @ x @ y"
    have typed_old: "halves_typed t (pend @ x)" and typed_y: "halves_typed t y"
      using Cons.prems(2,3,5,6) by (simp_all add: ys)
    have run_eq: "runs (length built + length pend) (x # xs) ys =
        (length built + length pend + length x, length y) # runs (length ?built' + length ([] :: (raw_node_id \<times> stored_property option) list)) xs ys'"
      using False by (simp add: ys add.assoc)
    let ?tk = "length (pend @ x)"
    have sl1: "take ?tk (drop (length olds) H) = pend @ x" by (simp add: Cons.prems(5))
    have sl2: "take (length y) (drop (length news) B) = y" by (simp add: Cons.prems(6) ys)
    have le1: "length olds + ?tk \<le> length H" and le2: "length news + length y \<le> length B"
      by (simp_all add: Cons.prems(5,6) ys)
    have old_ns: "ranged_slice (map fst H) (length olds) (length olds + ?tk) = Ok (map fst (pend @ x))"
      using slice_halves(1) [OF _ le1, of "length olds"] sl1 by simp
    have new_ns: "ranged_slice (map fst B) (length news) (length news + length y) = Ok (map fst y)"
      using slice_halves(1) [OF _ le2, of "length news"] sl2 by simp
    have old_vs: "sa_try_extend_from_range (sa_of t (halves_values t built)) (sa_of t (halves_values t H)) (length olds)
        (length olds + ?tk) = Ok (sa_of t (halves_values t (built @ pend @ x)))" if "t \<noteq> TNone"
      using extend_halves [OF Cons.prems(2,4) that _ le1, of "length olds"] sl1 by simp
    have new_vs: "sa_try_extend_from_range (sa_of t (halves_values t (built @ pend @ x))) (sa_of t (halves_values t B))
        (length news) (length news + length y) = Ok (sa_of t (halves_values t ?built'))" if "t \<noteq> TNone"
      using extend_halves [OF Cons.prems(3) _ that _ le2, of "built @ pend @ x" "length news"] sl2 typed_old Cons.prems(4) by simp
    have none: "sa_of t (halves_values t zs) = sa_of t (halves_values t zs')" if "t = TNone" for zs zs'
      using that by simp
    have step: "merge_step (map fst H) (sa_of t (halves_values t H)) (map fst B) (sa_of t (halves_values t B)) (t \<noteq> TNone)
        (length built + length pend + length x, length y)
        (map fst built, sa_of t (halves_values t built), length olds, length news) =
        Ok (map fst ?built', sa_of t (halves_values t ?built'), length olds + ?tk, length news + length y)"
    proof (cases "t = TNone")
      case True
      then show ?thesis
        using old_ns new_ns by (cases "?tk = 0") (auto simp: merge_step_def add.assoc)
    next
      case False
      then show ?thesis
        using old_ns new_ns old_vs new_vs by (cases "?tk = 0") (auto simp: merge_step_def add.assoc)
    qed
    have ih: "\<exists>built'' copied'. for_each (merge_step (map fst H) (sa_of t (halves_values t H)) (map fst B) (sa_of t (halves_values t B)) (t \<noteq> TNone))
        (runs (length ?built' + length ([] :: (raw_node_id \<times> stored_property option) list)) xs ys')
        (map fst ?built', sa_of t (halves_values t ?built'), length (olds @ pend @ x), length (news @ y)) =
        Ok (map fst built'', sa_of t (halves_values t built''), copied', length B) \<and>
      halves_typed t built'' \<and> copied' \<le> length H \<and>
      built'' @ drop copied' H = ?built' @ [] @ concat (map2 (@) xs ys')"
      by (rule Cons.IH) (use Cons.prems typed_old typed_y in \<open>simp_all add: ys\<close>)
    have concat_eq: "built @ pend @ concat (map2 (@) (x # xs) ys) = ?built' @ [] @ concat (map2 (@) xs ys')"
      by (simp add: ys)
    show ?thesis
      unfolding run_eq for_each.simps step andthen.simps concat_eq using ih by simp
  qed
qed

lemma runs_Nil: "length xs = length ys \<Longrightarrow> runs p xs ys = [] \<longleftrightarrow> concat ys = []"
  by (induction p xs ys rule: runs.induct) auto

lemma merge_edge_batches_spec:
  assumes H: "halves_typed t (concat xs)" and len: "length xs = length ys" and B: "halves_typed t (concat ys)"
  shows "merge_edge_batches (slot_of_halves t offs (concat xs)) (runs 0 xs ys) (map fst (concat ys))
      (sa_of t (halves_values t (concat ys))) = Ok (slot_of_halves t offs (concat (map2 (@) xs ys)))"
proof -
  let ?H = "concat xs" and ?B = "concat ys"
  let ?slot = "slot_of_halves t offs ?H"
  have fields: "es_neighbors ?slot = map fst ?H" "es_values ?slot = sa_of t (halves_values t ?H)" "es_offsets ?slot = offs"
    by (simp_all add: slot_of_halves_def)
  have ty: "sa_typ (es_values ?slot) = t" by (simp add: fields)
  show ?thesis
  proof (cases "?H = []")
    case True
    then have "xs = replicate (length ys) []" using len by (auto intro!: replicate_eqI)
    then have "map2 (@) xs ys = ys"
      using len by (intro nth_equalityI) simp_all
    then show ?thesis
      using True by (simp add: merge_edge_batches_def slot_of_halves_def halves_values_def default_storage_array_def)
  next
    case False
    obtain built copied where loop: "for_each (merge_step (map fst ?H) (sa_of t (halves_values t ?H)) (map fst ?B)
        (sa_of t (halves_values t ?B)) (t \<noteq> TNone)) (runs 0 xs ys) ([], sa_of t [], 0, 0) =
        Ok (map fst built, sa_of t (halves_values t built), copied, length ?B)"
      and b: "halves_typed t built" "copied \<le> length ?H" "built @ drop copied ?H = concat (map2 (@) xs ys)"
      using merge_loop [of xs ys t ?H ?B "[]" "[]" "[]" "[]"] len H B
      by auto
    have ns: "ranged_slice (map fst ?H) copied (length ?H) = Ok (map fst (drop copied ?H))"
      using slice_halves(1) [OF b(2) order_refl] by simp
    have vs: "sa_try_extend_from_range (sa_of t (halves_values t built)) (sa_of t (halves_values t ?H)) copied (length ?H) =
        Ok (sa_of t (halves_values t (concat (map2 (@) xs ys))))" if "t \<noteq> TNone"
      using extend_halves [OF H b(1) that b(2) order_refl] b(3) by simp
    have ns': "map fst built @ map fst (drop copied ?H) = map fst (concat (map2 (@) xs ys))"
      unfolding b(3) [symmetric] by simp
    have len': "length (map fst ?H) = length ?H" by simp
    show ?thesis
    proof (cases "t = TNone")
      case True
      then show ?thesis
        using False loop ns ns' by (simp add: merge_edge_batches_def Let_def slot_of_halves_def
            default_storage_array_def sa_of_Nil) auto
    next
      case vals: False
      then show ?thesis
        using False loop ns ns' vs [OF vals]
        by (simp add: merge_edge_batches_def Let_def slot_of_halves_def sa_of_Nil) auto
    qed
  qed
qed

section \<open>One slot\<close>

definition inserts_slot ::
  "property_type \<Rightarrow> (raw_node_id \<times> stored_property option) list list \<Rightarrow>
     (raw_node_id \<times> stored_property option) list list \<Rightarrow> edge_insert \<Rightarrow> bool" where
  "inserts_slot t rows news ins \<longleftrightarrow> length news = length rows \<and> halves_typed t (concat news) \<and>
     ei_batches ins = runs 0 rows news \<and>
     (ei_batches ins \<noteq> [] \<longrightarrow> ei_neighbors ins = map fst (concat news) \<and>
        ei_values ins = sa_of t (halves_values t (concat news))) \<and>
     map offset_value (ei_offsets ins) = psums 0 (map length (map2 (@) rows news))"

lemma prepare_slot_edges_spec:
  assumes e: "half_edges_ok (length rows) e" and ty: "sa_typ (es_values slot) = t"
    and offs: "map offset_value offs = psums 0 (map length rows)"
  shows "ospec (\<lambda>ins. ei_slot ins = i \<and> inserts_slot t rows (map (halves_at (she_halves e)) [0..<length rows]) ins)
    (\<lambda>err. True) False (prepare_slot_edges i slot offs e)"
proof -
  let ?n = "length rows" and ?hs = "she_halves e"
  let ?news = "map (halves_at ?hs) [0..<?n]"
  have len: "length (she_counts e) = length offs - 1"
    using e arg_cong [OF offs, of length] by (simp add: half_edges_ok_def)
  have counts: "map unat (she_counts e) = map (\<lambda>i. length (halves_at ?hs i)) [0..<?n]"
    using e by (intro nth_equalityI) (simp_all add: half_edges_ok_def)
  have seqs: "\<forall>h\<in>set ?hs. sh_seq h < ?n" using e by (simp add: half_edges_ok_def)
  have total: "sum_list (map unat (she_counts e)) = length ?hs"
    unfolding counts using seqs by (rule sum_halves_at)
  have concat_len: "length (concat ?news) = length ?hs"
    using sum_halves_at [OF seqs] by (simp add: length_concat comp_def)
  show ?thesis
  proof (cases "length ?hs \<le> u32_max")
    case False
    then show ?thesis using len by (simp add: prepare_slot_edges_def u32_try_from_def Let_def)
  next
    case small: True
    obtain starts where starts: "run_starts 0 (she_counts e) = Ok starts"
      "map unat starts @ [length ?hs] = psums 0 (map (\<lambda>i. length (halves_at ?hs i)) [0..<?n])"
      using run_starts_spec [of 0 "she_counts e"] small total by (auto simp: counts)
    obtain ends order where place: "place_halves ?hs starts = Ok (ends, order)"
      "map unat order = concat (map (index_run ?hs (length ?hs)) [0..<?n])"
      "map unat ends = tl (psums 0 (map length ?news))"
      using place_halves_spec [OF seqs small starts(2)] by (auto simp: comp_def)
    have "\<forall>j\<in>set (map unat order). j < length ?hs"
      unfolding place(2) by (auto simp: index_run_def)
    then have bound: "\<forall>i\<in>set order. unat i < length ?hs" by simp
    have "map (\<lambda>i. half_of (?hs ! unat i)) order = map (\<lambda>j. half_of (?hs ! j)) (map unat order)" by simp
    also have "\<dots> = concat ?news"
      unfolding place(2) by (simp add: map_concat map_index_run comp_def)
    finally have order: "map (\<lambda>i. half_of (?hs ! unat i)) order = concat ?news" .
    have gather: "ospec (\<lambda>(ns, vs). halves_typed t (concat ?news) \<and> ns = map fst (concat ?news) \<and>
        vs = sa_of t (halves_values t (concat ?news))) (\<lambda>e. True) False
      (for_each (gather_step t ?hs) order ([], sa_new t))"
      using gather_spec [OF bound, of t "[]"] unfolding order by (simp add: Let_def sa_of_Nil)
    have runs: "ospec (\<lambda>(batches, offs', prev_end). map offset_value offs' = psums 0 (map length (map2 (@) rows ?news)) \<and>
      batches = runs 0 rows ?news \<and> prev_end = length (concat ?news)) (\<lambda>e. True) False (place_runs ends offs)"
      using place(3) offs by (intro place_runs_spec) simp_all
    show ?thesis
    proof (cases "for_each (gather_step t ?hs) order ([], sa_new t)")
      case (Ok w)
      then obtain ns vs where w: "w = (ns, vs)" and nv: "halves_typed t (concat ?news)" "ns = map fst (concat ?news)"
        "vs = sa_of t (halves_values t (concat ?news))" using gather by (cases w) auto
      show ?thesis
      proof (cases "place_runs ends offs")
        case Ok': (Ok w')
        then obtain batches offs' where w': "w' = (batches, offs', length (concat ?news))"
          and r: "map offset_value offs' = psums 0 (map length (map2 (@) rows ?news))" "batches = runs 0 rows ?news"
          using runs by (cases w') auto
        show ?thesis
          using len small starts place(1) Ok Ok' nv r
          by (simp add: prepare_slot_edges_def Let_def u32_try_from_def ty w w' inserts_slot_def)
      qed (use runs len small starts place(1) Ok in \<open>simp_all add: prepare_slot_edges_def Let_def u32_try_from_def ty w\<close>)
    qed (use gather len small starts place(1) in \<open>simp_all add: prepare_slot_edges_def Let_def u32_try_from_def ty\<close>)
  qed
qed

lemma commit_edge_insert_slot:
  assumes slot: "i < length es" "es ! i = slot_of_halves t offs (concat rows)" "halves_typed t (concat rows)"
    and ins: "inserts_slot t rows news ins" "ei_slot ins = i"
  shows "commit_edge_insert ins es =
    Ok (es[i := slot_of_halves t (ei_offsets ins) (concat (map2 (@) rows news))])"
proof (cases "ei_batches ins = []")
  case True
  have len: "length rows = length news" using ins(1) by (simp add: inserts_slot_def)
  have "concat news = []" using True ins(1) runs_Nil [OF len, of 0] by (simp add: inserts_slot_def)
  then have "\<And>i. i < length news \<Longrightarrow> news ! i = []" by (auto simp: set_conv_nth)
  then have "map2 (@) rows news = rows" using len by (intro nth_equalityI) simp_all
  then show ?thesis
    using True slot ins(2) by (simp add: commit_edge_insert_def slot_of_halves_def)
next
  case False
  then show ?thesis
    using merge_edge_batches_spec [OF slot(3), of news offs] ins slot(1,2)
    by (simp add: commit_edge_insert_def inserts_slot_def slot_of_halves_def)
qed

definition slot_inserted ::
  "nat \<Rightarrow> nat \<Rightarrow> (raw_node_id \<times> stored_property option) list list \<Rightarrow> edge_slot \<Rightarrow> edge_slot \<Rightarrow> bool" where
  "slot_inserted n m news slot slot' \<longleftrightarrow> edge_slot_ok (sa_typ (es_values slot)) (n + m) slot' \<and>
     edge_rows slot' (n + m) = map2 (@) (edge_rows slot n @ replicate m []) news"

lemma slot_insertedI:
  assumes ok: "edge_slot_ok t n slot" and ins: "inserts_slot t (edge_rows slot n @ replicate m []) news ins"
    and i: "i < length es" "es ! i = slot" "ei_slot ins = i"
  shows "\<exists>slot'. commit_edge_insert ins es = Ok (es[i := slot']) \<and> slot_inserted n m news slot slot'"
proof -
  let ?rows = "edge_rows slot n @ replicate m []"
  let ?M = "concat (map2 (@) ?rows news)"
  have sc: "slot_csr (es_offsets slot) (edge_halves slot) n (edge_rows slot n)" using ok by (rule edge_slot_ok_csr)
  have H: "concat ?rows = edge_halves slot" using slot_csr_concat [OF sc] by simp
  have typed: "halves_typed t (concat ?rows)" and slot: "slot = slot_of_halves t (es_offsets slot) (concat ?rows)"
    using edge_slot_halves [OF ok] unfolding H by auto
  have lens: "length ?rows = n + m" "length news = n + m"
    using slot_csr_length [OF sc] ins by (simp_all add: inserts_slot_def)
  have typedM: "halves_typed t ?M"
  proof (rule halves_typed_subset [of t "concat ?rows @ concat news"])
    show "halves_typed t (concat ?rows @ concat news)" using typed ins by (simp add: inserts_slot_def)
    show "set ?M \<subseteq> set (concat ?rows @ concat news)" by (fastforce dest: set_zip_leftD set_zip_rightD)
  qed
  have offs: "map offset_value (ei_offsets ins) = psums 0 (map length (map2 (@) ?rows news))"
    using ins by (simp add: inserts_slot_def)
  then have "slot_csr (ei_offsets ins) ?M (n + m) (map2 (@) ?rows news)"
    using lens by (auto simp: slot_csr_def csr_def)
  then have "slot_inserted n m news slot (slot_of_halves t (ei_offsets ins) ?M)"
    using edge_slot_ok_of_halves [OF typedM] ok by (simp add: slot_inserted_def edge_slot_ok_def)
  then show ?thesis
    using commit_edge_insert_slot [OF i(1) _ typed ins i(3)] slot i(2) by metis
qed

text \<open>A slot the pass leaves alone.\<close>

lemma slot_inserted_none:
  assumes ok: "edge_slot_ok t n slot" and "m = 0 \<or> es_offsets slot = []"
  shows "slot_inserted n m (replicate (n + m) []) slot slot"
proof -
  have sc: "slot_csr (es_offsets slot) (edge_halves slot) n (edge_rows slot n)" using ok by (rule edge_slot_ok_csr)
  have "map2 (@) (edge_rows slot n @ replicate m []) (replicate (n + m) []) = edge_rows slot n @ replicate m []"
    using slot_csr_length [OF sc] by (intro nth_equalityI) simp_all
  then show ?thesis
    using assms by (auto simp: slot_inserted_def edge_slot_ok_def slot_ok_def edge_rows_def slot_rows_def replicate_add)
qed

end
