(* ===== verification/Slots_Edges.thy ===== *)
theory Slots_Edges
  imports Slots_Inserts
begin

text \<open>
  What \<open>prepare_new_edges\<close> and the commit of its inserts do to every edge slot: the row of each node
  gains exactly the half-edges bucketed for it, in the order they were added, after the half-edges it
  had; the new nodes of the kind get rows of their own. Neither the pass nor the commit of its
  result panics.
\<close>

section \<open>Offsets of a slot that grows\<close>

definition grown_offsets :: "nat \<Rightarrow> offset list \<Rightarrow> offset list" where
  "grown_offsets offsets_len offsets =
     (if offsets = [] then replicate offsets_len offset_zero
      else if length offsets \<noteq> offsets_len
      then vec_resize offsets offsets_len (case last_opt offsets of Some l \<Rightarrow> l | None \<Rightarrow> offset_zero)
      else offsets)"

lemma grown_offsets_psums:
  assumes ok: "edge_slot_ok t n slot"
  shows "map offset_value (grown_offsets (n + m + 1) (es_offsets slot)) =
    psums 0 (map length (edge_rows slot n @ replicate m []))"
proof (cases "es_offsets slot = []")
  case True
  then have "edge_rows slot n = replicate n []" by (simp add: edge_rows_def slot_rows_def)
  then have "map length (edge_rows slot n @ replicate m []) = replicate (n + m) 0"
    by (simp add: map_replicate_const replicate_add)
  then show ?thesis using True by (simp add: grown_offsets_def)
next
  case False
  have sc: "slot_csr (es_offsets slot) (edge_halves slot) n (edge_rows slot n)" using ok by (rule edge_slot_ok_csr)
  then have csr: "csr (es_offsets slot) (edge_halves slot) (edge_rows slot n)" and len: "length (edge_rows slot n) = n"
    using False by (auto simp: slot_csr_def)
  have grown: "grown_offsets (n + m + 1) (es_offsets slot) = es_offsets slot @ replicate m (last (es_offsets slot))"
    using False csr_length [OF csr] len by (simp add: grown_offsets_def vec_resize_def last_opt_def)
  have "csr (es_offsets slot @ replicate m (last (es_offsets slot))) (edge_halves slot @ concat (replicate m []))
      (edge_rows slot n @ replicate m [])"
    using csr_last [OF csr] by (intro csr_append [OF csr]) (simp add: map_replicate_const)
  then show ?thesis unfolding grown by (simp add: csr_def)
qed

section \<open>Half-edge buckets\<close>

definition slot_new_halves ::
  "edge_half_buckets \<Rightarrow> nat \<Rightarrow> nat \<Rightarrow> (raw_node_id \<times> stored_property option) list list" where
  "slot_new_halves hb i n = (case hb ! i of
     Some e \<Rightarrow> map (halves_at (she_halves e)) [0..<n] | None \<Rightarrow> replicate n [])"

definition halves_ok :: "('n, 'e, 'p, 'r) schema \<Rightarrow> ('n \<Rightarrow> nat) \<Rightarrow> edge_half_buckets \<Rightarrow> bool" where
  "halves_ok S n hb \<longleftrightarrow> length hb = edge_storage_size S \<and>
     (\<forall>nk d ek e. hb ! edge_storage_slot S nk d ek = Some e \<longrightarrow> half_edges_ok (n nk) e)"

lemma halves_at_snoc: "halves_at (hs @ [h]) i = halves_at hs i @ (if sh_seq h = i then [half_of h] else [])"
  by (simp add: halves_at_def)

lemma half_edges_ok_empty: "half_edges_ok n \<lparr>she_halves = [], she_counts = replicate n 0\<rparr>"
  by (simp add: half_edges_ok_def halves_at_def)

lemma slot_new_halves_put: "i < length hb \<Longrightarrow>
    slot_new_halves (hb[i := Some e]) i n = map (halves_at (she_halves e)) [0..<n]"
  by (simp add: slot_new_halves_def)

text \<open>Pushing a half: the one slot gains it at the end of its node's row; only a full counter panics.\<close>

lemma half_buckets_push_spec:
  assumes i: "i < length hb" and ok: "\<And>e. hb ! i = Some e \<Longrightarrow> half_edges_ok n e" and seq: "sh_seq half < n"
  shows "ospec (\<lambda>hb'. (\<exists>e. hb' = hb[i := Some e] \<and> half_edges_ok n e) \<and>
      slot_new_halves hb' i n = (slot_new_halves hb i n)[sh_seq half := slot_new_halves hb i n ! sh_seq half @ [half_of half]])
    (\<lambda>e. False) (u32_max \<le> length (slot_new_halves hb i n ! sh_seq half)) (half_buckets_push hb i n half)"
proof -
  define entry where "entry = (case hb ! i of Some e \<Rightarrow> e | None \<Rightarrow> \<lparr>she_halves = [], she_counts = replicate n 0\<rparr>)"
  have e: "half_edges_ok n entry"
    using ok half_edges_ok_empty by (auto simp: entry_def split: option.split)
  have news: "slot_new_halves hb i n = map (halves_at (she_halves entry)) [0..<n]"
    by (auto simp: slot_new_halves_def entry_def halves_at_def split: option.split intro!: nth_equalityI)
  let ?c = "she_counts entry ! sh_seq half"
  have c: "sh_seq half < length (she_counts entry)" "unat ?c = length (halves_at (she_halves entry) (sh_seq half))"
    using e seq by (simp_all add: half_edges_ok_def)
  have push: "half_buckets_push hb i n half =
    andthen (expect (u32_checked_add ?c 1)) (\<lambda>c'.
     Ok (hb[i := Some \<lparr>she_halves = she_halves entry @ [half], she_counts = (she_counts entry)[sh_seq half := c']\<rparr>]))"
    using i c by (simp add: half_buckets_push_def entry_def [symmetric] Let_def)
  show ?thesis
  proof (cases "unat ?c < u32_max")
    case True
    then have add: "u32_checked_add ?c 1 = Some (?c + 1)" by (intro u32_checked_add_Some) simp
    have c': "unat (?c + 1) = Suc (unat ?c)"
      using True by (simp add: unat_word_ariths u32_max_def)
    have "half_edges_ok n \<lparr>she_halves = she_halves entry @ [half], she_counts = (she_counts entry)[sh_seq half := ?c + 1]\<rparr>"
      using e seq c c' by (auto simp: half_edges_ok_def halves_at_snoc nth_list_update)
    moreover have "map (halves_at (she_halves entry @ [half])) [0..<n] =
        (map (halves_at (she_halves entry)) [0..<n])[sh_seq half := halves_at (she_halves entry) (sh_seq half) @ [half_of half]]"
      by (rule nth_equalityI) (auto simp: halves_at_snoc nth_list_update)
    ultimately show ?thesis
      unfolding push add using i seq by (auto simp: news slot_new_halves_put)
  next
    case False
    then have "u32_checked_add ?c 1 = None" using unat_u32_le [of ?c] by (simp add: u32_checked_add_def)
    then show ?thesis unfolding push using False c seq by (simp add: news)
  qed
qed

section \<open>The pass over all slots\<close>

text \<open>\<open>es\<close> is the storage the inserts are committed to.\<close>

definition inserted_upto ::
  "('n, 'e, 'p, 'r) schema \<Rightarrow> ('n \<Rightarrow> nat) \<Rightarrow> ('n \<Rightarrow> nat) \<Rightarrow> edge_half_buckets \<Rightarrow> edge_storage \<Rightarrow>
     edge_insert list \<Rightarrow> ('n \<times> dir \<times> 'e) set \<Rightarrow> edge_storage \<Rightarrow> bool" where
  "inserted_upto S cnt m hb es ins ks es' \<longleftrightarrow> for_each commit_edge_insert ins es = Ok es' \<and> length es' = length es \<and>
     (\<forall>nk d ek. let i = edge_storage_slot S nk d ek in
        if (nk, d, ek) \<in> ks
        then slot_inserted (cnt nk) (m nk) (slot_new_halves hb i (cnt nk + m nk)) (es ! i) (es' ! i)
        else es' ! i = es ! i)"

lemma inserted_uptoD:
  assumes "inserted_upto S cnt m hb es ins ks es'"
  shows "for_each commit_edge_insert ins es = Ok es'" and "length es' = length es"
    and "(nk, d, ek) \<in> ks \<Longrightarrow> slot_inserted (cnt nk) (m nk)
      (slot_new_halves hb (edge_storage_slot S nk d ek) (cnt nk + m nk))
      (es ! edge_storage_slot S nk d ek) (es' ! edge_storage_slot S nk d ek)"
    and "(nk, d, ek) \<notin> ks \<Longrightarrow> es' ! edge_storage_slot S nk d ek = es ! edge_storage_slot S nk d ek"
  using assms by (auto simp: inserted_upto_def Let_def)

lemma inserted_uptoI:
  assumes "for_each commit_edge_insert ins es = Ok es'" and "length es' = length es"
    and "\<And>nk d ek. (nk, d, ek) \<in> ks \<Longrightarrow> slot_inserted (cnt nk) (m nk)
      (slot_new_halves hb (edge_storage_slot S nk d ek) (cnt nk + m nk))
      (es ! edge_storage_slot S nk d ek) (es' ! edge_storage_slot S nk d ek)"
    and "\<And>nk d ek. (nk, d, ek) \<notin> ks \<Longrightarrow> es' ! edge_storage_slot S nk d ek = es ! edge_storage_slot S nk d ek"
  shows "inserted_upto S cnt m hb es ins ks es'"
  using assms by (simp add: inserted_upto_def Let_def)

text \<open>The offsets of each slot once the removals are in.\<close>

definition baseline_ok :: "edge_storage \<Rightarrow> edge_storage \<Rightarrow> offset list option list \<Rightarrow> bool" where
  "baseline_ok es0 es1 bl \<longleftrightarrow> length bl = length es0 \<and> length es1 = length es0 \<and>
     (\<forall>i<length es0. case bl ! i of
        None \<Rightarrow> es_offsets (es1 ! i) = es_offsets (es0 ! i)
      | Some b \<Rightarrow> es_offsets (es1 ! i) = b)"

lemma inserts_slot_empty:
  assumes "map offset_value offs = psums 0 (map length rows)"
  shows "inserts_slot t rows (replicate (length rows) [])
    \<lparr>ei_slot = i, ei_neighbors = [], ei_values = vs, ei_batches = [], ei_offsets = offs\<rparr>"
proof -
  have "runs 0 rows (replicate (length rows) ([] :: (raw_node_id \<times> stored_property option) list)) = []"
    by (subst runs_Nil) simp_all
  moreover have "map2 (@) rows (replicate (length rows) []) = rows"
    by (intro nth_equalityI) simp_all
  ultimately show ?thesis using assms by (simp add: inserts_slot_def halves_typed_def)
qed

context schema_laws
begin

lemma inserted_upto_skip:
  assumes "inserted_upto S cnt m hb es ins ks es'" and "(nk, d, ek) \<notin> ks"
    and "slot_inserted (cnt nk) (m nk) (slot_new_halves hb (edge_storage_slot S nk d ek) (cnt nk + m nk))
      (es ! edge_storage_slot S nk d ek) (es ! edge_storage_slot S nk d ek)"
  shows "inserted_upto S cnt m hb es ins (insert (nk, d, ek) ks) es'"
  using inserted_uptoD [OF assms(1)] assms(2,3) by (intro inserted_uptoI) auto

lemma inserted_upto_put:
  assumes len: "length es = edge_storage_size S" and upto: "inserted_upto S cnt m hb es ins ks es'"
    and notin: "(nk, d, ek) \<notin> ks" and i: "ei_slot new = edge_storage_slot S nk d ek"
    and ok: "edge_slot_ok t (cnt nk) (es ! edge_storage_slot S nk d ek)"
    and new: "inserts_slot t (edge_rows (es ! edge_storage_slot S nk d ek) (cnt nk) @ replicate (m nk) [])
      (slot_new_halves hb (edge_storage_slot S nk d ek) (cnt nk + m nk)) new"
  shows "\<exists>es''. inserted_upto S cnt m hb es (ins @ [new]) (insert (nk, d, ek) ks) es''"
proof -
  let ?i = "edge_storage_slot S nk d ek"
  note D = inserted_uptoD [OF upto]
  have bound: "?i < length es'" using D(2) len edge_slot_less by simp
  obtain slot' where slot': "commit_edge_insert new es' = Ok (es'[?i := slot'])"
    "slot_inserted (cnt nk) (m nk) (slot_new_halves hb ?i (cnt nk + m nk)) (es ! ?i) slot'"
    using slot_insertedI [OF ok new bound D(4) [OF notin] i] by blast
  have "inserted_upto S cnt m hb es (ins @ [new]) (insert (nk, d, ek) ks) (es'[?i := slot'])"
  proof (rule inserted_uptoI)
    fix nk' d' ek' assume "(nk', d', ek') \<in> insert (nk, d, ek) ks"
    then show "slot_inserted (cnt nk') (m nk') (slot_new_halves hb (edge_storage_slot S nk' d' ek') (cnt nk' + m nk'))
        (es ! edge_storage_slot S nk' d' ek') (es'[?i := slot'] ! edge_storage_slot S nk' d' ek')"
      using slot'(2) D(3) [of nk' d' ek'] bound edge_slot_neq [of nk d ek nk' d' ek']
      by (cases "(nk', d', ek') = (nk, d, ek)") auto
  next
    fix nk' d' ek' assume "(nk', d', ek') \<notin> insert (nk, d, ek) ks"
    then show "es'[?i := slot'] ! edge_storage_slot S nk' d' ek' = es ! edge_storage_slot S nk' d' ek'"
      using D(4) [of nk' d' ek'] edge_slot_neq [of nk d ek nk' d' ek'] by auto
  qed (use D slot' in \<open>simp_all add: for_each_append\<close>)
  then show ?thesis by blast
qed

lemma prepare_new_edges_spec:
  assumes es: "edges_ok S cnt es0" "edges_ok S cnt es1" and bl: "baseline_ok es0 es1 bl"
    and cs: "counts_ok S cnt max_seq" "counts_ok S m nnc" and hb: "halves_ok S (\<lambda>nk. cnt nk + m nk) hb"
  shows "ospec (\<lambda>ins. \<exists>es'. inserted_upto S cnt m hb es1 ins UNIV es') (\<lambda>e. True) False
    (prepare_new_edges S es0 max_seq nnc hb bl)"
proof -
  let ?P = "\<lambda>ys w. case w of (hb', ins) \<Rightarrow> (\<exists>es'. inserted_upto S cnt m hb es1 ins (set ys) es') \<and> length hb' = length hb \<and>
      (\<forall>nk d ek. (nk, d, ek) \<notin> set ys \<longrightarrow> hb' ! edge_storage_slot S nk d ek = hb ! edge_storage_slot S nk d ek)"
  have "ospec (?P (edge_storage_slots S)) (\<lambda>e. True) False
      (for_each (new_edge_slot S es0 max_seq nnc bl) (edge_storage_slots S) (hb, []))"
  proof (rule ospec_for_each)
    show "?P [] (hb, [])" by (auto simp: inserted_upto_def)
  next
    fix ys y zs w
    assume split: "edge_storage_slots S = ys @ y # zs" and inv: "?P ys w"
    obtain nk d ek where y: "y = (nk, d, ek)" by (cases y)
    obtain hb' ins where w: "w = (hb', ins)" by (cases w)
    let ?i = "edge_storage_slot S nk d ek" and ?t = "e_property_type S ek"
    obtain es' where upto: "inserted_upto S cnt m hb es1 ins (set ys) es'" and len: "length hb' = length hb"
      and others: "\<forall>nk d ek. (nk, d, ek) \<notin> set ys \<longrightarrow> hb' ! edge_storage_slot S nk d ek = hb ! edge_storage_slot S nk d ek"
      using inv by (auto simp: w)
    have notin: "(nk, d, ek) \<notin> set ys" using edge_slot_visit split y by blast
    have i: "?i < length hb" "?i < length es0" "?i < length bl" "length es1 = edge_storage_size S"
      using edge_slot_less [of nk d ek] hb es bl by (simp_all add: halves_ok_def edges_ok_def baseline_ok_def)
    have hi: "hb' ! ?i = hb ! ?i" using others notin by blast
    have ok: "edge_slot_ok ?t (cnt nk) (es0 ! ?i)" "edge_slot_ok ?t (cnt nk) (es1 ! ?i)" using es by (simp_all add: edges_ok_def)
    then have ty: "sa_typ (es_values (es0 ! ?i)) = ?t" "sa_typ (es_values (es1 ! ?i)) = ?t"
      by (simp_all add: edge_slot_ok_def)
    have ix: "index_at nnc (n_index S nk) = Ok (m nk)" "index_at max_seq (n_index S nk) = Ok (cnt nk)"
      using cs node_index_less [of nk] by (simp_all add: counts_ok_def)
    have others': "\<forall>nk' d' ek'. (nk', d', ek') \<notin> set (ys @ [y]) \<longrightarrow>
        hb'[?i := None] ! edge_storage_slot S nk' d' ek' = hb ! edge_storage_slot S nk' d' ek'"
      using taken_others [OF others, of nk d ek None] by (simp add: y)
    have offs: "(case bl ! ?i of Some b \<Rightarrow> b | None \<Rightarrow> es_offsets (es0 ! ?i)) = es_offsets (es1 ! ?i)"
      using bl i(2) by (auto simp: baseline_ok_def split: option.splits)
    let ?rows = "edge_rows (es1 ! ?i) (cnt nk) @ replicate (m nk) []"
    let ?goffs = "grown_offsets (cnt nk + m nk + 1) (es_offsets (es1 ! ?i))"
    have rows: "length ?rows = cnt nk + m nk"
      using slot_csr_length [OF edge_slot_ok_csr [OF ok(2)]] by simp
    have psums: "map offset_value ?goffs = psums 0 (map length ?rows)"
      using grown_offsets_psums [OF ok(2)] .
    have step: "new_edge_slot S es0 max_seq nnc bl y w =
      (if m nk = 0 \<and> hb ! ?i = None \<or> es_offsets (es1 ! ?i) = [] \<and> hb ! ?i = None then Ok (hb'[?i := None], ins)
       else case hb ! ?i of
           None \<Rightarrow> Ok (hb'[?i := None], ins @ [\<lparr>ei_slot = ?i, ei_neighbors = [],
               ei_values = sa_with_capacity ?t 0, ei_batches = [], ei_offsets = ?goffs\<rparr>])
         | Some halves \<Rightarrow> andthen (prepare_slot_edges ?i (es0 ! ?i) ?goffs halves) (\<lambda>insert.
             Ok (hb'[?i := None], ins @ [insert])))"
      using i ix len hi offs
      by (simp add: new_edge_slot_def y w half_buckets_take_def Let_def ty grown_offsets_def split: option.split)
    show "ospec (?P (ys @ [y])) (\<lambda>e. True) False (new_edge_slot S es0 max_seq nnc bl y w)"
    proof (cases "hb ! ?i")
      case None
      then have news: "slot_new_halves hb ?i (cnt nk + m nk) = replicate (cnt nk + m nk) []"
        by (simp add: slot_new_halves_def)
      show ?thesis
      proof (cases "m nk = 0 \<or> es_offsets (es1 ! ?i) = []")
        case True
        then have "inserted_upto S cnt m hb es1 ins (insert (nk, d, ek) (set ys)) es'"
          using slot_inserted_none [OF ok(2) True] news by (intro inserted_upto_skip [OF upto notin]) simp
        then show ?thesis
          unfolding step using None True others' len by (auto simp: y)
      next
        case False
        let ?new = "\<lparr>ei_slot = ?i, ei_neighbors = [], ei_values = sa_with_capacity ?t 0, ei_batches = [], ei_offsets = ?goffs\<rparr>"
        have "\<exists>es''. inserted_upto S cnt m hb es1 (ins @ [?new]) (insert (nk, d, ek) (set ys)) es''"
          using inserts_slot_empty [OF psums, of ?t ?i "sa_with_capacity ?t 0", unfolded rows]
          by (intro inserted_upto_put [OF i(4) upto notin _ ok(2)]) (simp_all only: news edge_insert.simps)
        then show ?thesis
          unfolding step using None False others' len by (simp add: y)
      qed
    next
      case (Some e)
      have e: "half_edges_ok (length ?rows) e" using hb Some unfolding rows halves_ok_def by blast
      have news: "slot_new_halves hb ?i (cnt nk + m nk) = map (halves_at (she_halves e)) [0..<length ?rows]"
        using Some rows by (simp add: slot_new_halves_def)
      show ?thesis
        unfolding step using Some
      proof (simp only: option.case option.simps simp_thms if_False ospec_andthen, rule_tac ospec_mono [OF prepare_slot_edges_spec [OF e ty(1) psums, of ?i]])
        fix new
        assume "ei_slot new = ?i \<and> inserts_slot ?t ?rows (map (halves_at (she_halves e)) [0..<length ?rows]) new"
        then have "\<exists>es''. inserted_upto S cnt m hb es1 (ins @ [new]) (insert (nk, d, ek) (set ys)) es''"
          by (intro inserted_upto_put [OF i(4) upto notin _ ok(2)]) (simp_all only: news)
        then show "ospec (?P (ys @ [y])) (\<lambda>e. True) False (Ok (hb'[?i := None], ins @ [new]))"
          using others' len by (simp add: y)
      qed simp_all
    qed
  qed
  moreover have "set (edge_storage_slots S) = UNIV" using edge_slot_mem by auto
  ultimately show ?thesis
    unfolding prepare_new_edges_def ospec_map_ok by (elim ospec_mono) (auto split: prod.splits)
qed

end

end
