(* ===== verification/Classify_Spec.thy ===== *)
theory Classify_Spec
  imports Prepare Slots_Edges
begin

text \<open>
  What \<open>classify_changes\<close> collects: the nodes to tombstone, the last update of each property, and the
  positions to remove, by slot and node. An edge is removed as two halves, the one its handle names
  and one found at the other end; the search takes a half with the same value whenever one is left.
\<close>

section \<open>What the changes ask for\<close>

definition removed_nodes :: "'p change list \<Rightarrow> raw_node_id list" where
  "removed_nodes cs = concat (map (\<lambda>c. case c of RemoveNode r \<Rightarrow> [r] | _ \<Rightarrow> []) cs)"

definition removed_edges :: "'p change list \<Rightarrow> raw_edge_id list" where
  "removed_edges cs = concat (map (\<lambda>c. case c of RemoveEdge e \<Rightarrow> [e] | _ \<Rightarrow> []) cs)"

definition last_update ::
  "('n, 'e, 'p, 'r) schema \<Rightarrow> 'p change list \<Rightarrow> 'n \<Rightarrow> 'p \<Rightarrow> nat \<Rightarrow> quantified_property option" where
  "last_update S cs nk pk seq = fold (\<lambda>c acc. case c of
       UpdateNodeProperty r pk' q \<Rightarrow> if pk' = pk \<and> node_of_raw S r = Ok (NodeId nk seq) then Some q else acc
     | _ \<Rightarrow> acc) cs None"

text \<open>The strings the updates bring in.\<close>

definition change_strings :: "'p change list \<Rightarrow> bytes set" where
  "change_strings cs = (\<Union>q\<in>{q. \<exists>r pk. UpdateNodeProperty r pk q \<in> set cs}. update_strings [Some q])"

text \<open>A handle whose near node is past the end of its kind: the one input the search indexes with.\<close>

definition edge_near :: "raw_edge_id \<Rightarrow> (raw_node_id \<times> dir \<times> raw_node_id \<times> dir) res" where
  "edge_near e = map_ok (\<lambda>d. orient_edge d (re_src e) (re_dst e)) (resolve_edge_direction (re_handle e))"

definition edge_misplaced :: "('n, 'e, 'p, 'r) schema \<Rightarrow> graph \<Rightarrow> raw_edge_id \<Rightarrow> bool" where
  "edge_misplaced S g e \<longleftrightarrow> (\<exists>p pd s sd. edge_near e = Ok (p, pd, s, sd) \<and> \<not> node_exists S g p)"

lemma removed_nodes_simps [simp]:
  "removed_nodes [] = []" "removed_nodes (cs @ cs') = removed_nodes cs @ removed_nodes cs'"
  "removed_nodes [RemoveNode r] = [r]" "removed_nodes [UpdateNodeProperty r pk q] = []"
  "removed_nodes [RemoveEdge e] = []"
  by (simp_all add: removed_nodes_def)

lemma removed_edges_simps [simp]:
  "removed_edges [] = []" "removed_edges (cs @ cs') = removed_edges cs @ removed_edges cs'"
  "removed_edges [RemoveNode r] = []" "removed_edges [UpdateNodeProperty r pk q] = []"
  "removed_edges [RemoveEdge e] = [e]"
  by (simp_all add: removed_edges_def)

lemma last_update_simps [simp]:
  "last_update S [] nk pk seq = None"
  "last_update S (cs @ [RemoveNode r]) nk pk seq = last_update S cs nk pk seq"
  "last_update S (cs @ [RemoveEdge e]) nk pk seq = last_update S cs nk pk seq"
  "last_update S (cs @ [UpdateNodeProperty r pk' q]) nk pk seq =
     (if pk' = pk \<and> node_of_raw S r = Ok (NodeId nk seq) then Some q else last_update S cs nk pk seq)"
  by (simp_all add: last_update_def)

lemma mem_removed_edges: "e \<in> set (removed_edges cs) \<longleftrightarrow> RemoveEdge e \<in> set cs"
  by (force simp: removed_edges_def split: change.splits)

lemma mem_removed_nodes: "r \<in> set (removed_nodes cs) \<longleftrightarrow> RemoveNode r \<in> set cs"
  by (force simp: removed_nodes_def split: change.splits)

section \<open>Reading half-edges\<close>

text \<open>The positions \<open>R\<close> assigns to a node of a slot.\<close>

definition queued_at :: "('n, 'e, 'p, 'r) schema \<Rightarrow> graph \<Rightarrow> nat list buckets \<Rightarrow> 'n \<Rightarrow> dir \<Rightarrow> 'e \<Rightarrow> nat \<Rightarrow> nat list" where
  "queued_at S g rem nk d ek seq =
     slot_removals rem (edge_storage_slot S nk d ek) (kind_count S g nk) ! seq"

definition reverse_candidates :: "('n, 'e, 'p, 'r) schema \<Rightarrow> graph \<Rightarrow> 'n \<Rightarrow> dir \<Rightarrow> 'e \<Rightarrow> nat \<Rightarrow> raw_node_id \<Rightarrow> nat list \<Rightarrow> nat set" where
  "reverse_candidates S g nk d ek seq target excluded =
     {j. j < length (edge_row S g nk d ek seq) \<and> fst (edge_row S g nk d ek seq ! j) = target \<and> j \<notin> set excluded}"

lemma graph_ok_edges_ok: "graph_ok S g \<Longrightarrow> edges_ok S (kind_count S g) (g_edges g)"
  by (simp add: graph_ok_def edges_ok_def edge_slot_of_def)

lemma graph_ok_props_ok: "graph_ok S g \<Longrightarrow> props_ok S (kind_count S g) (g_props g)"
  by (simp add: graph_ok_def props_ok_def prop_slot_of_def)

context schema_laws
begin

lemma node_exists_cases:
  assumes "graph_ok S g"
  shows "(\<exists>e. node_of_raw S r = Err e) \<or>
    (\<exists>n. node_of_raw S r = Ok n \<and> resolve_node_kind S r = Ok (nid_kind n) \<and> raw_seq r = nid_seq n \<and>
      (node_exists S g r \<longleftrightarrow> nid_seq n < kind_count S g (nid_kind n)))"
  using node_of_raw_cases [of r] by (auto simp: node_exists_iff) (auto simp: node_of_raw_def andthen_eq_Ok)

lemma edge_row_nth:
  assumes ok: "graph_ok S g" and seq: "seq < kind_count S g nk"
    and ab: "get_offset (es_offsets (edge_slot_of S g nk d ek)) seq = Some (a, b)"
  shows "offset_value b - offset_value a = length (edge_row S g nk d ek seq)" and "offset_value a \<le> offset_value b"
    and "get_neighbors (edge_slot_of S g nk d ek) a b = map fst (edge_row S g nk d ek seq)"
    and "j < length (edge_row S g nk d ek seq) \<Longrightarrow>
      sa_get (es_values (edge_slot_of S g nk d ek)) (offset_value a + j) = snd (edge_row S g nk d ek seq ! j)"
proof -
  let ?slot = "edge_slot_of S g nk d ek" and ?row = "edge_row S g nk d ek seq"
  have slot: "edge_slot_ok (e_property_type S ek) (kind_count S g nk) ?slot" using ok by (rule graph_okD)
  note R = es.get_offset_row [OF edge_slot_ok_ok [OF slot] ab, folded edge_rows_eq, folded edge_row_def]
  show "offset_value b - offset_value a = length ?row" "offset_value a \<le> offset_value b" using R by simp_all
  have "map fst ?row = slice_or_empty (map fst (edge_halves ?slot)) (offset_value a) (offset_value b)"
    using arg_cong [OF R(4), of "map fst"] by (simp add: map_slice)
  then show "get_neighbors ?slot a b = map fst ?row"
    by (simp add: get_neighbors_def edge_halves_neighbors [OF slot])
  assume j: "j < length ?row"
  have row: "?row = take (offset_value b - offset_value a) (drop (offset_value a) (edge_halves ?slot))"
    using R(2-4) by simp
  have "?row ! j = edge_halves ?slot ! (offset_value a + j)"
    using j R(2,3,5) by (subst row) simp
  moreover have "offset_value a + j < length (es_neighbors ?slot)"
    using j R(2,3,5) length_edge_halves [OF slot] by linarith
  ultimately show "sa_get (es_values ?slot) (offset_value a + j) = snd (?row ! j)"
    using edge_halves_nth [OF slot] by simp
qed

lemma half_edge_value_key_spec:
  assumes ok: "graph_ok S g" and seq: "raw_seq r < kind_count S g nk"
  shows "half_edge_value_key (g_edges g) r (edge_storage_slot S nk d ek) k =
    Ok (if e_property_type S ek = TNone \<or> length (edge_row S g nk d ek (raw_seq r)) \<le> k then None
        else Some (opt_key (snd (edge_row S g nk d ek (raw_seq r) ! k))))"
proof -
  let ?slot = "edge_slot_of S g nk d ek" and ?row = "edge_row S g nk d ek (raw_seq r)"
  have t: "es_values ?slot = ANone \<longleftrightarrow> e_property_type S ek = TNone"
    using graph_okD(4) [OF ok, of ek nk d] by (simp add: edge_slot_ok_def flip: sa_typ_TNone)
  show ?thesis
  proof (cases rule: edge_offsets_cases [OF ok seq, of d ek])
    case 1
    then have "get_offset (es_offsets ?slot) (raw_seq r) = None" by (simp add: get_offset_None)
    then show ?thesis using 1 t by (simp add: half_edge_value_key_def index_edges [OF ok])
  next
    case (2 a b)
    note row = edge_row_nth [OF ok seq 2(1)]
    show ?thesis
    proof (cases "k < length ?row")
      case True
      then show ?thesis using row(4) [OF True] row(1,2) 2(1) t
        by (auto simp: half_edge_value_key_def index_edges [OF ok] value_key_get Let_def)
    next
      case False
      then have "\<not> offset_value a + k < offset_value b" using row(1,2) by linarith
      then show ?thesis using False 2(1) t by (simp add: half_edge_value_key_def index_edges [OF ok] Let_def)
    qed
  qed
qed

lemma find_reverse_edge_seq_spec:
  assumes ok: "graph_ok S g" and r: "resolve_node_kind S r = Ok nk"
  shows "ospec (\<lambda>j. raw_seq r < kind_count S g nk \<and> j \<in> reverse_candidates S g nk d ek (raw_seq r) target excluded \<and>
      (\<forall>w. wanted = Some w \<longrightarrow>
        (\<exists>j'\<in>reverse_candidates S g nk d ek (raw_seq r) target excluded.
          opt_key (snd (edge_row S g nk d ek (raw_seq r) ! j')) = w) \<longrightarrow>
        opt_key (snd (edge_row S g nk d ek (raw_seq r) ! j)) = w))
    (\<lambda>_. raw_seq r < kind_count S g nk \<longrightarrow>
      reverse_candidates S g nk d ek (raw_seq r) target excluded = {}) False
    (find_reverse_edge_seq S (g_edges g) r (edge_storage_slot S nk d ek) d ek target excluded wanted)"
proof (cases "get_offset (es_offsets (edge_slot_of S g nk d ek)) (raw_seq r)")
  case None
  then have "edge_row S g nk d ek (raw_seq r) = []" if "raw_seq r < kind_count S g nk"
    using edge_offsets_cases [OF ok that, of d ek] by auto
  then show ?thesis using None
    by (simp add: find_reverse_edge_seq_def index_edges [OF ok] reverse_candidates_def)
next
  case (Some ab)
  then obtain a b where ab: "get_offset (es_offsets (edge_slot_of S g nk d ek)) (raw_seq r) = Some (a, b)" by (cases ab) auto
  let ?slot = "edge_slot_of S g nk d ek" and ?row = "edge_row S g nk d ek (raw_seq r)"
  have slot: "edge_slot_ok (e_property_type S ek) (kind_count S g nk) ?slot" using ok by (rule graph_okD)
  have seq: "raw_seq r < kind_count S g nk" using es.get_offset_row(1) [OF edge_slot_ok_ok [OF slot] ab] .
  note row = edge_row_nth [OF ok seq ab]
  define cs where "cs = map fst (filter (\<lambda>(local_seq, nb). nb = target \<and> local_seq \<notin> set excluded) (enumerate 0 (map fst ?row)))"
  have cs: "set cs = reverse_candidates S g nk d ek (raw_seq r) target excluded"
    by (force simp: cs_def reverse_candidates_def in_set_enumerate_eq)
  have key: "value_key (es_values ?slot) (offset_value a + j) = opt_key (snd (?row ! j))" if "j \<in> set cs" for j
    using that row(4) [of j] by (simp add: cs reverse_candidates_def value_key_get)
  define m where "m = (case wanted of None \<Rightarrow> None
    | Some w \<Rightarrow> find (\<lambda>local_seq. value_key (es_values ?slot) (offset_value a + local_seq) = w) cs)"
  have def: "find_reverse_edge_seq S (g_edges g) r (edge_storage_slot S nk d ek) d ek target excluded wanted =
    (case (case m of Some i \<Rightarrow> Some i | None \<Rightarrow> get_at cs 0) of
       Some i \<Rightarrow> Ok i
     | None \<Rightarrow>
         andthen (node_of_raw S r) (\<lambda>n.
         andthen (node_of_raw S target) (\<lambda>t.
         Err (ReverseEdgeNotFound (node_id_str S t) (node_id_str S n) (dir_str d) (e_str S ek)))))"
    unfolding find_reverse_edge_seq_def index_edges [OF ok] andthen.simps ab ok_or_simps prod.case row(3)
      m_def cs_def Let_def by (rule refl)
  have m_Some: "j \<in> set cs \<and> (\<exists>w. wanted = Some w \<and> opt_key (snd (?row ! j)) = w)" if "m = Some j" for j
    using that key by (auto simp: m_def find_Some_iff split: option.splits)
  have m_None: "\<not> (\<exists>w j. wanted = Some w \<and> j \<in> set cs \<and> opt_key (snd (?row ! j)) = w)" if "m = None"
    using that key by (auto simp: m_def find_None_iff split: option.splits)
  show ?thesis
  proof (cases "case m of Some i \<Rightarrow> Some i | None \<Rightarrow> get_at cs 0")
    case None
    then have "reverse_candidates S g nk d ek (raw_seq r) target excluded = {}"
      unfolding cs [symmetric] by (simp split: option.splits)
    then show ?thesis
      using None node_of_raw_cases [of r] node_of_raw_cases [of target] by (auto simp: def)
  next
    case (Some j)
    have "j \<in> set cs" using Some m_Some by (auto simp: get_at_eq_Some split: option.splits)
    moreover have "opt_key (snd (?row ! j)) = w"
      if w: "wanted = Some w" "j' \<in> set cs" "opt_key (snd (?row ! j')) = w" for w j'
    proof (cases m)
      case None
      then show ?thesis using m_None w by blast
    next
      case (Some i)
      then have "i = j" using \<open>(case m of Some i \<Rightarrow> Some i | None \<Rightarrow> get_at cs 0) = Some j\<close> by simp
      then show ?thesis using m_Some [OF Some] w(1) by auto
    qed
    ultimately show ?thesis
      unfolding def Some option.case ospec.simps cs [symmetric] using seq by blast
  qed
qed

end

section \<open>Queueing an edge\<close>

text \<open>
  The step of one \<open>RemoveEdge\<close>: nothing when its near half is queued already, else the near half
  and a half at the other end that points back and is not queued yet.
\<close>

definition edge_seq :: "raw_edge_id \<Rightarrow> nat" where
  "edge_seq e = unat (eh_seq (re_handle e))"

definition reverse_match ::
  "('n, 'e, 'p, 'r) schema \<Rightarrow> graph \<Rightarrow> 'e \<Rightarrow> raw_node_id \<Rightarrow> 'n node_id \<Rightarrow> dir \<Rightarrow> nat \<Rightarrow> 'n node_id \<Rightarrow> dir \<Rightarrow> nat list \<Rightarrow> nat \<Rightarrow>
     bool" where
  "reverse_match S g ek p near nd k far fd excluded j \<longleftrightarrow>
     (let near_row = edge_row S g (nid_kind near) nd ek (nid_seq near);
          far_row = edge_row S g (nid_kind far) fd ek (nid_seq far);
          candidates = reverse_candidates S g (nid_kind far) fd ek (nid_seq far) p excluded in
      j \<in> candidates \<and>
      (e_property_type S ek \<noteq> TNone \<longrightarrow> k < length near_row \<longrightarrow>
         (\<exists>j'\<in>candidates. opt_key (snd (far_row ! j')) = opt_key (snd (near_row ! k))) \<longrightarrow>
         opt_key (snd (far_row ! j)) = opt_key (snd (near_row ! k))))"

definition both_queued ::
  "('n, 'e, 'p, 'r) schema \<Rightarrow> graph \<Rightarrow> 'e \<Rightarrow> raw_node_id \<Rightarrow> 'n node_id \<Rightarrow> dir \<Rightarrow> nat \<Rightarrow> 'n node_id \<Rightarrow> dir \<Rightarrow> nat list buckets \<Rightarrow>
     nat list buckets \<Rightarrow> bool" where
  "both_queued S g ek p near nd k far fd rem rem' \<longleftrightarrow>
     (\<exists>j. reverse_match S g ek p near nd k far fd (queued_at S g rem (nid_kind far) fd ek (nid_seq far)) j \<and>
       (\<forall>nk d ek' seq. queued_at S g rem' nk d ek' seq = queued_at S g rem nk d ek' seq @
          (if (nk, d, ek', seq) = (nid_kind near, nd, ek, nid_seq near) then [k] else []) @
          (if (nk, d, ek', seq) = (nid_kind far, fd, ek, nid_seq far) then [j] else [])))"

definition edge_step ::
  "('n, 'e, 'p, 'r) schema \<Rightarrow> graph \<Rightarrow> raw_edge_id \<Rightarrow> nat list buckets \<Rightarrow> nat list buckets \<Rightarrow> bool" where
  "edge_step S g e rem rem' \<longleftrightarrow> (\<exists>ek p nd s fd near. resolve_edge_kind S (re_handle e) = Ok ek \<and>
     edge_near e = Ok (p, nd, s, fd) \<and> node_of_raw S p = Ok near \<and> nid_seq near < kind_count S g (nid_kind near) \<and>
     (if edge_seq e \<in> set (queued_at S g rem (nid_kind near) nd ek (nid_seq near))
      then (\<forall>nk d ek' seq. queued_at S g rem' nk d ek' seq = queued_at S g rem nk d ek' seq)
      else (\<exists>far. node_of_raw S s = Ok far \<and> nid_seq far < kind_count S g (nid_kind far) \<and>
        both_queued S g ek p near nd (edge_seq e) far fd rem rem')))"

text \<open>Where the step is an error: the handle or a node does not resolve, or no half is left at the other end.\<close>

definition edge_accepted :: "('n, 'e, 'p, 'r) schema \<Rightarrow> graph \<Rightarrow> raw_edge_id \<Rightarrow> nat list buckets \<Rightarrow> bool" where
  "edge_accepted S g e rem \<longleftrightarrow> (\<exists>ek p nd s fd near. resolve_edge_kind S (re_handle e) = Ok ek \<and>
     edge_near e = Ok (p, nd, s, fd) \<and> node_of_raw S p = Ok near \<and>
     (edge_seq e \<in> set (queued_at S g rem (nid_kind near) nd ek (nid_seq near)) \<or>
      (\<exists>far. node_of_raw S s = Ok far \<and> nid_seq far < kind_count S g (nid_kind far) \<and>
        reverse_candidates S g (nid_kind far) fd ek (nid_seq far) p
          (queued_at S g rem (nid_kind far) fd ek (nid_seq far)) \<noteq> {})))"

context schema_laws
begin

lemma removals_ok_put:
  assumes rem: "removals_ok S cnt rem" and b: "length b = cnt nk" "\<forall>R\<in>set b. distinct R"
  shows "removals_ok S cnt (rem[edge_storage_slot S nk d ek := Some b])"
  unfolding removals_ok_def
proof (intro conjI allI impI)
  show "length (rem[edge_storage_slot S nk d ek := Some b]) = edge_storage_size S"
    using rem by (simp add: removals_ok_def)
  fix nk' d' ek' Rs
  assume Rs: "rem[edge_storage_slot S nk d ek := Some b] ! edge_storage_slot S nk' d' ek' = Some Rs"
  have *: "length Rs = cnt nk' \<and> (\<forall>R\<in>set Rs. distinct R)"
  proof (cases "(nk', d', ek') = (nk, d, ek)")
    case True
    then show ?thesis using Rs b rem edge_slot_less [of nk d ek] by (simp add: removals_ok_def)
  next
    case False
    then have "rem ! edge_storage_slot S nk' d' ek' = Some Rs" using Rs edge_slot_neq by (metis nth_list_update_neq)
    then show ?thesis using rem by (simp add: removals_ok_def)
  qed
  show "length Rs = cnt nk'" using * by simp
  show "\<forall>R\<in>set Rs. distinct R" using * by simp
qed

lemma queued_at_put:
  assumes "edge_storage_slot S nk d ek < length rem"
  shows "queued_at S g (rem[edge_storage_slot S nk d ek := Some b]) nk' d' ek' seq' =
    (if (nk', d', ek') = (nk, d, ek) then b ! seq' else queued_at S g rem nk' d' ek' seq')"
proof (cases "(nk', d', ek') = (nk, d, ek)")
  case False
  then have "edge_storage_slot S nk d ek \<noteq> edge_storage_slot S nk' d' ek'" using edge_slot_neq by metis
  then show ?thesis using False by (auto simp: queued_at_def slot_removals_def)
qed (use assms in \<open>simp add: queued_at_def slot_removals_def\<close>)

lemma queue_push:
  assumes rem: "removals_ok S (kind_count S g) rem" and seq: "seq < kind_count S g nk"
    and b: "b = (case rem ! edge_storage_slot S nk d ek of Some v \<Rightarrow> v | None \<Rightarrow> replicate (kind_count S g nk) [])"
    and x: "x \<notin> set (b ! seq)"
  shows "removals_ok S (kind_count S g) (rem[edge_storage_slot S nk d ek := Some (b[seq := b ! seq @ [x]])])"
    and "queued_at S g (rem[edge_storage_slot S nk d ek := Some (b[seq := b ! seq @ [x]])]) nk' d' ek' seq' =
      queued_at S g rem nk' d' ek' seq' @ (if (nk', d', ek', seq') = (nk, d, ek, seq) then [x] else [])"
proof -
  let ?i = "edge_storage_slot S nk d ek"
  have i: "?i < length rem" using rem edge_slot_less by (simp add: removals_ok_def)
  have len: "length b = kind_count S g nk" "\<forall>R\<in>set b. distinct R"
    using rem by (auto simp: b removals_ok_def split: option.splits)
  then have "distinct (b ! seq)" using seq by simp
  then have "\<forall>R\<in>set (b[seq := b ! seq @ [x]]). distinct R"
  proof (intro ballI)
    fix R assume "R \<in> set (b[seq := b ! seq @ [x]])"
    then have "R \<in> insert (b ! seq @ [x]) (set b)" using set_update_subset_insert by (rule subsetD [rotated])
    then show "distinct R" using len(2) x \<open>distinct (b ! seq)\<close> by auto
  qed
  then show "removals_ok S (kind_count S g) (rem[?i := Some (b[seq := b ! seq @ [x]])])"
    using len by (intro removals_ok_put [OF rem]) simp_all
  have "queued_at S g rem nk d ek q = b ! q" for q
    by (simp add: queued_at_def slot_removals_def b)
  then show "queued_at S g (rem[?i := Some (b[seq := b ! seq @ [x]])]) nk' d' ek' seq' =
      queued_at S g rem nk' d' ek' seq' @ (if (nk', d', ek', seq') = (nk, d, ek, seq) then [x] else [])"
    using seq len by (auto simp: queued_at_put [OF i] nth_list_update)
qed

lemma queue_touch:
  assumes rem: "removals_ok S (kind_count S g) rem"
    and b: "b = (case rem ! edge_storage_slot S nk d ek of Some v \<Rightarrow> v | None \<Rightarrow> replicate (kind_count S g nk) [])"
  shows "removals_ok S (kind_count S g) (rem[edge_storage_slot S nk d ek := Some b])"
    and "queued_at S g (rem[edge_storage_slot S nk d ek := Some b]) nk' d' ek' seq' = queued_at S g rem nk' d' ek' seq'"
proof -
  let ?i = "edge_storage_slot S nk d ek"
  have i: "?i < length rem" using rem edge_slot_less by (simp add: removals_ok_def)
  have "length b = kind_count S g nk" "\<forall>R\<in>set b. distinct R"
    using rem by (auto simp: b removals_ok_def split: option.splits)
  then show "removals_ok S (kind_count S g) (rem[?i := Some b])"
    by (intro removals_ok_put [OF rem])
  have "queued_at S g rem nk d ek q = b ! q" for q
    by (simp add: queued_at_def slot_removals_def b)
  then show "queued_at S g (rem[?i := Some b]) nk' d' ek' seq' = queued_at S g rem nk' d' ek' seq'"
    by (simp add: queued_at_put [OF i])
qed

lemma resolve_edge_cases:
  "(\<exists>ek. resolve_edge_kind S h = Ok ek) \<or> (\<exists>e. resolve_edge_kind S h = Err e)"
  "(\<exists>d. resolve_edge_direction h = Ok d) \<or> (\<exists>e. resolve_edge_direction h = Err e)"
  by (auto simp: resolve_edge_kind_def resolve_edge_direction_def ok_or_def split: option.splits)

lemma resolve_node_cases:
  "(\<exists>n. node_of_raw S r = Ok n \<and> resolve_node_kind S r = Ok (nid_kind n) \<and> raw_seq r = nid_seq n) \<or>
     (\<exists>e. resolve_node_kind S r = Err e)"
  by (cases "n_from_index S (raw_kind r)") (simp_all add: node_of_raw_def resolve_node_kind_def)

lemma unresolved_node: "resolve_node_kind S r = Err e \<Longrightarrow> node_of_raw S r \<noteq> Ok n"
  by (cases "n_from_index S (raw_kind r)") (simp_all add: node_of_raw_def resolve_node_kind_def)

text \<open>The second half of the step, once the near half is queued in \<open>rem1\<close>.\<close>

lemma queue_far_spec:
  assumes ok: "graph_ok S g" and rem: "removals_ok S (kind_count S g) rem1"
    and p: "raw_seq p = nid_seq near" "nid_seq near < kind_count S g (nid_kind near)"
    and r: "resolve_node_kind S r = Ok (nid_kind far)" "raw_seq r = nid_seq far"
    and far: "excl = queued_at S g rem1 (nid_kind far) fd ek (nid_seq far)"
  shows "ospec (\<lambda>rem'. removals_ok S (kind_count S g) rem' \<and> nid_seq far < kind_count S g (nid_kind far) \<and>
      (\<exists>j. reverse_match S g ek p near nd k far fd excl j \<and>
        (\<forall>nk d ek' seq. queued_at S g rem' nk d ek' seq = queued_at S g rem1 nk d ek' seq @
          (if (nk, d, ek', seq) = (nid_kind far, fd, ek, nid_seq far) then [j] else []))))
    (\<lambda>_. nid_seq far < kind_count S g (nid_kind far) \<longrightarrow>
      reverse_candidates S g (nid_kind far) fd ek (nid_seq far) p excl = {}) False
    (let i = edge_storage_slot S (nid_kind far) fd ek in
     andthen (map_ok length (index_at (g_node_meta g) (n_index S (nid_kind far)))) (\<lambda>count.
     andthen (buckets_get rem1 i) (\<lambda>claimed.
     let already_claimed = (case claimed of
           Some b \<Rightarrow> (case get_at b (raw_seq r) of Some l \<Rightarrow> l | None \<Rightarrow> [])
         | None \<Rightarrow> []) in
     andthen (half_edge_value_key (g_edges g) p (edge_storage_slot S (nid_kind near) nd ek) k) (\<lambda>wanted.
     andthen (find_reverse_edge_seq S (g_edges g) r i fd ek p already_claimed wanted) (\<lambda>j.
     buckets_bucket [] rem1 i count (\<lambda>b. andthen (index_at b (raw_seq r)) (\<lambda>l. store_at b (raw_seq r) (l @ [j]))))))))"
proof -
  let ?i = "edge_storage_slot S (nid_kind far) fd ek" and ?row = "edge_row S g (nid_kind near) nd ek (nid_seq near)"
  define wanted where "wanted = (if e_property_type S ek = TNone \<or> length ?row \<le> k then None else Some (opt_key (snd (?row ! k))))"
  define claimed where "claimed = (case rem1 ! ?i of Some b \<Rightarrow> (case get_at b (raw_seq r) of Some l \<Rightarrow> l | None \<Rightarrow> []) | None \<Rightarrow> [])"
  define b where "b = (case rem1 ! ?i of Some v \<Rightarrow> v | None \<Rightarrow> replicate (kind_count S g (nid_kind far)) [])"
  have i: "?i < length rem1" using rem edge_slot_less by (simp add: removals_ok_def)
  have len: "length b = kind_count S g (nid_kind far)" using rem by (auto simp: b_def removals_ok_def split: option.splits)
  have bq: "b ! nid_seq far = excl" by (simp add: far queued_at_def slot_removals_def b_def)
  have bb: "buckets_bucket [] rem1 ?i (kind_count S g (nid_kind far)) f = andthen (f b) (\<lambda>v. Ok (rem1[?i := Some v]))" for f
    using i by (simp add: buckets_bucket_def b_def map_replicate_const split: option.split)
  have count: "map_ok length (index_at (g_node_meta g) (n_index S (nid_kind far))) = Ok (kind_count S g (nid_kind far))"
    by (simp add: index_meta [OF ok] kind_count_def)
  have key: "half_edge_value_key (g_edges g) p (edge_storage_slot S (nid_kind near) nd ek) k = Ok wanted"
    using half_edge_value_key_spec [OF ok, of p "nid_kind near"] p by (simp add: wanted_def)
  show ?thesis
    unfolding Let_def count andthen.simps buckets_get_def index_at_less [OF i] key claimed_def [symmetric] ospec_andthen bb
  proof (rule ospec_mono [OF find_reverse_edge_seq_spec [OF ok r(1)]], goal_cases)
    case (1 j)
    then have seq: "nid_seq far < kind_count S g (nid_kind far)" by (simp add: r(2))
    have cl: "claimed = excl" using seq len bq r(2) by (auto simp: claimed_def b_def get_at_def split: option.splits)
    have match: "reverse_match S g ek p near nd k far fd excl j"
      using 1(2) by (auto simp: reverse_match_def Let_def r(2) cl wanted_def)
    then have "j \<notin> set (b ! nid_seq far)" by (simp add: bq reverse_match_def reverse_candidates_def Let_def)
    note push = queue_push [OF rem seq b_def this]
    show ?case using push match len seq r(2) by (auto intro!: exI [of _ j])
  next
    case (2 e)
    have "claimed = excl" if "nid_seq far < kind_count S g (nid_kind far)"
      using that len bq r(2) by (auto simp: claimed_def b_def get_at_def split: option.splits)
    then show ?case using 2 r(2) by simp
  qed
qed

lemma classify_remove_edge_spec:
  assumes ok: "graph_ok S g" and rem: "removals_ok S (kind_count S g) rem"
  shows "ospec (\<lambda>rem'. removals_ok S (kind_count S g) rem' \<and> edge_step S g e rem rem')
    (\<lambda>_. \<not> edge_accepted S g e rem)
    (edge_misplaced S g e) (classify_remove_edge S g e rem)"
proof -
  consider ek d where "resolve_edge_kind S (re_handle e) = Ok ek" "resolve_edge_direction (re_handle e) = Ok d"
    | ex where "resolve_edge_kind S (re_handle e) = Err ex"
    | ek ex where "resolve_edge_kind S (re_handle e) = Ok ek" "resolve_edge_direction (re_handle e) = Err ex"
    using resolve_edge_cases by metis
  then show ?thesis
  proof cases
    case (1 ek d)
    obtain p nd s fd where orient: "orient_edge d (re_src e) (re_dst e) = (p, nd, s, fd)" by (cases "orient_edge d (re_src e) (re_dst e)")
    then have near: "edge_near e = Ok (p, nd, s, fd)" by (simp add: edge_near_def 1)
    have dirs: "nd \<noteq> fd" using orient by (cases d) auto
    from resolve_node_cases [of p] show ?thesis
    proof (elim disjE exE conjE)
      fix np assume np: "node_of_raw S p = Ok np" "resolve_node_kind S p = Ok (nid_kind np)" "raw_seq p = nid_seq np"
      let ?i = "edge_storage_slot S (nid_kind np) nd ek"
      define b where "b = (case rem ! ?i of Some v \<Rightarrow> v | None \<Rightarrow> replicate (kind_count S g (nid_kind np)) [])"
      have i: "?i < length rem" using rem edge_slot_less by (simp add: removals_ok_def)
      have len: "length b = kind_count S g (nid_kind np)" using rem by (auto simp: b_def removals_ok_def split: option.splits)
      have bq: "b ! nid_seq np = queued_at S g rem (nid_kind np) nd ek (nid_seq np)"
        by (simp add: queued_at_def slot_removals_def b_def)
      have bucket: "map_ok (\<lambda>cur. case cur of Some v \<Rightarrow> v | None \<Rightarrow> map (\<lambda>_. []) [0..<kind_count S g (nid_kind np)])
          (buckets_get rem ?i) = Ok b"
        using i by (simp add: buckets_get_def b_def map_replicate_const split: option.split)
      have count: "map_ok length (index_at (g_node_meta g) (n_index S (nid_kind np))) = Ok (kind_count S g (nid_kind np))"
        by (simp add: index_meta [OF ok] kind_count_def)
      have acc: "edge_accepted S g e rem \<longleftrightarrow> edge_seq e \<in> set (b ! nid_seq np) \<or>
          (\<exists>far. node_of_raw S s = Ok far \<and> nid_seq far < kind_count S g (nid_kind far) \<and>
            reverse_candidates S g (nid_kind far) fd ek (nid_seq far) p
              (queued_at S g rem (nid_kind far) fd ek (nid_seq far)) \<noteq> {})"
        by (simp add: edge_accepted_def 1(1) near np(1) bq)
      note start = classify_remove_edge_def Let_def 1 andthen.simps orient prod.case np(2) count bucket np(3) edge_seq_def [symmetric]
      show ?thesis
      proof (cases "nid_seq np < kind_count S g (nid_kind np)")
        case False
        then have "edge_misplaced S g e" using near np by (auto simp: edge_misplaced_def node_exists_iff)
        then show ?thesis using False len np(3) unfolding start by (simp add: index_at_def)
      next
        case True
        then have at: "index_at b (nid_seq np) = Ok (b ! nid_seq np)" using len by simp
        show ?thesis
        proof (cases "edge_seq e \<in> set (b ! nid_seq np)")
          case queued: True
          have "edge_step S g e rem (rem[?i := Some b])"
            unfolding edge_step_def using 1 near np True queued queue_touch(2) [OF rem b_def] by (auto simp: bq)
          then show ?thesis
            unfolding start at using queued queue_touch(1) [OF rem b_def] by simp
        next
          case new: False
          define rem1 where "rem1 = rem[?i := Some (b[nid_seq np := b ! nid_seq np @ [edge_seq e]])]"
          note push = queue_push [OF rem True b_def new, folded rem1_def]
          from resolve_node_cases [of s] show ?thesis
          proof (elim disjE exE conjE)
            fix far assume far: "node_of_raw S s = Ok far" "resolve_node_kind S s = Ok (nid_kind far)" "raw_seq s = nid_seq far"
            have excl: "queued_at S g rem (nid_kind far) fd ek (nid_seq far) = queued_at S g rem1 (nid_kind far) fd ek (nid_seq far)"
              using dirs by (simp add: push(2))
            have step: "edge_step S g e rem rem'"
              if seq: "nid_seq far < kind_count S g (nid_kind far)"
                and j: "reverse_match S g ek p np nd (edge_seq e) far fd (queued_at S g rem (nid_kind far) fd ek (nid_seq far)) j"
                and upd: "\<forall>nk d ek' seq. queued_at S g rem' nk d ek' seq = queued_at S g rem1 nk d ek' seq @
                  (if (nk, d, ek', seq) = (nid_kind far, fd, ek, nid_seq far) then [j] else [])" for rem' j
            proof -
              have "both_queued S g ek p np nd (edge_seq e) far fd rem rem'"
                unfolding both_queued_def using j upd push(2) by (intro exI [of _ j]) simp
              then show ?thesis
                unfolding edge_step_def using 1 near np True new far seq bq by auto
            qed
            show ?thesis
              unfolding start at if_not_P [OF new] far(2) rem1_def [symmetric]
              by (rule ospec_mono [OF queue_far_spec [OF ok push(1) np(3) True far(2,3) excl, unfolded Let_def]])
                (use step np(3) in \<open>auto simp: acc new far(1) simp del: prod.inject\<close>)
          next
            fix ex assume ex: "resolve_node_kind S s = Err ex"
            then show ?thesis
              unfolding start at if_not_P [OF new] using new unresolved_node [OF ex] by (simp add: acc)
          qed
        qed
      qed
    next
      fix ex assume ex: "resolve_node_kind S p = Err ex"
      then show ?thesis
        unfolding classify_remove_edge_def Let_def 1 andthen.simps orient prod.case
        using unresolved_node [OF ex] by (simp add: edge_accepted_def 1(1) near)
    qed
  qed (auto simp: classify_remove_edge_def edge_accepted_def edge_near_def Let_def)
qed

end

section \<open>All changes\<close>

text \<open>The edges queued one after the other, from empty buckets.\<close>

inductive edges_queued ::
  "('n, 'e, 'p, 'r) schema \<Rightarrow> graph \<Rightarrow> raw_edge_id list \<Rightarrow> nat list buckets \<Rightarrow> bool" for S g where
  none: "edges_queued S g [] (buckets_new (edge_storage_size S))"
| more: "edges_queued S g es rem \<Longrightarrow> edge_step S g e rem rem' \<Longrightarrow> edges_queued S g (es @ [e]) rem'"

definition updates_are ::
  "('n, 'e, 'p, 'r) schema \<Rightarrow> graph \<Rightarrow> 'p change list \<Rightarrow> quantified_property option buckets \<Rightarrow> bool" where
  "updates_are S g cs us \<longleftrightarrow> (\<forall>nk pk seq. seq < kind_count S g nk \<longrightarrow>
     slot_updates us (property_storage_slot S nk pk) (kind_count S g nk) ! seq = last_update S cs nk pk seq)"

definition classified :: "('n, 'e, 'p, 'r) schema \<Rightarrow> graph \<Rightarrow> 'p change list \<Rightarrow> classified_changes \<Rightarrow> bool" where
  "classified S g cs = (\<lambda>(ts, us, rem). ts = filter (node_exists S g) (removed_nodes cs) \<and>
     updates_ok S (kind_count S g) (change_strings cs) us \<and> updates_are S g cs us \<and>
     removals_ok S (kind_count S g) rem \<and> edges_queued S g (removed_edges cs) rem)"

text \<open>The changes that go through, where the halves in \<open>rem\<close> are queued already.\<close>

definition change_accepted :: "('n, 'e, 'p, 'r) schema \<Rightarrow> graph \<Rightarrow> 'p change \<Rightarrow> nat list buckets \<Rightarrow> bool" where
  "change_accepted S g c rem = (case c of
     RemoveNode r \<Rightarrow> \<exists>n. node_of_raw S r = Ok n
   | UpdateNodeProperty r pk q \<Rightarrow> node_exists S g r
   | RemoveEdge e \<Rightarrow> edge_accepted S g e rem)"

definition change_refused :: "('n, 'e, 'p, 'r) schema \<Rightarrow> graph \<Rightarrow> 'p change list \<Rightarrow> bool" where
  "change_refused S g cs \<longleftrightarrow> (\<exists>ys c zs rem. cs = ys @ c # zs \<and> edges_queued S g (removed_edges ys) rem \<and>
     \<not> change_accepted S g c rem)"

lemma update_strings_put:
  "update_strings (us[i := Some q]) \<subseteq> update_strings us \<union> update_strings [Some q]"
  using set_update_subset_insert [of us i "Some q"] by (fastforce simp: update_strings_def)

lemma change_strings_mono: "set cs \<subseteq> set cs' \<Longrightarrow> change_strings cs \<subseteq> change_strings cs'"
  unfolding change_strings_def by blast

lemma change_strings_mem: "UpdateNodeProperty r pk q \<in> set cs \<Longrightarrow> update_strings [Some q] \<subseteq> change_strings cs"
  unfolding change_strings_def by blast

context schema_laws
begin

lemma updates_put:
  assumes us: "updates_ok S cnt V us" and b: "b = (case us ! property_storage_slot S nk pk of Some v \<Rightarrow> v | None \<Rightarrow> replicate (cnt nk) None)"
    and q: "update_strings [Some q] \<subseteq> V" and seq: "seq < cnt nk"
  shows "updates_ok S cnt V (us[property_storage_slot S nk pk := Some (b[seq := Some q])])"
    and "slot_updates (us[property_storage_slot S nk pk := Some (b[seq := Some q])]) (property_storage_slot S nk' pk') (cnt nk') ! seq' =
      (if (nk', pk', seq') = (nk, pk, seq) then Some q else slot_updates us (property_storage_slot S nk' pk') (cnt nk') ! seq')"
proof -
  let ?i = "property_storage_slot S nk pk"
  have i: "?i < length us" using us property_slot_less by (simp add: updates_ok_def)
  have len: "length b = cnt nk" "update_strings b \<subseteq> V"
    using us by (auto simp: b updates_ok_def update_strings_def split: option.splits)
  have "update_strings (b[seq := Some q]) \<subseteq> V" using update_strings_put len(2) q by blast
  then show "updates_ok S cnt V (us[?i := Some (b[seq := Some q])])"
    unfolding updates_ok_def
  proof (intro conjI allI impI)
    fix nk' pk' us' assume us': "us[?i := Some (b[seq := Some q])] ! property_storage_slot S nk' pk' = Some us'"
    have "length us' = cnt nk' \<and> update_strings us' \<subseteq> V"
    proof (cases "(nk', pk') = (nk, pk)")
      case True
      then show ?thesis using us' i len \<open>update_strings (b[seq := Some q]) \<subseteq> V\<close> by auto
    next
      case False
      then have "us ! property_storage_slot S nk' pk' = Some us'" using us' property_slot_inj by (metis nth_list_update_neq)
      then show ?thesis using us by (simp add: updates_ok_def)
    qed
    then show "length us' = cnt nk'" "update_strings us' \<subseteq> V" by simp_all
  qed (use us in \<open>simp add: updates_ok_def\<close>)
  show "slot_updates (us[?i := Some (b[seq := Some q])]) (property_storage_slot S nk' pk') (cnt nk') ! seq' =
      (if (nk', pk', seq') = (nk, pk, seq) then Some q else slot_updates us (property_storage_slot S nk' pk') (cnt nk') ! seq')"
  proof (cases "(nk', pk') = (nk, pk)")
    case True
    have "slot_updates us ?i (cnt nk) = b" by (simp add: slot_updates_def b)
    then show ?thesis using True i seq len by (auto simp: slot_updates_def nth_list_update)
  next
    case False
    then have "?i \<noteq> property_storage_slot S nk' pk'" using property_slot_inj by metis
    then show ?thesis using False by (auto simp: slot_updates_def)
  qed
qed

lemma updates_ok_mono: "updates_ok S cnt V us \<Longrightarrow> V \<subseteq> W \<Longrightarrow> updates_ok S cnt W us"
  unfolding updates_ok_def by blast

lemma remove_node_spec:
  assumes ok: "graph_ok S g" and c: "classified S g cs (ts, us, rem)"
  shows "ospec (classified S g (cs @ [RemoveNode r])) (\<lambda>_. \<not> change_accepted S g (RemoveNode r) rem) False (classify_change S g (RemoveNode r) (ts, us, rem))"
proof (cases "node_of_raw S r")
  case (Ok n)
  then have seq: "raw_seq r = nid_seq n" by (simp add: node_of_raw_Ok)
  have strings: "change_strings cs \<subseteq> change_strings (cs @ [RemoveNode r])" by (rule change_strings_mono) auto
  have "node_exists S g r \<longleftrightarrow> get_at (g_node_meta g ! n_index S (nid_kind n)) (nid_seq n) \<noteq> None"
    by (simp add: node_exists_iff Ok kind_count_def not_le)
  then show ?thesis
    using c updates_ok_mono [OF _ strings]
    by (simp add: classify_change_def Ok index_meta [OF ok] seq classified_def updates_are_def)
qed (use node_of_raw_cases [of r] in \<open>auto simp: classify_change_def change_accepted_def\<close>)

lemma update_property_spec:
  assumes ok: "graph_ok S g" and c: "classified S g cs (ts, us, rem)"
  shows "ospec (classified S g (cs @ [UpdateNodeProperty r pk q])) (\<lambda>_. \<not> change_accepted S g (UpdateNodeProperty r pk q) rem) False
    (classify_change S g (UpdateNodeProperty r pk q) (ts, us, rem))"
proof (cases "node_of_raw S r")
  case (Ok n)
  let ?cs = "cs @ [UpdateNodeProperty r pk q]" and ?i = "property_storage_slot S (nid_kind n) pk"
  let ?cnt = "kind_count S g"
  define b where "b = (case us ! ?i of Some v \<Rightarrow> v | None \<Rightarrow> replicate (?cnt (nid_kind n)) None)"
  have seq: "raw_seq r = nid_seq n" using Ok by (simp add: node_of_raw_Ok)
  have "change_strings cs \<subseteq> change_strings ?cs" by (rule change_strings_mono) auto
  then have us: "updates_ok S ?cnt (change_strings ?cs) us"
    using c updates_ok_mono unfolding classified_def by blast
  have i: "?i < length us" using us property_slot_less by (simp add: updates_ok_def)
  have len: "length b = ?cnt (nid_kind n)" using us by (auto simp: b_def updates_ok_def split: option.splits)
  have count: "map_ok length (index_at (g_node_meta g) (n_index S (nid_kind n))) = Ok (?cnt (nid_kind n))"
    by (simp add: index_meta [OF ok] kind_count_def)
  have bb: "buckets_bucket None us ?i (?cnt (nid_kind n)) f = andthen (f b) (\<lambda>v. Ok (us[?i := Some v]))" for f
    using i by (simp add: buckets_bucket_def b_def map_replicate_const split: option.split)
  show ?thesis
  proof (cases "nid_seq n < ?cnt (nid_kind n)")
    case True
    have q: "update_strings [Some q] \<subseteq> change_strings ?cs" by (rule change_strings_mem [of r pk]) simp
    note put = updates_put [OF us b_def q True]
    have "updates_are S g ?cs (us[?i := Some (b[nid_seq n := Some q])])"
      unfolding updates_are_def
    proof (intro allI impI)
      fix nk' pk' seq' assume "seq' < ?cnt nk'"
      then have "slot_updates us (property_storage_slot S nk' pk') (?cnt nk') ! seq' = last_update S cs nk' pk' seq'"
        using c by (simp add: classified_def updates_are_def)
      moreover have "node_of_raw S r = Ok (NodeId nk' seq') \<longleftrightarrow> nk' = nid_kind n \<and> seq' = nid_seq n"
        using Ok by (cases n) auto
      ultimately show "slot_updates (us[?i := Some (b[nid_seq n := Some q])]) (property_storage_slot S nk' pk') (?cnt nk') ! seq' =
          last_update S ?cs nk' pk' seq'"
        unfolding put(2) by auto
    qed
    then show ?thesis
      using c True len put(1) by (simp add: classify_change_def Ok count bb seq classified_def)
  next
    case False
    then show ?thesis using len by (simp add: classify_change_def Ok count bb seq change_accepted_def node_exists_iff)
  qed
qed (use node_of_raw_cases [of r] in \<open>auto simp: classify_change_def change_accepted_def node_exists_iff\<close>)

lemma remove_edge_spec:
  assumes ok: "graph_ok S g" and c: "classified S g cs (ts, us, rem)"
  shows "ospec (classified S g (cs @ [RemoveEdge e])) (\<lambda>_. \<not> change_accepted S g (RemoveEdge e) rem) (edge_misplaced S g e)
    (classify_change S g (RemoveEdge e) (ts, us, rem))"
proof -
  have rem: "removals_ok S (kind_count S g) rem" and queued: "edges_queued S g (removed_edges cs) rem"
    using c by (simp_all add: classified_def)
  have strings: "change_strings cs \<subseteq> change_strings (cs @ [RemoveEdge e])" by (rule change_strings_mono) auto
  show ?thesis
    unfolding classify_change_def prod.case change.case ospec_map_ok
    by (rule ospec_mono [OF classify_remove_edge_spec [OF ok rem]])
      (use c updates_ok_mono [OF _ strings] edges_queued.more [OF queued] in
        \<open>auto simp: classified_def updates_are_def change_accepted_def\<close>)
qed

lemma removals_ok_new: "removals_ok S cnt (buckets_new (edge_storage_size S))"
  by (simp add: removals_ok_def edge_slot_less)

lemma classify_changes_spec:
  assumes ok: "graph_ok S g"
  shows "ospec (classified S g cs) (\<lambda>_. change_refused S g cs) (\<exists>e\<in>set (removed_edges cs). edge_misplaced S g e)
    (classify_changes S cs g)"
  unfolding classify_changes_def
proof (rule ospec_for_each)
  have "updates_ok S (kind_count S g) V (buckets_new (property_storage_size S))" for V
    by (simp add: updates_ok_def property_slot_less)
  then show "classified S g [] ([], buckets_new (property_storage_size S), buckets_new (edge_storage_size S))"
    by (simp add: classified_def updates_are_def slot_updates_def property_slot_less removals_ok_new edges_queued.none)
next
  fix ys y zs s
  assume split: "cs = ys @ y # zs" and s: "classified S g ys s"
  obtain ts us rem where s': "s = (ts, us, rem)" by (cases s)
  have refused: "change_refused S g cs" if "\<not> change_accepted S g y rem"
    using that split s by (auto simp: change_refused_def s' classified_def)
  show "ospec (classified S g (ys @ [y])) (\<lambda>_. change_refused S g cs) (\<exists>e\<in>set (removed_edges cs). edge_misplaced S g e)
      (classify_change S g y s)"
  proof (cases y)
    case (RemoveNode r)
    show ?thesis
      using remove_node_spec [OF ok s [unfolded s'], of r] by (auto simp: RemoveNode s' intro: refused elim!: ospec_mono)
  next
    case (UpdateNodeProperty r pk q)
    show ?thesis
      using update_property_spec [OF ok s [unfolded s'], of r pk q] refused by (auto simp: UpdateNodeProperty s' elim!: ospec_mono)
  next
    case (RemoveEdge e)
    have "e \<in> set (removed_edges cs)" by (simp add: mem_removed_edges split RemoveEdge)
    then show ?thesis
      using remove_edge_spec [OF ok s [unfolded s'], of e] refused by (auto simp: RemoveEdge s' elim!: ospec_mono)
  qed
qed

end

end
