(* ===== verification/Nodes_Spec.thy ===== *)
theory Nodes_Spec
  imports Prepare Slots_Properties
begin

text \<open>
  The new nodes of a diff: how many there are of each kind, the ids they are given, which are the
  sequence numbers after the nodes the graph has, and the property values bucketed for them.
\<close>

section \<open>What the diff adds\<close>

definition of_kind :: "'n \<Rightarrow> ('n, 'p) new_node list \<Rightarrow> ('n, 'p) new_node list" where
  "of_kind nk nodes = filter (\<lambda>n. nn_kind n = nk) nodes"

definition new_count :: "('n, 'p) new_node list \<Rightarrow> 'n \<Rightarrow> nat" where
  "new_count nodes nk = length (of_kind nk nodes)"

text \<open>The id of the \<open>i\<close>-th new node, counting the nodes of its kind before it.\<close>

definition new_id :: "('n \<Rightarrow> nat) \<Rightarrow> ('n, 'p) new_node list \<Rightarrow> nat \<Rightarrow> 'n node_id" where
  "new_id cnt nodes i =
     (let nk = nn_kind (nodes ! i) in NodeId nk (cnt nk + new_count (take i nodes) nk))"

definition new_ids :: "('n \<Rightarrow> nat) \<Rightarrow> ('n, 'p) new_node list \<Rightarrow> 'n node_id list" where
  "new_ids cnt nodes = map (new_id cnt nodes) [0..<length nodes]"

text \<open>The values the \<open>j\<close>-th new node of a kind has for a property kind.\<close>

definition node_values :: "('n, 'p) new_node list \<Rightarrow> 'n \<Rightarrow> 'p \<Rightarrow> nat \<Rightarrow> property_value list" where
  "node_values nodes nk pk j =
     (case map_of (nn_properties (of_kind nk nodes ! j)) pk of Some vs \<Rightarrow> vs | None \<Rightarrow> [])"

definition node_strings :: "('n, 'p) new_node list \<Rightarrow> bytes set" where
  "node_strings nodes =
     (\<Union>n\<in>set nodes. \<Union>(k, vs)\<in>set (nn_properties n). \<Union>v\<in>set vs. value_strings v)"

lemma of_kind_simps [simp]:
  "of_kind nk [] = []" "of_kind nk (xs @ ys) = of_kind nk xs @ of_kind nk ys"
  "of_kind nk [n] = (if nn_kind n = nk then [n] else [])"
  by (simp_all add: of_kind_def)

lemma new_count_simps [simp]:
  "new_count [] nk = 0" "new_count (xs @ ys) nk = new_count xs nk + new_count ys nk"
  "new_count [n] nk = (if nn_kind n = nk then 1 else 0)"
  by (simp_all add: new_count_def)

lemma new_ids_snoc: "new_ids cnt (nodes @ [n]) = new_ids cnt nodes @ [NodeId (nn_kind n) (cnt (nn_kind n) + new_count nodes (nn_kind n))]"
  by (simp add: new_ids_def new_id_def nth_append Let_def)

lemma length_new_ids [simp]: "length (new_ids cnt nodes) = length nodes"
  by (simp add: new_ids_def)

lemma new_count_take_less:
  assumes "i < length nodes"
  shows "new_count (take i nodes) (nn_kind (nodes ! i)) < new_count nodes (nn_kind (nodes ! i))"
proof -
  have "nodes = take i nodes @ [nodes ! i] @ drop (Suc i) nodes"
    using assms by (simp add: id_take_nth_drop [symmetric])
  then have "new_count nodes nk = new_count (take i nodes) nk + new_count [nodes ! i] nk + new_count (drop (Suc i) nodes) nk" for nk
    by (metis new_count_simps(2) add.assoc)
  then show ?thesis by simp
qed

text \<open>The ids are fresh, of the declared kinds, and in range of the nodes after the diff.\<close>

lemma new_ids_fresh:
  assumes "n \<in> set (new_ids cnt nodes)"
  shows "cnt (nid_kind n) \<le> nid_seq n" and "nid_seq n < cnt (nid_kind n) + new_count nodes (nid_kind n)"
  using assms new_count_take_less by (auto simp: new_ids_def new_id_def Let_def)

lemma new_ids_distinct: "distinct (new_ids cnt nodes)"
proof (induction nodes rule: rev_induct)
  case (snoc n nodes)
  then show ?case using new_ids_fresh(2) [of _ cnt nodes] by (fastforce simp: new_ids_snoc)
qed (simp add: new_ids_def)

section \<open>Counting\<close>

lemma node_values_prefix:
  "j < new_count xs nk \<Longrightarrow> node_values (xs @ ys) nk pk j = node_values xs nk pk j"
  by (simp add: node_values_def new_count_def nth_append)

lemma node_values_last:
  "node_values (xs @ [n]) (nn_kind n) pk (new_count xs (nn_kind n)) =
     (case map_of (nn_properties n) pk of Some vs \<Rightarrow> vs | None \<Rightarrow> [])"
  by (simp add: node_values_def new_count_def)

context schema_laws
begin

lemma counts_ok_update:
  assumes "counts_ok S c cs"
  shows "counts_ok S (\<lambda>k. if k = nk then x else c k) (cs[n_index S nk := x])"
  using assms node_index_less [of nk] by (auto simp: counts_ok_def nth_list_update)

lemma counts_ok_less: "counts_ok S c cs \<Longrightarrow> n_index S nk < length cs"
  using node_index_less [of nk] by (simp add: counts_ok_def)

lemma count_new_nodes_spec: "\<exists>cs. count_new_nodes S nodes = Ok cs \<and> counts_ok S (new_count nodes) cs"
proof -
  have "ospec (\<lambda>cs. counts_ok S (new_count nodes) cs) (\<lambda>e. False) False (count_new_nodes S nodes)"
    unfolding count_new_nodes_def
  proof (rule ospec_for_each)
    show "counts_ok S (new_count []) (replicate (number_of_node_kinds S) 0)"
      using node_index_less by (simp add: counts_ok_def)
  next
    fix ys y zs cs assume c: "counts_ok S (new_count ys) cs"
    have "new_count (ys @ [y]) = (\<lambda>k. if k = nn_kind y then new_count ys (nn_kind y) + 1 else new_count ys k)"
      by auto
    moreover have "cs ! n_index S (nn_kind y) = new_count ys (nn_kind y)" using c by (simp add: counts_ok_def)
    ultimately show "ospec (counts_ok S (new_count (ys @ [y]))) (\<lambda>e. False) False
        (andthen (index_at cs (n_index S (nn_kind y))) (\<lambda>c. store_at cs (n_index S (nn_kind y)) (c + 1)))"
      using counts_ok_update [OF c, of "nn_kind y" "new_count ys (nn_kind y) + 1"] counts_ok_less [OF c] by simp
  qed
  then show ?thesis by (cases "count_new_nodes S nodes") auto
qed

lemma max_seq_spec:
  assumes "graph_ok S g"
  shows "\<exists>cs. map_each (node_count_by_kind_with_deleted S g) (n_all S) = Ok cs \<and> counts_ok S (kind_count S g) cs"
proof -
  have "map_each (node_count_by_kind_with_deleted S g) (n_all S) = Ok (map (kind_count S g) (n_all S))"
    by (rule map_each_Ok_cong) (simp add: node_count_by_kind_with_deleted_def index_meta [OF assms] kind_count_def)
  then show ?thesis using node_index_less by (simp add: counts_ok_def number_of_node_kinds_def)
qed

end

section \<open>Placing\<close>

text \<open>
  The buckets once the nodes of \<open>ys\<close> are placed, out of \<open>m\<close> of each kind, and where \<open>vals\<close> gives the
  values bucketed so far.
\<close>

definition news_are ::
  "('n, 'e, 'p, 'r) schema \<Rightarrow> ('n \<Rightarrow> nat) \<Rightarrow> bytes set \<Rightarrow> ('n \<Rightarrow> 'p \<Rightarrow> nat \<Rightarrow> property_value list) \<Rightarrow>
     property_value list option buckets \<Rightarrow> bool" where
  "news_are S m V vals pending \<longleftrightarrow> length pending = property_storage_size S \<and>
     (\<forall>nk pk. (\<forall>l. pending ! property_storage_slot S nk pk = Some l \<longrightarrow> length l = m nk \<and> new_strings l \<subseteq> V) \<and>
       (\<forall>j<m nk. new_values (slot_news pending (property_storage_slot S nk pk)) j = vals nk pk j))"

definition placed_vals :: "('n, 'p) new_node list \<Rightarrow> 'n \<Rightarrow> 'p \<Rightarrow> nat \<Rightarrow> property_value list" where
  "placed_vals ys nk pk j = (if j < new_count ys nk then node_values ys nk pk j else [])"

definition placed ::
  "('n, 'e, 'p, 'r) schema \<Rightarrow> ('n \<Rightarrow> nat) \<Rightarrow> ('n \<Rightarrow> nat) \<Rightarrow> bytes set \<Rightarrow> ('n, 'p) new_node list \<Rightarrow> 'n placed_nodes \<Rightarrow> bool" where
  "placed S cnt m V ys = (\<lambda>(counters, metas, ids, pending). counts_ok S (new_count ys) counters \<and>
     length metas = number_of_node_kinds S \<and>
     (\<forall>nk. metas ! n_index S nk = replicate (new_count ys nk) default_node_meta) \<and>
     ids = new_ids cnt ys \<and> news_are S m V (placed_vals ys) pending)"

lemma new_strings_put: "new_strings (b[j := Some vs]) \<subseteq> new_strings b \<union> (\<Union>v\<in>set vs. value_strings v)"
  using set_update_subset_insert [of b j "Some vs"] by (fastforce simp: new_strings_def)

lemma new_strings_replicate [simp]: "new_strings (replicate n None) = {}"
  by (auto simp: new_strings_def)

context schema_laws
begin

lemma prop_slot_bij:
  assumes "i < property_storage_size S"
  obtains nk pk where "i = property_storage_slot S nk pk"
proof -
  have "i \<in> set (map (\<lambda>(nk, pk). property_storage_slot S nk pk) (property_storage_slots S))"
    using assms by (simp add: property_slots_in_order)
  then show ?thesis using that by auto
qed

lemma news_are_ok: "news_are S m V vals pending \<Longrightarrow> news_ok S V pending"
  unfolding news_ok_def news_are_def using prop_slot_bij by metis

lemma news_put:
  assumes news: "news_are S m V vals pending" and j: "j < m nk" and vs: "(\<Union>v\<in>set vs. value_strings v) \<subseteq> V"
  shows "ospec (news_are S m V (\<lambda>nk' pk' j'. if (nk', pk', j') = (nk, pk, j) then vs else vals nk' pk' j'))
    (\<lambda>_. False) False
    (buckets_bucket None pending (property_storage_slot S nk pk) (m nk) (\<lambda>b. store_at b j (Some vs)))"
proof -
  let ?i = "property_storage_slot S nk pk"
  define b where "b = (case pending ! ?i of Some v \<Rightarrow> v | None \<Rightarrow> replicate (m nk) None)"
  have i: "?i < length pending" using news property_slot_less by (simp add: news_are_def)
  have b: "length b = m nk" "new_strings b \<subseteq> V"
    using news by (auto simp: b_def news_are_def split: option.splits)
  have old: "new_values (slot_news pending ?i) j' = new_values b j'" for j'
    by (auto simp: b_def slot_news_def new_values_def get_at_def split: option.splits)
  have cur: "(case pending ! ?i of None \<Rightarrow> map (\<lambda>_. None) [0..<m nk] | Some v \<Rightarrow> v) = b"
    by (simp add: b_def map_replicate_const split: option.split)
  have eq: "buckets_bucket None pending ?i (m nk) (\<lambda>b. store_at b j (Some vs)) = Ok (pending[?i := Some (b[j := Some vs])])"
    using i j b cur by (simp add: buckets_bucket_def)
  have "news_are S m V (\<lambda>nk' pk' j'. if (nk', pk', j') = (nk, pk, j) then vs else vals nk' pk' j')
      (pending[?i := Some (b[j := Some vs])])"
    unfolding news_are_def
  proof (intro conjI allI impI)
    fix nk' pk'
    show "length l = m nk'" "new_strings l \<subseteq> V"
      if l: "pending[?i := Some (b[j := Some vs])] ! property_storage_slot S nk' pk' = Some l" for l
    proof -
      have "length l = m nk' \<and> new_strings l \<subseteq> V"
      proof (cases "(nk', pk') = (nk, pk)")
        case True
        have "new_strings (b[j := Some vs]) \<subseteq> V" using new_strings_put [of b j vs] b(2) vs by blast
        then show ?thesis using True l i b by auto
      next
        case False
        then have "pending ! property_storage_slot S nk' pk' = Some l" using l property_slot_inj by (metis nth_list_update_neq)
        then show ?thesis using news by (simp add: news_are_def)
      qed
      then show "length l = m nk'" "new_strings l \<subseteq> V" by simp_all
    qed
    fix j' assume j': "j' < m nk'"
    show "new_values (slot_news (pending[?i := Some (b[j := Some vs])]) (property_storage_slot S nk' pk')) j' =
        (if (nk', pk', j') = (nk, pk, j) then vs else vals nk' pk' j')"
    proof (cases "(nk', pk') = (nk, pk)")
      case True
      have "new_values (b[j := Some vs]) j' = (if j' = j then vs else new_values b j')"
        using j b by (auto simp: new_values_def get_at_def)
      then show ?thesis using True i j' old [of j'] news by (auto simp: slot_news_def news_are_def)
    next
      case False
      then have "?i \<noteq> property_storage_slot S nk' pk'" using property_slot_inj by metis
      then have "slot_news (pending[?i := Some (b[j := Some vs])]) (property_storage_slot S nk' pk') =
          slot_news pending (property_storage_slot S nk' pk')" by (simp add: slot_news_def)
      then show ?thesis using False j' news by (auto simp: news_are_def)
    qed
  qed (use news in \<open>simp add: news_are_def\<close>)
  then show ?thesis unfolding eq by simp
qed

lemma news_put_all:
  assumes news: "news_are S m V vals pending" and j: "j < m nk"
    and vs: "(\<Union>(k, vs)\<in>set props. \<Union>v\<in>set vs. value_strings v) \<subseteq> V" and dist: "distinct (map fst props)"
  shows "ospec (news_are S m V (\<lambda>nk' pk' j'. if (nk', j') = (nk, j) \<and> pk' \<in> fst ` set props
        then the (map_of props pk') else vals nk' pk' j')) (\<lambda>_. False) False
    (for_each (\<lambda>(pk, vs) pending. buckets_bucket None pending (property_storage_slot S nk pk) (m nk)
       (\<lambda>b. store_at b j (Some vs))) props pending)"
proof (rule ospec_for_each [where P = "\<lambda>ys. news_are S m V (\<lambda>nk' pk' j'. if (nk', j') = (nk, j) \<and> pk' \<in> fst ` set ys
        then the (map_of ys pk') else vals nk' pk' j')"])
  show "news_are S m V (\<lambda>nk' pk' j'. if (nk', j') = (nk, j) \<and> pk' \<in> fst ` set []
        then the (map_of [] pk') else vals nk' pk' j') pending" using news by simp
next
  fix ys y zs pending'
  assume split: "props = ys @ y # zs"
    and inv: "news_are S m V (\<lambda>nk' pk' j'. if (nk', j') = (nk, j) \<and> pk' \<in> fst ` set ys
        then the (map_of ys pk') else vals nk' pk' j') pending'"
  obtain pk v where y: "y = (pk, v)" by (cases y)
  have new: "pk \<notin> fst ` set ys" using dist split y by auto
  then have "(\<lambda>nk' pk' j'. if (nk', j') = (nk, j) \<and> pk' \<in> fst ` set (ys @ [y])
        then the (map_of (ys @ [y]) pk') else vals nk' pk' j') =
      (\<lambda>nk' pk' j'. if (nk', pk', j') = (nk, pk, j) then v else if (nk', j') = (nk, j) \<and> pk' \<in> fst ` set ys
        then the (map_of ys pk') else vals nk' pk' j')"
    using map_of_eq_None_iff [of ys pk] by (auto simp: y map_add_def fun_eq_iff split: option.splits)
  moreover have "(\<Union>x\<in>set v. value_strings x) \<subseteq> V" using vs by (fastforce simp: split y)
  ultimately show "ospec (news_are S m V (\<lambda>nk' pk' j'. if (nk', j') = (nk, j) \<and> pk' \<in> fst ` set (ys @ [y])
        then the (map_of (ys @ [y]) pk') else vals nk' pk' j')) (\<lambda>_. False) False
      ((case y of (pk, vs) \<Rightarrow> \<lambda>pending. buckets_bucket None pending (property_storage_slot S nk pk) (m nk)
         (\<lambda>b. store_at b j (Some vs))) pending')"
    using news_put [OF inv j, of v pk] by (simp add: y)
qed

lemma place_new_node_spec:
  assumes cs: "counts_ok S cnt max_seq" "counts_ok S m nnc" and p: "placed S cnt m V ys w"
    and room: "new_count ys (nn_kind y) < m (nn_kind y)" and V: "node_strings [y] \<subseteq> V"
    and dist: "distinct (map fst (nn_properties y))"
  shows "ospec (placed S cnt m V (ys @ [y])) (\<lambda>_. False) False (place_new_node S max_seq nnc y w)"
proof -
  let ?k = "nn_kind y" and ?i = "n_index S (nn_kind y)" and ?j = "new_count ys (nn_kind y)"
  obtain counters metas ids pending where w: "w = (counters, metas, ids, pending)" by (cases w)
  have P: "counts_ok S (new_count ys) counters" "length metas = number_of_node_kinds S"
    "\<And>nk. metas ! n_index S nk = replicate (new_count ys nk) default_node_meta" "ids = new_ids cnt ys"
    "news_are S m V (placed_vals ys) pending"
    using p by (simp_all add: w placed_def)
  have at: "index_at counters ?i = Ok ?j" "index_at max_seq ?i = Ok (cnt ?k)" "index_at nnc ?i = Ok (m ?k)"
    "index_at metas ?i = Ok (replicate ?j default_node_meta)"
    "store_at counters ?i (?j + 1) = Ok (counters[?i := ?j + 1])" "\<And>x. store_at metas ?i x = Ok (metas[?i := x])"
    using P cs counts_ok_less [of _ _ ?k] node_index_less [of ?k] by (simp_all add: counts_ok_def)
  have "new_count (ys @ [y]) = (\<lambda>k. if k = ?k then ?j + 1 else new_count ys k)" by auto
  then have counters: "counts_ok S (new_count (ys @ [y])) (counters[?i := ?j + 1])"
    using counts_ok_update [OF P(1), of ?k "?j + 1"] by simp
  have metas: "metas[?i := replicate ?j default_node_meta @ [default_node_meta]] ! n_index S nk =
      replicate (new_count (ys @ [y]) nk) default_node_meta" for nk
    using P(2,3) node_index_less [of ?k] by (auto simp: nth_list_update replicate_append_same)
  have vals: "(\<lambda>nk' pk' j'. if (nk', j') = (?k, ?j) \<and> pk' \<in> fst ` set (nn_properties y)
        then the (map_of (nn_properties y) pk') else placed_vals ys nk' pk' j') = placed_vals (ys @ [y])"
  proof (intro ext)
    fix nk' pk' j'
    have "map_of (nn_properties y) pk' = None \<longleftrightarrow> pk' \<notin> fst ` set (nn_properties y)" by (rule map_of_eq_None_iff)
    then show "(if (nk', j') = (?k, ?j) \<and> pk' \<in> fst ` set (nn_properties y)
        then the (map_of (nn_properties y) pk') else placed_vals ys nk' pk' j') = placed_vals (ys @ [y]) nk' pk' j'"
      using node_values_last [of ys y pk'] node_values_prefix [of j' ys nk' "[y]" pk']
      by (auto simp: placed_vals_def less_Suc_eq split: option.splits)
  qed
  have strings: "(\<Union>(k, vs)\<in>set (nn_properties y). \<Union>v\<in>set vs. value_strings v) \<subseteq> V"
    using V by (simp add: node_strings_def)
  show ?thesis
    unfolding place_new_node_def w prod.case Let_def at andthen.simps ospec_map_ok
    by (rule ospec_mono [OF news_put_all [where j = ?j, OF P(5) room strings dist]])
      (use counters metas P(2,4) vals in \<open>simp_all add: placed_def new_ids_snoc add.commute\<close>)
qed

lemma place_new_nodes_spec:
  assumes cs: "counts_ok S cnt max_seq" "counts_ok S (new_count nodes) nnc"
    and dist: "\<forall>n\<in>set nodes. distinct (map fst (nn_properties n))"
  shows "\<exists>w. place_new_nodes S max_seq nnc nodes = Ok w \<and> placed S cnt (new_count nodes) (node_strings nodes) nodes w"
proof -
  have "ospec (placed S cnt (new_count nodes) (node_strings nodes) nodes) (\<lambda>_. False) False (place_new_nodes S max_seq nnc nodes)"
    unfolding place_new_nodes_def
  proof (rule ospec_for_each [where P = "placed S cnt (new_count nodes) (node_strings nodes)"])
    show "placed S cnt (new_count nodes) (node_strings nodes) []
        (replicate (number_of_node_kinds S) 0, node_meta_storage_new S, [], buckets_new (property_storage_size S))"
      using node_index_less property_slot_less
      by (simp add: placed_def counts_ok_def node_meta_storage_new_def new_ids_def news_are_def placed_vals_def slot_news_def
          new_values_def get_at_def)
  next
    fix ys y zs w assume split: "nodes = ys @ y # zs" and w: "placed S cnt (new_count nodes) (node_strings nodes) ys w"
    have "new_count (y # zs) (nn_kind y) = Suc (new_count zs (nn_kind y))" by (simp add: new_count_def of_kind_def)
    then have "new_count ys (nn_kind y) < new_count nodes (nn_kind y)" by (simp add: split)
    moreover have "node_strings [y] \<subseteq> node_strings nodes" by (simp add: split node_strings_def)
    ultimately show "ospec (placed S cnt (new_count nodes) (node_strings nodes) (ys @ [y])) (\<lambda>_. False) False
        (place_new_node S max_seq nnc y w)"
      using dist by (intro place_new_node_spec [OF cs w]) (simp_all add: split)
  qed
  then show ?thesis by (cases "place_new_nodes S max_seq nnc nodes") auto
qed

end

end
