(* ===== verification/Node_Index.thy ===== *)
theory Node_Index
  imports Schema Csr
begin

text \<open>
  \<open>DenseNodeId\<close> and \<open>NodeIndex\<close> of \<open>graph/integrity.rs\<close>: one sequence of \<open>u32\<close> numbers for the
  nodes of every kind. On the nodes that exist, \<open>densify\<close> is injective and keeps their order, and
  \<open>resolve\<close> is its inverse, kinds without nodes included.
\<close>

type_synonym dense_node_id = u32

definition u32_saturating_add :: "u32 \<Rightarrow> u32 \<Rightarrow> u32" where
  "u32_saturating_add a b = (if unat a + unat b \<le> u32_max then a + b else of_nat u32_max)"

text \<open>\<open>Iterator::rposition\<close>: the last position whose element satisfies the predicate.\<close>

fun rposition :: "('a \<Rightarrow> bool) \<Rightarrow> 'a list \<Rightarrow> nat option" where
  "rposition P [] = None"
| "rposition P (x # xs) =
     (case rposition P xs of Some i \<Rightarrow> Some (Suc i) | None \<Rightarrow> if P x then Some 0 else None)"

record node_index =
  ni_kind_offsets :: "u32 list"
  ni_kind_labels :: "string list"

definition node_index_new :: "(string \<times> nat) list \<Rightarrow> node_index res" where
  "node_index_new kinds =
     andthen (for_each (\<lambda>(label, count) (kind_offsets, kind_labels, total).
         andthen (ok_or (NodeCountOverflow total) (u32_try_from total)) (\<lambda>start.
         Ok (kind_offsets @ [start], kind_labels @ [label], min (total + count) usize_max)))
       kinds ([], [], 0)) (\<lambda>(kind_offsets, kind_labels, total).
     andthen (ok_or (NodeCountOverflow total) (u32_try_from total)) (\<lambda>fin.
     Ok \<lparr>ni_kind_offsets = kind_offsets @ [fin], ni_kind_labels = kind_labels\<rparr>))"

definition densify :: "node_index \<Rightarrow> raw_node_id \<Rightarrow> dense_node_id" where
  "densify nodes node =
     (let base = (case get_at (ni_kind_offsets nodes) (raw_kind node) of Some b \<Rightarrow> b | None \<Rightarrow> of_nat u32_max) in
      u32_saturating_add base (case u32_try_from (raw_seq node) of Some s \<Rightarrow> s | None \<Rightarrow> of_nat u32_max))"

definition resolve_dense :: "node_index \<Rightarrow> dense_node_id \<Rightarrow> raw_node_id res" where
  "resolve_dense nodes dense =
     (let kind = min (case rposition (\<lambda>start. start \<le> dense) (ni_kind_offsets nodes) of Some k \<Rightarrow> k | None \<Rightarrow> 0)
           (length (ni_kind_offsets nodes) - 2) in
      andthen (index_at (ni_kind_offsets nodes) kind) (\<lambda>base.
      andthen (if base \<le> dense then Ok (dense - base) else Panic) (\<lambda>seq.
      raw_node_new kind (unat seq))))"

definition node_label :: "node_index \<Rightarrow> dense_node_id \<Rightarrow> string res" where
  "node_label nodes dense =
     andthen (resolve_dense nodes dense) (\<lambda>node.
     Ok (case get_at (ni_kind_labels nodes) (raw_kind node) of
           Some kind \<Rightarrow> kind @ ''('' @ nat_str (raw_seq node) @ '')''
         | None \<Rightarrow> raw_node_str node))"

section \<open>The prefix sums\<close>

text \<open>\<open>NodeIndex::new\<close> fails exactly when the nodes do not fit a \<open>u32\<close>.\<close>

definition node_index_of :: "node_index \<Rightarrow> (string \<times> nat) list \<Rightarrow> bool" where
  "node_index_of ni kinds \<longleftrightarrow> map unat (ni_kind_offsets ni) = psums 0 (map snd kinds) \<and>
     ni_kind_labels ni = map fst kinds \<and> sum_list (map snd kinds) \<le> u32_max"

lemma node_index_loop:
  fixes kinds :: "(string \<times> nat) list"
  assumes "a \<le> u32_max"
  shows "ospec (\<lambda>(offs', labels', total). labels' = labels @ map fst kinds \<and>
      (total \<le> u32_max \<longrightarrow> total = a + sum_list (map snd kinds) \<and>
        map unat offs' @ [total] = map unat offs @ psums a (map snd kinds)) \<and>
      (u32_max < total \<longrightarrow> u32_max < a + sum_list (map snd kinds)))
    (\<lambda>e :: error. u32_max < a + sum_list (map snd kinds) \<and> (\<exists>n. e = NodeCountOverflow n)) False
    (for_each (\<lambda>(label, count) (kind_offsets, kind_labels, total).
         andthen (ok_or (NodeCountOverflow total) (u32_try_from total)) (\<lambda>start.
         Ok (kind_offsets @ [start], kind_labels @ [label], min (total + count) usize_max)))
       kinds (offs, labels, a))"
  using assms
proof (induction kinds arbitrary: a offs labels)
  case (Cons k kinds)
  obtain label count where k: "k = (label, count)" by (cases k)
  let ?f = "\<lambda>(label, count) (kind_offsets, kind_labels, total).
         andthen (ok_or (NodeCountOverflow total) (u32_try_from total)) (\<lambda>start.
         Ok (kind_offsets @ [start], kind_labels @ [label], min (total + count) usize_max)) :: (u32 list \<times> string list \<times> nat) res"
  have step: "?f k (offs, labels, a) = Ok (offs @ [of_nat a], labels @ [label], min (a + count) usize_max)"
    using Cons.prems by (simp add: k u32_try_from_def)
  show ?case
  proof (cases "a + count \<le> u32_max")
    case True
    then have m: "min (a + count) usize_max = a + count" by (simp add: u32_max_def usize_max_def)
    show ?thesis
      unfolding for_each.simps step andthen.simps m
      by (rule ospec_mono [OF Cons.IH [OF True]]) (use Cons.prems in \<open>auto simp: k add.assoc\<close>)
  next
    case False
    then have big: "u32_max < min (a + count) usize_max" by (simp add: u32_max_def usize_max_def)
    show ?thesis
      unfolding for_each.simps step andthen.simps
      using False big by (cases kinds) (auto simp: k u32_try_from_def split: prod.splits)
  qed
qed simp

lemma node_index_new_spec:
  "ospec (\<lambda>ni. node_index_of ni kinds)
     (\<lambda>e. u32_max < sum_list (map snd kinds) \<and> (\<exists>n. e = NodeCountOverflow n)) False (node_index_new kinds)"
proof -
  have "0 \<le> u32_max" by simp
  note loop = node_index_loop [OF this, of "[]" kinds "[]"]
  show ?thesis
    unfolding node_index_new_def ospec_andthen
    by (rule ospec_mono [OF loop])
      (auto simp: ok_or_def u32_try_from_def node_index_of_def not_le split: option.splits if_splits)
qed

section \<open>Densified ids\<close>

definition node_in :: "(string \<times> nat) list \<Rightarrow> raw_node_id \<Rightarrow> bool" where
  "node_in kinds node \<longleftrightarrow> raw_kind node < length kinds \<and> raw_seq node < snd (kinds ! raw_kind node)"

text \<open>The number of a node: the nodes of the kinds before its own, plus its sequence number.\<close>

definition dense_of :: "(string \<times> nat) list \<Rightarrow> raw_node_id \<Rightarrow> nat" where
  "dense_of kinds node = sum_list (map snd (take (raw_kind node) kinds)) + raw_seq node"

lemma densify_node:
  assumes ni: "node_index_of ni kinds" and node: "node_in kinds node"
  shows "unat (densify ni node) = dense_of kinds node" and "dense_of kinds node < sum_list (map snd kinds)"
proof -
  let ?cs = "map snd kinds"
  have k: "raw_kind node < length ?cs" "raw_seq node < ?cs ! raw_kind node" using node by (simp_all add: node_in_def)
  have offs: "map unat (ni_kind_offsets ni) = psums 0 ?cs" and sum: "sum_list ?cs \<le> u32_max"
    using ni by (simp_all add: node_index_of_def)
  have len: "length (ni_kind_offsets ni) = Suc (length kinds)"
    using arg_cong [OF offs, of length] by simp
  have base: "unat (ni_kind_offsets ni ! raw_kind node) = sum_list (take (raw_kind node) ?cs)"
    using arg_cong [OF offs, of "\<lambda>xs. xs ! raw_kind node"] k len by (simp add: nth_psums)
  show less: "dense_of kinds node < sum_list (map snd kinds)"
    using sum_take_add_le [OF k(1)] k(2) by (simp add: dense_of_def take_map)
  then have "sum_list (take (raw_kind node) ?cs) + raw_seq node \<le> u32_max"
    using sum by (simp add: dense_of_def take_map)
  then show "unat (densify ni node) = dense_of kinds node"
    using base k len by (simp add: densify_def u32_saturating_add_def u32_try_from_def dense_of_def take_map
        unat_word_ariths u32_max_def)
qed

text \<open>Order preservation, and with it injectivity.\<close>

lemma dense_of_less:
  assumes "node_in kinds a" and "node_in kinds b" and "a < b"
  shows "dense_of kinds a < dense_of kinds b"
proof (cases "rn_kind a = rn_kind b")
  case True
  then show ?thesis using assms(3) by (simp add: less_raw_node_id_def dense_of_def raw_kind_def raw_seq_def word_less_nat_alt)
next
  case False
  then have k: "raw_kind a < raw_kind b"
    using assms(3) by (simp add: less_raw_node_id_def raw_kind_def word_less_nat_alt)
  let ?cs = "map snd kinds"
  have "raw_kind a < length ?cs" "raw_seq a < ?cs ! raw_kind a" using assms(1) by (simp_all add: node_in_def)
  then have "sum_list (take (raw_kind a) ?cs) + raw_seq a < sum_list (take (Suc (raw_kind a)) ?cs)"
    by (simp add: take_Suc_conv_app_nth)
  also have "\<dots> \<le> sum_list (take (raw_kind b) ?cs)" using k by (intro sum_take_mono) simp
  finally show ?thesis by (simp add: dense_of_def take_map)
qed

lemma densify_less:
  assumes "node_index_of ni kinds" and "node_in kinds a" and "node_in kinds b"
  shows "densify ni a < densify ni b \<longleftrightarrow> a < b"
proof -
  have "densify ni a < densify ni b \<longleftrightarrow> dense_of kinds a < dense_of kinds b"
    using densify_node(1) [OF assms(1)] assms(2,3) by (simp add: word_less_nat_alt)
  also have "\<dots> \<longleftrightarrow> a < b"
    using dense_of_less [of kinds a b] dense_of_less [of kinds b a] assms(2,3) by (metis less_asym neqE)
  finally show ?thesis .
qed

lemma densify_inject:
  assumes "node_index_of ni kinds" and "node_in kinds a" and "node_in kinds b"
  shows "densify ni a = densify ni b \<longleftrightarrow> a = b"
  using densify_less [OF assms] densify_less [OF assms(1,3,2)] by (metis less_irrefl neqE)

lemma rposition_Some:
  "rposition P xs = Some i \<longleftrightarrow> i < length xs \<and> P (xs ! i) \<and> (\<forall>j<length xs. i < j \<longrightarrow> \<not> P (xs ! j))"
proof (induction xs arbitrary: i)
  case (Cons x xs)
  show ?case
  proof (cases i)
    case 0
    have "rposition P xs = None \<longleftrightarrow> (\<forall>j<length xs. \<not> P (xs ! j))"
      by (induction xs) (auto simp: less_Suc_eq_0_disj split: option.split)
    then show ?thesis using 0 by (auto simp: less_Suc_eq_0_disj split: option.split)
  next
    case (Suc k)
    have "(\<forall>j<length (x # xs). i < j \<longrightarrow> \<not> P ((x # xs) ! j)) \<longleftrightarrow> (\<forall>j<length xs. k < j \<longrightarrow> \<not> P (xs ! j))"
      using Suc by (auto simp: less_Suc_eq_0_disj)
    moreover have "rposition P (x # xs) = Some i \<longleftrightarrow> rposition P xs = Some k"
      using Suc by (auto split: option.split)
    ultimately show ?thesis using Cons.IH [of k] Suc by simp
  qed
qed simp

lemma resolve_densify:
  assumes ni: "node_index_of ni kinds" and node: "node_in kinds node"
  shows "resolve_dense ni (densify ni node) = Ok node"
proof -
  let ?cs = "map snd kinds" and ?k = "raw_kind node" and ?offs = "ni_kind_offsets ni"
  let ?d = "densify ni node"
  have k: "?k < length ?cs" "raw_seq node < ?cs ! ?k" using node by (simp_all add: node_in_def)
  have offs: "map unat ?offs = psums 0 ?cs" using ni by (simp add: node_index_of_def)
  have len: "length ?offs = Suc (length kinds)" using arg_cong [OF offs, of length] by simp
  have at: "unat (?offs ! i) = sum_list (take i ?cs)" if "i \<le> length kinds" for i
    using arg_cong [OF offs, of "\<lambda>xs. xs ! i"] that len by (simp add: nth_psums)
  have d: "unat ?d = sum_list (take ?k ?cs) + raw_seq node"
    using densify_node(1) [OF ni node] by (simp add: dense_of_def take_map)
  have "rposition (\<lambda>start. start \<le> ?d) ?offs = Some ?k"
    unfolding rposition_Some
  proof (intro conjI allI impI)
    show "?k < length ?offs" using k len by simp
    show "?offs ! ?k \<le> ?d" using at [of ?k] k d by (simp add: word_le_nat_alt)
  next
    fix j assume j: "j < length ?offs" "?k < j"
    then have "sum_list (take (Suc ?k) ?cs) \<le> sum_list (take j ?cs)" by (intro sum_take_mono) simp
    then have "unat ?d < unat (?offs ! j)" using at [of j] j len k d by (simp add: take_Suc_conv_app_nth)
    then show "\<not> ?offs ! j \<le> ?d" by (simp add: word_le_nat_alt)
  qed
  moreover have "min ?k (length ?offs - 2) = ?k" using k len by simp
  moreover have "?offs ! ?k \<le> ?d" and "unat (?d - ?offs ! ?k) = raw_seq node"
    using at [of ?k] k d by (simp_all add: word_le_nat_alt unat_sub)
  moreover have "raw_node_new ?k (raw_seq node) = Ok node"
    using raw_node_new_eq_Ok [of "raw_kind node" "raw_seq node" node] by simp
  ultimately show ?thesis
    using k len unfolding resolve_dense_def by (simp del: raw_node_new_Ok)
qed

lemma node_label_densify:
  assumes "node_index_of ni kinds" and "node_in kinds node"
  shows "node_label ni (densify ni node) =
    Ok (fst (kinds ! raw_kind node) @ ''('' @ nat_str (raw_seq node) @ '')'')"
  using assms resolve_densify [OF assms] by (simp add: node_label_def node_index_of_def node_in_def)

end
