(* ===== verification/Integrity.thy ===== *)
theory Integrity
  imports Graph Value_Key Node_Index
begin

text \<open>
  \<open>graph/integrity.rs\<close> and \<open>graph/raw.rs\<close>: the check of a graph's flat storage, in the sequential and
  in the parallel driver, and the conversion of a \<open>RawGraph\<close> into a \<open>Graph\<close> it guards.
\<close>

section \<open>Half-edges in canonical form\<close>

text \<open>\<open>HalfEdge\<close> of \<open>integrity.rs\<close> with its derived \<open>Ord\<close>: lexicographic in the order of the fields.\<close>

datatype canon_half = CanonHalf (ch_src: dense_node_id) (ch_dst: dense_node_id) (ch_value: value_key)

instantiation canon_half :: linorder
begin

definition less_canon_half :: "canon_half \<Rightarrow> canon_half \<Rightarrow> bool" where
  "less_canon_half a b \<longleftrightarrow> ch_src a < ch_src b \<or> ch_src a = ch_src b \<and>
     (ch_dst a < ch_dst b \<or> ch_dst a = ch_dst b \<and> ch_value a < ch_value b)"

definition less_eq_canon_half :: "canon_half \<Rightarrow> canon_half \<Rightarrow> bool" where
  "less_eq_canon_half a b \<longleftrightarrow> ch_src a < ch_src b \<or> ch_src a = ch_src b \<and>
     (ch_dst a < ch_dst b \<or> ch_dst a = ch_dst b \<and> ch_value a \<le> ch_value b)"

instance
  by standard (auto simp: less_canon_half_def less_eq_canon_half_def canon_half.expand)

end

text \<open>The views the checks share.\<close>

record storages =
  so_node_meta :: node_meta_storage
  so_edges :: edge_storage
  so_properties :: prop_storage
  so_strings :: pool
  so_nodes :: node_index

section \<open>The checks\<close>

definition check_storage_sizes ::
  "('n, 'e, 'p, 'r) schema \<Rightarrow> node_meta_storage \<Rightarrow> edge_storage \<Rightarrow> prop_storage \<Rightarrow> unit res" where
  "check_storage_sizes S node_meta_storage edge_storage property_storage =
     (if length node_meta_storage \<noteq> number_of_node_kinds S
      then Err (StorageSizeMismatch ''node_meta_storage'' (number_of_node_kinds S) (length node_meta_storage))
      else if length edge_storage \<noteq> edge_storage_size S
      then Err (StorageSizeMismatch ''edge_storage'' (edge_storage_size S) (length edge_storage))
      else if length property_storage \<noteq> property_storage_size S
      then Err (StorageSizeMismatch ''property_storage'' (property_storage_size S) (length property_storage))
      else Ok ())"

definition check_offsets_shape :: "string \<Rightarrow> offset list \<Rightarrow> nat \<Rightarrow> unit res" where
  "check_offsets_shape slot offsets expected_count =
     (if offsets = [] then Ok ()
      else if length offsets \<noteq> expected_count + 1
      then Err (OffsetsLengthMismatch slot (expected_count + 1) (length offsets))
      else
        let first = (case get_at offsets 0 of Some o' \<Rightarrow> o' | None \<Rightarrow> offset_zero) in
        if offset_value first \<noteq> 0 then Err (OffsetsBoundsMismatch slot 0 (offset_value first))
        else for_each (\<lambda>(a, b) _. map_ok (\<lambda>_. ()) (offset_checked_sub b a)) (windows2 offsets) ())"

definition check_offsets_bounds :: "string \<Rightarrow> offset list \<Rightarrow> nat \<Rightarrow> unit res" where
  "check_offsets_bounds slot offsets array_len =
     (let l = (case last_opt offsets of Some o' \<Rightarrow> o' | None \<Rightarrow> offset_zero) in
      if offset_value l \<noteq> array_len then Err (OffsetsBoundsMismatch slot array_len (offset_value l))
      else Ok ())"

definition check_storage_type :: "storage_array \<Rightarrow> property_type \<Rightarrow> unit res" where
  "check_storage_type storage expected =
     ensure (if expected = TNone then storage = ANone else sa_typ storage = expected)
       (invalid_property_type expected (sa_typ storage))"

definition check_node_id ::
  "('n, 'e, 'p, 'r) schema \<Rightarrow> raw_node_id \<Rightarrow> node_meta_storage \<Rightarrow> unit res" where
  "check_node_id S node node_meta_storage =
     andthen (resolve_node_kind S node) (\<lambda>kind.
     andthen (map_ok length (index_at node_meta_storage (n_index S kind))) (\<lambda>count.
     if raw_seq node \<ge> count then Err (NodeSeqOutOfBounds (raw_node_str node) (raw_seq node) count)
     else Ok ()))"

definition check_string_id :: "raw_string_id \<Rightarrow> pool \<Rightarrow> unit res" where
  "check_string_id string_id strings =
     andthen (pool_get strings string_id) (\<lambda>s.
     if s = None then Err (UnresolvedStringId (raw_string_str string_id)) else Ok ())"

definition check_enum_id ::
  "('n, 'e, 'p, 'r) schema \<Rightarrow> raw_enum_id \<Rightarrow> nat option \<Rightarrow> unit res" where
  "check_enum_id S enum_id expected =
     andthen (ok_or (UnresolvedEnumKind (raw_enum_index enum_id)) (r_from_index S (raw_enum_index enum_id)))
       (\<lambda>registry_kind.
     andthen (case expected of
         Some ex \<Rightarrow>
           if ex \<noteq> raw_enum_index enum_id
           then
             andthen (ok_or (UnresolvedEnumKind ex) (r_from_index S ex)) (\<lambda>expected_kind.
             Err (EnumPropIndexMismatch (r_str S expected_kind) (raw_enum_index enum_id)))
           else Ok ()
       | None \<Rightarrow> Ok ()) (\<lambda>_.
     if raw_enum_variant enum_id \<ge> r_variant_count S registry_kind
     then Err (UnresolvedEnumVariant (r_str S registry_kind) (raw_enum_variant enum_id))
     else Ok ()))"

definition check_values_content ::
  "('n, 'e, 'p, 'r) schema \<Rightarrow> storage_array \<Rightarrow> node_meta_storage \<Rightarrow> pool \<Rightarrow> nat option \<Rightarrow> unit res" where
  "check_values_content S storage node_meta_storage strings expected_enum =
     (case storage of
        ANodeId items \<Rightarrow> for_each (\<lambda>node _. check_node_id S node node_meta_storage) items ()
      | AStringId items \<Rightarrow> for_each (\<lambda>string_id _. check_string_id string_id strings) items ()
      | AEnum items \<Rightarrow> for_each (\<lambda>enum_id _. check_enum_id S enum_id expected_enum) items ()
      | _ \<Rightarrow> Ok ())"

definition check_property_slot ::
  "('n, 'e, 'p, 'r) schema \<Rightarrow> storages \<Rightarrow> 'n \<Rightarrow> 'p \<Rightarrow> unit res" where
  "check_property_slot S st node_kind property_kind =
     (let slot_index = property_storage_slot S node_kind property_kind in
      andthen (map_ok length (index_at (so_node_meta st) (n_index S node_kind))) (\<lambda>expected_count.
      let expected_type = p_property_type S property_kind in
      andthen (index_at (so_properties st) slot_index) (\<lambda>slot.
      andthen (check_offsets_shape (property_slot_str slot_index) (ps_offsets slot) expected_count) (\<lambda>_.
      andthen (check_storage_type (ps_values slot) expected_type) (\<lambda>_.
      andthen (if expected_type \<noteq> TNone
        then check_offsets_bounds (property_slot_str slot_index) (ps_offsets slot) (sa_len (ps_values slot))
        else Ok ()) (\<lambda>_.
      check_values_content S (ps_values slot) (so_node_meta st) (so_strings st)
        (p_enum_index S property_kind)))))))"

text \<open>The half-edges of one slot, appended to the ones of the slots before it.\<close>

definition slot_canon_halves ::
  "('n, 'e, 'p, 'r) schema \<Rightarrow> node_index \<Rightarrow> 'n \<Rightarrow> dir \<Rightarrow> edge_slot \<Rightarrow> canon_half list \<Rightarrow> canon_half list res" where
  "slot_canon_halves S nodes node_kind d slot halves =
     for_each (\<lambda>(seq, (start, fin)) halves.
         andthen (raw_node_new (n_index S node_kind) seq) (\<lambda>raw.
         let node = densify nodes raw in
         Ok (halves @ map (\<lambda>(i, nb).
             let value = value_key (es_values slot) (offset_value start + i);
                 far = densify nodes nb;
                 (src, dst) = (case d of Out \<Rightarrow> (node, far) | In \<Rightarrow> (far, node)) in
             CanonHalf src dst value) (enumerate 0 (get_neighbors slot start fin)))))
       (enumerate 0 (windows2 (es_offsets slot))) halves"

definition check_edge_slot ::
  "('n, 'e, 'p, 'r) schema \<Rightarrow> storages \<Rightarrow> 'n \<Rightarrow> dir \<Rightarrow> 'e \<Rightarrow> canon_half list \<Rightarrow> canon_half list res" where
  "check_edge_slot S st node_kind d edge_kind halves =
     (let slot_index = edge_storage_slot S node_kind d edge_kind in
      andthen (map_ok length (index_at (so_node_meta st) (n_index S node_kind))) (\<lambda>expected_count.
      andthen (index_at (so_edges st) slot_index) (\<lambda>slot.
      andthen (check_offsets_shape (edge_slot_str slot_index) (es_offsets slot) expected_count) (\<lambda>_.
      andthen (check_offsets_bounds (edge_slot_str slot_index) (es_offsets slot) (length (es_neighbors slot))) (\<lambda>_.
      andthen (for_each (\<lambda>node_id _. check_node_id S node_id (so_node_meta st)) (es_neighbors slot) ()) (\<lambda>_.
      let expected_prop_type = e_property_type S edge_kind in
      andthen (check_storage_type (es_values slot) expected_prop_type) (\<lambda>_.
      andthen (if expected_prop_type \<noteq> TNone
        then check_offsets_bounds (edge_slot_str slot_index) (es_offsets slot) (sa_len (es_values slot))
        else Ok ()) (\<lambda>_.
      andthen (check_values_content S (es_values slot) (so_node_meta st) (so_strings st)
        (e_enum_index S edge_kind)) (\<lambda>_.
      andthen (assert (sa_typ (es_values slot) = expected_prop_type)) (\<lambda>_.
      slot_canon_halves S (so_nodes st) node_kind d slot halves))))))))))"

section \<open>Pairing\<close>

definition report_pairing_mismatch ::
  "('n, 'e, 'p, 'r) schema \<Rightarrow> 'e \<Rightarrow> node_index \<Rightarrow> canon_half list \<Rightarrow> canon_half list \<Rightarrow> unit res" where
  "report_pairing_mismatch S edge_kind nodes out_halves in_halves =
     (let mismatch = position (\<lambda>(out_half, in_half). out_half \<noteq> in_half) (zip out_halves in_halves);
          reverse_not_found = (\<lambda>half d.
            let (node, target) = (case d of
                Out \<Rightarrow> (ch_src half, ch_dst half) | In \<Rightarrow> (ch_dst half, ch_src half)) in
            andthen (node_label nodes target) (\<lambda>target.
            andthen (node_label nodes node) (\<lambda>node.
            Err (ReverseEdgeNotFound target node (dir_str d) (e_str S edge_kind))))) in
      case mismatch of
        Some i \<Rightarrow>
          (let out_half = out_halves ! i; in_half = in_halves ! i in
           if ch_src out_half = ch_src in_half \<and> ch_dst out_half = ch_dst in_half
           then
             andthen (node_label nodes (ch_src out_half)) (\<lambda>src.
             andthen (node_label nodes (ch_dst out_half)) (\<lambda>dst.
             Err (EdgeHalfPropertyMismatch (e_str S edge_kind) src dst)))
           else if out_half < in_half then reverse_not_found out_half Out
           else reverse_not_found in_half In)
      | None \<Rightarrow>
          if length out_halves > length in_halves then reverse_not_found (out_halves ! length in_halves) Out
          else if length out_halves < length in_halves then reverse_not_found (in_halves ! length out_halves) In
          else Ok ())"

definition check_half_edge_pairing ::
  "('n, 'e, 'p, 'r) schema \<Rightarrow> 'e \<Rightarrow> node_index \<Rightarrow> canon_half list \<Rightarrow> canon_half list \<Rightarrow> unit res" where
  "check_half_edge_pairing S edge_kind nodes out_halves in_halves =
     report_pairing_mismatch S edge_kind nodes (sort out_halves) (sort in_halves)"

section \<open>The sequential driver\<close>

definition collect_slot_halves ::
  "('n, 'e, 'p, 'r) schema \<Rightarrow> storages \<Rightarrow> 'n \<times> dir \<times> 'e \<Rightarrow> canon_half list list \<times> canon_half list list \<Rightarrow>
     (canon_half list list \<times> canon_half list list) res" where
  "collect_slot_halves S st = (\<lambda>(node_kind, d, edge_kind) (out_halves, in_halves).
     let i = e_index S edge_kind in
     case d of
       Out \<Rightarrow>
         andthen (index_at out_halves i) (\<lambda>halves.
         andthen (check_edge_slot S st node_kind d edge_kind halves) (\<lambda>halves.
         Ok (out_halves[i := halves], in_halves)))
     | In \<Rightarrow>
         andthen (index_at in_halves i) (\<lambda>halves.
         andthen (check_edge_slot S st node_kind d edge_kind halves) (\<lambda>halves.
         Ok (out_halves, in_halves[i := halves]))))"

definition check_slots :: "('n, 'e, 'p, 'r) schema \<Rightarrow> storages \<Rightarrow> unit res" where
  "check_slots S st =
     andthen (for_each (\<lambda>(node_kind, property_kind) _. check_property_slot S st node_kind property_kind)
       (property_storage_slots S) ()) (\<lambda>_.
     andthen (for_each (collect_slot_halves S st) (edge_storage_slots S)
       (replicate (number_of_edge_kinds S) [], replicate (number_of_edge_kinds S) [])) (\<lambda>(out_halves, in_halves).
     for_each (\<lambda>edge_kind _.
         andthen (index_at out_halves (e_index S edge_kind)) (\<lambda>outs.
         andthen (index_at in_halves (e_index S edge_kind)) (\<lambda>ins.
         check_half_edge_pairing S edge_kind (so_nodes st) outs ins)))
       (e_all S) ()))"

section \<open>The parallel driver\<close>

text \<open>
  \<open>Result::and\<close>, and rayon's \<open>map(..).reduce(|| Ok(()), and)\<close>: every element is evaluated, a panic of
  one is a panic of the whole, and the results are combined in order.
\<close>

fun result_and :: "('e, unit) outcome \<Rightarrow> ('e, 'a) outcome \<Rightarrow> ('e, 'a) outcome" where
  "result_and (Ok u) b = b"
| "result_and (Err e) b = Err e"
| "result_and Panic b = Panic"
| "result_and Diverge b = Diverge"

definition par_reduce :: "('x \<Rightarrow> ('e, unit) outcome) \<Rightarrow> 'x list \<Rightarrow> ('e, unit) outcome" where
  "par_reduce f xs =
     (if Panic \<in> f ` set xs then Panic else fold (\<lambda>x acc. result_and acc (f x)) xs (Ok ()))"

text \<open>\<open>map(..).collect()\<close> into a vector of results.\<close>

definition par_collect :: "('x \<Rightarrow> ('e, 'a) outcome) \<Rightarrow> 'x list \<Rightarrow> ('e, ('e, 'a) outcome list) outcome" where
  "par_collect f xs = (if Panic \<in> f ` set xs then Panic else Ok (map f xs))"

definition parallel_threshold :: nat where
  "parallel_threshold = 10000"

definition is_worthwhile :: "storages \<Rightarrow> bool" where
  "is_worthwhile st \<longleftrightarrow>
     sum_list (map length (so_node_meta st)) + sum_list (map (\<lambda>slot. length (es_neighbors slot)) (so_edges st))
       \<ge> parallel_threshold"

definition parallel_check_slots :: "('n, 'e, 'p, 'r) schema \<Rightarrow> storages \<Rightarrow> unit res" where
  "parallel_check_slots S st =
     andthen (par_reduce (\<lambda>(node_kind, property_kind). check_property_slot S st node_kind property_kind)
       (property_storage_slots S)) (\<lambda>_.
     let buckets = concat (map (\<lambda>edge_kind. map (\<lambda>d. (edge_kind, d)) dir_values) (e_all S)) in
     andthen (par_collect (\<lambda>(edge_kind, d).
         for_each (\<lambda>node_kind halves. check_edge_slot S st node_kind d edge_kind halves) (n_all S) [])
       buckets) (\<lambda>collected.
     andthen (for_each (\<lambda>((edge_kind, d), halves) (out_halves, in_halves).
         case d of
           Out \<Rightarrow> andthen halves (\<lambda>h. map_ok (\<lambda>v. (v, in_halves)) (store_at out_halves (e_index S edge_kind) h))
         | In \<Rightarrow> andthen halves (\<lambda>h. map_ok (\<lambda>v. (out_halves, v)) (store_at in_halves (e_index S edge_kind) h)))
       (zip buckets collected)
       (replicate (number_of_edge_kinds S) [], replicate (number_of_edge_kinds S) [])) (\<lambda>(out_halves, in_halves).
     par_reduce (\<lambda>((outs, ins), edge_kind).
         report_pairing_mismatch S edge_kind (so_nodes st) (sort outs) (sort ins))
       (zip (zip out_halves in_halves) (e_all S)))))"

section \<open>\<open>check_integrity\<close> and \<open>RawGraph\<close>\<close>

text \<open>\<open>par\<close> says whether the crate's feature of that name is on.\<close>

definition check_integrity ::
  "bool \<Rightarrow> ('n, 'e, 'p, 'r) schema \<Rightarrow> node_meta_storage \<Rightarrow> edge_storage \<Rightarrow> prop_storage \<Rightarrow> pool \<Rightarrow> unit res" where
  "check_integrity par S node_meta_storage edge_storage property_storage strings =
     andthen (check_storage_sizes S node_meta_storage edge_storage property_storage) (\<lambda>_.
     andthen (map_each (\<lambda>kind. map_ok (\<lambda>metas. (n_str S kind, length metas))
         (index_at node_meta_storage (n_index S kind))) (n_all S)) (\<lambda>kinds.
     andthen (node_index_new kinds) (\<lambda>nodes.
     let st = \<lparr>so_node_meta = node_meta_storage, so_edges = edge_storage,
               so_properties = property_storage, so_strings = strings, so_nodes = nodes\<rparr> in
     if par \<and> is_worthwhile st then parallel_check_slots S st else check_slots S st)))"

definition graph_check_integrity :: "bool \<Rightarrow> ('n, 'e, 'p, 'r) schema \<Rightarrow> graph \<Rightarrow> unit res" where
  "graph_check_integrity par S g =
     check_integrity par S (g_node_meta g) (g_edges g) (g_props g) (g_strings g)"

record raw_graph =
  rg_node_meta :: node_meta_storage
  rg_edges :: edge_storage
  rg_props :: prop_storage
  rg_strings :: pool

definition raw_graph_new :: "('n, 'e, 'p, 'r) schema \<Rightarrow> raw_graph res" where
  "raw_graph_new S =
     andthen (edge_storage_new S) (\<lambda>es.
     andthen (prop_storage_new S) (\<lambda>ps.
     Ok \<lparr>rg_node_meta = node_meta_storage_new S, rg_edges = es, rg_props = ps, rg_strings = pool_new\<rparr>))"

definition raw_of_graph :: "graph \<Rightarrow> raw_graph" where
  "raw_of_graph g =
     \<lparr>rg_node_meta = g_node_meta g, rg_edges = g_edges g, rg_props = g_props g, rg_strings = g_strings g\<rparr>"

definition raw_check_integrity :: "bool \<Rightarrow> ('n, 'e, 'p, 'r) schema \<Rightarrow> raw_graph \<Rightarrow> unit res" where
  "raw_check_integrity par S raw =
     check_integrity par S (rg_node_meta raw) (rg_edges raw) (rg_props raw) (rg_strings raw)"

definition graph_of_raw :: "bool \<Rightarrow> ('n, 'e, 'p, 'r) schema \<Rightarrow> raw_graph \<Rightarrow> graph res" where
  "graph_of_raw par S raw =
     andthen (check_integrity par S (rg_node_meta raw) (rg_edges raw) (rg_props raw) (rg_strings raw)) (\<lambda>_.
     Ok \<lparr>g_node_meta = rg_node_meta raw, g_edges = rg_edges raw, g_props = rg_props raw,
         g_strings = rg_strings raw\<rparr>)"

end
