(* ===== verification/Integrity_Spec.thy ===== *)
theory Integrity_Spec
  imports Integrity Halves
begin

text \<open>
  What \<open>check_integrity\<close> accepts: exactly the graphs whose slots stand for rows of existing nodes,
  whose embedded ids resolve, and whose two directions hold the same multiset of edges. A check
  never panics, and the parallel driver returns the result of the sequential one, error included.
\<close>

section \<open>Checks as decision procedures\<close>

definition decides :: "('e, unit) outcome \<Rightarrow> bool \<Rightarrow> bool" where
  "decides m P \<longleftrightarrow> ospec (\<lambda>_. P) (\<lambda>_. \<not> P) False m"

lemma decides_simps [simp]:
  "decides (Ok u) P \<longleftrightarrow> P" "decides (Err e) P \<longleftrightarrow> \<not> P" "\<not> decides Panic P" "\<not> decides Diverge P"
  by (simp_all add: decides_def)

lemma decides_iff: "decides m P \<Longrightarrow> m = Ok () \<longleftrightarrow> P"
  by (cases m) simp_all

lemma decides_no_panic: "decides m P \<Longrightarrow> m \<noteq> Panic \<and> m \<noteq> Diverge"
  by (cases m) simp_all

lemma decides_andthen:
  assumes "decides m P" and "P \<Longrightarrow> decides (f ()) Q"
  shows "decides (andthen m f) (P \<and> Q)"
  using assms by (cases m) simp_all

lemma decides_for_each:
  assumes "\<And>x. x \<in> set xs \<Longrightarrow> decides (f x ()) (P x)"
  shows "decides (for_each f xs ()) (\<forall>x\<in>set xs. P x)"
  using assms
proof (induction xs)
  case (Cons x xs)
  have "decides (for_each f (x # xs) ()) (P x \<and> (\<forall>x\<in>set xs. P x))"
    unfolding for_each.simps using Cons by (intro decides_andthen) simp_all
  then show ?case by simp
qed simp

lemma decides_if: "(b \<Longrightarrow> decides m P) \<Longrightarrow> (\<not> b \<Longrightarrow> decides n P) \<Longrightarrow> decides (if b then m else n) P"
  by simp

lemma for_each_concat: "for_each f (concat xss) s = for_each (for_each f) xss s"
proof (induction xss arbitrary: s)
  case (Cons xs xss)
  have "for_each f (concat xss) = for_each (for_each f) xss" by (rule ext) (rule Cons.IH)
  then show ?case by (simp add: for_each_append)
qed simp

lemma for_each_map: "for_each f (map g xs) s = for_each (\<lambda>x. f (g x)) xs s"
proof (induction xs arbitrary: s)
  case (Cons x xs)
  have "for_each f (map g xs) = for_each (\<lambda>x. f (g x)) xs" by (rule ext) (rule Cons.IH)
  then show ?case by simp
qed simp

lemma for_each_appends:
  "(\<And>x acc. x \<in> set xs \<Longrightarrow> f x acc = Ok (acc @ h x)) \<Longrightarrow> for_each f xs acc = Ok (acc @ concat (map h xs))"
  by (induction xs arbitrary: acc) simp_all

section \<open>What the checks decide\<close>

definition enum_ok :: "('n, 'e, 'p, 'r) schema \<Rightarrow> nat option \<Rightarrow> raw_enum_id \<Rightarrow> bool" where
  "enum_ok S expected e \<longleftrightarrow>
     (\<exists>k. r_from_index S (raw_enum_index e) = Some k \<and> raw_enum_variant e < r_variant_count S k) \<and>
     (\<forall>ex. expected = Some ex \<longrightarrow> ex = raw_enum_index e)"

definition value_ok :: "('n, 'e, 'p, 'r) schema \<Rightarrow> graph \<Rightarrow> nat option \<Rightarrow> stored_property \<Rightarrow> bool" where
  "value_ok S g expected v = (case v of
      SNodeId r \<Rightarrow> node_exists S g r
    | SStringId i \<Rightarrow> unat (rs_index i) < pool_len (g_strings g)
    | SEnum e \<Rightarrow> enum_ok S expected e
    | _ \<Rightarrow> True)"

definition values_ok :: "('n, 'e, 'p, 'r) schema \<Rightarrow> graph \<Rightarrow> nat option \<Rightarrow> storage_array \<Rightarrow> bool" where
  "values_ok S g expected a \<longleftrightarrow> (\<forall>v\<in>set (sa_values a). value_ok S g expected v)"

text \<open>The edges a slot stands for, as triples of source, destination and value.\<close>

type_synonym edge_triple = "raw_node_id \<times> raw_node_id \<times> stored_property option"

fun triple :: "dir \<Rightarrow> raw_node_id \<Rightarrow> raw_node_id \<times> stored_property option \<Rightarrow> edge_triple" where
  "triple Out node (nb, p) = (node, nb, p)"
| "triple In node (nb, p) = (nb, node, p)"

definition node_of :: "('n, 'e, 'p, 'r) schema \<Rightarrow> 'n \<Rightarrow> nat \<Rightarrow> raw_node_id" where
  "node_of S nk seq = RawNodeId (of_nat (n_index S nk)) (of_nat seq)"

definition rows_triples ::
  "('n, 'e, 'p, 'r) schema \<Rightarrow> 'n \<Rightarrow> dir \<Rightarrow> (raw_node_id \<times> stored_property option) list list \<Rightarrow> edge_triple list" where
  "rows_triples S nk d rows = concat (map (\<lambda>(seq, row). map (triple d (node_of S nk seq)) row) (enumerate 0 rows))"

definition slot_triples :: "('n, 'e, 'p, 'r) schema \<Rightarrow> graph \<Rightarrow> 'n \<Rightarrow> dir \<Rightarrow> 'e \<Rightarrow> edge_triple list" where
  "slot_triples S g nk d ek = rows_triples S nk d (edge_rows (edge_slot_of S g nk d ek) (kind_count S g nk))"

definition edge_triples :: "('n, 'e, 'p, 'r) schema \<Rightarrow> graph \<Rightarrow> dir \<Rightarrow> 'e \<Rightarrow> edge_triple list" where
  "edge_triples S g d ek = concat (map (\<lambda>nk. slot_triples S g nk d ek) (n_all S))"

text \<open>Every half-edge of a kind has its reverse: the two directions hold the same edges.\<close>

definition edges_paired :: "('n, 'e, 'p, 'r) schema \<Rightarrow> graph \<Rightarrow> 'e \<Rightarrow> bool" where
  "edges_paired S g ek \<longleftrightarrow> mset (edge_triples S g Out ek) = mset (edge_triples S g In ek)"

definition graph_values_ok :: "('n, 'e, 'p, 'r) schema \<Rightarrow> graph \<Rightarrow> bool" where
  "graph_values_ok S g \<longleftrightarrow>
     (\<forall>nk pk. values_ok S g (p_enum_index S pk) (ps_values (prop_slot_of S g nk pk))) \<and>
     (\<forall>nk d ek. values_ok S g (e_enum_index S ek) (es_values (edge_slot_of S g nk d ek)))"

definition graph_wf :: "('n, 'e, 'p, 'r) schema \<Rightarrow> graph \<Rightarrow> bool" where
  "graph_wf S g \<longleftrightarrow> graph_ok S g \<and> graph_values_ok S g \<and> (\<forall>ek. edges_paired S g ek)"

section \<open>Offsets and types\<close>

lemma check_offsets_shape_decides:
  "decides (check_offsets_shape slot offs n)
     (offs = [] \<or> length offs = n + 1 \<and> offset_value (hd offs) = 0 \<and> (\<forall>(a, b)\<in>set (windows2 offs). a \<le> b))"
proof -
  have "decides (for_each (\<lambda>(a, b) _. map_ok (\<lambda>_. ()) (offset_checked_sub b a)) (windows2 offs) ())
      (\<forall>w\<in>set (windows2 offs). case w of (a, b) \<Rightarrow> a \<le> b)"
    by (rule decides_for_each) (auto simp: offset_checked_sub_def u32_checked_sub_def split: prod.split)
  then show ?thesis
    by (cases offs) (auto simp: check_offsets_shape_def)
qed

lemma check_offsets_bounds_decides:
  "decides (check_offsets_bounds slot offs n) (if offs = [] then n = 0 else offset_value (last offs) = n)"
  by (auto simp: check_offsets_bounds_def last_opt_def offset_zero_def offset_value_def Let_def)

lemma shape_bounds_slot_ok:
  "slot_ok offs len n \<longleftrightarrow>
     (offs = [] \<or> length offs = n + 1 \<and> offset_value (hd offs) = 0 \<and> (\<forall>(a, b)\<in>set (windows2 offs). a \<le> b)) \<and>
     (if offs = [] then len = 0 else offset_value (last offs) = len)"
  by (auto simp: slot_ok_def csr_ok_def)

lemma check_storage_type_decides: "decides (check_storage_type a t) (sa_typ a = t)"
  by (simp add: check_storage_type_def ensure_def sa_typ_TNone)

lemma check_enum_id_decides: "decides (check_enum_id S e expected) (enum_ok S expected e)"
  by (cases "r_from_index S (raw_enum_index e)"; cases expected)
    (auto simp: check_enum_id_def enum_ok_def ok_or_def split: option.split)

lemma check_string_id_decides:
  assumes "pool_repr (g_strings g) ss"
  shows "decides (check_string_id i (g_strings g)) (unat (rs_index i) < pool_len (g_strings g))"
proof -
  have "pool_get (g_strings g) i = Ok (get_at ss (unat (rs_index i)))" "pool_len (g_strings g) = length ss"
    using assms by (simp_all add: pool_get_repr pool_len_repr)
  then show ?thesis by (auto simp: check_string_id_def)
qed

text \<open>The storages of a graph, and its node kinds with their counts.\<close>

definition storages_of :: "graph \<Rightarrow> node_index \<Rightarrow> storages" where
  "storages_of g ni = \<lparr>so_node_meta = g_node_meta g, so_edges = g_edges g, so_properties = g_props g,
     so_strings = g_strings g, so_nodes = ni\<rparr>"

definition kinds_of :: "('n, 'e, 'p, 'r) schema \<Rightarrow> graph \<Rightarrow> (string \<times> nat) list" where
  "kinds_of S g = map (\<lambda>nk. (n_str S nk, kind_count S g nk)) (n_all S)"

definition canon :: "node_index \<Rightarrow> edge_triple \<Rightarrow> canon_half" where
  "canon ni = (\<lambda>(a, b, p). CanonHalf (densify ni a) (densify ni b) (opt_key p))"

definition sizes_ok :: "('n, 'e, 'p, 'r) schema \<Rightarrow> graph \<Rightarrow> bool" where
  "sizes_ok S g \<longleftrightarrow> length (g_node_meta g) = number_of_node_kinds S \<and>
     length (g_edges g) = edge_storage_size S \<and> length (g_props g) = property_storage_size S"

section \<open>The slots\<close>

lemma decides_andthen_cong:
  assumes "decides m P" and "P \<Longrightarrow> decides (f ()) Q" and "R \<longleftrightarrow> P \<and> Q"
  shows "decides (andthen m f) R"
  using decides_andthen [of m P f Q] assms by simp

context schema_laws
begin

lemma node_exists_kinds:
  "node_exists S g r \<longleftrightarrow> node_in (kinds_of S g) r"
  by (auto simp: node_exists_def node_in_def kinds_of_def kind_laws_get_at [OF node_kinds] get_at_def)

lemma sum_kinds:
  assumes "length (g_node_meta g) = number_of_node_kinds S"
  shows "sum_list (map snd (kinds_of S g)) = sum_list (map length (g_node_meta g))"
proof -
  have "map snd (kinds_of S g) = map length (g_node_meta g)"
    using assms by (intro nth_equalityI) (simp_all add: kinds_of_def number_of_node_kinds_def kind_count_def)
  then show ?thesis by simp
qed

lemma check_node_id_decides:
  assumes "length (g_node_meta g) = number_of_node_kinds S"
  shows "decides (check_node_id S r (g_node_meta g)) (node_exists S g r)"
proof (cases "n_from_index S (raw_kind r)")
  case None
  then show ?thesis by (simp add: check_node_id_def node_exists_def resolve_node_kind_def)
next
  case (Some nk)
  then show ?thesis
    using assms node_index_less [of nk]
    by (auto simp: check_node_id_def node_exists_def resolve_node_kind_def kind_count_def)
qed

lemma check_values_content_decides:
  assumes len: "length (g_node_meta g) = number_of_node_kinds S" and pool: "pool_repr (g_strings g) ss"
  shows "decides (check_values_content S a (g_node_meta g) (g_strings g) expected) (values_ok S g expected a)"
proof -
  have n: "decides (for_each (\<lambda>node _. check_node_id S node (g_node_meta g)) ns ()) (\<forall>n\<in>set ns. node_exists S g n)" for ns
    by (rule decides_for_each) (rule check_node_id_decides [OF len])
  have t: "decides (for_each (\<lambda>i _. check_string_id i (g_strings g)) ns ())
      (\<forall>i\<in>set ns. unat (rs_index i) < pool_len (g_strings g))" for ns
    by (rule decides_for_each) (rule check_string_id_decides [OF pool])
  have e: "decides (for_each (\<lambda>e _. check_enum_id S e expected) ns ()) (\<forall>e\<in>set ns. enum_ok S expected e)" for ns
    by (rule decides_for_each) (rule check_enum_id_decides)
  show ?thesis
    using n t e by (cases a) (auto simp: check_values_content_def values_ok_def value_ok_def)
qed

text \<open>A property slot.\<close>

definition prop_slot_wf :: "graph \<Rightarrow> 'n \<Rightarrow> 'p \<Rightarrow> bool" where
  "prop_slot_wf g nk pk \<longleftrightarrow> prop_slot_ok (p_property_type S pk) (kind_count S g nk) (prop_slot_of S g nk pk) \<and>
     values_ok S g (p_enum_index S pk) (ps_values (prop_slot_of S g nk pk))"

lemma check_property_slot_decides:
  assumes sizes: "sizes_ok S g" and pool: "pool_repr (g_strings g) ss"
  shows "decides (check_property_slot S (storages_of g ni) nk pk) (prop_slot_wf g nk pk)"
proof -
  let ?slot = "prop_slot_of S g nk pk" and ?t = "p_property_type S pk"
  have meta: "index_at (g_node_meta g) (n_index S nk) = Ok (g_node_meta g ! n_index S nk)"
    and slot: "index_at (g_props g) (property_storage_slot S nk pk) = Ok ?slot"
    using sizes node_index_less [of nk] property_slot_less [of nk pk] by (simp_all add: sizes_ok_def prop_slot_of_def)
  have none: "?t \<noteq> TNone" by (rule prop_type_not_none)
  let ?i = "property_slot_str (property_storage_slot S nk pk)"
  have eq: "check_property_slot S (storages_of g ni) nk pk =
    andthen (check_offsets_shape ?i (ps_offsets ?slot) (kind_count S g nk)) (\<lambda>_.
    andthen (check_storage_type (ps_values ?slot) ?t) (\<lambda>_.
    andthen (check_offsets_bounds ?i (ps_offsets ?slot) (sa_len (ps_values ?slot))) (\<lambda>_.
    check_values_content S (ps_values ?slot) (g_node_meta g) (g_strings g) (p_enum_index S pk))))"
    using meta slot none by (simp add: check_property_slot_def storages_of_def Let_def kind_count_def)
  have len: "sa_typ (ps_values ?slot) = ?t \<Longrightarrow> sa_len (ps_values ?slot) = length (sa_values (ps_values ?slot))"
    using none by (simp add: sa_len_values)
  show ?thesis
    unfolding eq
    by (rule decides_andthen_cong, rule check_offsets_shape_decides,
        rule decides_andthen, rule check_storage_type_decides,
        rule decides_andthen, rule check_offsets_bounds_decides, rule check_values_content_decides [OF _ pool])
      (use sizes len in \<open>auto simp: prop_slot_wf_def prop_slot_ok_def shape_bounds_slot_ok sizes_ok_def\<close>)
qed

text \<open>An edge slot, with the half-edges it contributes.\<close>

definition edge_slot_wf :: "graph \<Rightarrow> 'n \<Rightarrow> dir \<Rightarrow> 'e \<Rightarrow> bool" where
  "edge_slot_wf g nk d ek \<longleftrightarrow> edge_slot_ok (e_property_type S ek) (kind_count S g nk) (edge_slot_of S g nk d ek) \<and>
     (\<forall>r\<in>set (es_neighbors (edge_slot_of S g nk d ek)). node_exists S g r) \<and>
     values_ok S g (e_enum_index S ek) (es_values (edge_slot_of S g nk d ek))"

lemma canon_triple:
  assumes "key i = opt_key (snd h)"
  shows "(\<lambda>(i, nb). let value = key i; far = densify ni nb;
       (src, dst) = (case d of Out \<Rightarrow> (densify ni node, far) | In \<Rightarrow> (far, densify ni node)) in
     CanonHalf src dst value) (i, fst h) = canon ni (triple d node h)"
  using assms by (cases h; cases d) (simp_all add: canon_def)

lemma slot_canon_halves_Ok:
  assumes ok: "edge_slot_ok t n slot" and n: "n \<le> u32_max"
  shows "slot_canon_halves S ni nk d slot acc = Ok (acc @ map (canon ni) (rows_triples S nk d (edge_rows slot n)))"
proof -
  let ?offs = "es_offsets slot" and ?rows = "edge_rows slot n"
  let ?h = "\<lambda>(seq, (start, fin)). map (canon ni) (map (triple d (node_of S nk seq)) (?rows ! seq))"
  have esok: "es.ok slot n" using ok by (rule edge_slot_ok_ok)
  have rows: "length ?rows = n" using slot_csr_length [OF edge_slot_ok_csr [OF ok]] .
  have step: "(case x of (seq, (start, fin)) \<Rightarrow> \<lambda>halves.
         andthen (raw_node_new (n_index S nk) seq) (\<lambda>raw.
         let node = densify ni raw in
         Ok (halves @ map (\<lambda>(i, nb).
             let value = value_key (es_values slot) (offset_value start + i);
                 far = densify ni nb;
                 (src, dst) = (case d of Out \<Rightarrow> (node, far) | In \<Rightarrow> (far, node)) in
             CanonHalf src dst value) (enumerate 0 (get_neighbors slot start fin))))) acc = Ok (acc @ ?h x)"
    if mem: "x \<in> set (enumerate 0 (windows2 ?offs))" for x acc
  proof -
    obtain seq where seq: "Suc seq < length ?offs" and x: "x = (seq, (?offs ! seq, ?offs ! Suc seq))"
    proof -
      obtain j where "j < length (windows2 ?offs)" "x = (j, windows2 ?offs ! j)"
        using mem by (auto simp: in_set_conv_nth nth_enumerate_eq)
      then show ?thesis using that [of j] nth_windows2 [of j ?offs] by simp
    qed
    let ?a = "?offs ! seq" and ?b = "?offs ! Suc seq"
    have "get_offset ?offs seq = Some (?a, ?b)" using seq by (simp add: get_offset_Some)
    note row = es.get_offset_row [OF esok this]
    let ?canon = "\<lambda>(i, nb).
             let value = value_key (es_values slot) (offset_value ?a + i);
                 far = densify ni nb;
                 (src, dst) = (case d of Out \<Rightarrow> (densify ni (node_of S nk seq), far) | In \<Rightarrow> (far, densify ni (node_of S nk seq))) in
             CanonHalf src dst value"
    have sn: "seq < n" using row(1) .
    have raw: "raw_node_new (n_index S nk) seq = Ok (node_of S nk seq)"
      using sn n by (simp add: node_of_def)
    have hl: "length (edge_halves slot) = length (es_neighbors slot)" using length_edge_halves [OF ok] .
    have rw: "?rows ! seq = take (offset_value ?b - offset_value ?a) (drop (offset_value ?a) (edge_halves slot))"
      using row(2-4) by (simp add: edge_rows_eq)
    have nb: "get_neighbors slot ?a ?b = map fst (?rows ! seq)"
      unfolding get_neighbors_def rw edge_halves_neighbors [OF ok, symmetric]
      using row(2,3) by (simp add: take_map drop_map)
    have val: "value_key (es_values slot) (offset_value ?a + i) = opt_key (snd (?rows ! seq ! i))"
      if "i < length (?rows ! seq)" for i
    proof -
      have lt: "offset_value ?a + i < length (es_neighbors slot)"
        using that row(2,3) hl unfolding rw by simp
      then have "?rows ! seq ! i = edge_halves slot ! (offset_value ?a + i)"
        using that row(2,3) unfolding rw by simp
      then show ?thesis using edge_halves_nth [OF ok lt] by (simp add: value_key_get)
    qed
    have "map ?canon (enumerate 0 (get_neighbors slot ?a ?b)) = ?h x"
    proof (rule nth_equalityI)
      fix i assume "i < length (map ?canon (enumerate 0 (get_neighbors slot ?a ?b)))"
      then have i: "i < length (?rows ! seq)" by (simp add: nb)
      have "map ?canon (enumerate 0 (get_neighbors slot ?a ?b)) ! i = ?canon (i, fst (?rows ! seq ! i))"
        using i by (simp only: nb length_map length_enumerate nth_map nth_enumerate_eq add_0)
      also have "\<dots> = canon ni (triple d (node_of S nk seq) (?rows ! seq ! i))"
        by (rule canon_triple) (rule val [OF i])
      finally show "map ?canon (enumerate 0 (get_neighbors slot ?a ?b)) ! i = ?h x ! i"
        using i by (simp add: x)
    qed (simp add: nb x)
    then show ?thesis using raw by (simp add: x Let_def case_prod_beta')
  qed
  have flat: "concat (map ?h (enumerate 0 (windows2 ?offs))) = map (canon ni) (rows_triples S nk d ?rows)"
  proof (cases "?offs = []")
    case True
    then have "?rows = replicate n []" by (simp add: edge_rows_def slot_rows_def)
    then have "rows_triples S nk d ?rows = []"
      by (auto simp: rows_triples_def in_set_conv_nth nth_enumerate_eq)
    then show ?thesis using True by simp
  next
    case False
    then have "length ?offs = Suc n"
      using ok by (simp add: edge_slot_ok_def slot_ok_def csr_ok_def)
    then have "map ?h (enumerate 0 (windows2 ?offs)) =
        map (map (canon ni)) (map (\<lambda>(seq, row). map (triple d (node_of S nk seq)) row) (enumerate 0 ?rows))"
      using rows by (intro nth_equalityI) (auto simp: nth_enumerate_eq split: prod.split)
    then show ?thesis by (simp add: rows_triples_def map_concat comp_def)
  qed
  show ?thesis
    unfolding slot_canon_halves_def flat [symmetric] by (rule for_each_appends) (use step in simp)
qed

lemma check_edge_slot_spec:
  assumes sizes: "sizes_ok S g" and pool: "pool_repr (g_strings g) ss" and count: "kind_count S g nk \<le> u32_max"
  shows "ospec (\<lambda>halves'. edge_slot_wf g nk d ek \<and> halves' = halves @ map (canon ni) (slot_triples S g nk d ek))
    (\<lambda>_. \<not> edge_slot_wf g nk d ek) False (check_edge_slot S (storages_of g ni) nk d ek halves)"
proof -
  let ?slot = "edge_slot_of S g nk d ek" and ?t = "e_property_type S ek"
  let ?i = "edge_slot_str (edge_storage_slot S nk d ek)"
  let ?checks = "andthen (check_offsets_shape ?i (es_offsets ?slot) (kind_count S g nk)) (\<lambda>_.
    andthen (check_offsets_bounds ?i (es_offsets ?slot) (length (es_neighbors ?slot))) (\<lambda>_.
    andthen (for_each (\<lambda>node_id _. check_node_id S node_id (g_node_meta g)) (es_neighbors ?slot) ()) (\<lambda>_.
    andthen (check_storage_type (es_values ?slot) ?t) (\<lambda>_.
    andthen (if ?t \<noteq> TNone then check_offsets_bounds ?i (es_offsets ?slot) (sa_len (es_values ?slot)) else Ok ()) (\<lambda>_.
    check_values_content S (es_values ?slot) (g_node_meta g) (g_strings g) (e_enum_index S ek))))))"
  have len: "length (g_node_meta g) = number_of_node_kinds S" using sizes by (simp add: sizes_ok_def)
  have meta: "index_at (g_node_meta g) (n_index S nk) = Ok (g_node_meta g ! n_index S nk)"
    and slot: "index_at (g_edges g) (edge_storage_slot S nk d ek) = Ok ?slot"
    using sizes node_index_less [of nk] edge_slot_less [of nk d ek] by (simp_all add: sizes_ok_def edge_slot_of_def)
  have eq: "check_edge_slot S (storages_of g ni) nk d ek halves = andthen ?checks (\<lambda>_.
      andthen (assert (sa_typ (es_values ?slot) = ?t)) (\<lambda>_. slot_canon_halves S ni nk d ?slot halves))"
    using meta slot by (simp add: check_edge_slot_def storages_of_def Let_def kind_count_def andthen_assoc)
  have vlen: "sa_typ (es_values ?slot) = ?t \<Longrightarrow> ?t \<noteq> TNone \<Longrightarrow>
      sa_len (es_values ?slot) = length (sa_values (es_values ?slot))" by (simp add: sa_len_values)
  have bounds: "decides (if ?t \<noteq> TNone then check_offsets_bounds ?i (es_offsets ?slot) (sa_len (es_values ?slot)) else Ok ())
      (?t \<noteq> TNone \<longrightarrow> (if es_offsets ?slot = [] then sa_len (es_values ?slot) = 0
        else offset_value (last (es_offsets ?slot)) = sa_len (es_values ?slot)))"
    using check_offsets_bounds_decides [of ?i "es_offsets ?slot" "sa_len (es_values ?slot)"] by simp
  have dec: "decides ?checks (edge_slot_wf g nk d ek)"
    by (rule decides_andthen_cong, rule check_offsets_shape_decides,
        rule decides_andthen, rule check_offsets_bounds_decides,
        rule decides_andthen, rule decides_for_each, rule check_node_id_decides [OF len],
        rule decides_andthen, rule check_storage_type_decides,
        rule decides_andthen, rule bounds, rule check_values_content_decides [OF len pool])
      (use vlen in \<open>auto simp: edge_slot_wf_def edge_slot_ok_def shape_bounds_slot_ok\<close>)
  show ?thesis
  proof (cases "edge_slot_wf g nk d ek")
    case True
    then have "?checks = Ok ()" using decides_iff [OF dec] by simp
    moreover have "edge_slot_ok ?t (kind_count S g nk) ?slot" using True by (simp add: edge_slot_wf_def)
    ultimately show ?thesis
      unfolding eq using True slot_canon_halves_Ok [OF _ count, of ?t ?slot ni nk d halves]
      by (simp add: slot_triples_def edge_slot_ok_def)
  next
    case False
    then show ?thesis unfolding eq using dec by (cases ?checks) simp_all
  qed
qed

section \<open>Pairing\<close>

lemma node_exists_node_of:
  assumes "seq < kind_count S g nk" and "kind_count S g nk \<le> u32_max"
  shows "node_exists S g (node_of S nk seq)"
  using assms by (simp add: node_exists_def node_of_def)

text \<open>What an edge of a checked slot looks like, and that its canonical form loses nothing.\<close>

definition triple_wf :: "graph \<Rightarrow> 'e \<Rightarrow> edge_triple \<Rightarrow> bool" where
  "triple_wf g ek = (\<lambda>(a, b, p). node_exists S g a \<and> node_exists S g b \<and>
     (case p of None \<Rightarrow> e_property_type S ek = TNone | Some v \<Rightarrow> sp_typ v = e_property_type S ek))"

lemma rows_triples_mem:
  assumes "x \<in> set (rows_triples S nk d rows)"
  obtains seq h where "seq < length rows" and "h \<in> set (rows ! seq)" and "x = triple d (node_of S nk seq) h"
proof -
  obtain seq row h where "(seq, row) \<in> set (enumerate 0 rows)" and h: "h \<in> set row" "x = triple d (node_of S nk seq) h"
    using assms by (auto simp: rows_triples_def)
  then have "seq < length rows" "row = rows ! seq" by (auto simp: in_set_conv_nth nth_enumerate_eq)
  then show ?thesis using that h by blast
qed

lemma slot_triples_wf:
  assumes wf: "edge_slot_wf g nk d ek" and count: "kind_count S g nk \<le> u32_max"
    and mem: "x \<in> set (slot_triples S g nk d ek)"
  shows "triple_wf g ek x"
proof -
  let ?slot = "edge_slot_of S g nk d ek" and ?n = "kind_count S g nk"
  have ok: "edge_slot_ok (e_property_type S ek) ?n ?slot" using wf by (simp add: edge_slot_wf_def)
  note csr = edge_slot_ok_csr [OF ok]
  obtain seq h where seq: "seq < ?n" and h: "h \<in> set (edge_rows ?slot ?n ! seq)" and x: "x = triple d (node_of S nk seq) h"
    using mem rows_triples_mem slot_csr_length [OF csr] by (metis slot_triples_def)
  have "h \<in> set (concat (edge_rows ?slot ?n))" using h seq slot_csr_length [OF csr] by auto
  then have h': "h \<in> set (edge_halves ?slot)" by (simp only: slot_csr_concat [OF csr])
  then have "fst h \<in> set (es_neighbors ?slot)" unfolding edge_halves_neighbors [OF ok, symmetric] by simp
  then have "node_exists S g (fst h)" using wf by (simp add: edge_slot_wf_def)
  moreover have "case snd h of None \<Rightarrow> e_property_type S ek = TNone | Some v \<Rightarrow> sp_typ v = e_property_type S ek"
    using edge_slot_halves(1) [OF ok] h' by (simp add: halves_typed_def)
  ultimately show ?thesis
    using node_exists_node_of [OF seq count] by (cases h; cases d) (simp_all add: x triple_wf_def)
qed

lemma canon_inj:
  assumes ni: "node_index_of ni (kinds_of S g)" and "triple_wf g ek x" and "triple_wf g ek y"
    and "canon ni x = canon ni y"
  shows "x = y"
proof -
  obtain a b p where x: "x = (a, b, p)" by (cases x)
  obtain a' b' p' where y: "y = (a', b', p')" by (cases y)
  have "a = a'" "b = b'"
    using assms densify_inject [OF ni] by (auto simp: x y triple_wf_def canon_def node_exists_kinds)
  moreover have "p = p'"
    using assms opt_key_inject [of p "e_property_type S ek" p']
    by (auto simp: x y triple_wf_def canon_def split: option.splits)
  ultimately show ?thesis by (simp add: x y)
qed

end

lemma mset_map_inj:
  assumes "inj_on f (set xs \<union> set ys)"
  shows "mset (map f xs) = mset (map f ys) \<longleftrightarrow> mset xs = mset ys"
proof
  let ?g = "the_inv_into (set xs \<union> set ys) f"
  have inv: "image_mset ?g (mset (map f zs)) = mset zs" if "set zs \<subseteq> set xs \<union> set ys" for zs
  proof -
    have "map (\<lambda>x. ?g (f x)) zs = zs"
      using that by (intro map_idI) (auto intro!: the_inv_into_f_f [OF assms])
    then show ?thesis by (simp add: image_mset.compositionality comp_def flip: mset_map)
  qed
  assume "mset (map f xs) = mset (map f ys)"
  then have "image_mset ?g (mset (map f xs)) = image_mset ?g (mset (map f ys))" by simp
  then show "mset xs = mset ys" by (simp only: inv [OF Un_upper1] inv [OF Un_upper2])
qed simp

lemma sort_eq_iff: "sort xs = sort ys \<longleftrightarrow> mset xs = mset (ys :: 'a :: linorder list)"
  by (metis mset_sort properties_for_sort sorted_sort)

text \<open>Both ends of a canonical half-edge are numbers of existing nodes, so it can be named.\<close>

definition half_named :: "node_index \<Rightarrow> (string \<times> nat) list \<Rightarrow> canon_half \<Rightarrow> bool" where
  "half_named ni kinds h \<longleftrightarrow> (\<exists>a b. node_in kinds a \<and> node_in kinds b \<and>
     ch_src h = densify ni a \<and> ch_dst h = densify ni b)"

lemma half_named_labels:
  assumes "node_index_of ni kinds" and "half_named ni kinds h"
  shows "\<exists>s d. node_label ni (ch_src h) = Ok s \<and> node_label ni (ch_dst h) = Ok d"
  using assms node_label_densify [OF assms(1)] by (auto simp: half_named_def)

lemma report_pairing_mismatch_decides:
  assumes ni: "node_index_of ni kinds" and named: "\<forall>h\<in>set outs \<union> set ins. half_named ni kinds h"
  shows "decides (report_pairing_mismatch S ek ni outs ins) (outs = ins)"
proof -
  have label: "\<exists>s d. node_label ni (ch_src h) = Ok s \<and> node_label ni (ch_dst h) = Ok d" if "h \<in> set outs \<union> set ins" for h
    using half_named_labels [OF ni] named that by blast
  show ?thesis
  proof (cases "position (\<lambda>(out_half, in_half). out_half \<noteq> in_half) (zip outs ins)")
    case None
    have same: "outs ! i = ins ! i" if "i < length outs" "i < length ins" for i
    proof -
      have "(outs ! i, ins ! i) \<in> set (zip outs ins)" using that by (auto simp: set_zip)
      then show ?thesis using None by (auto simp: position_eq_None)
    qed
    consider "length ins < length outs" | "length outs < length ins" | "length outs = length ins" by linarith
    then show ?thesis
    proof cases
      case 1
      then obtain s d where "node_label ni (ch_src (outs ! length ins)) = Ok s" "node_label ni (ch_dst (outs ! length ins)) = Ok d"
        using label [of "outs ! length ins"] by auto
      then show ?thesis using None 1 by (auto simp: report_pairing_mismatch_def Let_def)
    next
      case 2
      then obtain s d where "node_label ni (ch_src (ins ! length outs)) = Ok s" "node_label ni (ch_dst (ins ! length outs)) = Ok d"
        using label [of "ins ! length outs"] by auto
      then show ?thesis using None 2 by (auto simp: report_pairing_mismatch_def Let_def)
    next
      case 3
      then have "outs = ins" using same by (intro nth_equalityI) simp_all
      then show ?thesis using None by (simp add: report_pairing_mismatch_def)
    qed
  next
    case (Some i)
    then have i: "i < length outs" "i < length ins" "outs ! i \<noteq> ins ! i" by (auto simp: position_eq_Some)
    then obtain s d s' d' where "node_label ni (ch_src (outs ! i)) = Ok s" "node_label ni (ch_dst (outs ! i)) = Ok d"
      "node_label ni (ch_src (ins ! i)) = Ok s'" "node_label ni (ch_dst (ins ! i)) = Ok d'"
      using label [of "outs ! i"] label [of "ins ! i"] by auto
    moreover have "outs \<noteq> ins" using i by auto
    ultimately show ?thesis using Some by (simp add: report_pairing_mismatch_def Let_def)
  qed
qed

lemma check_half_edge_pairing_decides:
  assumes ni: "node_index_of ni kinds" and named: "\<forall>h\<in>set outs \<union> set ins. half_named ni kinds h"
  shows "decides (check_half_edge_pairing S ek ni outs ins) (mset outs = mset ins)"
  using report_pairing_mismatch_decides [OF ni, of "sort outs" "sort ins" S ek] named
  by (simp add: check_half_edge_pairing_def sort_eq_iff)

section \<open>The drivers\<close>

text \<open>The edge slots in the order of the drivers: by kind, direction and node kind.\<close>

definition edge_buckets :: "('n, 'e, 'p, 'r) schema \<Rightarrow> ('e \<times> dir) list" where
  "edge_buckets S = concat (map (\<lambda>ek. map (\<lambda>d. (ek, d)) dir_values) (e_all S))"

definition bucket_halves :: "('n, 'e, 'p, 'r) schema \<Rightarrow> storages \<Rightarrow> 'e \<times> dir \<Rightarrow> canon_half list res" where
  "bucket_halves S st = (\<lambda>(ek, d). for_each (\<lambda>nk halves. check_edge_slot S st nk d ek halves) (n_all S) [])"

fun bucket_get :: "nat \<Rightarrow> dir \<Rightarrow> 'a list \<times> 'a list \<Rightarrow> 'a" where
  "bucket_get i Out (outs, ins) = outs ! i"
| "bucket_get i In (outs, ins) = ins ! i"

fun bucket_put :: "nat \<Rightarrow> dir \<Rightarrow> 'a \<Rightarrow> 'a list \<times> 'a list \<Rightarrow> 'a list \<times> 'a list" where
  "bucket_put i Out h (outs, ins) = (outs[i := h], ins)"
| "bucket_put i In h (outs, ins) = (outs, ins[i := h])"

lemma concat_pairs: "concat (concat (map (\<lambda>x. [f x, g x]) xs)) = concat (map (\<lambda>x. f x @ g x) xs)"
  by (induction xs) simp_all

lemma edge_slots_buckets:
  "edge_storage_slots S = concat (map (\<lambda>(ek, d). map (\<lambda>nk. (nk, d, ek)) (n_all S)) (edge_buckets S))"
  by (simp add: edge_storage_slots_def edge_buckets_def map_concat comp_def dir_values_def concat_pairs)

lemma collect_bucket:
  assumes "e_index S ek < length outs" and "e_index S ek < length ins"
  shows "for_each (collect_slot_halves S st) (map (\<lambda>nk. (nk, d, ek)) nks) (outs, ins) =
    map_ok (\<lambda>h. bucket_put (e_index S ek) d h (outs, ins))
      (for_each (\<lambda>nk halves. check_edge_slot S st nk d ek halves) nks (bucket_get (e_index S ek) d (outs, ins)))"
  using assms
proof (induction nks arbitrary: outs ins)
  case (Cons nk nks)
  have step: "collect_slot_halves S st (nk, d, ek) (outs, ins) =
      map_ok (\<lambda>h. bucket_put (e_index S ek) d h (outs, ins))
        (check_edge_slot S st nk d ek (bucket_get (e_index S ek) d (outs, ins)))"
    using Cons.prems by (cases d) (simp_all add: collect_slot_halves_def map_ok_def Let_def)
  show ?case
  proof (cases "check_edge_slot S st nk d ek (bucket_get (e_index S ek) d (outs, ins))")
    case (Ok h)
    obtain outs' ins' where put: "bucket_put (e_index S ek) d h (outs, ins) = (outs', ins')"
      by (cases "bucket_put (e_index S ek) d h (outs, ins)")
    have len: "e_index S ek < length outs'" "e_index S ek < length ins'"
      using put Cons.prems by (cases d; auto)+
    have "bucket_get (e_index S ek) d (outs', ins') = h"
      "bucket_put (e_index S ek) d h' (outs', ins') = bucket_put (e_index S ek) d h' (outs, ins)" for h'
      using put Cons.prems by (cases d; auto)+
    then show ?thesis
      using Cons.IH [OF len] put Ok by (simp add: step)
  qed (simp_all add: step)
qed (cases d; simp)

text \<open>An element of a parallel stage that panics aside, rayon's ordered reduction is the sequential loop.\<close>

lemma par_reduce_for_each:
  assumes "\<And>x. x \<in> set xs \<Longrightarrow> f x \<noteq> Panic"
  shows "par_reduce f xs = for_each (\<lambda>x _. f x) xs ()"
proof -
  have stop: "fold (\<lambda>x acc. result_and acc (f x)) xs r = r" if "r \<noteq> Ok ()" for r and xs :: "'a list"
    using that by (induction xs) (cases r; simp)+
  have "fold (\<lambda>x acc. result_and acc (f x)) xs (Ok ()) = for_each (\<lambda>x _. f x) xs ()"
  proof (induction xs)
    case (Cons x xs)
    then show ?case using stop [of "f x" xs] by (cases "f x") auto
  qed simp
  moreover have "Panic \<notin> f ` set xs" using assms by (metis imageE)
  ultimately show ?thesis by (simp add: par_reduce_def)
qed

context schema_laws
begin

lemma edge_buckets_distinct: "distinct (edge_buckets S)"
proof -
  have "map (\<lambda>(ek, d). (ek, d)) (edge_buckets S) = List.product (e_all S) dir_values"
    by (simp add: edge_buckets_def product_concat_map)
  then show ?thesis
    using distinct_product [OF kind_laws_distinct [OF edge_kinds], of dir_values] by (simp add: dir_values_def)
qed

lemma edge_buckets_UNIV: "set (edge_buckets S) = UNIV"
proof -
  have "(ek, d) \<in> set (edge_buckets S)" for ek d
    using edge_laws(6) [of ek] by (simp add: edge_buckets_def del: edge_laws) blast
  then show ?thesis by auto
qed

lemma bucket_get_put:
  "length outs = number_of_edge_kinds S \<Longrightarrow> length ins = number_of_edge_kinds S \<Longrightarrow>
     bucket_get (e_index S ek') d' (bucket_put (e_index S ek) d h (outs, ins)) =
     (if ek' = ek \<and> d' = d then h else bucket_get (e_index S ek') d' (outs, ins))"
  using edge_laws(1) [of ek] by (cases d; cases d') (auto simp: number_of_edge_kinds_def nth_list_update simp del: edge_laws)

text \<open>Collecting a bucket at a time, and storing what each gives, is the loop over the slots.\<close>

lemma collect_buckets:
  assumes "length outs = number_of_edge_kinds S" and "length ins = number_of_edge_kinds S" and "distinct bs"
    and "\<forall>(ek, d)\<in>set bs. bucket_get (e_index S ek) d (outs, ins) = []"
  shows "for_each (collect_slot_halves S st) (concat (map (\<lambda>(ek, d). map (\<lambda>nk. (nk, d, ek)) (n_all S)) bs)) (outs, ins) =
    for_each (\<lambda>(ek, d) oi. map_ok (\<lambda>h. bucket_put (e_index S ek) d h oi) (bucket_halves S st (ek, d))) bs (outs, ins)"
  using assms
proof (induction bs arbitrary: outs ins)
  case (Cons b bs)
  obtain ek d where b: "b = (ek, d)" by (cases b)
  have lt: "e_index S ek < length outs" "e_index S ek < length ins"
    using Cons.prems by (simp_all add: number_of_edge_kinds_def)
  have first: "for_each (collect_slot_halves S st) (map (\<lambda>nk. (nk, d, ek)) (n_all S)) (outs, ins) =
      map_ok (\<lambda>h. bucket_put (e_index S ek) d h (outs, ins)) (bucket_halves S st (ek, d))"
    using collect_bucket [OF lt] Cons.prems(4) by (simp add: b bucket_halves_def)
  show ?case
  proof (cases "bucket_halves S st (ek, d)")
    case (Ok h)
    obtain outs' ins' where put: "bucket_put (e_index S ek) d h (outs, ins) = (outs', ins')"
      by (cases "bucket_put (e_index S ek) d h (outs, ins)")
    have "length outs' = number_of_edge_kinds S" "length ins' = number_of_edge_kinds S"
      using put Cons.prems(1,2) by (cases d; auto)+
    moreover have "\<forall>(ek', d')\<in>set bs. bucket_get (e_index S ek') d' (outs', ins') = []"
    proof (clarify)
      fix ek' d' assume "(ek', d') \<in> set bs"
      then have "(ek', d') \<noteq> (ek, d)" "bucket_get (e_index S ek') d' (outs, ins) = []"
        using Cons.prems(3,4) by (auto simp: b)
      then show "bucket_get (e_index S ek') d' (outs', ins') = []"
        using bucket_get_put [OF Cons.prems(1,2), of ek' d' ek d h] put by auto
    qed
    ultimately show ?thesis
      using Cons.IH [of outs' ins'] Cons.prems(3) put Ok first by (simp add: b for_each_append)
  qed (use first in \<open>simp_all add: b for_each_append\<close>)
qed simp

text \<open>The half-edges of every kind and direction, or an error if some slot is malformed.\<close>

definition all_halves :: "graph \<Rightarrow> node_index \<Rightarrow> canon_half list list \<times> canon_half list list \<Rightarrow> bool" where
  "all_halves g ni oi \<longleftrightarrow> length (fst oi) = number_of_edge_kinds S \<and> length (snd oi) = number_of_edge_kinds S \<and>
     (\<forall>ek d. bucket_get (e_index S ek) d oi = map (canon ni) (edge_triples S g d ek))"

definition edge_slots_wf :: "graph \<Rightarrow> bool" where
  "edge_slots_wf g \<longleftrightarrow> (\<forall>nk d ek. edge_slot_wf g nk d ek)"

lemma bucket_halves_spec:
  assumes sizes: "sizes_ok S g" and pool: "pool_repr (g_strings g) ss" and count: "\<And>nk. kind_count S g nk \<le> u32_max"
  shows "ospec (\<lambda>h. (\<forall>nk. edge_slot_wf g nk d ek) \<and> h = map (canon ni) (edge_triples S g d ek))
    (\<lambda>_. \<not> (\<forall>nk. edge_slot_wf g nk d ek)) False (bucket_halves S (storages_of g ni) (ek, d))"
proof -
  let ?P = "\<lambda>ys h. (\<forall>nk\<in>set ys. edge_slot_wf g nk d ek) \<and>
      h = map (canon ni) (concat (map (\<lambda>nk. slot_triples S g nk d ek) ys))"
  have "ospec (?P (n_all S)) (\<lambda>_. \<not> (\<forall>nk. edge_slot_wf g nk d ek)) False
      (for_each (\<lambda>nk halves. check_edge_slot S (storages_of g ni) nk d ek halves) (n_all S) [])"
  proof (rule ospec_for_each)
    fix ys nk zs h assume "?P ys h"
    then show "ospec (?P (ys @ [nk])) (\<lambda>_. \<not> (\<forall>nk. edge_slot_wf g nk d ek)) False
        (check_edge_slot S (storages_of g ni) nk d ek h)"
      by (intro ospec_mono [OF check_edge_slot_spec [OF sizes pool count]]) auto
  qed simp
  then show ?thesis
    unfolding bucket_halves_def prod.case
    by (rule ospec_mono) (auto simp: edge_triples_def)
qed

lemma collect_spec:
  assumes sizes: "sizes_ok S g" and pool: "pool_repr (g_strings g) ss" and count: "\<And>nk. kind_count S g nk \<le> u32_max"
  shows "ospec (\<lambda>oi. edge_slots_wf g \<and> all_halves g ni oi) (\<lambda>_. \<not> edge_slots_wf g) False
    (for_each (\<lambda>(ek, d) oi. map_ok (\<lambda>h. bucket_put (e_index S ek) d h oi) (bucket_halves S (storages_of g ni) (ek, d)))
      (edge_buckets S) (replicate (number_of_edge_kinds S) [], replicate (number_of_edge_kinds S) []))"
proof -
  let ?P = "\<lambda>ys oi. length (fst oi) = number_of_edge_kinds S \<and> length (snd oi) = number_of_edge_kinds S \<and>
     (\<forall>(ek, d)\<in>set ys. (\<forall>nk. edge_slot_wf g nk d ek) \<and>
        bucket_get (e_index S ek) d oi = map (canon ni) (edge_triples S g d ek))"
  have "ospec (?P (edge_buckets S)) (\<lambda>_. \<not> edge_slots_wf g) False
    (for_each (\<lambda>(ek, d) oi. map_ok (\<lambda>h. bucket_put (e_index S ek) d h oi) (bucket_halves S (storages_of g ni) (ek, d)))
      (edge_buckets S) (replicate (number_of_edge_kinds S) [], replicate (number_of_edge_kinds S) []))"
  proof (rule ospec_for_each)
    fix ys zs :: "('e \<times> dir) list" and y :: "'e \<times> dir" and oi
    assume inv: "?P ys oi"
    obtain ek d where y: "y = (ek, d)" by (cases y)
    obtain outs ins where oi: "oi = (outs, ins)" by (cases oi)
    have len: "length outs = number_of_edge_kinds S" "length ins = number_of_edge_kinds S" using inv by (simp_all add: oi)
    show "ospec (?P (ys @ [y])) (\<lambda>_. \<not> edge_slots_wf g) False
        ((\<lambda>(ek, d) oi. map_ok (\<lambda>h. bucket_put (e_index S ek) d h oi) (bucket_halves S (storages_of g ni) (ek, d))) y oi)"
      unfolding y prod.case ospec_map_ok
    proof (rule ospec_mono [OF bucket_halves_spec [OF sizes pool count]])
      fix h assume h: "(\<forall>nk. edge_slot_wf g nk d ek) \<and> h = map (canon ni) (edge_triples S g d ek)"
      have "length (fst (bucket_put (e_index S ek) d h oi)) = number_of_edge_kinds S"
        "length (snd (bucket_put (e_index S ek) d h oi)) = number_of_edge_kinds S"
        using len by (cases d; simp add: oi)+
      then show "?P (ys @ [(ek, d)]) (bucket_put (e_index S ek) d h oi)"
        using inv h unfolding oi by (auto simp: bucket_get_put [OF len] split: if_splits)
    qed (auto simp: edge_slots_wf_def)
  qed simp
  then show ?thesis
    by (rule ospec_mono) (auto simp: all_halves_def edge_slots_wf_def edge_buckets_UNIV)
qed

text \<open>The loop over the slots, bucket by bucket.\<close>

lemma check_slots_buckets:
  "check_slots S st =
     andthen (for_each (\<lambda>(node_kind, property_kind) _. check_property_slot S st node_kind property_kind)
       (property_storage_slots S) ()) (\<lambda>_.
     andthen (for_each (\<lambda>(ek, d) oi. map_ok (\<lambda>h. bucket_put (e_index S ek) d h oi) (bucket_halves S st (ek, d)))
       (edge_buckets S) (replicate (number_of_edge_kinds S) [], replicate (number_of_edge_kinds S) [])) (\<lambda>(out_halves, in_halves).
     for_each (\<lambda>edge_kind _.
         andthen (index_at out_halves (e_index S edge_kind)) (\<lambda>outs.
         andthen (index_at in_halves (e_index S edge_kind)) (\<lambda>ins.
         check_half_edge_pairing S edge_kind (so_nodes st) outs ins)))
       (e_all S) ()))"
proof -
  have "bucket_get (e_index S ek) d (replicate (number_of_edge_kinds S) [], replicate (number_of_edge_kinds S) []) = []"
    for ek d by (cases d) (simp_all add: number_of_edge_kinds_def)
  then have "for_each (collect_slot_halves S st) (edge_storage_slots S)
      (replicate (number_of_edge_kinds S) [], replicate (number_of_edge_kinds S) []) =
    for_each (\<lambda>(ek, d) oi. map_ok (\<lambda>h. bucket_put (e_index S ek) d h oi) (bucket_halves S st (ek, d)))
      (edge_buckets S) (replicate (number_of_edge_kinds S) [], replicate (number_of_edge_kinds S) [])"
    unfolding edge_slots_buckets by (intro collect_buckets) (auto simp: edge_buckets_distinct)
  then show ?thesis by (simp add: check_slots_def)
qed

definition prop_slots_wf :: "graph \<Rightarrow> bool" where
  "prop_slots_wf g \<longleftrightarrow> (\<forall>nk pk. prop_slot_wf g nk pk)"

lemma check_property_slots_decides:
  assumes "sizes_ok S g" and "pool_repr (g_strings g) ss"
  shows "decides (for_each (\<lambda>(nk, pk) _. check_property_slot S (storages_of g ni) nk pk) (property_storage_slots S) ())
    (prop_slots_wf g)"
proof -
  have "decides (for_each (\<lambda>(nk, pk) _. check_property_slot S (storages_of g ni) nk pk) (property_storage_slots S) ())
      (\<forall>k\<in>set (property_storage_slots S). case k of (nk, pk) \<Rightarrow> prop_slot_wf g nk pk)"
    by (rule decides_for_each) (auto intro: check_property_slot_decides [OF assms])
  moreover have "(\<forall>k\<in>set (property_storage_slots S). case k of (nk, pk) \<Rightarrow> prop_slot_wf g nk pk) \<longleftrightarrow> prop_slots_wf g"
    unfolding prop_slots_wf_def using property_slot_mem by fastforce
  ultimately show ?thesis by simp
qed

text \<open>The facts a driver starts from once the sizes are right and the nodes are numbered.\<close>

definition checkable :: "graph \<Rightarrow> node_index \<Rightarrow> bool" where
  "checkable g ni \<longleftrightarrow> sizes_ok S g \<and> node_index_of ni (kinds_of S g) \<and> (\<exists>ss. pool_repr (g_strings g) ss)"

lemma checkable_count:
  assumes "checkable g ni" shows "kind_count S g nk \<le> u32_max"
proof -
  have "kind_count S g nk \<in> set (map snd (kinds_of S g))"
    using node_laws(6) [of nk] by (force simp: kinds_of_def simp del: node_laws)
  then have "kind_count S g nk \<le> sum_list (map snd (kinds_of S g))" by (rule member_le_sum_list) simp
  then show ?thesis using assms by (simp add: checkable_def node_index_of_def)
qed

lemma halves_named:
  assumes ch: "checkable g ni" and wf: "edge_slots_wf g"
  shows "\<forall>h\<in>set (map (canon ni) (edge_triples S g d ek)). half_named ni (kinds_of S g) h"
proof
  fix h assume "h \<in> set (map (canon ni) (edge_triples S g d ek))"
  then obtain x nk where x: "h = canon ni x" "x \<in> set (slot_triples S g nk d ek)"
    by (auto simp: edge_triples_def)
  then have "triple_wf g ek x"
    using slot_triples_wf [OF _ checkable_count [OF ch]] wf by (auto simp: edge_slots_wf_def)
  then show "half_named ni (kinds_of S g) h"
    by (cases x) (auto simp: half_named_def x(1) canon_def triple_wf_def node_exists_kinds)
qed

lemma paired_canon:
  assumes ch: "checkable g ni" and wf: "edge_slots_wf g"
  shows "mset (map (canon ni) (edge_triples S g Out ek)) = mset (map (canon ni) (edge_triples S g In ek)) \<longleftrightarrow>
    edges_paired S g ek"
proof -
  have "triple_wf g ek x" if mem: "x \<in> set (edge_triples S g Out ek) \<union> set (edge_triples S g In ek)" for x
  proof -
    obtain nk d where "x \<in> set (slot_triples S g nk d ek)" using mem by (auto simp: edge_triples_def)
    then show ?thesis
      using slot_triples_wf [OF _ checkable_count [OF ch]] wf unfolding edge_slots_wf_def by blast
  qed
  then have "inj_on (canon ni) (set (edge_triples S g Out ek) \<union> set (edge_triples S g In ek))"
    using canon_inj [of ni g ek] ch by (auto simp: inj_on_def checkable_def)
  then show ?thesis unfolding edges_paired_def by (rule mset_map_inj)
qed

lemma pairing_decides:
  assumes ch: "checkable g ni" and wf: "edge_slots_wf g" and h: "all_halves g ni (outs, ins)"
  shows "decides (andthen (index_at outs (e_index S ek)) (\<lambda>os.
      andthen (index_at ins (e_index S ek)) (\<lambda>is. check_half_edge_pairing S ek ni os is))) (edges_paired S g ek)"
proof -
  have o: "index_at outs (e_index S ek) = Ok (map (canon ni) (edge_triples S g Out ek))"
    and i: "index_at ins (e_index S ek) = Ok (map (canon ni) (edge_triples S g In ek))"
    using h [unfolded all_halves_def, THEN conjunct2, THEN conjunct2, rule_format, of ek Out]
      h [unfolded all_halves_def, THEN conjunct2, THEN conjunct2, rule_format, of ek In] h edge_laws(1) [of ek]
    by (simp_all add: all_halves_def number_of_edge_kinds_def del: edge_laws)
  have "\<forall>h\<in>set (map (canon ni) (edge_triples S g Out ek)) \<union> set (map (canon ni) (edge_triples S g In ek)).
      half_named ni (kinds_of S g) h"
    using halves_named [OF ch wf] by blast
  then have "decides (check_half_edge_pairing S ek ni (map (canon ni) (edge_triples S g Out ek))
      (map (canon ni) (edge_triples S g In ek)))
      (mset (map (canon ni) (edge_triples S g Out ek)) = mset (map (canon ni) (edge_triples S g In ek)))"
    using ch by (intro check_half_edge_pairing_decides) (auto simp: checkable_def)
  then show ?thesis unfolding o i andthen.simps paired_canon [OF ch wf] .
qed

lemma check_slots_decides:
  assumes ch: "checkable g ni"
  shows "decides (check_slots S (storages_of g ni)) (prop_slots_wf g \<and> edge_slots_wf g \<and> (\<forall>ek. edges_paired S g ek))"
proof -
  obtain ss where pool: "pool_repr (g_strings g) ss" and sizes: "sizes_ok S g" using ch by (auto simp: checkable_def)
  let ?collect = "for_each (\<lambda>(ek, d) oi. map_ok (\<lambda>h. bucket_put (e_index S ek) d h oi)
        (bucket_halves S (storages_of g ni) (ek, d)))
      (edge_buckets S) (replicate (number_of_edge_kinds S) [], replicate (number_of_edge_kinds S) [])"
  have nodes: "so_nodes (storages_of g ni) = ni" by (simp add: storages_of_def)
  have all_kinds: "(\<forall>ek\<in>set (e_all S). edges_paired S g ek) \<longleftrightarrow> (\<forall>ek. edges_paired S g ek)"
    using edge_laws(6) by blast
  have rest: "decides (andthen ?collect (\<lambda>(out_halves, in_halves).
     for_each (\<lambda>edge_kind _.
         andthen (index_at out_halves (e_index S edge_kind)) (\<lambda>outs.
         andthen (index_at in_halves (e_index S edge_kind)) (\<lambda>ins.
         check_half_edge_pairing S edge_kind (so_nodes (storages_of g ni)) outs ins)))
       (e_all S) ())) (edge_slots_wf g \<and> (\<forall>ek. edges_paired S g ek))"
    using collect_spec [OF sizes pool checkable_count [OF ch], of ni]
  proof (cases ?collect)
    case (Ok oi)
    obtain outs ins where oi: "oi = (outs, ins)" by (cases oi)
    have wf: "edge_slots_wf g" and h: "all_halves g ni (outs, ins)"
      using collect_spec [OF sizes pool checkable_count [OF ch], of ni] Ok by (simp_all add: oi)
    have "decides (for_each (\<lambda>edge_kind _.
         andthen (index_at outs (e_index S edge_kind)) (\<lambda>os.
         andthen (index_at ins (e_index S edge_kind)) (\<lambda>is.
         check_half_edge_pairing S edge_kind (so_nodes (storages_of g ni)) os is))) (e_all S) ())
       (\<forall>ek\<in>set (e_all S). edges_paired S g ek)"
      unfolding nodes by (rule decides_for_each) (rule pairing_decides [OF ch wf h])
    then have "decides (for_each (\<lambda>edge_kind _.
         andthen (index_at outs (e_index S edge_kind)) (\<lambda>os.
         andthen (index_at ins (e_index S edge_kind)) (\<lambda>is.
         check_half_edge_pairing S edge_kind (so_nodes (storages_of g ni)) os is))) (e_all S) ())
       (\<forall>ek. edges_paired S g ek)" unfolding all_kinds .
    then show ?thesis using Ok wf by (simp only: oi andthen.simps prod.case simp_thms)
  qed simp_all
  show ?thesis
    unfolding check_slots_buckets
    by (rule decides_andthen, rule check_property_slots_decides [OF sizes pool], rule rest)
qed

text \<open>No unit of the parallel driver panics, so its ordered reductions are the loops.\<close>

lemma parallel_check_slots_eq:
  assumes ch: "checkable g ni"
  shows "parallel_check_slots S (storages_of g ni) = check_slots S (storages_of g ni)"
proof -
  let ?st = "storages_of g ni"
  obtain ss where pool: "pool_repr (g_strings g) ss" and sizes: "sizes_ok S g" using ch by (auto simp: checkable_def)
  have nodes: "so_nodes ?st = ni" by (simp add: storages_of_def)
  have props: "par_reduce (\<lambda>(nk, pk). check_property_slot S ?st nk pk) (property_storage_slots S) =
      for_each (\<lambda>(nk, pk) _. check_property_slot S ?st nk pk) (property_storage_slots S) ()"
    using decides_no_panic [OF check_property_slot_decides [OF sizes pool]]
    by (subst par_reduce_for_each) (auto intro: for_each_cong)
  have nopanic: "bucket_halves S ?st b \<noteq> Panic" for b
    using bucket_halves_spec [OF sizes pool checkable_count [OF ch], of "snd b" "fst b" ni] by (cases b) auto
  then have "Panic \<notin> bucket_halves S ?st ` set (edge_buckets S)" by (metis imageE)
  then have collected: "par_collect (\<lambda>(ek, d). for_each (\<lambda>nk halves. check_edge_slot S ?st nk d ek halves) (n_all S) [])
      (edge_buckets S) = Ok (map (bucket_halves S ?st) (edge_buckets S))"
    by (simp add: par_collect_def bucket_halves_def)
  let ?init = "(replicate (number_of_edge_kinds S) ([] :: canon_half list), replicate (number_of_edge_kinds S) ([] :: canon_half list))"
  have store: "for_each (\<lambda>((ek, d), halves) (outs, ins).
         case d of
           Out \<Rightarrow> andthen halves (\<lambda>h. map_ok (\<lambda>v. (v, ins)) (store_at outs (e_index S ek) h))
         | In \<Rightarrow> andthen halves (\<lambda>h. map_ok (\<lambda>v. (outs, v)) (store_at ins (e_index S ek) h)))
       (zip bs (map (bucket_halves S ?st) bs)) (outs, ins) =
     for_each (\<lambda>(ek, d) oi. map_ok (\<lambda>h. bucket_put (e_index S ek) d h oi) (bucket_halves S ?st (ek, d))) bs (outs, ins)"
    if "length outs = number_of_edge_kinds S" "length ins = number_of_edge_kinds S" for bs outs ins
    using that
  proof (induction bs arbitrary: outs ins)
    case (Cons b bs)
    obtain ek d where b: "b = (ek, d)" by (cases b)
    have lt: "e_index S ek < length outs" "e_index S ek < length ins"
      using Cons.prems by (simp_all add: number_of_edge_kinds_def)
    show ?case
      using Cons.IH [of "outs[e_index S ek := _]" ins] Cons.IH [of outs "ins[e_index S ek := _]"] Cons.prems lt
      by (cases "bucket_halves S ?st (ek, d)"; cases d) (simp_all add: b)
  qed simp
  have pairing: "par_reduce (\<lambda>((outs, ins), ek). report_pairing_mismatch S ek ni (sort outs) (sort ins))
      (zip (zip outs ins) (e_all S)) =
    for_each (\<lambda>ek _. andthen (index_at outs (e_index S ek)) (\<lambda>os. andthen (index_at ins (e_index S ek)) (\<lambda>is.
         check_half_edge_pairing S ek ni os is))) (e_all S) ()"
    if wf: "edge_slots_wf g" and h: "all_halves g ni (outs, ins)" for outs ins
  proof -
    let ?f = "\<lambda>ek. ((outs ! e_index S ek, ins ! e_index S ek), ek)"
    have len: "length outs = length (e_all S)" "length ins = length (e_all S)"
      using h by (simp_all add: all_halves_def number_of_edge_kinds_def)
    have zip: "zip (zip outs ins) (e_all S) = map ?f (e_all S)"
      using len by (intro nth_equalityI) simp_all
    have eq: "(\<lambda>((outs, ins), ek). report_pairing_mismatch S ek ni (sort outs) (sort ins)) (?f ek) =
        andthen (index_at outs (e_index S ek)) (\<lambda>os. andthen (index_at ins (e_index S ek)) (\<lambda>is.
         check_half_edge_pairing S ek ni os is))" for ek
      using len edge_laws(1) [of ek] by (simp add: check_half_edge_pairing_def del: edge_laws)
    have np: "(\<lambda>((outs, ins), ek). report_pairing_mismatch S ek ni (sort outs) (sort ins)) (?f ek) \<noteq> Panic" for ek
      unfolding eq using decides_no_panic [OF pairing_decides [OF ch wf h]] by blast
    have "par_reduce (\<lambda>((outs, ins), ek). report_pairing_mismatch S ek ni (sort outs) (sort ins)) (map ?f (e_all S)) =
        for_each (\<lambda>x _. (\<lambda>((outs, ins), ek). report_pairing_mismatch S ek ni (sort outs) (sort ins)) x) (map ?f (e_all S)) ()"
      by (rule par_reduce_for_each) (use np in \<open>simp only: set_map image_iff, blast\<close>)
    then show ?thesis unfolding zip for_each_map eq .
  qed
  show ?thesis
    unfolding parallel_check_slots_def check_slots_buckets props collected nodes Let_def andthen.simps
      edge_buckets_def [symmetric]
  proof (rule arg_cong [of _ _ "andthen _"], rule ext)
    fix u :: unit
    let ?C = "for_each (\<lambda>(ek, d) oi. map_ok (\<lambda>h. bucket_put (e_index S ek) d h oi) (bucket_halves S ?st (ek, d)))
      (edge_buckets S) ?init"
    show "andthen (for_each (\<lambda>((ek, d), halves) (outs, ins).
         case d of
           In \<Rightarrow> andthen halves (\<lambda>h. map_ok (\<lambda>v. (outs, v)) (store_at ins (e_index S ek) h))
         | Out \<Rightarrow> andthen halves (\<lambda>h. map_ok (\<lambda>v. (v, ins)) (store_at outs (e_index S ek) h)))
       (zip (edge_buckets S) (map (bucket_halves S ?st) (edge_buckets S))) ?init)
         (\<lambda>(outs, ins). par_reduce (\<lambda>((outs, ins), ek). report_pairing_mismatch S ek ni (sort outs) (sort ins))
           (zip (zip outs ins) (e_all S))) =
       andthen ?C (\<lambda>(outs, ins). for_each (\<lambda>ek _. andthen (index_at outs (e_index S ek)) (\<lambda>os.
         andthen (index_at ins (e_index S ek)) (\<lambda>is. check_half_edge_pairing S ek ni os is))) (e_all S) ())"
    proof (cases ?C)
      case (Ok oi)
      then have "edge_slots_wf g" "all_halves g ni oi"
        using collect_spec [OF sizes pool checkable_count [OF ch], of ni] by simp_all
      then show ?thesis
        using Ok pairing by (cases oi) (simp add: store)
    qed (simp_all add: store)
  qed
qed

section \<open>\<open>check_integrity\<close>\<close>

lemma graph_wf_iff:
  assumes "pool_repr (g_strings g) ss"
  shows "graph_wf S g \<longleftrightarrow> sizes_ok S g \<and> sum_list (map length (g_node_meta g)) \<le> u32_max \<and>
    prop_slots_wf g \<and> edge_slots_wf g \<and> (\<forall>ek. edges_paired S g ek)"
  using assms unfolding graph_wf_def graph_ok_def graph_values_ok_def sizes_ok_def prop_slots_wf_def edge_slots_wf_def
    prop_slot_wf_def edge_slot_wf_def by blast

lemma graph_check_integrity_cases:
  assumes pool: "pool_repr (g_strings g) ss"
  shows "decides (graph_check_integrity par S g) (graph_wf S g)"
    and "graph_check_integrity par S g = graph_check_integrity False S g"
proof -
  let ?kinds = "map_each (\<lambda>kind. map_ok (\<lambda>metas. (n_str S kind, length metas))
         (index_at (g_node_meta g) (n_index S kind))) (n_all S)"
  have both: "decides (graph_check_integrity par S g) (graph_wf S g) \<and>
      graph_check_integrity par S g = graph_check_integrity False S g"
  proof (cases "sizes_ok S g")
    case False
    then show ?thesis
      by (auto simp: graph_check_integrity_def check_integrity_def check_storage_sizes_def sizes_ok_def
          graph_wf_def graph_ok_def)
  next
    case sizes: True
    have kinds: "?kinds = Ok (kinds_of S g)"
      unfolding kinds_of_def
      by (rule map_each_Ok_cong) (use sizes node_index_less in \<open>simp add: sizes_ok_def kind_count_def\<close>)
    have sum: "sum_list (map snd (kinds_of S g)) = sum_list (map length (g_node_meta g))"
      by (rule sum_kinds) (use sizes in \<open>simp add: sizes_ok_def\<close>)
    have eq: "graph_check_integrity p S g = andthen (node_index_new (kinds_of S g)) (\<lambda>nodes.
        if p \<and> is_worthwhile (storages_of g nodes) then parallel_check_slots S (storages_of g nodes)
        else check_slots S (storages_of g nodes))" for p
    proof -
      have "check_storage_sizes S (g_node_meta g) (g_edges g) (g_props g) = Ok ()"
        using sizes by (simp add: check_storage_sizes_def sizes_ok_def)
      then show ?thesis
        unfolding graph_check_integrity_def check_integrity_def kinds storages_of_def Let_def by simp
    qed
    show ?thesis
    proof (cases "node_index_new (kinds_of S g)")
      case (Ok ni)
      then have ni: "node_index_of ni (kinds_of S g)" using node_index_new_spec [of "kinds_of S g"] by simp
      then have ch: "checkable g ni" using sizes pool by (auto simp: checkable_def)
      have "decides (check_slots S (storages_of g ni)) (graph_wf S g)"
        using check_slots_decides [OF ch] sizes ni sum by (simp add: graph_wf_iff [OF pool] node_index_of_def)
      then show ?thesis unfolding eq using Ok parallel_check_slots_eq [OF ch] by simp
    next
      case (Err e)
      then have "u32_max < sum_list (map snd (kinds_of S g))" using node_index_new_spec [of "kinds_of S g"] by simp
      then show ?thesis unfolding eq using Err sum by (simp add: graph_wf_iff [OF pool])
    qed (use node_index_new_spec [of "kinds_of S g"] in simp_all)
  qed
  then show "decides (graph_check_integrity par S g) (graph_wf S g)"
    and "graph_check_integrity par S g = graph_check_integrity False S g" by blast+
qed

end

end
