(* ===== verification/Edges_Spec.thy ===== *)
theory Edges_Spec
  imports Classify_Spec Nodes_Spec Integrity_Spec
begin

text \<open>
  The new edges of a diff: an edge is added when both of its ends resolve to nodes that are there
  after the diff, and is dropped as a whole otherwise. What the loop of \<open>stage\<close> buckets for a node is
  the list of its halves of the added edges, in the order of the diff.
\<close>

section \<open>Baselines\<close>

lemma last_offsets_spec:
  assumes "\<And>r. r \<in> set rs \<Longrightarrow> pr_slot r < length ps \<and> pr_offsets r \<noteq> []"
  shows "\<exists>plo. last_offsets (length ps) rs = Ok plo \<and> last_offsets_ok ps (fold put_replace rs ps) plo"
proof -
  have "ospec (last_offsets_ok ps (fold put_replace rs ps)) (\<lambda>e. False) False (last_offsets (length ps) rs)"
    unfolding last_offsets_def
  proof (rule ospec_for_each [where P = "\<lambda>ys. last_offsets_ok ps (fold put_replace ys ps)"])
    show "last_offsets_ok ps (fold put_replace [] ps) (replicate (length ps) None)"
      by (simp add: last_offsets_ok_def)
  next
    fix ys y zs v assume "rs = ys @ y # zs" and v: "last_offsets_ok ps (fold put_replace ys ps) v"
    then have "pr_slot y < length ps" "pr_offsets y \<noteq> []" using assms [of y] by simp_all
    then show "ospec (last_offsets_ok ps (fold put_replace (ys @ [y]) ps)) (\<lambda>e. False) False
        (store_at v (pr_slot y) (last_opt (pr_offsets y)))"
      using v by (auto simp: last_offsets_ok_def put_replace_def last_opt_def nth_list_update split: option.splits)
  qed
  then show ?thesis by (cases "last_offsets (length ps) rs") auto
qed

lemma offsets_baseline_spec:
  assumes "\<And>r. r \<in> set rs \<Longrightarrow> er_slot r < length es"
  shows "\<exists>bl. offsets_baseline (length es) rs = Ok bl \<and> baseline_ok es (fold put_edge_replace rs es) bl"
proof -
  have "ospec (baseline_ok es (fold put_edge_replace rs es)) (\<lambda>e. False) False (offsets_baseline (length es) rs)"
    unfolding offsets_baseline_def
  proof (rule ospec_for_each [where P = "\<lambda>ys. baseline_ok es (fold put_edge_replace ys es)"])
    show "baseline_ok es (fold put_edge_replace [] es) (replicate (length es) None)"
      by (simp add: baseline_ok_def)
  next
    fix ys y zs v assume "rs = ys @ y # zs" and v: "baseline_ok es (fold put_edge_replace ys es) v"
    then have "er_slot y < length es" using assms [of y] by simp
    then show "ospec (baseline_ok es (fold put_edge_replace (ys @ [y]) es)) (\<lambda>e. False) False
        (store_at v (er_slot y) (Some (er_offsets y)))"
      using v by (auto simp: baseline_ok_def put_edge_replace_def nth_list_update split: option.splits)
  qed
  then show ?thesis by (cases "offsets_baseline (length es) rs") auto
qed

section \<open>The edges that are added\<close>

text \<open>A node that is there after the diff: a new one, or one neither deleted before nor removed by it.\<close>

definition node_lives ::
  "('n, 'e, 'p, 'r) schema \<Rightarrow> graph \<Rightarrow> ('n \<Rightarrow> nat) \<Rightarrow> raw_node_id list \<Rightarrow> 'n node_id \<Rightarrow> bool" where
  "node_lives S g tot removed n \<longleftrightarrow> nid_seq n < tot (nid_kind n) \<and>
     (nid_seq n < kind_count S g (nid_kind n) \<longrightarrow>
        is_node_deleted S g n = Ok False \<and> node_of S (nid_kind n) (nid_seq n) \<notin> set removed)"

text \<open>Source, destination, kind and stored value of an added edge.\<close>

type_synonym ('n, 'e) added_edge = "'n node_id \<times> 'n node_id \<times> 'e \<times> stored_property option"

definition edge_added ::
  "('n, 'e, 'p, 'r) schema \<Rightarrow> 'n node_id list \<Rightarrow> ('n node_id \<Rightarrow> bool) \<Rightarrow> 'e new_edge \<Rightarrow> stored_property option \<Rightarrow>
     ('n, 'e) added_edge list" where
  "edge_added S ids lives e p = (case (resolve_node_ref S ids (ne_src e), resolve_node_ref S ids (ne_dst e)) of
       (Some s, Some t) \<Rightarrow> if lives s \<and> lives t then [(s, t, ne_kind e, p)] else []
     | _ \<Rightarrow> [])"

definition edge_value :: "bytes list \<Rightarrow> 'e new_edge \<Rightarrow> stored_property option \<Rightarrow> bool" where
  "edge_value ss e p \<longleftrightarrow> (case ne_property e of None \<Rightarrow> p = None | Some v \<Rightarrow> \<exists>q. p = Some q \<and> stored_as ss v q)"

definition edges_added ::
  "('n, 'e, 'p, 'r) schema \<Rightarrow> 'n node_id list \<Rightarrow> ('n node_id \<Rightarrow> bool) \<Rightarrow> bytes list \<Rightarrow> 'e new_edge list \<Rightarrow>
     ('n, 'e) added_edge list \<Rightarrow> bool" where
  "edges_added S ids lives ss es adds \<longleftrightarrow> (\<exists>props. list_all2 (edge_value ss) es props \<and>
     adds = concat (map2 (edge_added S ids lives) es props))"

definition edge_strings :: "'e new_edge list \<Rightarrow> bytes set" where
  "edge_strings es = (\<Union>v\<in>{v. \<exists>e\<in>set es. ne_property e = Some v}. value_strings v)"

text \<open>The halves of the added edges at a node of a slot.\<close>

fun added_halves ::
  "('n, 'e, 'p, 'r) schema \<Rightarrow> ('n, 'e) added_edge list \<Rightarrow> 'n \<Rightarrow> dir \<Rightarrow> 'e \<Rightarrow> nat \<Rightarrow>
     (raw_node_id \<times> stored_property option) list" where
  "added_halves S adds nk Out ek seq =
     map (\<lambda>(s, t, k, p). (node_of S (nid_kind t) (nid_seq t), p)) (filter (\<lambda>(s, t, k, p). k = ek \<and> s = NodeId nk seq) adds)"
| "added_halves S adds nk In ek seq =
     map (\<lambda>(s, t, k, p). (node_of S (nid_kind s) (nid_seq s), p)) (filter (\<lambda>(s, t, k, p). k = ek \<and> t = NodeId nk seq) adds)"

text \<open>The buckets hold the halves a function gives for every node.\<close>

definition halves_are ::
  "('n, 'e, 'p, 'r) schema \<Rightarrow> ('n \<Rightarrow> nat) \<Rightarrow> ('n \<Rightarrow> dir \<Rightarrow> 'e \<Rightarrow> nat \<Rightarrow> (raw_node_id \<times> stored_property option) list) \<Rightarrow>
     edge_half_buckets \<Rightarrow> bool" where
  "halves_are S tot C hb \<longleftrightarrow> halves_ok S tot hb \<and>
     (\<forall>nk d ek. slot_new_halves hb (edge_storage_slot S nk d ek) (tot nk) = map (C nk d ek) [0..<tot nk])"

lemma edge_value_prefix: "edge_value ss e p \<Longrightarrow> prefix ss ss' \<Longrightarrow> edge_value ss' e p"
  by (auto simp: edge_value_def intro: stored_as_prefix split: option.splits)

lemma edges_added_prefix: "edges_added S ids lives ss es adds \<Longrightarrow> prefix ss ss' \<Longrightarrow> edges_added S ids lives ss' es adds"
  unfolding edges_added_def by (blast intro: list_all2_mono edge_value_prefix)

lemma edges_added_Nil [simp]: "edges_added S ids lives ss [] adds \<longleftrightarrow> adds = []"
  by (auto simp: edges_added_def)

lemma edges_added_snoc:
  assumes "edges_added S ids lives ss es adds" and "edge_value ss e p"
  shows "edges_added S ids lives ss (es @ [e]) (adds @ edge_added S ids lives e p)"
proof -
  obtain props where props: "list_all2 (edge_value ss) es props" "adds = concat (map2 (edge_added S ids lives) es props)"
    using assms(1) by (auto simp: edges_added_def)
  then have "list_all2 (edge_value ss) (es @ [e]) (props @ [p])" using assms(2) by (simp add: list_all2_appendI)
  moreover have "length es = length props" using props(1) by (rule list_all2_lengthD)
  ultimately show ?thesis using props(2) by (auto simp: edges_added_def intro!: exI [of _ "props @ [p]"])
qed

lemma length_edge_added: "length (edge_added S ids lives e p) \<le> 1"
  by (auto simp: edge_added_def split: option.splits)

lemma edges_added_length: "edges_added S ids lives ss es adds \<Longrightarrow> length adds \<le> length es"
proof -
  assume "edges_added S ids lives ss es adds"
  then obtain props where props: "list_all2 (edge_value ss) es props" "adds = concat (map2 (edge_added S ids lives) es props)"
    by (auto simp: edges_added_def)
  have "length (concat (map2 (edge_added S ids lives) es props)) \<le> length (zip es props)"
  proof (induction "zip es props" arbitrary: es props)
    case (Cons x xs)
    then obtain e es' p props' where [simp]: "es = e # es'" "props = p # props'" by (cases es; cases props) auto
    show ?case using Cons.hyps(1) [of es' props'] Cons.hyps(2) length_edge_added [of S ids lives e p] by (auto simp: min_def)
  qed auto
  then show ?thesis using props list_all2_lengthD [OF props(1)] by simp
qed

lemma edges_added_mem:
  assumes "edges_added S ids lives ss es adds" and "(s, t, k, p) \<in> set adds"
  shows "lives s \<and> lives t"
proof -
  obtain props e where "(s, t, k, p) \<in> set (edge_added S ids lives e props)"
    using assms by (auto simp: edges_added_def)
  then show ?thesis by (auto simp: edge_added_def split: option.splits if_splits)
qed

lemma added_halves_append: "added_halves S (xs @ ys) nk d ek seq = added_halves S xs nk d ek seq @ added_halves S ys nk d ek seq"
  by (cases d) simp_all

lemma added_halves_Nil [simp]: "added_halves S [] nk d ek seq = []"
  by (cases d) simp_all

lemma length_added_halves: "length (added_halves S adds nk d ek seq) \<le> length adds"
  by (cases d) simp_all

section \<open>One edge\<close>

context schema_laws
begin

lemma raw_of_node_of: "nid_seq n \<le> u32_max \<Longrightarrow> raw_of_node S n = Ok (node_of S (nid_kind n) (nid_seq n))"
  by (simp add: raw_of_node_def node_of_def)

lemma resolve_bound:
  assumes "resolve_node_ref S (new_ids cnt nodes) r = Some n" and "\<And>nk. cnt nk + new_count nodes nk \<le> u32_max"
  shows "nid_seq n \<le> u32_max"
proof (cases r)
  case (NewNodeRef i)
  then have "n \<in> set (new_ids cnt nodes)" using assms(1) by (auto simp: resolve_node_ref_def get_at_eq_Some)
  then show ?thesis using new_ids_fresh(2) [of n cnt nodes] assms(2) [of "nid_kind n"] by linarith
next
  case (Existing raw)
  then have "node_of_raw S raw = Ok n" using assms(1) by (auto simp: resolve_node_ref_def split: outcome.splits)
  then show ?thesis using raw_seq_le [of raw] by (simp add: node_of_raw_Ok)
qed

lemma edge_to_halves_spec:
  assumes "\<And>r n. resolve r = Some n \<Longrightarrow> nid_seq n \<le> u32_max"
  shows "edge_to_halves S e resolve p = Ok (case (resolve (ne_src e), resolve (ne_dst e)) of
      (Some s, Some t) \<Rightarrow> Some
        [\<lparr>he_node = s, he_neighbor = node_of S (nid_kind t) (nid_seq t), he_direction = Out, he_edge_kind = ne_kind e, he_property = p\<rparr>,
         \<lparr>he_node = t, he_neighbor = node_of S (nid_kind s) (nid_seq s), he_direction = In, he_edge_kind = ne_kind e, he_property = p\<rparr>]
    | _ \<Rightarrow> None)"
  using assms [of "ne_src e"] assms [of "ne_dst e"]
  by (auto simp: edge_to_halves_def raw_of_node_of src_half_def dst_half_def split: option.splits)

lemma half_is_dropped_spec:
  assumes ok: "graph_ok S g" and cs: "counts_ok S (kind_count S g) max_seq" "counts_ok S m nnc" and seq: "nid_seq (he_node h) \<le> u32_max"
  shows "half_is_dropped S g max_seq nnc removed h =
    Ok (\<not> node_lives S g (\<lambda>nk. kind_count S g nk + m nk) removed (he_node h))"
proof -
  let ?k = "nid_kind (he_node h)"
  have at: "index_at max_seq (n_index S ?k) = Ok (kind_count S g ?k)" "index_at nnc (n_index S ?k) = Ok (m ?k)"
    using cs counts_ok_less by (simp_all add: counts_ok_def)
  have del: "node_is_deleted S (g_node_meta g) (he_node h) = Ok (deleted g (he_node h))"
    using is_node_deleted_deleted [OF ok, of "he_node h"] by (simp add: is_node_deleted_def)
  show ?thesis
    using is_node_deleted_deleted [OF ok, of "he_node h"]
    by (auto simp: half_is_dropped_def Let_def at del raw_of_node_of [OF seq] node_lives_def)
qed

lemma push_half_spec:
  assumes cs: "counts_ok S cnt max_seq" "counts_ok S m nnc" and hb: "halves_are S (\<lambda>nk. cnt nk + m nk) C hb"
    and seq: "nid_seq (he_node h) < cnt (nid_kind (he_node h)) + m (nid_kind (he_node h))"
    and room: "length (C (nid_kind (he_node h)) (he_direction h) (he_edge_kind h) (nid_seq (he_node h))) < u32_max"
  shows "ospec (halves_are S (\<lambda>nk. cnt nk + m nk) (\<lambda>nk d ek seq.
        if (nk, d, ek, seq) = (nid_kind (he_node h), he_direction h, he_edge_kind h, nid_seq (he_node h))
        then C nk d ek seq @ [(he_neighbor h, he_property h)] else C nk d ek seq)) (\<lambda>_. False) False
    (push_half S max_seq nnc h hb)"
proof -
  let ?k = "nid_kind (he_node h)" and ?q = "nid_seq (he_node h)"
  let ?i = "edge_storage_slot S ?k (he_direction h) (he_edge_kind h)" and ?n = "cnt ?k + m ?k"
  let ?h = "\<lparr>sh_seq = ?q, sh_neighbor = he_neighbor h, sh_property = he_property h\<rparr>"
  have at: "index_at max_seq (n_index S ?k) = Ok (cnt ?k)" "index_at nnc (n_index S ?k) = Ok (m ?k)"
    using cs counts_ok_less by (simp_all add: counts_ok_def)
  have hok: "halves_ok S (\<lambda>nk. cnt nk + m nk) hb"
    and new: "slot_new_halves hb ?i ?n = map (C ?k (he_direction h) (he_edge_kind h)) [0..<?n]"
    using hb by (simp_all add: halves_are_def)
  have i: "?i < length hb" using hok edge_slot_less by (simp add: halves_ok_def)
  have "ospec (\<lambda>hb'. (\<exists>e. hb' = hb[?i := Some e] \<and> half_edges_ok ?n e) \<and>
      slot_new_halves hb' ?i ?n = (slot_new_halves hb ?i ?n)[?q := slot_new_halves hb ?i ?n ! ?q @ [half_of ?h]])
    (\<lambda>_. False) False (half_buckets_push hb ?i ?n ?h)"
    using half_buckets_push_spec [OF i, of ?n ?h] hok seq room by (simp add: halves_ok_def new)
  then show ?thesis
    unfolding push_half_def Let_def at andthen.simps
  proof (rule ospec_mono)
    fix hb' assume hb': "(\<exists>e. hb' = hb[?i := Some e] \<and> half_edges_ok ?n e) \<and>
      slot_new_halves hb' ?i ?n = (slot_new_halves hb ?i ?n)[?q := slot_new_halves hb ?i ?n ! ?q @ [half_of ?h]]"
    then obtain e where e: "hb' = hb[?i := Some e]" "half_edges_ok ?n e" by blast
    let ?C = "\<lambda>nk d ek seq. if (nk, d, ek, seq) = (?k, he_direction h, he_edge_kind h, ?q)
        then C nk d ek seq @ [(he_neighbor h, he_property h)] else C nk d ek seq"
    show "halves_are S (\<lambda>nk. cnt nk + m nk) ?C hb'"
      unfolding halves_are_def halves_ok_def
    proof (intro conjI allI impI)
      fix nk d ek
      show "half_edges_ok (cnt nk + m nk) x" if x: "hb' ! edge_storage_slot S nk d ek = Some x" for x
      proof (cases "(nk, d, ek) = (?k, he_direction h, he_edge_kind h)")
        case True
        then show ?thesis using x e i by simp
      next
        case False
        then have "hb ! edge_storage_slot S nk d ek = Some x" using x e(1) edge_slot_neq by (metis nth_list_update_neq)
        then show ?thesis using hok by (simp add: halves_ok_def)
      qed
      show "slot_new_halves hb' (edge_storage_slot S nk d ek) (cnt nk + m nk) = map (?C nk d ek) [0..<cnt nk + m nk]"
      proof (cases "(nk, d, ek) = (?k, he_direction h, he_edge_kind h)")
        case True
        have "slot_new_halves hb' ?i ?n = map (?C ?k (he_direction h) (he_edge_kind h)) [0..<?n]"
          using hb' seq by (intro nth_equalityI) (auto simp: new nth_list_update half_of_def)
        then show ?thesis using True by simp
      next
        case False
        then have "edge_storage_slot S nk d ek \<noteq> ?i" using edge_slot_neq by metis
        then have "slot_new_halves hb' (edge_storage_slot S nk d ek) (cnt nk + m nk) =
            slot_new_halves hb (edge_storage_slot S nk d ek) (cnt nk + m nk)"
          by (simp add: e(1) slot_new_halves_def)
        then show ?thesis using False hb by (auto simp: halves_are_def)
      qed
    qed (use e hok in \<open>simp add: halves_ok_def\<close>)
  qed simp_all
qed

lemma added_halves_one:
  "added_halves S [(s, t, k, p)] nk d ek seq =
     (if (nk, d, ek, seq) = (nid_kind s, Out, k, nid_seq s) then [(node_of S (nid_kind t) (nid_seq t), p)] else []) @
     (if (nk, d, ek, seq) = (nid_kind t, In, k, nid_seq t) then [(node_of S (nid_kind s) (nid_seq s), p)] else [])"
  by (cases s; cases t; cases d) auto

text \<open>Both halves of an edge whose ends live.\<close>

lemma push_both_spec:
  assumes cs: "counts_ok S cnt max_seq" "counts_ok S m nnc" and hb: "halves_are S (\<lambda>nk. cnt nk + m nk) (added_halves S adds) hb"
    and st: "nid_seq s < cnt (nid_kind s) + m (nid_kind s)" "nid_seq t < cnt (nid_kind t) + m (nid_kind t)"
    and room: "length adds < u32_max"
  shows "ospec (halves_are S (\<lambda>nk. cnt nk + m nk) (added_halves S (adds @ [(s, t, k, p)]))) (\<lambda>_. False) False
    (for_each (push_half S max_seq nnc)
      [\<lparr>he_node = s, he_neighbor = node_of S (nid_kind t) (nid_seq t), he_direction = Out, he_edge_kind = k, he_property = p\<rparr>,
       \<lparr>he_node = t, he_neighbor = node_of S (nid_kind s) (nid_seq s), he_direction = In, he_edge_kind = k, he_property = p\<rparr>] hb)"
proof -
  let ?tot = "\<lambda>nk. cnt nk + m nk"
  let ?h = "\<lparr>he_node = s, he_neighbor = node_of S (nid_kind t) (nid_seq t), he_direction = Out, he_edge_kind = k, he_property = p\<rparr>"
  let ?h' = "\<lparr>he_node = t, he_neighbor = node_of S (nid_kind s) (nid_seq s), he_direction = In, he_edge_kind = k, he_property = p\<rparr>"
  let ?C = "added_halves S adds"
  let ?C' = "\<lambda>nk d ek seq. if (nk, d, ek, seq) = (nid_kind s, Out, k, nid_seq s)
      then ?C nk d ek seq @ [(node_of S (nid_kind t) (nid_seq t), p)] else ?C nk d ek seq"
  have len: "length (?C nk d ek seq) < u32_max" for nk d ek seq
    using length_added_halves [of S adds nk d ek seq] room by linarith
  have C: "added_halves S (adds @ [(s, t, k, p)]) = (\<lambda>nk d ek seq. if (nk, d, ek, seq) = (nid_kind t, In, k, nid_seq t)
      then ?C' nk d ek seq @ [(node_of S (nid_kind s) (nid_seq s), p)] else ?C' nk d ek seq)"
    by (intro ext) (auto simp: added_halves_append added_halves_one)
  have 1: "ospec (halves_are S ?tot ?C') (\<lambda>_. False) False (push_half S max_seq nnc ?h hb)"
    by (rule push_half_spec [OF cs hb, of ?h, unfolded half_edge.select_convs]) (rule st(1), rule len)
  have 2: "ospec (halves_are S ?tot (added_halves S (adds @ [(s, t, k, p)]))) (\<lambda>_. False) False (push_half S max_seq nnc ?h' hb')"
    if "halves_are S ?tot ?C' hb'" for hb'
    unfolding C by (rule push_half_spec [OF cs that, of ?h', unfolded half_edge.select_convs])
      (use st(2) len [of "nid_kind t" In k "nid_seq t"] in simp_all)
  show ?thesis
    unfolding for_each.simps ospec_andthen
    by (rule ospec_mono [OF 1]) (use 2 in \<open>simp_all add: ospec_andthen\<close>)
qed

lemma push_new_edge_spec:
  assumes ok: "graph_ok S g" and cs: "counts_ok S (kind_count S g) max_seq" "counts_ok S m nnc"
    and m: "m = new_count nodes" and bound: "\<And>nk. kind_count S g nk + m nk \<le> u32_max"
    and pool: "pool_repr pool ss" and V: "edge_strings [e] \<subseteq> V" and room: "length adds < u32_max"
    and hb: "halves_are S (\<lambda>nk. kind_count S g nk + m nk) (added_halves S adds) hb"
    and ids: "ids = new_ids (kind_count S g) nodes"
    and lives: "lives = node_lives S g (\<lambda>nk. kind_count S g nk + m nk) removed"
  shows "sspec (\<lambda>hb' pool'. \<exists>ss' p. pool_repr pool' ss' \<and> prefix ss ss' \<and> edge_value ss' e p \<and>
      halves_are S (\<lambda>nk. kind_count S g nk + m nk) (added_halves S (adds @ edge_added S ids lives e p)) hb')
    (\<lambda>_ _. False) (pool_full V) (push_new_edge S g max_seq nnc removed ids e hb pool)"
proof -
  let ?tot = "\<lambda>nk. kind_count S g nk + m nk"
  let ?rest = "\<lambda>p. slift (edge_to_halves S e (resolve_node_ref S ids) p)"
  have val: "sspec (\<lambda>p pool'. \<exists>ss'. pool_repr pool' ss' \<and> prefix ss ss' \<and> edge_value ss' e p) (\<lambda>_ _. False) (pool_full V)
      ((case ne_property e of None \<Rightarrow> sret None | Some prop \<Rightarrow> sbind (to_stored_property prop) (\<lambda>p. sret (Some p))) pool)"
  proof (cases "ne_property e")
    case None
    then show ?thesis using pool by (auto simp: edge_value_def)
  next
    case (Some v)
    then have "value_strings v \<subseteq> V" using V by (simp add: edge_strings_def)
    from to_stored_spec [OF pool this] show ?thesis
      unfolding Some option.case sspec_sbind by (rule sspec_mono) (auto simp: edge_value_def Some)
  qed
  have resolve: "nid_seq n \<le> u32_max" if "resolve_node_ref S ids r = Some n" for r n
    using resolve_bound that bound unfolding ids m by blast
  have converts: "\<exists>halves. edge_to_halves S e (resolve_node_ref S ids) p = Ok halves" for p
    by (rule exI, rule edge_to_halves_spec, rule resolve)
  have pushed: "ospec (halves_are S ?tot (added_halves S (adds @ edge_added S ids lives e p))) (\<lambda>_. False) False
      (case halves of None \<Rightarrow> Ok hb | Some hs \<Rightarrow>
         andthen (any_each (half_is_dropped S g max_seq nnc removed) hs)
           (\<lambda>dropped. if dropped then Ok hb else for_each (push_half S max_seq nnc) hs hb))"
    if halves: "edge_to_halves S e (resolve_node_ref S ids) p = Ok halves" for p halves
  proof (cases "\<exists>s t. resolve_node_ref S ids (ne_src e) = Some s \<and> resolve_node_ref S ids (ne_dst e) = Some t")
    case False
    then have "halves = None" using halves edge_to_halves_spec [of "resolve_node_ref S ids" e p, OF resolve] by (auto split: option.splits)
    moreover have "edge_added S ids lives e p = []" using False by (auto simp: edge_added_def split: option.splits)
    ultimately show ?thesis using hb by simp
  next
    case True
    then obtain s t where st: "resolve_node_ref S ids (ne_src e) = Some s" "resolve_node_ref S ids (ne_dst e) = Some t" by blast
    let ?hs = "[\<lparr>he_node = s, he_neighbor = node_of S (nid_kind t) (nid_seq t), he_direction = Out, he_edge_kind = ne_kind e, he_property = p\<rparr>,
       \<lparr>he_node = t, he_neighbor = node_of S (nid_kind s) (nid_seq s), he_direction = In, he_edge_kind = ne_kind e, he_property = p\<rparr>]"
    have hs: "halves = Some ?hs" using halves edge_to_halves_spec [of "resolve_node_ref S ids" e p, OF resolve] st by simp
    have drop: "any_each (half_is_dropped S g max_seq nnc removed) ?hs = Ok (\<not> (lives s \<and> lives t))"
      using resolve [OF st(1)] resolve [OF st(2)] by (simp add: half_is_dropped_spec [OF ok cs] lives)
    have add: "edge_added S ids lives e p = (if lives s \<and> lives t then [(s, t, ne_kind e, p)] else [])"
      by (simp add: edge_added_def st)
    show ?thesis
    proof (cases "lives s \<and> lives t")
      case True
      then have "nid_seq s < ?tot (nid_kind s)" "nid_seq t < ?tot (nid_kind t)" by (simp_all add: lives node_lives_def)
      note push_both_spec [OF cs hb this room, of "ne_kind e" p]
      then show ?thesis using True unfolding hs option.case drop andthen.simps add by simp
    next
      case False
      then show ?thesis using hb unfolding hs option.case drop andthen.simps add by auto
    qed
  qed
  have "(\<lambda>halves. case halves of None \<Rightarrow> sret hb | Some hs \<Rightarrow> slift (andthen (any_each (half_is_dropped S g max_seq nnc removed) hs)
           (\<lambda>dropped. if dropped then Ok hb else for_each (push_half S max_seq nnc) hs hb))) =
      (\<lambda>halves. slift (case halves of None \<Rightarrow> Ok hb | Some hs \<Rightarrow>
         andthen (any_each (half_is_dropped S g max_seq nnc removed) hs)
           (\<lambda>dropped. if dropped then Ok hb else for_each (push_half S max_seq nnc) hs hb)) :: (pool, error, edge_half_buckets) step)"
    by (intro ext) (simp split: option.split)
  then have eq: "push_new_edge S g max_seq nnc removed ids e hb = sbind (case ne_property e of None \<Rightarrow> sret None
        | Some prop \<Rightarrow> sbind (to_stored_property prop) (\<lambda>p. sret (Some p)))
      (\<lambda>p. sbind (?rest p) (\<lambda>halves. slift (case halves of None \<Rightarrow> Ok hb | Some hs \<Rightarrow>
         andthen (any_each (half_is_dropped S g max_seq nnc removed) hs)
           (\<lambda>dropped. if dropped then Ok hb else for_each (push_half S max_seq nnc) hs hb))))"
    unfolding push_new_edge_def by (simp only:)
  show ?thesis
    unfolding eq sspec_sbind
  proof (rule sspec_mono [OF val])
    fix p pool' assume *: "\<exists>ss'. pool_repr pool' ss' \<and> prefix ss ss' \<and> edge_value ss' e p"
    obtain halves where halves: "edge_to_halves S e (resolve_node_ref S ids) p = Ok halves"
      using converts by blast
    show "sspec (\<lambda>a t. sspec (\<lambda>hb' pool'. \<exists>ss' p. pool_repr pool' ss' \<and> prefix ss ss' \<and> edge_value ss' e p \<and>
          halves_are S ?tot (added_halves S (adds @ edge_added S ids lives e p)) hb') (\<lambda>_ _. False) (pool_full V)
          (slift (case a of None \<Rightarrow> Ok hb | Some hs \<Rightarrow>
             andthen (any_each (half_is_dropped S g max_seq nnc removed) hs)
               (\<lambda>dropped. if dropped then Ok hb else for_each (push_half S max_seq nnc) hs hb)) t))
        (\<lambda>_ _. False) (pool_full V) (?rest p pool')"
      unfolding slift_apply halves sspec_slift [unfolded slift_apply] ospec.simps
      by (rule ospec_mono [OF pushed [OF halves]]) (use * in blast)+
  qed auto
qed

lemma push_new_edges_spec:
  assumes ok: "graph_ok S g" and cs: "counts_ok S (kind_count S g) max_seq" "counts_ok S m nnc"
    and m: "m = new_count nodes" and bound: "\<And>nk. kind_count S g nk + m nk \<le> u32_max"
    and pool: "pool_repr pool ss" and V: "edge_strings es \<subseteq> V" and room: "length es \<le> u32_max"
    and ids: "ids = new_ids (kind_count S g) nodes"
    and lives: "lives = node_lives S g (\<lambda>nk. kind_count S g nk + m nk) removed"
  shows "sspec (\<lambda>hb' pool'. \<exists>ss' adds. pool_repr pool' ss' \<and> prefix ss ss' \<and> edges_added S ids lives ss' es adds \<and>
      halves_are S (\<lambda>nk. kind_count S g nk + m nk) (added_halves S adds) hb')
    (\<lambda>_ _. False) (pool_full V)
    (sfor_each (push_new_edge S g max_seq nnc removed ids) es (half_buckets_new (edge_storage_size S)) pool)"
proof (rule sspec_sfor_each [where P = "\<lambda>ys hb' pool'. \<exists>ss' adds. pool_repr pool' ss' \<and> prefix ss ss' \<and>
    edges_added S ids lives ss' ys adds \<and> halves_are S (\<lambda>nk. kind_count S g nk + m nk) (added_halves S adds) hb'"])
  have "map (added_halves S [] nk d ek) [0..<n] = replicate n []" for nk d ek n
    by (intro nth_equalityI) simp_all
  then have "halves_are S (\<lambda>nk. kind_count S g nk + m nk) (added_halves S []) (half_buckets_new (edge_storage_size S))"
    by (simp add: halves_are_def halves_ok_def half_buckets_new_def edge_slot_less slot_new_halves_def)
  then show "\<exists>ss' adds. pool_repr pool ss' \<and> prefix ss ss' \<and> edges_added S ids lives ss' [] adds \<and>
      halves_are S (\<lambda>nk. kind_count S g nk + m nk) (added_halves S adds) (half_buckets_new (edge_storage_size S))"
    using pool by auto
next
  fix ys y zs hb pool'
  assume split: "es = ys @ y # zs" and "\<exists>ss' adds. pool_repr pool' ss' \<and> prefix ss ss' \<and>
    edges_added S ids lives ss' ys adds \<and> halves_are S (\<lambda>nk. kind_count S g nk + m nk) (added_halves S adds) hb"
  then obtain ss' adds where inv: "pool_repr pool' ss'" "prefix ss ss'" "edges_added S ids lives ss' ys adds"
    "halves_are S (\<lambda>nk. kind_count S g nk + m nk) (added_halves S adds) hb" by blast
  have "edge_strings [y] \<subseteq> V" using V by (auto simp: split edge_strings_def)
  moreover have "length adds < u32_max" using edges_added_length [OF inv(3)] room by (simp add: split)
  ultimately have "sspec (\<lambda>hb' pool''. \<exists>ss'' p. pool_repr pool'' ss'' \<and> prefix ss' ss'' \<and> edge_value ss'' y p \<and>
      halves_are S (\<lambda>nk. kind_count S g nk + m nk) (added_halves S (adds @ edge_added S ids lives y p)) hb')
    (\<lambda>_ _. False) (pool_full V) (push_new_edge S g max_seq nnc removed ids y hb pool')"
    by (rule push_new_edge_spec [OF ok cs m bound inv(1) _ _ inv(4) ids lives])
  then show "sspec (\<lambda>hb' pool''. \<exists>ss'' adds. pool_repr pool'' ss'' \<and> prefix ss ss'' \<and>
      edges_added S ids lives ss'' (ys @ [y]) adds \<and>
      halves_are S (\<lambda>nk. kind_count S g nk + m nk) (added_halves S adds) hb')
    (\<lambda>_ _. False) (pool_full V) (push_new_edge S g max_seq nnc removed ids y hb pool')"
  proof (rule sspec_mono)
    fix hb' pool'' assume "\<exists>ss'' p. pool_repr pool'' ss'' \<and> prefix ss' ss'' \<and> edge_value ss'' y p \<and>
      halves_are S (\<lambda>nk. kind_count S g nk + m nk) (added_halves S (adds @ edge_added S ids lives y p)) hb'"
    then obtain ss'' p where new: "pool_repr pool'' ss''" "prefix ss' ss''" "edge_value ss'' y p"
      "halves_are S (\<lambda>nk. kind_count S g nk + m nk) (added_halves S (adds @ edge_added S ids lives y p)) hb'" by blast
    have "edges_added S ids lives ss'' (ys @ [y]) (adds @ edge_added S ids lives y p)"
      using edges_added_snoc [OF edges_added_prefix [OF inv(3) new(2)] new(3)] .
    then show "\<exists>ss'' adds. pool_repr pool'' ss'' \<and> prefix ss ss'' \<and> edges_added S ids lives ss'' (ys @ [y]) adds \<and>
        halves_are S (\<lambda>nk. kind_count S g nk + m nk) (added_halves S adds) hb'"
      using new(1,4) prefix_order.trans [OF inv(2) new(2)] by blast
  qed simp_all
qed

end

end
