(* ===== verification/Stage_Spec.thy ===== *)
theory Stage_Spec
  imports Edges_Spec
begin

text \<open>
  \<open>stage\<close> as a whole: what the parts it returns stand for, and that it panics only for a handle of a
  node that is not there or a string pool that is full. It writes to the pool alone, and whatever
  the outcome the pool still begins with the strings it had.
\<close>

section \<open>What a diff needs\<close>

definition diff_strings :: "('n, 'e, 'p) graph_diff \<Rightarrow> bytes set" where
  "diff_strings d = change_strings (gd_changes d) \<union> node_strings (gd_new_nodes d) \<union> edge_strings (gd_new_edges d)"

text \<open>Ids and counters are 32 bits wide; the properties of a new node are a map.\<close>

definition diff_fits :: "graph \<Rightarrow> ('n, 'e, 'p) graph_diff \<Rightarrow> bool" where
  "diff_fits g d \<longleftrightarrow> sum_list (map length (g_node_meta g)) + length (gd_new_nodes d) \<le> u32_max \<and>
     length (gd_new_edges d) \<le> u32_max \<and> (\<forall>n\<in>set (gd_new_nodes d). distinct (map fst (nn_properties n)))"

definition diff_misplaced :: "('n, 'e, 'p, 'r) schema \<Rightarrow> graph \<Rightarrow> ('n, 'e, 'p) graph_diff \<Rightarrow> bool" where
  "diff_misplaced S g d \<longleftrightarrow> (\<exists>e\<in>set (removed_edges (gd_changes d)). edge_misplaced S g e)"

definition new_total :: "('n, 'e, 'p, 'r) schema \<Rightarrow> graph \<Rightarrow> ('n, 'e, 'p) graph_diff \<Rightarrow> 'n \<Rightarrow> nat" where
  "new_total S g d nk = kind_count S g nk + new_count (gd_new_nodes d) nk"

definition diff_ids :: "('n, 'e, 'p, 'r) schema \<Rightarrow> graph \<Rightarrow> ('n, 'e, 'p) graph_diff \<Rightarrow> 'n node_id list" where
  "diff_ids S g d = new_ids (kind_count S g) (gd_new_nodes d)"

definition diff_lives :: "('n, 'e, 'p, 'r) schema \<Rightarrow> graph \<Rightarrow> ('n, 'e, 'p) graph_diff \<Rightarrow> 'n node_id \<Rightarrow> bool" where
  "diff_lives S g d = node_lives S g (new_total S g d) (filter (node_exists S g) (removed_nodes (gd_changes d)))"

section \<open>What the parts stand for\<close>

definition staged_as ::
  "('n, 'e, 'p, 'r) schema \<Rightarrow> graph \<Rightarrow> ('n, 'e, 'p) graph_diff \<Rightarrow> bytes list \<Rightarrow> 'n staged_parts \<Rightarrow>
     quantified_property option buckets \<Rightarrow> nat list buckets \<Rightarrow> property_value list option buckets \<Rightarrow>
     edge_half_buckets \<Rightarrow> ('n, 'e) added_edge list \<Rightarrow> edge_storage \<Rightarrow> bool" where
  "staged_as S g d ss parts us rem pending hb adds es' \<longleftrightarrow>
     (\<exists>ts. classified S g (gd_changes d) (ts, us, rem) \<and> set (st_node_tombstones parts) = set ts) \<and>
     updated_upto S (kind_count S g) us (g_props g) ss (st_property_replacements parts) UNIV \<and>
     removed_upto S (kind_count S g) rem (g_edges g) (st_edge_replacements parts) UNIV \<and>
     length (st_new_node_meta parts) = number_of_node_kinds S \<and>
     (\<forall>nk. st_new_node_meta parts ! n_index S nk = replicate (new_count (gd_new_nodes d) nk) default_node_meta) \<and>
     st_node_remapper parts = diff_ids S g d \<and>
     news_are S (new_count (gd_new_nodes d)) (node_strings (gd_new_nodes d)) (node_values (gd_new_nodes d)) pending \<and>
     appended_upto S (kind_count S g) (new_count (gd_new_nodes d)) pending
       (fold put_replace (st_property_replacements parts) (g_props g)) ss (st_property_appends parts) UNIV \<and>
     edges_added S (diff_ids S g d) (diff_lives S g d) ss (gd_new_edges d) adds \<and>
     halves_are S (new_total S g d) (added_halves S adds) hb \<and>
     inserted_upto S (kind_count S g) (new_count (gd_new_nodes d)) hb
       (fold put_edge_replace (st_edge_replacements parts) (g_edges g)) (st_edge_inserts parts) UNIV es'"

lemma sspec_bindI:
  "sspec Q' E F (m s) \<Longrightarrow> (\<And>a t. Q' a t \<Longrightarrow> sspec Q E F (f a t)) \<Longrightarrow> sspec Q E F (sbind m f s)"
  unfolding sspec_sbind by (erule sspec_mono)

lemma sspec_lift_bindI:
  "ospec Q' (\<lambda>e. E e s) (F s) m \<Longrightarrow> (\<And>a. Q' a \<Longrightarrow> sspec Q E F (f a s)) \<Longrightarrow> sspec Q E F (sbind (slift m) f s)"
  by (rule sspec_bindI [where Q' = "\<lambda>a t. Q' a \<and> t = s"]) (auto simp: sspec_def elim: ospec_mono)

lemma ospec_Ok: "\<exists>a. m = Ok a \<and> Q a \<Longrightarrow> ospec Q E F m"
  by auto

lemma node_lives_cong: "set xs = set ys \<Longrightarrow> node_lives S g tot xs = node_lives S g tot ys"
  by (intro ext) (simp add: node_lives_def)

lemma pool_full_mono: "pool_full V pool \<Longrightarrow> V \<subseteq> W \<Longrightarrow> pool_full W pool"
  unfolding pool_full_def by blast

lemma updated_upto_prefix:
  "updated_upto S cnt pending ps ss rs UNIV \<Longrightarrow> prefix ss ss' \<Longrightarrow> updated_upto S cnt pending ps ss' rs UNIV"
  unfolding updated_upto_def Let_def using slot_updated_prefix by fastforce

lemma appended_upto_prefix:
  "appended_upto S cnt m pending ps ss as UNIV \<Longrightarrow> prefix ss ss' \<Longrightarrow> appended_upto S cnt m pending ps ss' as UNIV"
  unfolding appended_upto_def Let_def using slot_appended_prefix by fastforce

context schema_laws
begin

lemma new_count_le: "new_count nodes nk \<le> length nodes"
  by (simp add: new_count_def of_kind_def)

lemma kind_count_le_sum:
  assumes "graph_ok S g"
  shows "kind_count S g nk \<le> sum_list (map length (g_node_meta g))"
proof -
  have i: "n_index S nk < length (map length (g_node_meta g))"
    using node_index_less [of nk] graph_okD(1) [OF assms] by simp
  then have "map length (g_node_meta g) ! n_index S nk \<le> sum_list (map length (g_node_meta g))"
    by (rule elem_le_sum_list)
  then show ?thesis using i by (simp add: kind_count_def)
qed

lemma new_total_le:
  assumes "graph_ok S g" and "diff_fits g d"
  shows "kind_count S g nk + new_count (gd_new_nodes d) nk \<le> u32_max"
  using kind_count_le_sum [OF assms(1), of nk] new_count_le [of "gd_new_nodes d" nk] assms(2)
  unfolding diff_fits_def by linarith

lemma props_ok_updated:
  assumes ps: "props_ok S cnt ps" and upd: "updated_upto S cnt pending ps ss rs UNIV"
  shows "props_ok S cnt (fold put_replace rs ps)"
  using ps updated_uptoD(3) [OF upd UNIV_I] by (auto simp: props_ok_def slot_updated_def prop_slot_ok_def)

lemma edges_ok_removed:
  assumes es: "edges_ok S cnt es" and rem: "removed_upto S cnt pending es rs UNIV"
  shows "edges_ok S cnt (fold put_edge_replace rs es)"
  using es removed_uptoD(3) [OF rem UNIV_I] by (auto simp: edges_ok_def slot_removed_def edge_slot_ok_def)

text \<open>The two passes over the pool come first, with what the graph is known to hold at each point.\<close>

lemma stage_spec:
  assumes ok: "graph_ok S g" and fits: "diff_fits g d" and pool: "pool_repr (g_strings g) ss"
  shows "sspec (\<lambda>parts pool'. \<exists>ss' us rem pending hb adds es'. pool_repr pool' ss' \<and> prefix ss ss' \<and>
      staged_as S g d ss' parts us rem pending hb adds es')
    (\<lambda>_. sp.extends ss) (\<lambda>pool'. pool_full (diff_strings d) pool' \<or> diff_misplaced S g d)
    (stage S d g (g_strings g))"
proof -
  let ?cnt = "kind_count S g" and ?m = "new_count (gd_new_nodes d)" and ?V = "diff_strings d"
  let ?E = "\<lambda>(_ :: error). sp.extends ss" and ?F = "\<lambda>pool'. pool_full ?V pool' \<or> diff_misplaced S g d"
  have ext: "sp.extends ss pool'" if "pool_repr pool' ss'" "prefix ss ss'" for pool' ss' using extendsI that .
  have ext0: "sp.extends ss (g_strings g)" by (rule ext [OF pool]) simp
  note ps = graph_ok_props_ok [OF ok] and es = graph_ok_edges_ok [OF ok]
  have len: "property_storage_size S = length (g_props g)" "edge_storage_size S = length (g_edges g)"
    using ps es by (simp_all add: props_ok_def edges_ok_def)
  show ?thesis
    unfolding stage_def
  proof (rule sspec_lift_bindI [where Q' = "classified S g (gd_changes d)"], goal_cases)
    case 1
    show ?case
      by (rule ospec_mono [OF classify_changes_spec [OF ok]]) (simp_all add: ext0 diff_misplaced_def)
  next
    case (2 w)
    obtain ts us rem where w': "w = (ts, us, rem)" by (cases w)
    have us: "updates_ok S ?cnt ?V us" and rem: "removals_ok S ?cnt rem"
      using 2 updates_ok_mono [of ?cnt "change_strings (gd_changes d)" us ?V]
      by (auto simp: w' classified_def diff_strings_def)
    show ?case
      unfolding w' prod.case
    proof (rule sspec_bindI, rule sspec_mono [OF prepare_property_updates_spec [OF ps us pool]], assumption, assumption, simp,
        elim exE conjE, goal_cases)
      case (1 rs pool1 ss1)
      note pool1 = 1(1,2) and rs = 1(3) and ps1 = props_ok_updated [OF ps 1(3)]
      obtain plo where plo: "last_offsets (property_storage_size S) rs = Ok plo"
        "last_offsets_ok (g_props g) (fold put_replace rs (g_props g)) plo"
        using last_offsets_spec [of rs "g_props g"] updated_uptoD(1,2) [OF rs] unfolding len by blast
      obtain max_seq where ms: "map_each (node_count_by_kind_with_deleted S g) (n_all S) = Ok max_seq" "counts_ok S ?cnt max_seq"
        using max_seq_spec [OF ok] by blast
      obtain nnc where nnc: "count_new_nodes S (gd_new_nodes d) = Ok nnc" "counts_ok S ?m nnc"
        using count_new_nodes_spec by blast
      obtain pl where pl: "place_new_nodes S max_seq nnc (gd_new_nodes d) = Ok pl"
        "placed S ?cnt ?m (node_strings (gd_new_nodes d)) (gd_new_nodes d) pl"
        using place_new_nodes_spec [OF ms(2) nnc(2)] fits by (auto simp: diff_fits_def)
      obtain counters metas ids pending where pl': "pl = (counters, metas, ids, pending)" by (cases pl)
      have vals: "news_are S ?m (node_strings (gd_new_nodes d)) (placed_vals (gd_new_nodes d)) pending"
        and metas: "length metas = number_of_node_kinds S" "\<forall>nk. metas ! n_index S nk = replicate (?m nk) default_node_meta"
        and ids: "ids = diff_ids S g d"
        using pl(2) by (simp_all add: pl' placed_def diff_ids_def)
      have news: "news_are S ?m (node_strings (gd_new_nodes d)) (node_values (gd_new_nodes d)) pending"
        using vals by (simp add: news_are_def placed_vals_def)
      have pend: "news_ok S ?V pending"
        using news_are_ok [OF vals] unfolding news_ok_def diff_strings_def by blast
      have ext1: "sp.extends ss1 t \<Longrightarrow> sp.extends ss t" for t
        using pool1(2) prefix_order.trans by (auto simp: sp.extends_def)
      show ?case
      proof (rule sspec_lift_bindI [where Q' = "\<lambda>ers. removed_upto S ?cnt rem (g_edges g) ers UNIV"], goal_cases)
        case 1
        show ?case
          by (rule ospec_mono [OF prepare_edge_removals_spec [OF es rem]]) (simp_all add: ext [OF pool1])
      next
        case (2 ers)
        note ers = 2 and es1 = edges_ok_removed [OF es 2]
        obtain bl where bl: "offsets_baseline (edge_storage_size S) ers = Ok bl"
          "baseline_ok (g_edges g) (fold put_edge_replace ers (g_edges g)) bl"
          using offsets_baseline_spec [of ers "g_edges g"] removed_uptoD(1) [OF ers] unfolding len by blast
        show ?case
          unfolding plo(1) bl(1) ms(1) nnc(1) pl(1) pl' sbind_slift_Ok prod.case
        proof (rule sspec_bindI, rule sspec_mono [OF prepare_new_node_properties_spec [OF ps ps1 plo(2) ms(2) nnc(2) pend pool1(1)]],
            assumption, erule ext1, simp, elim exE conjE, goal_cases)
          case (1 as pool2 ss2)
          note pool2 = 1(1) prefix_order.trans [OF pool1(2) 1(2)]
          define node_tombstones where "node_tombstones = (if gd_new_edges d = [] then ts else sort ts)"
          define removed where "removed = (if gd_new_edges d = [] then [] else node_tombstones)"
          have tombs: "set node_tombstones = set ts" by (simp add: node_tombstones_def)
          have V: "edge_strings (gd_new_edges d) \<subseteq> ?V" by (simp add: diff_strings_def)
          have room: "length (gd_new_edges d) \<le> u32_max" using fits by (simp add: diff_fits_def)
          note edges = push_new_edges_spec [OF ok ms(2) nnc(2) refl new_total_le [OF ok fits] pool2(1) V room
              ids [unfolded diff_ids_def] refl, of removed]
          show ?case
            unfolding Let_def node_tombstones_def [symmetric] removed_def [symmetric]
          proof (rule sspec_bindI, rule sspec_mono [OF edges], assumption, simp, simp, elim exE conjE, goal_cases)
            case (1 hb pool3 ss3 adds)
            note pool3 = 1(1) prefix_order.trans [OF pool2(2) 1(2)] and hb = 1(4)
            have pre3: "prefix ss1 ss3" using prefix_order.trans [OF \<open>prefix ss1 ss2\<close> 1(2)] .
            have "ts = filter (node_exists S g) (removed_nodes (gd_changes d))"
              using \<open>classified S g (gd_changes d) w\<close> by (simp add: w' classified_def)
            then have "gd_new_edges d \<noteq> [] \<Longrightarrow> node_lives S g (\<lambda>nk. ?cnt nk + ?m nk) removed = diff_lives S g d"
              unfolding diff_lives_def new_total_def using tombs by (intro node_lives_cong) (simp add: removed_def)
            then have adds: "edges_added S (diff_ids S g d) (diff_lives S g d) ss3 (gd_new_edges d) adds"
              using 1(3) ids by (cases "gd_new_edges d") (simp_all add: diff_ids_def)
            show ?case
            proof (rule sspec_lift_bindI [where Q' = "\<lambda>ins. \<exists>es'. inserted_upto S ?cnt ?m hb
                (fold put_edge_replace ers (g_edges g)) ins UNIV es'"], goal_cases)
              case 1
              show ?case
                by (rule ospec_mono [OF prepare_new_edges_spec [OF es es1 bl(2) ms(2) nnc(2)]])
                  (use hb in \<open>simp_all add: halves_are_def ext [OF pool3]\<close>)
            next
              case (2 ins)
              then obtain es' where ins: "inserted_upto S ?cnt ?m hb (fold put_edge_replace ers (g_edges g)) ins UNIV es'" by blast
              have "staged_as S g d ss3 \<lparr>st_new_node_meta = metas, st_node_remapper = ids,
                  st_node_tombstones = node_tombstones, st_property_replacements = rs,
                  st_edge_replacements = ers, st_property_appends = as, st_edge_inserts = ins\<rparr> us rem pending hb adds es'"
                unfolding staged_as_def staged_parts.select_convs
                using \<open>classified S g (gd_changes d) w\<close> tombs updated_upto_prefix [OF rs pre3] ers metas ids news
                  appended_upto_prefix [OF \<open>appended_upto S ?cnt ?m pending _ ss2 as UNIV\<close> \<open>prefix ss2 ss3\<close>] adds hb ins
                by (auto simp: w' new_total_def [abs_def])
              then show ?case unfolding sspec_sret using pool3 by blast
            qed
          qed
        qed
      qed
    qed
  qed
qed

end

end
