(* ===== verification/Commit_Spec.thy ===== *)
theory Commit_Spec
  imports Stage_Spec
begin

text \<open>
  What \<open>commit\<close> does with parts that \<open>stage\<close> returned: it never fails, and the graph it leaves is the one
  the passes computed. \<open>diff_applied\<close> states that graph on the rows of its slots.
\<close>

section \<open>The loops of \<open>commit\<close>\<close>

lemma commit_tombstones_spec:
  assumes "\<And>t. t \<in> set ts \<Longrightarrow> raw_kind t < length metas"
  shows "\<exists>metas'. for_each commit_tombstone ts metas = Ok metas' \<and> length metas' = length metas \<and>
    (\<forall>k<length metas. length (metas' ! k) = length (metas ! k) \<and>
      (\<forall>seq<length (metas ! k). is_deleted (metas' ! k ! seq) \<longleftrightarrow>
         is_deleted (metas ! k ! seq) \<or> (\<exists>t\<in>set ts. raw_kind t = k \<and> raw_seq t = seq)))"
proof -
  let ?P = "\<lambda>ys metas'. length metas' = length metas \<and>
    (\<forall>k<length metas. length (metas' ! k) = length (metas ! k) \<and>
      (\<forall>seq<length (metas ! k). is_deleted (metas' ! k ! seq) \<longleftrightarrow>
         is_deleted (metas ! k ! seq) \<or> (\<exists>t\<in>set ys. raw_kind t = k \<and> raw_seq t = seq)))"
  have "ospec (?P ts) (\<lambda>e. False) False (for_each commit_tombstone ts metas)"
  proof (rule ospec_for_each [where P = ?P])
    fix ys y zs metas' assume split: "ts = ys @ y # zs" and inv: "?P ys metas'"
    have k: "raw_kind y < length metas'" using assms [of y] inv by (simp add: split)
    show "ospec (?P (ys @ [y])) (\<lambda>e. False) False (commit_tombstone y metas')"
    proof (cases "raw_seq y < length (metas' ! raw_kind y)")
      case True
      then show ?thesis using k inv
        by (auto simp: commit_tombstone_def set_is_deleted_def nth_list_update)
    next
      case False
      then have "commit_tombstone y metas' = Ok metas'" using k by (simp add: commit_tombstone_def get_at_def)
      then show ?thesis using k inv False by auto
    qed
  qed simp
  then show ?thesis by (cases "for_each commit_tombstone ts metas") auto
qed

lemma prop_slot_with: "(slot :: prop_slot)\<lparr>ps_values := v, ps_offsets := os\<rparr> = \<lparr>ps_offsets = os, ps_values = v\<rparr>"
  by simp

lemma edge_slot_with: "(slot :: edge_slot)\<lparr>es_neighbors := ns, es_values := v, es_offsets := os\<rparr> =
    \<lparr>es_offsets = os, es_neighbors = ns, es_values = v\<rparr>"
  by simp

lemma commit_prop_replaces_spec:
  assumes "\<And>r. r \<in> set rs \<Longrightarrow> pr_slot r < length ps"
  shows "for_each commit_prop_replace rs ps = Ok (fold put_replace rs ps)"
  using assms by (induction rs arbitrary: ps) (auto simp: commit_prop_replace_def put_replace_def prop_slot_with)

lemma commit_edge_replaces_spec:
  assumes "\<And>r. r \<in> set rs \<Longrightarrow> er_slot r < length es"
  shows "for_each commit_edge_replace rs es = Ok (fold put_edge_replace rs es)"
  using assms by (induction rs arbitrary: es) (auto simp: commit_edge_replace_def put_edge_replace_def edge_slot_with)

lemma put_append_typ: "sa_typ (ps_values (put_append a ps ! i)) = sa_typ (ps_values (ps ! i))"
  by (cases "pa_slot a < length ps"; cases "i = pa_slot a") (simp_all add: put_append_def list_update_beyond)

lemma commit_prop_appends_spec:
  assumes "\<And>a. a \<in> set as \<Longrightarrow> pa_slot a < length ps \<and> sa_typ (pa_values a) = sa_typ (ps_values (ps ! pa_slot a))"
  shows "for_each commit_prop_append as ps = Ok (fold put_append as ps)"
  using assms
proof (induction as arbitrary: ps)
  case (Cons a as)
  have "commit_prop_append a ps = Ok (put_append a ps)"
    using Cons.prems [of a] by (simp add: commit_prop_append_def sa_try_append_values put_append_def prop_slot_with)
  moreover have "for_each commit_prop_append as (put_append a ps) = Ok (fold put_append as (put_append a ps))"
    using Cons.prems by (intro Cons.IH) (auto simp: put_append_typ, simp add: put_append_def)
  ultimately show ?case by simp
qed simp

context schema_laws
begin

lemma commit_new_nodes_spec:
  assumes "length metas = number_of_node_kinds S" and "length news = number_of_node_kinds S"
  shows "\<exists>metas'. for_each (commit_new_nodes S news) (n_all S) metas = Ok metas' \<and> length metas' = length metas \<and>
    (\<forall>nk. metas' ! n_index S nk = metas ! n_index S nk @ news ! n_index S nk)"
proof -
  let ?P = "\<lambda>ys metas'. length metas' = length metas \<and> (\<forall>nk. metas' ! n_index S nk =
    (if nk \<in> set ys then metas ! n_index S nk @ news ! n_index S nk else metas ! n_index S nk))"
  have "ospec (?P (n_all S)) (\<lambda>e. False) False (for_each (commit_new_nodes S news) (n_all S) metas)"
  proof (rule ospec_for_each [where P = ?P])
    fix ys y zs metas' assume split: "n_all S = ys @ y # zs" and inv: "?P ys metas'"
    have "y \<notin> set ys" using kind_laws_distinct [OF node_kinds] by (simp add: split)
    then show "ospec (?P (ys @ [y])) (\<lambda>e. False) False (commit_new_nodes S news y metas')"
      using inv assms node_index_less [of y] by (auto simp: commit_new_nodes_def nth_list_update)
  qed simp
  then show ?thesis by (cases "for_each (commit_new_nodes S news) (n_all S) metas") auto
qed

end

section \<open>The graph after a diff\<close>

definition node_gone :: "('n, 'e, 'p, 'r) schema \<Rightarrow> graph \<Rightarrow> ('n, 'e, 'p) graph_diff \<Rightarrow> 'n node_id \<Rightarrow> bool" where
  "node_gone S g d n \<longleftrightarrow> nid_seq n < kind_count S g (nid_kind n) \<and>
     (is_node_deleted S g n = Ok True \<or> node_of S (nid_kind n) (nid_seq n) \<in> set (removed_nodes (gd_changes d)))"

definition prop_row_applied ::
  "('n, 'e, 'p, 'r) schema \<Rightarrow> graph \<Rightarrow> ('n, 'e, 'p) graph_diff \<Rightarrow> bytes list \<Rightarrow> graph \<Rightarrow> 'n \<Rightarrow> 'p \<Rightarrow> nat \<Rightarrow> bool" where
  "prop_row_applied S g d ss g' nk pk seq \<longleftrightarrow>
     (if seq < kind_count S g nk
      then (case last_update S (gd_changes d) nk pk seq of
          None \<Rightarrow> prop_row S g' nk pk seq = prop_row S g nk pk seq
        | Some q \<Rightarrow> stored_all ss (quantified_values q) (prop_row S g' nk pk seq))
      else stored_all ss (node_values (gd_new_nodes d) nk pk (seq - kind_count S g nk)) (prop_row S g' nk pk seq))"

definition edge_row_applied ::
  "('n, 'e, 'p, 'r) schema \<Rightarrow> graph \<Rightarrow> nat list buckets \<Rightarrow> ('n, 'e) added_edge list \<Rightarrow> graph \<Rightarrow> 'n \<Rightarrow> dir \<Rightarrow> 'e \<Rightarrow> nat \<Rightarrow> bool" where
  "edge_row_applied S g rem adds g' nk d ek seq \<longleftrightarrow> edge_row S g' nk d ek seq =
     (if seq < kind_count S g nk then remove_at (edge_row S g nk d ek seq) (queued_at S g rem nk d ek seq) else []) @
     added_halves S adds nk d ek seq"

definition rows_applied ::
  "('n, 'e, 'p, 'r) schema \<Rightarrow> graph \<Rightarrow> ('n, 'e, 'p) graph_diff \<Rightarrow> bytes list \<Rightarrow> nat list buckets \<Rightarrow> ('n, 'e) added_edge list \<Rightarrow>
     graph \<Rightarrow> bool" where
  "rows_applied S g d ss rem adds g' \<longleftrightarrow>
     (\<forall>nk. kind_count S g' nk = new_total S g d nk) \<and>
     (\<forall>n. nid_seq n < new_total S g d (nid_kind n) \<longrightarrow> is_node_deleted S g' n = Ok (node_gone S g d n)) \<and>
     (\<forall>nk dir ek seq. seq < new_total S g d nk \<longrightarrow> edge_row_applied S g rem adds g' nk dir ek seq) \<and>
     (\<forall>nk pk seq. seq < new_total S g d nk \<longrightarrow> prop_row_applied S g d ss g' nk pk seq)"

text \<open>What the removed positions and the added edges are for the diff.\<close>

definition diff_edges ::
  "('n, 'e, 'p, 'r) schema \<Rightarrow> graph \<Rightarrow> ('n, 'e, 'p) graph_diff \<Rightarrow> bytes list \<Rightarrow> nat list buckets \<Rightarrow> ('n, 'e) added_edge list \<Rightarrow> bool" where
  "diff_edges S g d ss rem adds \<longleftrightarrow>
     removals_ok S (kind_count S g) rem \<and> edges_queued S g (removed_edges (gd_changes d)) rem \<and>
     (\<forall>nk dir ek seq. \<forall>j\<in>set (queued_at S g rem nk dir ek seq). seq < kind_count S g nk \<longrightarrow>
        j < length (edge_row S g nk dir ek seq) \<or> es_offsets (edge_slot_of S g nk dir ek) = []) \<and>
     edges_added S (diff_ids S g d) (diff_lives S g d) ss (gd_new_edges d) adds"

definition diff_applied ::
  "('n, 'e, 'p, 'r) schema \<Rightarrow> graph \<Rightarrow> ('n, 'e, 'p) graph_diff \<Rightarrow> graph \<Rightarrow> bool" where
  "diff_applied S g d g' \<longleftrightarrow> (\<exists>ss ss' rem adds. pool_repr (g_strings g) ss \<and> pool_repr (g_strings g') ss' \<and> prefix ss ss' \<and>
     diff_edges S g d ss' rem adds \<and> rows_applied S g d ss' rem adds g')"

context schema_laws
begin

lemma slot_neighbor_row:
  assumes slot: "edge_slot_ok t n slot" and r: "r \<in> set (es_neighbors slot)"
  shows "\<exists>seq<n. r \<in> fst ` set (edge_rows slot n ! seq)"
proof -
  note csr = edge_slot_ok_csr [OF slot]
  have "r \<in> fst ` set (concat (edge_rows slot n))"
    using r slot_csr_concat [OF csr] edge_halves_neighbors [OF slot] by (metis list.set_map)
  then obtain row where "row \<in> set (edge_rows slot n)" "r \<in> fst ` set row" by auto
  then show ?thesis using slot_csr_length [OF csr] by (metis in_set_conv_nth)
qed

lemma commit_spec:
  assumes ok: "graph_ok S g" and st: "staged_as S g d ss parts us rem pending hb adds es'"
  shows "\<exists>metas. commit S \<lparr>sd_graph = g\<lparr>g_strings := pool\<rparr>, sd_strings_baseline = b, sd_parts = parts\<rparr> =
      Ok (\<lparr>g_node_meta = metas, g_edges = es',
           g_props = fold put_append (st_property_appends parts) (fold put_replace (st_property_replacements parts) (g_props g)),
           g_strings = pool\<rparr>, diff_ids S g d) \<and>
    length metas = number_of_node_kinds S \<and>
    (\<forall>nk. length (metas ! n_index S nk) = new_total S g d nk \<and>
      (\<forall>seq<new_total S g d nk. is_deleted (metas ! n_index S nk ! seq) \<longleftrightarrow> node_gone S g d (NodeId nk seq)))"
proof -
  let ?rs = "st_property_replacements parts" and ?ers = "st_edge_replacements parts" and ?as = "st_property_appends parts"
  let ?cnt = "kind_count S g" and ?m = "new_count (gd_new_nodes d)"
  obtain ts where ts: "classified S g (gd_changes d) (ts, us, rem)" "set (st_node_tombstones parts) = set ts"
    using st by (auto simp: staged_as_def)
  have meta: "length (g_node_meta g) = number_of_node_kinds S" using ok by (rule graph_okD)
  have tombs: "set (st_node_tombstones parts) = {t \<in> set (removed_nodes (gd_changes d)). node_exists S g t}"
    using ts by (auto simp: classified_def)
  have tomb: "raw_kind t < length (g_node_meta g)" if t: "t \<in> set (st_node_tombstones parts)" for t
  proof -
    obtain n where "node_of_raw S t = Ok n" using t by (auto simp: tombs node_exists_iff)
    then show ?thesis using node_index_less [of "nid_kind n"] by (simp add: node_of_raw_Ok meta)
  qed
  obtain metas1 where metas1: "for_each commit_tombstone (st_node_tombstones parts) (g_node_meta g) = Ok metas1"
    "length metas1 = length (g_node_meta g)"
    "\<And>k. k < length (g_node_meta g) \<Longrightarrow> length (metas1 ! k) = length (g_node_meta g ! k)"
    "\<And>k seq. k < length (g_node_meta g) \<Longrightarrow> seq < length (g_node_meta g ! k) \<Longrightarrow> is_deleted (metas1 ! k ! seq) \<longleftrightarrow>
         is_deleted (g_node_meta g ! k ! seq) \<or> (\<exists>t\<in>set (st_node_tombstones parts). raw_kind t = k \<and> raw_seq t = seq)"
    using commit_tombstones_spec [of "st_node_tombstones parts" "g_node_meta g", OF tomb] by blast
  have news: "length (st_new_node_meta parts) = number_of_node_kinds S"
    "\<And>nk. st_new_node_meta parts ! n_index S nk = replicate (?m nk) default_node_meta"
    using st by (simp_all add: staged_as_def)
  obtain metas where metas: "for_each (commit_new_nodes S (st_new_node_meta parts)) (n_all S) metas1 = Ok metas"
    "length metas = length metas1" "\<And>nk. metas ! n_index S nk = metas1 ! n_index S nk @ st_new_node_meta parts ! n_index S nk"
    using commit_new_nodes_spec [of metas1 "st_new_node_meta parts"] metas1(2) meta news(1) by auto
  have upd: "updated_upto S ?cnt us (g_props g) ss ?rs UNIV"
    and rem: "removed_upto S ?cnt rem (g_edges g) ?ers UNIV"
    and app: "appended_upto S ?cnt ?m pending (fold put_replace ?rs (g_props g)) ss ?as UNIV"
    and ins: "inserted_upto S ?cnt ?m hb (fold put_edge_replace ?ers (g_edges g)) (st_edge_inserts parts) UNIV es'"
    and ids: "st_node_remapper parts = diff_ids S g d"
    using st by (simp_all add: staged_as_def)
  have ps: "for_each commit_prop_replace ?rs (g_props g) = Ok (fold put_replace ?rs (g_props g))"
    using updated_uptoD(1) [OF upd] by (rule commit_prop_replaces_spec)
  have es: "for_each commit_edge_replace ?ers (g_edges g) = Ok (fold put_edge_replace ?ers (g_edges g))"
    using removed_uptoD(1) [OF rem] by (rule commit_edge_replaces_spec)
  have ps': "for_each commit_prop_append ?as (fold put_replace ?rs (g_props g)) = Ok (fold put_append ?as (fold put_replace ?rs (g_props g)))"
    using appended_uptoD(1,2) [OF app] by (intro commit_prop_appends_spec) blast
  have eq: "commit S \<lparr>sd_graph = g\<lparr>g_strings := pool\<rparr>, sd_strings_baseline = b, sd_parts = parts\<rparr> =
      Ok (\<lparr>g_node_meta = metas, g_edges = es', g_props = fold put_append ?as (fold put_replace ?rs (g_props g)),
           g_strings = pool\<rparr>, diff_ids S g d)"
    by (simp add: commit_def metas1(1) ps es metas(1) ps' inserted_uptoD(1) [OF ins] ids)
  have "length (metas ! n_index S nk) = new_total S g d nk \<and>
      (\<forall>seq<new_total S g d nk. is_deleted (metas ! n_index S nk ! seq) \<longleftrightarrow> node_gone S g d (NodeId nk seq))" for nk
  proof -
    have i: "n_index S nk < length (g_node_meta g)" using node_index_less [of nk] meta by simp
    have old: "is_node_deleted S g (NodeId nk seq) = Ok (is_deleted (g_node_meta g ! n_index S nk ! seq))" if "seq < ?cnt nk" for seq
      using that by (simp add: is_node_deleted_Ok [OF ok] kind_count_def)
    have tomb: "(\<exists>t\<in>set (st_node_tombstones parts). raw_kind t = n_index S nk \<and> raw_seq t = seq) \<longleftrightarrow>
        node_of S nk seq \<in> set (removed_nodes (gd_changes d))" if "seq < ?cnt nk" for seq
    proof -
      have le: "seq \<le> u32_max" using that kind_count_le [OF ok, of nk] by linarith
      have iff: "raw_kind t = n_index S nk \<and> raw_seq t = seq \<longleftrightarrow> t = node_of S nk seq" for t
        using le raw_node_eqI [of t "node_of S nk seq"] by (auto simp: node_of_def)
      show ?thesis
        unfolding iff tombs using node_exists_node_of [OF that kind_count_le [OF ok]] by simp
    qed
    have len: "length (metas1 ! n_index S nk) = ?cnt nk" using metas1(3) [OF i] by (simp add: kind_count_def)
    have at: "metas ! n_index S nk = metas1 ! n_index S nk @ replicate (?m nk) default_node_meta"
      by (simp add: metas(3) news(2))
    have "is_deleted (metas ! n_index S nk ! seq) \<longleftrightarrow> node_gone S g d (NodeId nk seq)"
      if seq: "seq < new_total S g d nk" for seq
    proof (cases "seq < ?cnt nk")
      case True
      then have "is_deleted (metas1 ! n_index S nk ! seq) \<longleftrightarrow>
          is_deleted (g_node_meta g ! n_index S nk ! seq) \<or> node_of S nk seq \<in> set (removed_nodes (gd_changes d))"
        using metas1(4) [OF i, of seq] tomb [OF True] by (simp add: kind_count_def)
      then show ?thesis using True old [OF True] len by (simp add: at nth_append node_gone_def)
    next
      case False
      then have "\<not> is_deleted (metas ! n_index S nk ! seq)"
        using seq len by (simp add: at nth_append new_total_def default_node_meta_def)
      then show ?thesis using False by (simp add: node_gone_def)
    qed
    then show ?thesis using len by (simp add: at new_total_def)
  qed
  then show ?thesis using eq metas(2) metas1(2) meta by (intro exI [of _ metas]) simp
qed

text \<open>The rows of the committed storages.\<close>

lemma committed_edge_rows:
  assumes ok: "graph_ok S g" and st: "staged_as S g d ss parts us rem pending hb adds es'"
  shows "edge_slot_ok (e_property_type S ek) (new_total S g d nk) (es' ! edge_storage_slot S nk dir ek)"
    and "seq < new_total S g d nk \<Longrightarrow> edge_rows (es' ! edge_storage_slot S nk dir ek) (new_total S g d nk) ! seq =
      (if seq < kind_count S g nk then remove_at (edge_row S g nk dir ek seq) (queued_at S g rem nk dir ek seq) else []) @
      added_halves S adds nk dir ek seq"
proof -
  let ?i = "edge_storage_slot S nk dir ek" and ?n = "kind_count S g nk" and ?m = "new_count (gd_new_nodes d) nk"
  let ?es1 = "fold put_edge_replace (st_edge_replacements parts) (g_edges g)"
  have rem: "removed_upto S (kind_count S g) rem (g_edges g) (st_edge_replacements parts) UNIV"
    and ins: "inserted_upto S (kind_count S g) (new_count (gd_new_nodes d)) hb ?es1 (st_edge_inserts parts) UNIV es'"
    and hb: "halves_are S (new_total S g d) (added_halves S adds) hb"
    using st by (simp_all add: staged_as_def)
  have r: "slot_removed ?n (slot_removals rem ?i ?n) (edge_slot_of S g nk dir ek) (?es1 ! ?i)"
    using removed_uptoD(3) [OF rem UNIV_I] by (simp add: edge_slot_of_def)
  have i: "slot_inserted ?n ?m (slot_new_halves hb ?i (?n + ?m)) (?es1 ! ?i) (es' ! ?i)"
    using inserted_uptoD(3) [OF ins UNIV_I] .
  have t: "sa_typ (es_values (edge_slot_of S g nk dir ek)) = e_property_type S ek"
    using graph_okD(4) [OF ok] by (simp add: edge_slot_ok_def)
  then have t1: "edge_slot_ok (e_property_type S ek) ?n (?es1 ! ?i)" using r by (simp add: slot_removed_def)
  then show "edge_slot_ok (e_property_type S ek) (new_total S g d nk) (es' ! ?i)"
    using i by (simp add: slot_inserted_def edge_slot_ok_def new_total_def)
  have len: "length (edge_rows (?es1 ! ?i) ?n) = ?n" using slot_csr_length [OF edge_slot_ok_csr [OF t1]] .
  have new: "slot_new_halves hb ?i (?n + ?m) = map (added_halves S adds nk dir ek) [0..<?n + ?m]"
    using hb by (simp add: halves_are_def new_total_def)
  assume seq: "seq < new_total S g d nk"
  have "edge_rows (es' ! ?i) (?n + ?m) ! seq = (edge_rows (?es1 ! ?i) ?n @ replicate ?m []) ! seq @ added_halves S adds nk dir ek seq"
    using i seq len by (simp add: slot_inserted_def new new_total_def)
  moreover have "edge_rows (?es1 ! ?i) ?n ! seq = remove_at (edge_row S g nk dir ek seq) (queued_at S g rem nk dir ek seq)" if "seq < ?n"
  proof -
    have "edge_rows (?es1 ! ?i) ?n = map2 remove_at (edge_rows (edge_slot_of S g nk dir ek) ?n) (slot_removals rem ?i ?n)"
      using r by (simp add: slot_removed_def)
    moreover from this have "seq < length (edge_rows (edge_slot_of S g nk dir ek) ?n)" "seq < length (slot_removals rem ?i ?n)"
      using that len by (metis length_map min_less_iff_conj length_zip)+
    ultimately show ?thesis by (simp add: edge_row_def queued_at_def)
  qed
  ultimately show "edge_rows (es' ! ?i) (new_total S g d nk) ! seq =
      (if seq < ?n then remove_at (edge_row S g nk dir ek seq) (queued_at S g rem nk dir ek seq) else []) @
      added_halves S adds nk dir ek seq"
    using len seq by (simp add: new_total_def nth_append)
qed

lemma committed_prop_rows:
  assumes ok: "graph_ok S g" and st: "staged_as S g d ss parts us rem pending hb adds es'"
    and ps': "ps' = fold put_append (st_property_appends parts) (fold put_replace (st_property_replacements parts) (g_props g))"
  shows "prop_slot_ok (p_property_type S pk) (new_total S g d nk) (ps' ! property_storage_slot S nk pk)"
    and "seq < new_total S g d nk \<Longrightarrow> if seq < kind_count S g nk
      then updated_row ss (last_update S (gd_changes d) nk pk seq) (prop_row S g nk pk seq)
        (prop_rows (ps' ! property_storage_slot S nk pk) (new_total S g d nk) ! seq)
      else stored_all ss (node_values (gd_new_nodes d) nk pk (seq - kind_count S g nk))
        (prop_rows (ps' ! property_storage_slot S nk pk) (new_total S g d nk) ! seq)"
proof -
  let ?i = "property_storage_slot S nk pk" and ?n = "kind_count S g nk" and ?m = "new_count (gd_new_nodes d) nk"
  let ?ps1 = "fold put_replace (st_property_replacements parts) (g_props g)"
  have upd: "updated_upto S (kind_count S g) us (g_props g) ss (st_property_replacements parts) UNIV"
    and app: "appended_upto S (kind_count S g) (new_count (gd_new_nodes d)) pending ?ps1 ss (st_property_appends parts) UNIV"
    and news: "news_are S (new_count (gd_new_nodes d)) (node_strings (gd_new_nodes d)) (node_values (gd_new_nodes d)) pending"
    and us: "updates_are S g (gd_changes d) us" "updates_ok S (kind_count S g) (change_strings (gd_changes d)) us"
    using st by (auto simp: staged_as_def classified_def)
  have u: "slot_updated ss ?n (slot_updates us ?i ?n) (prop_slot_of S g nk pk) (?ps1 ! ?i)"
    using updated_uptoD(3) [OF upd UNIV_I] by (simp add: prop_slot_of_def)
  have a: "slot_appended ss ?n ?m (slot_news pending ?i) (?ps1 ! ?i) (ps' ! ?i)"
    using appended_uptoD(3) [OF app UNIV_I] by (simp add: ps')
  have "sa_typ (ps_values (prop_slot_of S g nk pk)) = p_property_type S pk"
    using graph_okD(5) [OF ok] by (simp add: prop_slot_ok_def)
  then have t1: "prop_slot_ok (p_property_type S pk) ?n (?ps1 ! ?i)" using u by (simp add: slot_updated_def)
  then show "prop_slot_ok (p_property_type S pk) (new_total S g d nk) (ps' ! ?i)"
    using a by (simp add: slot_appended_def prop_slot_ok_def new_total_def)
  have len: "length (prop_rows (?ps1 ! ?i) ?n) = ?n" using slot_csr_length [OF prop_slot_ok_csr [OF t1]] .
  obtain new where new: "length new = ?m" "prop_rows (ps' ! ?i) (?n + ?m) = prop_rows (?ps1 ! ?i) ?n @ new"
    "\<forall>j<?m. stored_all ss (new_values (slot_news pending ?i) j) (new ! j)"
    using a by (auto simp: slot_appended_def)
  have us_len: "length (slot_updates us ?i ?n) = ?n"
    using us(2) by (auto simp: updates_ok_def slot_updates_def split: option.splits)
  assume seq: "seq < new_total S g d nk"
  show "if seq < ?n
      then updated_row ss (last_update S (gd_changes d) nk pk seq) (prop_row S g nk pk seq)
        (prop_rows (ps' ! ?i) (new_total S g d nk) ! seq)
      else stored_all ss (node_values (gd_new_nodes d) nk pk (seq - ?n)) (prop_rows (ps' ! ?i) (new_total S g d nk) ! seq)"
  proof (cases "seq < ?n")
    case True
    then have "slot_updates us ?i ?n ! seq = last_update S (gd_changes d) nk pk seq" using us(1) by (simp add: updates_are_def)
    then have "updated_row ss (last_update S (gd_changes d) nk pk seq) (prop_row S g nk pk seq) (prop_rows (?ps1 ! ?i) ?n ! seq)"
      using u True us_len by (auto simp: slot_updated_def updated_rows_def prop_row_def)
    then show ?thesis using True len by (simp add: new_total_def new(2) nth_append)
  next
    case False
    then have j: "seq - ?n < ?m" using seq by (simp add: new_total_def)
    then have "new_values (slot_news pending ?i) (seq - ?n) = node_values (gd_new_nodes d) nk pk (seq - ?n)"
      using news by (simp add: news_are_def)
    then have "stored_all ss (node_values (gd_new_nodes d) nk pk (seq - ?n)) (new ! (seq - ?n))" using new(3) j by metis
    then show ?thesis using False len by (simp add: new_total_def new(2) nth_append)
  qed
qed

lemma sum_new_count: "sum_list (map (new_count nodes) (n_all S)) = length nodes"
proof (induction nodes rule: rev_induct)
  case Nil
  then show ?case by (induction "n_all S") simp_all
next
  case (snoc n nodes)
  have "sum_list (map (\<lambda>nk. if nn_kind n = nk then 1 else 0) (n_all S)) = (1 :: nat)"
    using kind_laws_distinct [OF node_kinds] by (simp add: sum_list_distinct_conv_sum_set del: sum_list_map_filter)
  then show ?case using snoc by (simp add: sum_list_addf)
qed

lemma sum_kinds_list:
  assumes "length metas = number_of_node_kinds S" and "\<And>nk. length (metas ! n_index S nk) = f nk"
  shows "sum_list (map length metas) = sum_list (map f (n_all S))"
proof -
  have "map length metas = map f (n_all S)"
  proof (rule nth_equalityI)
    fix i assume "i < length (map length metas)"
    then have i: "i < length (n_all S)" using assms(1) by (simp add: number_of_node_kinds_def)
    then have "n_index S (n_all S ! i) = i" by simp
    then show "map length metas ! i = map f (n_all S) ! i" using assms i by (metis length_map nth_map number_of_node_kinds_def)
  qed (use assms in \<open>simp add: number_of_node_kinds_def\<close>)
  then show ?thesis by simp
qed

lemma added_half_mem:
  assumes "edges_added S ids lives ss es adds" and "h \<in> set (added_halves S adds nk dir ek seq)"
  shows "\<exists>n. lives n \<and> fst h = node_of S (nid_kind n) (nid_seq n)"
  using assms(2) edges_added_mem [OF assms(1)] by (cases dir) (auto, blast+)

lemma remove_at_subset: "set (remove_at r R) \<subseteq> set r"
  by (auto simp: remove_at_def dest: in_set_nthsD)

lemma commit_applied:
  assumes ok: "graph_ok S g" and fits: "diff_fits g d" and pool: "pool_repr pool ss"
    and st: "staged_as S g d ss parts us rem pending hb adds es'"
  shows "\<exists>g'. commit S \<lparr>sd_graph = g\<lparr>g_strings := pool\<rparr>, sd_strings_baseline = b, sd_parts = parts\<rparr> =
      Ok (g', diff_ids S g d) \<and> graph_ok S g' \<and> g_strings g' = pool \<and>
    diff_edges S g d ss rem adds \<and> rows_applied S g d ss rem adds g'"
proof -
  let ?ps = "fold put_append (st_property_appends parts) (fold put_replace (st_property_replacements parts) (g_props g))"
  obtain metas where
    commit: "commit S \<lparr>sd_graph = g\<lparr>g_strings := pool\<rparr>, sd_strings_baseline = b, sd_parts = parts\<rparr> =
      Ok (\<lparr>g_node_meta = metas, g_edges = es', g_props = ?ps, g_strings = pool\<rparr>, diff_ids S g d)"
    and metas: "length metas = number_of_node_kinds S" "\<And>nk. length (metas ! n_index S nk) = new_total S g d nk"
      "\<And>nk seq. seq < new_total S g d nk \<Longrightarrow> is_deleted (metas ! n_index S nk ! seq) \<longleftrightarrow> node_gone S g d (NodeId nk seq)"
    using commit_spec [OF ok st, of pool b] by blast
  define g' where "g' = \<lparr>g_node_meta = metas, g_edges = es', g_props = ?ps, g_strings = pool\<rparr>"
  have count: "kind_count S g' nk = new_total S g d nk" for nk by (simp add: kind_count_def g'_def metas(2))
  have slots: "edge_slot_of S g' nk dir ek = es' ! edge_storage_slot S nk dir ek"
    "prop_slot_of S g' nk pk = ?ps ! property_storage_slot S nk pk" for nk dir ek pk
    by (simp_all add: edge_slot_of_def prop_slot_of_def g'_def)
  have le: "new_total S g d nk \<le> u32_max" for nk using new_total_le [OF ok fits] by (simp add: new_total_def)
  have edges: "edge_row_applied S g rem adds g' nk dir ek seq" if "seq < new_total S g d nk" for nk dir ek seq
    using committed_edge_rows(2) [OF ok st, of seq nk] that by (simp add: edge_row_applied_def edge_row_def [of S g'] slots count)
  have props: "prop_row_applied S g d ss g' nk pk seq" if "seq < new_total S g d nk" for nk pk seq
    using committed_prop_rows(2) [OF ok st refl, of seq nk pk] that
    by (simp add: prop_row_applied_def updated_row_def prop_row_def [of S g'] slots count split: option.splits if_splits)
  have added: "edges_added S (diff_ids S g d) (diff_lives S g d) ss (gd_new_edges d) adds" using st by (simp add: staged_as_def)
  have ins: "inserted_upto S (kind_count S g) (new_count (gd_new_nodes d)) hb
       (fold put_edge_replace (st_edge_replacements parts) (g_edges g)) (st_edge_inserts parts) UNIV es'"
    using st by (simp add: staged_as_def)
  have slot_ok: "edge_slot_ok (e_property_type S ek) (new_total S g d nk) (es' ! edge_storage_slot S nk dir ek)"
    "prop_slot_ok (p_property_type S pk) (new_total S g d nk) (?ps ! property_storage_slot S nk pk)" for nk dir ek pk
    using committed_edge_rows(1) [OF ok st] committed_prop_rows(1) [OF ok st refl] by auto
  have exists: "node_exists S g' r" if "node_exists S g r" for r
    using that count by (auto simp: node_exists_def new_total_def split: option.splits)
  have exists_new: "node_exists S g' (node_of S (nid_kind n) (nid_seq n))" if "diff_lives S g d n" for n
    using that node_exists_node_of [of "nid_seq n" g' "nid_kind n"] count le by (simp add: diff_lives_def node_lives_def)
  have neighbors: "node_exists S g' r" if r: "r \<in> set (es_neighbors (edge_slot_of S g' nk dir ek))" for nk dir ek r
  proof -
    obtain seq where seq: "seq < new_total S g d nk" "r \<in> fst ` set (edge_row S g' nk dir ek seq)"
      using slot_neighbor_row [OF slot_ok(1) r [unfolded slots]] by (auto simp: edge_row_def slots count)
    then obtain h where h: "h \<in> set (edge_row S g' nk dir ek seq)" "r = fst h" by blast
    have "h \<in> set (added_halves S adds nk dir ek seq) \<or> (seq < kind_count S g nk \<and> h \<in> set (edge_row S g nk dir ek seq))"
      using h(1) edges [OF seq(1), of dir ek]
      by (auto simp: edge_row_applied_def split: if_splits dest: remove_at_subset [THEN subsetD])
    then show ?thesis
      using exists exists_new row_neighbors_exist [OF ok] added_half_mem [OF added] h(2) by metis
  qed
  have sum: "sum_list (map length metas) \<le> u32_max"
  proof -
    have "sum_list (map length (g_node_meta g)) = sum_list (map (kind_count S g) (n_all S))"
      using graph_okD(1) [OF ok] by (rule sum_kinds_list) (simp add: kind_count_def)
    moreover have "sum_list (map length metas) = sum_list (map (\<lambda>nk. kind_count S g nk + new_count (gd_new_nodes d) nk) (n_all S))"
      using metas(1,2) by (intro sum_kinds_list) (simp_all add: new_total_def)
    ultimately show ?thesis using fits by (simp add: sum_list_addf sum_new_count diff_fits_def)
  qed
  have wf: "graph_ok S g'"
    unfolding graph_ok_def
  proof (intro conjI allI ballI)
    show "length (g_edges g') = edge_storage_size S"
      using inserted_uptoD(2) [OF ins] graph_okD(2) [OF ok] by (simp add: g'_def)
    show "length (g_props g') = property_storage_size S"
      using graph_okD(3) [OF ok] by (simp add: g'_def)
    show "\<exists>ss. pool_repr (g_strings g') ss" using pool by (auto simp: g'_def)
  qed (use metas(1) sum neighbors slot_ok count slots in \<open>simp_all add: g'_def\<close>)
  have rows: "rows_applied S g d ss rem adds g'"
    unfolding rows_applied_def
  proof (intro conjI allI impI)
    fix n assume n: "nid_seq n < new_total S g d (nid_kind n)"
    have "g_node_meta g' = metas" by (simp add: g'_def)
    then show "is_node_deleted S g' n = Ok (node_gone S g d n)"
      using metas(2,3) n by (simp add: is_node_deleted_Ok [OF wf])
  qed (use count edges props in simp_all)
  have "diff_edges S g d ss rem adds"
    unfolding diff_edges_def
  proof (intro conjI allI ballI impI)
    show "removals_ok S (kind_count S g) rem" "edges_queued S g (removed_edges (gd_changes d)) rem"
      using st by (auto simp: staged_as_def classified_def)
    then show "j < length (edge_row S g nk dir ek seq) \<or> es_offsets (edge_slot_of S g nk dir ek) = []"
      if j: "j \<in> set (queued_at S g rem nk dir ek seq)" "seq < kind_count S g nk" for nk dir ek seq j
    proof -
      let ?i = "edge_storage_slot S nk dir ek" and ?n = "kind_count S g nk"
      have "slot_removed ?n (slot_removals rem ?i ?n) (edge_slot_of S g nk dir ek)
          (fold put_edge_replace (st_edge_replacements parts) (g_edges g) ! ?i)"
        using st removed_uptoD(3) [OF _ UNIV_I] by (auto simp: staged_as_def edge_slot_of_def)
      then have "es_offsets (edge_slot_of S g nk dir ek) = [] \<or>
          in_rows (edge_rows (edge_slot_of S g nk dir ek) ?n) (slot_removals rem ?i ?n)" by (simp add: slot_removed_def)
      moreover have "length (edge_rows (edge_slot_of S g nk dir ek) ?n) = ?n"
        using slot_csr_length [OF edge_slot_ok_csr [OF graph_okD(4) [OF ok]]] .
      ultimately show ?thesis
        using j in_rows_nth [of "edge_rows (edge_slot_of S g nk dir ek) ?n" "slot_removals rem ?i ?n" seq j]
          in_rows_length [of "edge_rows (edge_slot_of S g nk dir ek) ?n" "slot_removals rem ?i ?n"]
        by (auto simp: edge_row_def queued_at_def)
    qed
  qed (rule added)
  then show ?thesis using commit wf rows by (auto simp: g'_def)
qed

end

end
