(* ===== verification/Pairing_Spec.thy ===== *)
theory Pairing_Spec
  imports Commit_Spec
begin

text \<open>
  Pairing: the edges a graph stores at their sources are the edges it stores at their destinations,
  as multisets of source, destination and value. A diff that removes edges by handles that name a
  half-edge of the graph keeps it: the half found at the other end is a half of the same edge.
\<close>

section \<open>Edges as sums over the nodes\<close>

definition node_set :: "('n, 'e, 'p, 'r) schema \<Rightarrow> graph \<Rightarrow> ('n \<times> nat) set" where
  "node_set S g = (SIGMA nk : set (n_all S). {..<kind_count S g nk})"

definition half_triples ::
  "('n, 'e, 'p, 'r) schema \<Rightarrow> dir \<Rightarrow> 'n \<times> nat \<Rightarrow> (raw_node_id \<times> stored_property option) list \<Rightarrow> edge_triple multiset" where
  "half_triples S d n hs = (case n of (nk, seq) \<Rightarrow> image_mset (triple d (node_of S nk seq)) (mset hs))"

text \<open>What is left of the edges once the queued positions are gone.\<close>

definition left_triples ::
  "('n, 'e, 'p, 'r) schema \<Rightarrow> graph \<Rightarrow> nat list buckets \<Rightarrow> dir \<Rightarrow> 'e \<Rightarrow> edge_triple multiset" where
  "left_triples S g rem d ek = (\<Sum>n\<in>node_set S g. half_triples S d n
     (remove_at (edge_row S g (fst n) d ek (snd n)) (queued_at S g rem (fst n) d ek (snd n))))"

text \<open>A handle that names a half-edge of the graph, as the ids of \<open>get_edges\<close> do.\<close>

definition edge_live :: "('n, 'e, 'p, 'r) schema \<Rightarrow> graph \<Rightarrow> raw_edge_id \<Rightarrow> bool" where
  "edge_live S g e \<longleftrightarrow> (\<exists>ek p nd s fd near. resolve_edge_kind S (re_handle e) = Ok ek \<and> edge_near e = Ok (p, nd, s, fd) \<and>
     node_of_raw S p = Ok near \<and> nid_seq near < kind_count S g (nid_kind near) \<and>
     edge_seq e < length (edge_row S g (nid_kind near) nd ek (nid_seq near)) \<and>
     fst (edge_row S g (nid_kind near) nd ek (nid_seq near) ! edge_seq e) = s)"

lemma finite_node_set [simp]: "finite (node_set S g)"
  by (simp add: node_set_def)

lemma half_triples_append [simp]: "half_triples S d n (xs @ ys) = half_triples S d n xs + half_triples S d n ys"
  by (simp add: half_triples_def split: prod.split)

lemma half_triples_Nil [simp]: "half_triples S d n [] = {#}"
  by (simp add: half_triples_def split: prod.split)

lemma mset_nths: "mset (nths xs A) = image_mset ((!) xs) (mset_set {i. i < length xs \<and> i \<in> A})"
proof (induction xs rule: rev_induct)
  case (snoc x xs)
  have eq: "{i. i < length (xs @ [x]) \<and> i \<in> A} =
      {i. i < length xs \<and> i \<in> A} \<union> (if length xs \<in> A then {length xs} else {})"
    by (auto simp: less_Suc_eq)
  have "image_mset ((!) (xs @ [x])) (mset_set {i. i < length xs \<and> i \<in> A}) =
      image_mset ((!) xs) (mset_set {i. i < length xs \<and> i \<in> A})"
    by (intro image_mset_cong) (simp add: nth_append)
  then show ?case unfolding eq using snoc by (cases "length xs \<in> A") (simp_all add: nths_append)
qed (simp add: nths_nil)

lemma remove_at_snoc:
  assumes "k < length r" and "k \<notin> set R"
  shows "mset (remove_at r R) = add_mset (r ! k) (mset (remove_at r (R @ [k])))"
proof -
  have "{i. i < length r \<and> i \<in> - set R} = insert k {i. i < length r \<and> i \<in> - set (R @ [k])}"
    using assms by auto
  then have "mset_set {i. i < length r \<and> i \<in> - set R} = add_mset k (mset_set {i. i < length r \<and> i \<in> - set (R @ [k])})"
    by simp
  then show ?thesis by (simp only: remove_at_def mset_nths image_mset_add_mset)
qed

lemma remove_at_mem:
  "x \<in> set (remove_at r R) \<longleftrightarrow> (\<exists>j<length r. j \<notin> set R \<and> r ! j = x)"
  by (auto simp: remove_at_def set_nths)

lemma remove_at_image:
  "x \<in> f ` set (remove_at r R) \<longleftrightarrow> (\<exists>j<length r. j \<notin> set R \<and> x = f (r ! j))"
  unfolding image_iff Bex_def remove_at_mem by blast

lemma sum_change_one:
  fixes f f' :: "'a \<Rightarrow> 'b multiset"
  assumes "finite A" and "a \<in> A" and "f a = add_mset x (f' a)" and "\<And>b. b \<in> A \<Longrightarrow> b \<noteq> a \<Longrightarrow> f' b = f b"
  shows "sum f A = add_mset x (sum f' A)"
proof -
  have "sum f (A - {a}) = sum f' (A - {a})" using assms(4) by (intro sum.cong) auto
  then show ?thesis using assms(1-3) by (simp add: sum.remove [of A a])
qed

context schema_laws
begin

lemma node_set_mem: "(nk, seq) \<in> node_set S g \<longleftrightarrow> seq < kind_count S g nk"
  using node_laws(6) [of nk] by (simp add: node_set_def del: node_laws)

lemma rows_triples_sum:
  "mset (rows_triples S nk d rows) = (\<Sum>seq<length rows. image_mset (triple d (node_of S nk seq)) (mset (rows ! seq)))"
proof (induction rows rule: rev_induct)
  case (snoc r rows)
  have "(\<Sum>seq<length rows. image_mset (triple d (node_of S nk seq)) (mset ((rows @ [r]) ! seq))) =
      (\<Sum>seq<length rows. image_mset (triple d (node_of S nk seq)) (mset (rows ! seq)))"
    by (intro sum.cong) (simp_all add: nth_append)
  then show ?case using snoc by (simp add: rows_triples_def enumerate_append_eq)
qed (simp add: rows_triples_def)

lemma edge_triples_sum:
  assumes ok: "graph_ok S g"
  shows "mset (edge_triples S g d ek) = (\<Sum>n\<in>node_set S g. half_triples S d n (edge_row S g (fst n) d ek (snd n)))"
proof -
  have slot: "mset (slot_triples S g nk d ek) =
      (\<Sum>seq<kind_count S g nk. half_triples S d (nk, seq) (edge_row S g nk d ek seq))" for nk
    using slot_csr_length [OF edge_slot_ok_csr [OF graph_okD(4) [OF ok, of ek nk d]]]
    by (simp add: slot_triples_def rows_triples_sum half_triples_def edge_row_def)
  have "mset (edge_triples S g d ek) = (\<Sum>nk\<in>set (n_all S). mset (slot_triples S g nk d ek))"
    using kind_laws_distinct [OF node_kinds]
    by (simp add: edge_triples_def mset_concat comp_def sum_list_distinct_conv_sum_set)
  also have "\<dots> = (\<Sum>nk\<in>set (n_all S). \<Sum>seq<kind_count S g nk. half_triples S d (nk, seq) (edge_row S g nk d ek seq))"
    by (simp only: slot)
  also have "\<dots> = (\<Sum>n\<in>node_set S g. half_triples S d n (edge_row S g (fst n) d ek (snd n)))"
    by (simp add: node_set_def sum.Sigma case_prod_beta')
  finally show ?thesis .
qed

lemma node_of_raw_node_of: "node_of_raw S r = Ok n \<Longrightarrow> r = node_of S (nid_kind n) (nid_seq n)"
  using raw_seq_le [of r] by (intro raw_node_eqI) (simp_all add: node_of_raw_Ok node_of_def)

lemma node_of_inject:
  assumes "node_of S a i = node_of S b j" and "i \<le> u32_max" and "j \<le> u32_max"
  shows "a = b \<and> i = j"
proof -
  have "raw_kind (node_of S a i) = n_index S a" "raw_seq (node_of S a i) = i"
    "raw_kind (node_of S b j) = n_index S b" "raw_seq (node_of S b j) = j"
    using assms(2,3) by (simp_all add: node_of_def)
  then show ?thesis using assms(1) by (metis n_index_inj)
qed

end

section \<open>Queueing keeps the rest paired\<close>

definition queue_paired :: "('n, 'e, 'p, 'r) schema \<Rightarrow> graph \<Rightarrow> nat list buckets \<Rightarrow> bool" where
  "queue_paired S g rem \<longleftrightarrow>
     (\<forall>nk d ek seq. seq < kind_count S g nk \<longrightarrow> (\<forall>j\<in>set (queued_at S g rem nk d ek seq). j < length (edge_row S g nk d ek seq))) \<and>
     (\<forall>ek. left_triples S g rem Out ek = left_triples S g rem In ek)"

text \<open>The added edges contribute the same triples on both sides.\<close>

definition added_triples :: "('n, 'e, 'p, 'r) schema \<Rightarrow> 'e \<Rightarrow> ('n, 'e) added_edge list \<Rightarrow> edge_triple list" where
  "added_triples S ek adds = map (\<lambda>(s, t, k, p). (node_of S (nid_kind s) (nid_seq s), node_of S (nid_kind t) (nid_seq t), p))
     (filter (\<lambda>(s, t, k, p). k = ek) adds)"

lemma edge_near_dirs: "edge_near e = Ok (p, nd, s, fd) \<Longrightarrow> nd = Out \<and> fd = In \<or> nd = In \<and> fd = Out"
proof -
  assume "edge_near e = Ok (p, nd, s, fd)"
  then obtain d where "(p, nd, s, fd) = orient_edge d (re_src e) (re_dst e)" by (auto simp: edge_near_def map_ok_eq_Ok)
  then show ?thesis by (cases d) simp_all
qed

lemma left_triples_same:
  assumes "\<And>nk seq. queued_at S g rem' nk d ek seq = queued_at S g rem nk d ek seq"
  shows "left_triples S g rem' d ek = left_triples S g rem d ek"
  by (simp add: left_triples_def assms)

context schema_laws
begin

lemma left_triples_push:
  assumes n: "nid_seq n < kind_count S g (nid_kind n)"
    and k: "k < length (edge_row S g (nid_kind n) d ek (nid_seq n))" "k \<notin> set (queued_at S g rem (nid_kind n) d ek (nid_seq n))"
    and upd: "\<And>nk seq. queued_at S g rem' nk d ek seq = queued_at S g rem nk d ek seq @
      (if (nk, seq) = (nid_kind n, nid_seq n) then [k] else [])"
  shows "left_triples S g rem d ek =
    add_mset (triple d (node_of S (nid_kind n) (nid_seq n)) (edge_row S g (nid_kind n) d ek (nid_seq n) ! k)) (left_triples S g rem' d ek)"
  unfolding left_triples_def
proof (rule sum_change_one [where a = "(nid_kind n, nid_seq n)"])
  show "(nid_kind n, nid_seq n) \<in> node_set S g" using n by (simp add: node_set_mem)
next
  have "mset (remove_at (edge_row S g (nid_kind n) d ek (nid_seq n)) (queued_at S g rem (nid_kind n) d ek (nid_seq n))) =
      add_mset (edge_row S g (nid_kind n) d ek (nid_seq n) ! k) (mset (remove_at (edge_row S g (nid_kind n) d ek (nid_seq n))
        (queued_at S g rem' (nid_kind n) d ek (nid_seq n))))"
    using remove_at_snoc [OF k] by (simp add: upd)
  then show "half_triples S d (nid_kind n, nid_seq n) (remove_at (edge_row S g (fst (nid_kind n, nid_seq n)) d ek (snd (nid_kind n, nid_seq n)))
        (queued_at S g rem (fst (nid_kind n, nid_seq n)) d ek (snd (nid_kind n, nid_seq n)))) =
      add_mset (triple d (node_of S (nid_kind n) (nid_seq n)) (edge_row S g (nid_kind n) d ek (nid_seq n) ! k))
        (half_triples S d (nid_kind n, nid_seq n) (remove_at (edge_row S g (fst (nid_kind n, nid_seq n)) d ek (snd (nid_kind n, nid_seq n)))
          (queued_at S g rem' (fst (nid_kind n, nid_seq n)) d ek (snd (nid_kind n, nid_seq n)))))"
    by (simp add: half_triples_def)
qed (auto simp: upd)

lemma bex_node_set: "(\<exists>n\<in>node_set S g. P n) \<longleftrightarrow> (\<exists>nk seq. seq < kind_count S g nk \<and> P (nk, seq))"
  by (metis node_set_mem surj_pair)

lemma left_triples_mem:
  "x \<in># left_triples S g rem d ek \<longleftrightarrow> (\<exists>nk seq j. seq < kind_count S g nk \<and> j < length (edge_row S g nk d ek seq) \<and>
     j \<notin> set (queued_at S g rem nk d ek seq) \<and> x = triple d (node_of S nk seq) (edge_row S g nk d ek seq ! j))"
proof -
  have "x \<in># left_triples S g rem d ek \<longleftrightarrow> (\<exists>n\<in>node_set S g. x \<in># half_triples S d n
     (remove_at (edge_row S g (fst n) d ek (snd n)) (queued_at S g rem (fst n) d ek (snd n))))"
    by (simp add: left_triples_def set_mset_sum)
  also have "\<dots> \<longleftrightarrow> (\<exists>nk seq. seq < kind_count S g nk \<and> x \<in> triple d (node_of S nk seq) `
      set (remove_at (edge_row S g nk d ek seq) (queued_at S g rem nk d ek seq)))"
    unfolding bex_node_set by (simp add: half_triples_def)
  finally show ?thesis by (simp only: remove_at_image) blast
qed

lemma row_typed:
  assumes ok: "graph_ok S g" and seq: "seq < kind_count S g nk" and h: "h \<in> set (edge_row S g nk d ek seq)"
  shows "case snd h of None \<Rightarrow> e_property_type S ek = TNone | Some v \<Rightarrow> sp_typ v = e_property_type S ek"
proof -
  let ?slot = "edge_slot_of S g nk d ek"
  have slot: "edge_slot_ok (e_property_type S ek) (kind_count S g nk) ?slot" using ok by (rule graph_okD)
  note csr = edge_slot_ok_csr [OF slot]
  have "h \<in> set (concat (edge_rows ?slot (kind_count S g nk)))"
    using h seq slot_csr_length [OF csr] by (auto simp: edge_row_def)
  then have "h \<in> set (edge_halves ?slot)" by (simp only: slot_csr_concat [OF csr])
  then show ?thesis using edge_slot_halves(1) [OF slot] by (simp add: halves_typed_def)
qed

text \<open>The half found at the other end is a half of the edge the handle names.\<close>

lemma far_half_matches:
  assumes ok: "graph_ok S g" and inv: "queue_paired S g rem"
    and near: "node_of_raw S p = Ok near" "nid_seq near < kind_count S g (nid_kind near)"
    and far: "node_of_raw S s = Ok far" "nid_seq far < kind_count S g (nid_kind far)"
    and dirs: "nd = Out \<and> fd = In \<or> nd = In \<and> fd = Out"
    and k: "k < length (edge_row S g (nid_kind near) nd ek (nid_seq near))"
      "fst (edge_row S g (nid_kind near) nd ek (nid_seq near) ! k) = s"
      "k \<notin> set (queued_at S g rem (nid_kind near) nd ek (nid_seq near))"
    and j: "reverse_match S g ek p near nd k far fd (queued_at S g rem (nid_kind far) fd ek (nid_seq far)) j"
  shows "triple fd (node_of S (nid_kind far) (nid_seq far)) (edge_row S g (nid_kind far) fd ek (nid_seq far) ! j) =
    triple nd (node_of S (nid_kind near) (nid_seq near)) (edge_row S g (nid_kind near) nd ek (nid_seq near) ! k)"
proof -
  let ?near = "edge_row S g (nid_kind near) nd ek (nid_seq near)" and ?far = "edge_row S g (nid_kind far) fd ek (nid_seq far)"
  let ?C = "reverse_candidates S g (nid_kind far) fd ek (nid_seq far) p (queued_at S g rem (nid_kind far) fd ek (nid_seq far))"
  have p: "p = node_of S (nid_kind near) (nid_seq near)" and s: "s = node_of S (nid_kind far) (nid_seq far)"
    using node_of_raw_node_of near(1) far(1) by blast+
  obtain v where v: "?near ! k = (s, v)" using k(2) by (cases "?near ! k") auto
  have jC: "j \<in> ?C" using j by (simp add: reverse_match_def Let_def)
  then obtain w where w: "?far ! j = (p, w)" "j < length ?far" by (cases "?far ! j") (auto simp: reverse_candidates_def)
  have vt: "case v of None \<Rightarrow> e_property_type S ek = TNone | Some v \<Rightarrow> sp_typ v = e_property_type S ek"
    using row_typed [OF ok near(2) nth_mem [OF k(1)]] v by simp
  have wt: "case w of None \<Rightarrow> e_property_type S ek = TNone | Some v \<Rightarrow> sp_typ v = e_property_type S ek"
    using row_typed [OF ok far(2) nth_mem [OF w(2)]] w(1) by simp
  have "v = w"
  proof (cases "e_property_type S ek = TNone")
    case True
    then show ?thesis using vt wt by (cases v; cases w) simp_all
  next
    case False
    let ?x = "triple nd p (s, v)"
    have "?x \<in># left_triples S g rem nd ek"
      unfolding left_triples_mem using near(2) k v p by metis
    then have "?x \<in># left_triples S g rem fd ek" using inv dirs by (auto simp: queue_paired_def)
    then obtain nk seq j' where j': "seq < kind_count S g nk" "j' < length (edge_row S g nk fd ek seq)"
      "j' \<notin> set (queued_at S g rem nk fd ek seq)" "?x = triple fd (node_of S nk seq) (edge_row S g nk fd ek seq ! j')"
      unfolding left_triples_mem by blast
    obtain q u where qu: "edge_row S g nk fd ek seq ! j' = (q, u)" by (cases "edge_row S g nk fd ek seq ! j'")
    have eq: "node_of S nk seq = s" "q = p" "u = v" using j'(4) dirs by (auto simp: qu)
    have le: "seq \<le> u32_max" "nid_seq far \<le> u32_max"
      using j'(1) far(2) kind_count_le [OF ok, of nk] kind_count_le [OF ok, of "nid_kind far"] by linarith+
    have far': "nk = nid_kind far" "seq = nid_seq far" using node_of_inject [OF _ le] eq(1) s by blast+
    have "j' \<in> ?C" using j' qu eq by (simp add: far' reverse_candidates_def)
    moreover have "opt_key (snd (?far ! j')) = opt_key (snd (?near ! k))" using qu eq v by (simp add: far')
    ultimately have "\<exists>j'\<in>?C. opt_key (snd (?far ! j')) = opt_key (snd (?near ! k))" by blast
    then have "opt_key w = opt_key v" using j False k(1) by (simp add: reverse_match_def Let_def w v)
    then show ?thesis using vt wt False opt_key_inject [of w "e_property_type S ek" v] by (cases v; cases w) simp_all
  qed
  then show ?thesis using dirs by (auto simp: v w p s)
qed

lemma edge_step_paired:
  assumes ok: "graph_ok S g" and inv: "queue_paired S g rem" and live: "edge_live S g e" and step: "edge_step S g e rem rem'"
  shows "queue_paired S g rem'"
proof -
  obtain ek p nd s fd near where e: "resolve_edge_kind S (re_handle e) = Ok ek" "edge_near e = Ok (p, nd, s, fd)"
    "node_of_raw S p = Ok near" "nid_seq near < kind_count S g (nid_kind near)"
    "if edge_seq e \<in> set (queued_at S g rem (nid_kind near) nd ek (nid_seq near))
      then (\<forall>nk d ek' seq. queued_at S g rem' nk d ek' seq = queued_at S g rem nk d ek' seq)
      else (\<exists>far. node_of_raw S s = Ok far \<and> nid_seq far < kind_count S g (nid_kind far) \<and>
        both_queued S g ek p near nd (edge_seq e) far fd rem rem')"
    using step unfolding edge_step_def by blast
  have k: "edge_seq e < length (edge_row S g (nid_kind near) nd ek (nid_seq near))"
    "fst (edge_row S g (nid_kind near) nd ek (nid_seq near) ! edge_seq e) = s"
    using live e(1-3) by (auto simp: edge_live_def)
  note dirs = edge_near_dirs [OF e(2)]
  show ?thesis
  proof (cases "edge_seq e \<in> set (queued_at S g rem (nid_kind near) nd ek (nid_seq near))")
    case True
    then have same: "queued_at S g rem' nk d ek' seq = queued_at S g rem nk d ek' seq" for nk d ek' seq using e(5) by simp
    then have "left_triples S g rem' d ek' = left_triples S g rem d ek'" for d ek' by (rule left_triples_same)
    then show ?thesis using inv by (simp add: queue_paired_def same)
  next
    case False
    then obtain far where far: "node_of_raw S s = Ok far" "nid_seq far < kind_count S g (nid_kind far)"
      "both_queued S g ek p near nd (edge_seq e) far fd rem rem'" using e(5) by auto
    then obtain j where j: "reverse_match S g ek p near nd (edge_seq e) far fd (queued_at S g rem (nid_kind far) fd ek (nid_seq far)) j"
      and upd: "\<And>nk d ek' seq. queued_at S g rem' nk d ek' seq = queued_at S g rem nk d ek' seq @
          (if (nk, d, ek', seq) = (nid_kind near, nd, ek, nid_seq near) then [edge_seq e] else []) @
          (if (nk, d, ek', seq) = (nid_kind far, fd, ek, nid_seq far) then [j] else [])"
      unfolding both_queued_def by blast
    have jC: "j < length (edge_row S g (nid_kind far) fd ek (nid_seq far))"
      "j \<notin> set (queued_at S g rem (nid_kind far) fd ek (nid_seq far))"
      using j by (simp_all add: reverse_match_def reverse_candidates_def Let_def)
    have "left_triples S g rem nd ek = add_mset (triple nd (node_of S (nid_kind near) (nid_seq near))
        (edge_row S g (nid_kind near) nd ek (nid_seq near) ! edge_seq e)) (left_triples S g rem' nd ek)"
      using dirs by (intro left_triples_push [OF e(4) k(1) False]) (auto simp: upd)
    moreover have "left_triples S g rem fd ek = add_mset (triple fd (node_of S (nid_kind far) (nid_seq far))
        (edge_row S g (nid_kind far) fd ek (nid_seq far) ! j)) (left_triples S g rem' fd ek)"
      using dirs by (intro left_triples_push [OF far(2) jC]) (auto simp: upd)
    moreover have "triple fd (node_of S (nid_kind far) (nid_seq far)) (edge_row S g (nid_kind far) fd ek (nid_seq far) ! j) =
        triple nd (node_of S (nid_kind near) (nid_seq near)) (edge_row S g (nid_kind near) nd ek (nid_seq near) ! edge_seq e)"
      by (rule far_half_matches [OF ok inv e(3,4) far(1,2) dirs k False j])
    ultimately have same: "left_triples S g rem' Out ek = left_triples S g rem' In ek"
      using inv dirs by (auto simp: queue_paired_def)
    have "left_triples S g rem' Out ek' = left_triples S g rem' In ek'" for ek'
    proof (cases "ek' = ek")
      case False
      then have "left_triples S g rem' d ek' = left_triples S g rem d ek'" for d by (intro left_triples_same) (auto simp: upd)
      then show ?thesis using inv by (simp add: queue_paired_def)
    qed (use same in simp)
    moreover have "x < length (edge_row S g nk d ek' seq)"
      if "x \<in> set (queued_at S g rem' nk d ek' seq)" "seq < kind_count S g nk" for nk d ek' seq x
      using that inv jC(1) k(1) by (auto simp: upd queue_paired_def split: if_splits)
    ultimately show ?thesis by (simp add: queue_paired_def)
  qed
qed

lemma queued_at_new: "seq < kind_count S g nk \<Longrightarrow> queued_at S g (buckets_new (edge_storage_size S)) nk d ek seq = []"
  by (simp add: queued_at_def slot_removals_def edge_slot_less)

lemma left_triples_new:
  assumes ok: "graph_ok S g"
  shows "left_triples S g (buckets_new (edge_storage_size S)) d ek = mset (edge_triples S g d ek)"
  unfolding left_triples_def edge_triples_sum [OF ok]
proof (rule sum.cong [OF refl])
  fix n assume "n \<in> node_set S g"
  then have "snd n < kind_count S g (fst n)" by (cases n) (simp add: node_set_mem)
  then show "half_triples S d n (remove_at (edge_row S g (fst n) d ek (snd n))
      (queued_at S g (buckets_new (edge_storage_size S)) (fst n) d ek (snd n))) = half_triples S d n (edge_row S g (fst n) d ek (snd n))"
    by (simp add: queued_at_new)
qed

lemma edges_queued_paired:
  assumes queued: "edges_queued S g es rem" and ok: "graph_ok S g" and paired: "\<And>ek. edges_paired S g ek"
    and live: "\<And>e. e \<in> set es \<Longrightarrow> edge_live S g e"
  shows "queue_paired S g rem"
  using queued live
proof (induction rule: edges_queued.induct)
  case none
  show ?case
    using paired by (simp add: queue_paired_def queued_at_new left_triples_new [OF ok] edges_paired_def)
next
  case (more es rem e rem')
  have "queue_paired S g rem" using more.IH more.prems by simp
  then show ?case using edge_step_paired [OF ok _ _ more.hyps(2)] more.prems [of e] by simp
qed

lemma sum_only:
  "finite A \<Longrightarrow> a \<in> A \<Longrightarrow> (\<And>b. b \<in> A \<Longrightarrow> b \<noteq> a \<Longrightarrow> f b = {#}) \<Longrightarrow> sum f A = f a"
  by (simp add: sum.remove [of A a])

lemma added_halves_sum:
  assumes "\<And>s t k p. (s, t, k, p) \<in> set adds \<Longrightarrow> (nid_kind s, nid_seq s) \<in> A \<and> (nid_kind t, nid_seq t) \<in> A" and fin: "finite A"
  shows "(\<Sum>n\<in>A. half_triples S d n (added_halves S adds (fst n) d ek (snd n))) = mset (added_triples S ek adds)"
  using assms(1)
proof (induction adds)
  case (Cons x adds)
  obtain s t k p where x: "x = (s, t, k, p)" by (cases x)
  let ?f = "\<lambda>n. half_triples S d n (added_halves S [x] (fst n) d ek (snd n))"
  have st: "(nid_kind s, nid_seq s) \<in> A" "(nid_kind t, nid_seq t) \<in> A" using Cons.prems [of s t k p] by (simp_all add: x)
  have one: "sum ?f A = mset (added_triples S ek [x])"
  proof (cases d)
    case Out
    have "sum ?f A = ?f (nid_kind s, nid_seq s)"
      using st(1) by (intro sum_only [OF fin]) (auto simp: x added_halves_one Out)
    then show ?thesis by (simp add: x added_halves_one Out half_triples_def added_triples_def)
  next
    case In
    have "sum ?f A = ?f (nid_kind t, nid_seq t)"
      using st(2) by (intro sum_only [OF fin]) (auto simp: x added_halves_one In)
    then show ?thesis by (simp add: x added_halves_one In half_triples_def added_triples_def)
  qed
  have "added_halves S (x # adds) nk d ek seq = added_halves S [x] nk d ek seq @ added_halves S adds nk d ek seq" for nk seq
    using added_halves_append [of S "[x]" adds nk d ek seq] by simp
  then have "(\<Sum>n\<in>A. half_triples S d n (added_halves S (x # adds) (fst n) d ek (snd n))) =
      sum ?f A + (\<Sum>n\<in>A. half_triples S d n (added_halves S adds (fst n) d ek (snd n)))"
    by (simp add: sum.distrib)
  also have ih: "(\<Sum>n\<in>A. half_triples S d n (added_halves S adds (fst n) d ek (snd n))) = mset (added_triples S ek adds)"
  proof (rule Cons.IH)
    fix s t k p assume "(s, t, k, p) \<in> set adds"
    then show "(nid_kind s, nid_seq s) \<in> A \<and> (nid_kind t, nid_seq t) \<in> A" using Cons.prems [of s t k p] by simp
  qed
  also have "sum ?f A + mset (added_triples S ek adds) = mset (added_triples S ek [x]) + mset (added_triples S ek adds)"
    by (simp only: one ih)
  finally show ?case by (simp add: added_triples_def)
qed (simp add: added_triples_def)

lemma applied_triples:
  assumes ok: "graph_ok S g" and ok': "graph_ok S g'" and rows: "rows_applied S g d ss rem adds g'" and edges: "diff_edges S g d ss rem adds"
  shows "mset (edge_triples S g' dir ek) = left_triples S g rem dir ek + mset (added_triples S ek adds)"
proof -
  have count: "kind_count S g' nk = new_total S g d nk" for nk using rows by (simp add: rows_applied_def)
  have sub: "node_set S g \<subseteq> node_set S g'" by (auto simp: node_set_def count new_total_def)
  let ?L = "\<lambda>n. half_triples S dir n (if snd n < kind_count S g (fst n)
      then remove_at (edge_row S g (fst n) dir ek (snd n)) (queued_at S g rem (fst n) dir ek (snd n)) else [])"
  have row: "half_triples S dir n (edge_row S g' (fst n) dir ek (snd n)) =
      ?L n + half_triples S dir n (added_halves S adds (fst n) dir ek (snd n))" if "n \<in> node_set S g'" for n
    using that rows by (cases n) (simp add: node_set_mem rows_applied_def edge_row_applied_def count)
  have "mset (edge_triples S g' dir ek) =
      (\<Sum>n\<in>node_set S g'. ?L n + half_triples S dir n (added_halves S adds (fst n) dir ek (snd n)))"
    unfolding edge_triples_sum [OF ok'] by (rule sum.cong [OF refl row])
  also have "\<dots> = sum ?L (node_set S g') + (\<Sum>n\<in>node_set S g'. half_triples S dir n (added_halves S adds (fst n) dir ek (snd n)))"
    by (rule sum.distrib)
  also have "sum ?L (node_set S g') = sum ?L (node_set S g)"
    by (rule sum.mono_neutral_right [OF finite_node_set sub]) (auto simp: node_set_mem)
  also have "\<dots> = left_triples S g rem dir ek"
    unfolding left_triples_def by (rule sum.cong [OF refl]) (auto simp: node_set_mem)
  also have "(\<Sum>n\<in>node_set S g'. half_triples S dir n (added_halves S adds (fst n) dir ek (snd n))) = mset (added_triples S ek adds)"
  proof (rule added_halves_sum [OF _ finite_node_set])
    fix s t k p assume "(s, t, k, p) \<in> set adds"
    then have "diff_lives S g d s \<and> diff_lives S g d t"
      using edges edges_added_mem by (fastforce simp: diff_edges_def)
    then show "(nid_kind s, nid_seq s) \<in> node_set S g' \<and> (nid_kind t, nid_seq t) \<in> node_set S g'"
      by (simp add: diff_lives_def node_lives_def node_set_mem count)
  qed
  finally show ?thesis .
qed

theorem applied_paired:
  assumes ok: "graph_ok S g" and ok': "graph_ok S g'" and rows: "rows_applied S g d ss rem adds g'" and edges: "diff_edges S g d ss rem adds"
    and paired: "\<And>ek. edges_paired S g ek" and live: "\<And>e. e \<in> set (removed_edges (gd_changes d)) \<Longrightarrow> edge_live S g e"
  shows "edges_paired S g' ek"
proof -
  have "edges_queued S g (removed_edges (gd_changes d)) rem" using edges by (simp add: diff_edges_def)
  from edges_queued_paired [OF this ok paired live] show ?thesis
    unfolding edges_paired_def applied_triples [OF ok ok' rows edges] by (simp add: queue_paired_def)
qed

end

end
