(* ===== verification/Apply_Spec.thy ===== *)
theory Apply_Spec
  imports Pairing_Spec
begin

text \<open>
  \<open>prepare\<close>, \<open>apply\<close> and the drop of a staged diff as a whole, and the graphs a program can reach
  with them. A diff that is refused, or staged and dropped, leaves a graph that holds exactly what
  it held; one that is applied keeps the graph's invariant, and the pairing of its edges when every
  handle it removes names an edge of the graph.
\<close>

section \<open>The string pool of a graph\<close>

lemma graph_ok_strings:
  "graph_ok S g \<Longrightarrow> pool_repr pool ss \<Longrightarrow> graph_ok S (g\<lparr>g_strings := pool\<rparr>)"
  by (auto simp: graph_ok_def kind_count_def node_exists_def edge_slot_of_def prop_slot_of_def cong: option.case_cong)

lemma edge_triples_strings: "edge_triples S (g\<lparr>g_strings := pool\<rparr>) d ek = edge_triples S g d ek"
  by (simp add: edge_triples_def slot_triples_def kind_count_def edge_slot_of_def)

text \<open>The same graph, its strings represented again: what a rollback leaves behind.\<close>

definition same_content :: "graph \<Rightarrow> graph \<Rightarrow> bool" where
  "same_content g g' \<longleftrightarrow> g' = g\<lparr>g_strings := g_strings g'\<rparr> \<and>
     (\<forall>ss. pool_repr (g_strings g) ss \<longrightarrow> pool_repr (g_strings g') ss)"

lemma same_content_ok:
  assumes "graph_ok S g" and "same_content g g'"
  shows "graph_ok S g'"
proof -
  obtain ss where "pool_repr (g_strings g') ss"
    using assms graph_okD(7) [OF assms(1)] by (auto simp: same_content_def)
  then show ?thesis using graph_ok_strings [OF assms(1)] assms(2) by (metis same_content_def)
qed

lemma same_content_paired: "edges_paired S g ek \<Longrightarrow> same_content g g' \<Longrightarrow> edges_paired S g' ek"
  unfolding edges_paired_def same_content_def by (metis edge_triples_strings)

section \<open>\<open>prepare\<close> and \<open>apply\<close>\<close>

lemma pool_repr_unique: "pool_repr p ss \<Longrightarrow> pool_repr p ss' \<Longrightarrow> ss = ss'"
proof -
  assume p: "pool_repr p ss" "pool_repr p ss'"
  have "length ss = length ss'" using pool_len_repr [OF p(1)] pool_len_repr [OF p(2)] by simp
  moreover have "ss ! i = ss' ! i" if "i < length ss" for i
    using pool_resolve_nth [OF p(1) that] pool_resolve_nth [OF p(2)] that calculation by auto
  ultimately show ?thesis by (rule nth_equalityI)
qed

context schema_laws begin

lemma prepare_spec:
  assumes ok: "graph_ok S g" and fits: "diff_fits g d" and pool: "pool_repr (g_strings g) ss"
  shows "sspec (\<lambda>sd g'. g' = g\<lparr>g_strings := g_strings g'\<rparr> \<and> sd_graph sd = g' \<and> sd_strings_baseline sd = Some (length ss) \<and>
      (\<exists>ss' us rem pending hb adds es'. pool_repr (g_strings g') ss' \<and> prefix ss ss' \<and>
         staged_as S g d ss' (sd_parts sd) us rem pending hb adds es'))
    (\<lambda>_ g'. same_content g g') (\<lambda>g'. pool_full (diff_strings d) (g_strings g') \<or> diff_misplaced S g d)
    (prepare S d g)"
proof -
  obtain r pool' where stage: "stage S d g (g_strings g) = (r, pool')" by (cases "stage S d g (g_strings g)")
  note spec = stage_spec [OF assms, unfolded stage]
  show ?thesis
  proof (cases r)
    case (Ok parts)
    then show ?thesis using spec by (simp add: prepare_def stage pool_len_repr [OF pool] Let_def)
  next
    case (Err e)
    then obtain p where "pool_truncate (length ss) pool' = Ok p" "pool_repr p ss"
      using spec sp.extends_cut [of ss pool'] by auto
    then show ?thesis
      using Err pool pool_repr_unique by (auto simp: prepare_def stage pool_len_repr [OF pool] same_content_def)
  qed (use spec in \<open>simp_all add: prepare_def stage\<close>)
qed

lemma prepare_Ok:
  assumes "graph_ok S g" and "diff_fits g d" and "pool_repr (g_strings g) ss" and "prepare S d g = (Ok sd, g')"
  obtains pool ss' us rem pending hb adds es' parts where "g' = g\<lparr>g_strings := pool\<rparr>"
    and "sd = \<lparr>sd_graph = g', sd_strings_baseline = Some (length ss), sd_parts = parts\<rparr>"
    and "pool_repr pool ss'" and "prefix ss ss'" and "staged_as S g d ss' parts us rem pending hb adds es'"
  using prepare_spec [OF assms(1-3)] assms(4) that [of "g_strings g'"] by (cases sd) fastforce

text \<open>Dropping a staged diff takes its strings out of the pool again.\<close>

lemma staged_drop_spec:
  assumes "graph_ok S g" and "diff_fits g d" and "prepare S d g = (Ok sd, g1)"
  shows "\<exists>g'. staged_drop sd = Ok g' \<and> same_content g g'"
proof -
  obtain ss where pool: "pool_repr (g_strings g) ss" using graph_okD(7) [OF assms(1)] by blast
  from assms(1,2) pool assms(3) show ?thesis
  proof (rule prepare_Ok)
    fix pool' ss' parts
    assume g1: "g1 = g\<lparr>g_strings := pool'\<rparr>" and sd: "sd = \<lparr>sd_graph = g1, sd_strings_baseline = Some (length ss), sd_parts = parts\<rparr>"
      and "pool_repr pool' ss'" "prefix ss ss'"
    then obtain p where "pool_truncate (length ss) pool' = Ok p" "pool_repr p ss"
      using sp.extends_cut [of ss pool'] by (auto simp: sp.extends_def)
    then show ?thesis
      using pool pool_repr_unique by (auto simp: staged_drop_def g1 sd same_content_def)
  qed
qed

lemma apply_spec:
  assumes ok: "graph_ok S g" and fits: "diff_fits g d"
  shows "ospec (\<lambda>(g', ids). ids = diff_ids S g d \<and> graph_ok S g' \<and> diff_applied S g d g') (\<lambda>_. True)
    (pool_full (diff_strings d) (g_strings (snd (prepare S d g))) \<or> diff_misplaced S g d) (apply_diff S d g)"
proof -
  obtain ss where pool: "pool_repr (g_strings g) ss" using graph_okD(7) [OF ok] by blast
  obtain r g1 where prep: "prepare S d g = (r, g1)" by (cases "prepare S d g")
  show ?thesis
  proof (cases r)
    case (Ok sd)
    with prep have "prepare S d g = (Ok sd, g1)" by simp
    with ok fits pool show ?thesis
    proof (rule prepare_Ok)
      fix pool' ss' us rem pending hb adds es' parts
      assume g1: "g1 = g\<lparr>g_strings := pool'\<rparr>" and sd: "sd = \<lparr>sd_graph = g1, sd_strings_baseline = Some (length ss), sd_parts = parts\<rparr>"
        and pool': "pool_repr pool' ss'" "prefix ss ss'" and st: "staged_as S g d ss' parts us rem pending hb adds es'"
      obtain g' where "commit S sd = Ok (g', diff_ids S g d)" "graph_ok S g'" "g_strings g' = pool'"
        "diff_edges S g d ss' rem adds" "rows_applied S g d ss' rem adds g'"
        using commit_applied [OF ok fits pool'(1) st, of "Some (length ss)"] by (auto simp: sd g1)
      then show ?thesis using pool pool' by (auto simp: apply_diff_def prep Ok diff_applied_def)
    qed
  qed (use prepare_spec [OF ok fits pool] in \<open>simp_all add: apply_diff_def prep\<close>)
qed

lemma prepared_commits:
  assumes ok: "graph_ok S g" and fits: "diff_fits g d" and prep: "prepare S d g = (Ok sd, g1)"
  shows "\<exists>r. commit S sd = Ok r"
proof -
  obtain ss where "pool_repr (g_strings g) ss" using graph_okD(7) [OF ok] by blast
  from ok fits this prep show ?thesis
    by (rule prepare_Ok) (use commit_applied [OF ok fits] in blast)
qed

lemma apply_Ok:
  assumes "graph_ok S g" and "diff_fits g d" and "apply_diff S d g = Ok (g', ids)"
  shows "ids = diff_ids S g d" and "graph_ok S g'" and "diff_applied S g d g'"
  using apply_spec [OF assms(1,2)] assms(3) by simp_all

lemma live_not_misplaced:
  assumes "graph_ok S g" and "edge_live S g e"
  shows "\<not> edge_misplaced S g e"
  using assms(2) node_exists_iff unfolding edge_live_def edge_misplaced_def by (metis Pair_inject outcome.inject(1))

lemma apply_paired:
  assumes "graph_ok S g" and "diff_fits g d" and "apply_diff S d g = Ok (g', ids)"
    and "\<And>ek. edges_paired S g ek" and "\<And>e. e \<in> set (removed_edges (gd_changes d)) \<Longrightarrow> edge_live S g e"
  shows "edges_paired S g' ek"
  using apply_Ok(3) [OF assms(1-3)] applied_paired [OF assms(1) apply_Ok(2) [OF assms(1-3)] _ _ assms(4,5)]
  by (auto simp: diff_applied_def)

end

section \<open>The graphs a program reaches\<close>

definition diff_live :: "('n, 'e, 'p, 'r) schema \<Rightarrow> graph \<Rightarrow> ('n, 'e, 'p) graph_diff \<Rightarrow> bool" where
  "diff_live S g d \<longleftrightarrow> (\<forall>e\<in>set (removed_edges (gd_changes d)). edge_live S g e)"

text \<open>
  The steps of a graph's owner: \<open>apply\<close>, a \<open>prepare\<close> that refuses the diff, and one whose staged diff
  is dropped.
\<close>

inductive graph_step ::
  "('n, 'e, 'p, 'r) schema \<Rightarrow> graph \<Rightarrow> ('n, 'e, 'p) graph_diff \<Rightarrow> graph \<Rightarrow> bool" for S where
  applied: "diff_fits g d \<Longrightarrow> apply_diff S d g = Ok (g', ids) \<Longrightarrow> graph_step S g d g'"
| refused: "diff_fits g d \<Longrightarrow> prepare S d g = (Err e, g') \<Longrightarrow> graph_step S g d g'"
| dropped: "diff_fits g d \<Longrightarrow> prepare S d g = (Ok sd, g1) \<Longrightarrow> staged_drop sd = Ok g' \<Longrightarrow> graph_step S g d g'"

inductive_cases graph_stepE [elim]: "graph_step S g d g'"

inductive reachable :: "('n, 'e, 'p, 'r) schema \<Rightarrow> graph \<Rightarrow> bool" for S where
  created: "graph_new S = Ok g \<Longrightarrow> reachable S g"
| loaded: "graph_of_raw par S raw = Ok g \<Longrightarrow> pool_repr (rg_strings raw) ss \<Longrightarrow> reachable S g"
| stepped: "reachable S g \<Longrightarrow> graph_step S g d g' \<Longrightarrow> reachable S g'"

text \<open>The graphs reached by diffs that remove edges by live handles only.\<close>

inductive reachable_live :: "('n, 'e, 'p, 'r) schema \<Rightarrow> graph \<Rightarrow> bool" for S where
  live_created: "graph_new S = Ok g \<Longrightarrow> reachable_live S g"
| live_loaded: "graph_of_raw par S raw = Ok g \<Longrightarrow> pool_repr (rg_strings raw) ss \<Longrightarrow> reachable_live S g"
| live_stepped: "reachable_live S g \<Longrightarrow> graph_step S g d g' \<Longrightarrow> diff_live S g d \<Longrightarrow> reachable_live S g'"

lemma reachable_live_reachable: "reachable_live S g \<Longrightarrow> reachable S g"
  by (induction rule: reachable_live.induct) (auto intro: reachable.intros)

context schema_laws begin

lemma graph_step_cases:
  assumes "graph_ok S g" and "graph_step S g d g'"
  shows "same_content g g' \<or> (diff_fits g d \<and> (\<exists>ids. apply_diff S d g = Ok (g', ids)))"
  using assms(2)
proof cases
  case (refused e)
  obtain ss where "pool_repr (g_strings g) ss" using graph_okD(7) [OF assms(1)] by blast
  then show ?thesis using prepare_spec [OF assms(1) refused(1), of ss] refused(2) by simp
next
  case (dropped sd g1)
  then show ?thesis using staged_drop_spec [OF assms(1) dropped(1,2)] by simp
qed blast

lemma graph_step_ok: "graph_ok S g \<Longrightarrow> graph_step S g d g' \<Longrightarrow> graph_ok S g'"
  using graph_step_cases same_content_ok apply_Ok(2) by metis

lemma graph_step_paired:
  assumes "graph_ok S g" and "graph_step S g d g'" and "diff_live S g d" and "\<And>ek. edges_paired S g ek"
  shows "edges_paired S g' ek"
  using graph_step_cases [OF assms(1,2)]
proof (elim disjE conjE exE)
  fix ids assume "diff_fits g d" "apply_diff S d g = Ok (g', ids)"
  then show ?thesis by (rule apply_paired [OF assms(1)]) (use assms(3,4) in \<open>simp_all add: diff_live_def\<close>)
qed (rule same_content_paired [OF assms(4)])

lemma graph_of_raw_wf:
  assumes "graph_of_raw par S raw = Ok g" and "pool_repr (rg_strings raw) ss"
  shows "graph_wf S g"
proof -
  have "graph_check_integrity par S g = Ok ()" "g_strings g = rg_strings raw"
    using assms(1) by (auto simp: graph_of_raw_def graph_check_integrity_def andthen_eq_Ok)
  then show ?thesis using graph_check_integrity_cases(1) [of g ss par] assms(2) by simp
qed

lemma graph_new_paired: "graph_new S = Ok g \<Longrightarrow> edges_paired S g ek"
proof -
  assume "graph_new S = Ok g"
  then have ok: "graph_ok S g" and zero: "kind_count S g nk = 0" for nk using graph_new_ok by fastforce+
  have "edge_rows (edge_slot_of S g nk d ek) 0 = []" for nk d
    using slot_csr_length [OF edge_slot_ok_csr [OF graph_okD(4) [OF ok]], of nk d ek] by (simp add: zero)
  then show ?thesis by (simp add: edges_paired_def edge_triples_def slot_triples_def rows_triples_def zero)
qed

lemma reachable_graph_ok: "reachable S g \<Longrightarrow> graph_ok S g"
proof (induction rule: reachable.induct)
  case (created g)
  then show ?case using graph_new_ok by fastforce
next
  case (loaded par raw g ss)
  then show ?case using graph_of_raw_wf by (simp add: graph_wf_def)
qed (rule graph_step_ok)

lemma reachable_live_paired: "reachable_live S g \<Longrightarrow> edges_paired S g ek"
proof (induction arbitrary: ek rule: reachable_live.induct)
  case (live_loaded par raw g ss)
  then show ?case using graph_of_raw_wf by (simp add: graph_wf_def)
next
  case (live_stepped g d g')
  then show ?case using graph_step_paired reachable_graph_ok reachable_live_reachable by metis
qed (rule graph_new_paired)

end

end
