(* ===== verification/Sample.thy ===== *)
theory Sample
  imports Apply_Spec "HOL-Library.Code_Target_Numeral"
begin

text \<open>
  A graph of \<open>SimpleSchema\<close> built by \<open>apply\<close>, evaluated by the kernel: one node of each kind, four
  \<open>Base\<close> edges, an \<open>Int\<close> and a node reference. The witnesses of the graph's theorems are about it.
\<close>

declare probe_find.simps [code] probe_free.simps [code]

definition base_edge :: "nat \<Rightarrow> nat \<Rightarrow> simple_edge new_edge" where
  "base_edge src dst =
     \<lparr>ne_src = NewNodeRef src, ne_dst = NewNodeRef dst, ne_kind = Base, ne_property = None\<rparr>"

definition sample_diff :: "(simple_node, simple_edge, simple_property) graph_diff" where
  "sample_diff =
     \<lparr>gd_new_nodes =
        [\<lparr>nn_kind = Alpha, nn_properties = []\<rparr>,
         \<lparr>nn_kind = Beta, nn_properties = [(Count, [VInt 7])]\<rparr>,
         \<lparr>nn_kind = Gamma, nn_properties = [(Ref, [VNodeId (RawNodeId 0 0)])]\<rparr>],
      gd_new_edges = [base_edge 0 2, base_edge 0 1, base_edge 0 2, base_edge 1 0],
      gd_changes = []\<rparr>"

definition sample_props :: prop_storage where
  "sample_props =
     replicate 6 \<lparr>ps_offsets = [], ps_values = AStringId []\<rparr> @
     [\<lparr>ps_offsets = [], ps_values = AInt []\<rparr>,
      \<lparr>ps_offsets = [0, 1], ps_values = AInt [7]\<rparr>,
      \<lparr>ps_offsets = [], ps_values = AInt []\<rparr>,
      \<lparr>ps_offsets = [], ps_values = ANodeId []\<rparr>,
      \<lparr>ps_offsets = [], ps_values = ANodeId []\<rparr>,
      \<lparr>ps_offsets = [0, 1], ps_values = ANodeId [RawNodeId 0 0]\<rparr>] @
     replicate 3 \<lparr>ps_offsets = [], ps_values = AEnum []\<rparr> @
     replicate 3 \<lparr>ps_offsets = [], ps_values = AStringId []\<rparr>"

definition base_slot :: "offset list \<Rightarrow> raw_node_id list \<Rightarrow> edge_slot" where
  "base_slot offs ns = \<lparr>es_offsets = offs, es_neighbors = ns, es_values = ANone\<rparr>"

definition sample_with :: "edge_slot list \<Rightarrow> graph" where
  "sample_with slots =
     \<lparr>g_node_meta = [[NodeMeta False], [NodeMeta False], [NodeMeta False]],
      g_edges = slots @ replicate 6 \<lparr>es_offsets = [], es_neighbors = [], es_values = AStringId []\<rparr>,
      g_props = sample_props, g_strings = pool_new\<rparr>"

definition sample_graph :: graph where
  "sample_graph = sample_with
     [base_slot [0, 1] [RawNodeId 1 0], base_slot [0, 1] [RawNodeId 0 0],
      base_slot [0, 2] [RawNodeId 0 0, RawNodeId 0 0],
      base_slot [0, 3] [RawNodeId 2 0, RawNodeId 1 0, RawNodeId 2 0],
      base_slot [0, 1] [RawNodeId 0 0], base_slot [] []]"

definition sample_ids :: "simple_node node_id list" where
  "sample_ids = [NodeId Alpha 0, NodeId Beta 0, NodeId Gamma 0]"

lemma sample_new_applied:
  "andthen (graph_new simple_schema) (apply_diff simple_schema sample_diff) = Ok (sample_graph, sample_ids)"
  by code_simp

lemma sample_built:
  obtains g0 where "graph_new simple_schema = Ok g0" and "graph_ok simple_schema g0"
    and "diff_fits g0 sample_diff" and "apply_diff simple_schema sample_diff g0 = Ok (sample_graph, sample_ids)"
proof -
  obtain g0 where g0: "graph_new simple_schema = Ok g0" "graph_ok simple_schema g0" "\<And>nk. kind_count simple_schema g0 nk = 0"
    using simple.graph_new_ok by blast
  have "apply_diff simple_schema sample_diff g0 = Ok (sample_graph, sample_ids)"
    using sample_new_applied g0(1) by (simp add: andthen_eq_Ok)
  moreover have "diff_fits g0 sample_diff"
  proof -
    have "length (g_node_meta g0) = 3" using graph_okD(1) [OF g0(2)] by simp
    then obtain a b c where "g_node_meta g0 = [a, b, c]"
      by (auto simp: numeral_3_eq_3 length_Suc_conv)
    then show ?thesis
      using g0(3) [of Alpha] g0(3) [of Beta] g0(3) [of Gamma]
      by (simp add: diff_fits_def sample_diff_def kind_count_def u32_max_def simple_schema_def)
  qed
  ultimately show ?thesis using g0 that by blast
qed

lemma sample_ok: "graph_ok simple_schema sample_graph"
  using sample_built simple.apply_Ok(2) by metis

lemma sample_reachable_live: "reachable_live simple_schema sample_graph"
proof -
  obtain g0 where g0: "graph_new simple_schema = Ok g0" "graph_ok simple_schema g0"
    "diff_fits g0 sample_diff" "apply_diff simple_schema sample_diff g0 = Ok (sample_graph, sample_ids)"
    by (rule sample_built)
  have "diff_live simple_schema g0 sample_diff"
    by (simp add: diff_live_def sample_diff_def removed_edges_def)
  then show ?thesis
    using g0 reachable_live.intros graph_step.intros by metis
qed

lemma sample_counts [simp]: "kind_count simple_schema sample_graph nk = 1"
  by (cases nk) (simp_all add: kind_count_def sample_graph_def sample_with_def)

declare sample_graph_def [sample_eval] sample_with_def [sample_eval] sample_props_def [sample_eval]
  base_slot_def [sample_eval] prop_slot_of_def [sample_eval] edge_slot_of_def [sample_eval]
  property_storage_slot_def [sample_eval] edge_storage_slot_def [sample_eval]
  number_of_node_kinds_def [sample_eval] nth_append [sample_eval]

lemma sample_rows:
  "edge_row simple_schema sample_graph Alpha Out Base 0 = [(RawNodeId 2 0, None), (RawNodeId 1 0, None), (RawNodeId 2 0, None)]"
  "prop_row simple_schema sample_graph Beta Count 0 = [SInt 7]"
  by code_simp+

text \<open>A second diff: the \<open>Beta\<close> node gets another \<open>Count\<close>, and the \<open>Alpha\<close> node an edge to itself.\<close>

definition sample_update :: "(simple_node, simple_edge, simple_property) graph_diff" where
  "sample_update =
     \<lparr>gd_new_nodes = [],
      gd_new_edges = [\<lparr>ne_src = Existing (RawNodeId 0 0), ne_dst = Existing (RawNodeId 0 0), ne_kind = Base, ne_property = None\<rparr>],
      gd_changes = [UpdateNodeProperty (RawNodeId 1 0) Count (QOne (VInt 8)),
                    UpdateNodeProperty (RawNodeId 1 0) Count (QOne (VInt 9))]\<rparr>"

lemma sample_update_succeeds:
  "case apply_diff simple_schema sample_update sample_graph of Ok _ \<Rightarrow> True | _ \<Rightarrow> False"
  by code_simp

lemma sample_updated:
  obtains g' ids where "diff_fits sample_graph sample_update"
    and "apply_diff simple_schema sample_update sample_graph = Ok (g', ids)"
proof -
  have "diff_fits sample_graph sample_update"
    by (simp add: diff_fits_def sample_graph_def sample_with_def sample_update_def u32_max_def)
  then show ?thesis
    using that sample_update_succeeds by (cases "apply_diff simple_schema sample_update sample_graph") auto
qed

text \<open>Removing one edge of the \<open>Alpha\<close> node by its handle, and what is left.\<close>

definition out_edge :: "u32 \<Rightarrow> u32 \<Rightarrow> u32 \<Rightarrow> raw_edge_id" where
  "out_edge seq dst j = \<lparr>re_src = RawNodeId 0 seq, re_dst = RawNodeId dst 0,
     re_handle = \<lparr>eh_kind = 0, eh_direction = 1, eh_seq = j\<rparr>\<rparr>"

definition remove_out_edge :: "u32 \<Rightarrow> u32 \<Rightarrow> u32 \<Rightarrow> (simple_node, simple_edge, simple_property) graph_diff" where
  "remove_out_edge seq dst j =
     \<lparr>gd_new_nodes = [], gd_new_edges = [], gd_changes = [RemoveEdge (out_edge seq dst j)]\<rparr>"

definition sample_removed :: graph where
  "sample_removed = sample_with
     [base_slot [0, 1] [RawNodeId 1 0], base_slot [0, 1] [RawNodeId 0 0], base_slot [0, 1] [RawNodeId 0 0],
      base_slot [0, 2] [RawNodeId 1 0, RawNodeId 2 0], base_slot [0, 1] [RawNodeId 0 0], base_slot [] []]"

definition sample_unpaired :: graph where
  "sample_unpaired = sample_with
     [base_slot [0, 1] [RawNodeId 1 0], base_slot [0, 0] [], base_slot [0, 1] [RawNodeId 0 0],
      base_slot [0, 1] [RawNodeId 1 0], base_slot [0, 1] [RawNodeId 0 0], base_slot [] []]"

lemma sample_removals:
  "apply_diff simple_schema (remove_out_edge 0 2 0) sample_graph = Ok (sample_removed, [])"
  "apply_diff simple_schema (remove_out_edge 0 1 1) sample_removed = Ok (sample_unpaired, [])"
  by code_simp+

lemma sample_removed_triples:
  "edge_triples simple_schema sample_removed Out Base =
     [(RawNodeId 0 0, RawNodeId 1 0, None), (RawNodeId 0 0, RawNodeId 2 0, None), (RawNodeId 1 0, RawNodeId 0 0, None)]"
  "edge_triples simple_schema sample_removed In Base =
     [(RawNodeId 1 0, RawNodeId 0 0, None), (RawNodeId 0 0, RawNodeId 1 0, None), (RawNodeId 0 0, RawNodeId 2 0, None)]"
  by code_simp+

lemma sample_unpaired_triples:
  "edge_triples simple_schema sample_unpaired Out Base =
     [(RawNodeId 0 0, RawNodeId 1 0, None), (RawNodeId 1 0, RawNodeId 0 0, None)]"
  "edge_triples simple_schema sample_unpaired In Base =
     [(RawNodeId 1 0, RawNodeId 0 0, None), (RawNodeId 0 0, RawNodeId 2 0, None)]"
  by code_simp+

end
