(* ===== verification/Graph_Theorems.thy ===== *)
theory Graph_Theorems
  imports Sample
begin

text \<open>
  The properties of a graph's queries: on a well-formed graph every query returns what the rows of
  the graph say, and none of them panics.
\<close>

section \<open>Queries over rows\<close>

context schema_laws begin

lemma filter_not_deleted:
  "graph_ok S g \<Longrightarrow> filter (\<lambda>e. \<not> deleted g (f e)) xs = filter (\<lambda>e. is_node_deleted S g (f e) = Ok False) xs"
  by (rule filter_cong) (simp_all add: is_node_deleted_deleted)

lemma get_edges_rows:
  assumes ok: "graph_ok S g" and n: "nid_seq n < kind_count S g (nid_kind n)"
    and row: "row = edge_row S g (nid_kind n) d ek (nid_seq n)"
  shows "\<exists>es. get_edges_with_deleted S g n ek d = Ok es \<and> length es = length row \<and>
    (\<forall>j<length es. \<exists>m. node_of_raw S (fst (row ! j)) = Ok m \<and> nid_seq m < kind_count S g (nid_kind m) \<and>
       es ! j = from_half n m ek d j \<and> get_edge_property S g (es ! j) = Ok (snd (row ! j))) \<and>
    get_edges S g n ek d = Ok (filter (\<lambda>e. is_node_deleted S g (neighbor e) = Ok False) es)"
proof (intro exI [of _ "row_edges n ek d (map fst row)"] conjI allI impI)
  show "get_edges_with_deleted S g n ek d = Ok (row_edges n ek d (map fst row))"
    using get_edges_with_deleted_row [OF ok n] by (simp add: row)
  show "length (row_edges n ek d (map fst row)) = length row" by (simp add: row_edges_def)
  show "get_edges S g n ek d =
      Ok (filter (\<lambda>e. is_node_deleted S g (neighbor e) = Ok False) (row_edges n ek d (map fst row)))"
    using get_edges_row [OF ok n] filter_not_deleted [OF ok] by (simp add: row)
  fix j assume "j < length (row_edges n ek d (map fst row))"
  then have j: "j < length row" by (simp add: row_edges_def)
  then have "node_exists S g (fst (row ! j))"
    unfolding row by (rule row_neighbors_exist [OF ok n nth_mem])
  then show "\<exists>m. node_of_raw S (fst (row ! j)) = Ok m \<and> nid_seq m < kind_count S g (nid_kind m) \<and>
      row_edges n ek d (map fst row) ! j = from_half n m ek d j \<and>
      get_edge_property S g (row_edges n ek d (map fst row) ! j) = Ok (snd (row ! j))"
    using node_exists_typed get_edge_property_row [OF ok n] j by (auto simp: row row_edges_def)
qed

lemma edges_counted:
  assumes ok: "graph_ok S g" and r: "node_of_raw S r = Ok n" and n: "nid_seq n < kind_count S g (nid_kind n)"
  shows "\<exists>es fs. get_edges S g n ek d = Ok es \<and> get_edges_with_deleted S g n ek d = Ok fs \<and>
    get_edges_count S g r ek d = Ok (length es) \<and> get_edges_count_with_deleted S g r ek d = Ok (length fs)"
  using get_edges_row [OF ok n] get_edges_with_deleted_row [OF ok n] get_edges_count_with_deleted_row [OF ok r] n
  by (simp add: get_edges_count_def r row_edges_def)

lemma deleted_out_of_range:
  assumes "graph_ok S g" and "kind_count S g (nid_kind n) \<le> nid_seq n"
  shows "deleted g n"
  using assms by (simp add: deleted_def is_node_deleted_Ok kind_count_def get_at_def)

lemma nodes_counted:
  assumes ok: "graph_ok S g"
  shows "\<exists>ns. (\<forall>nk. nodes_by_kind S g nk = Ok (ns nk) \<and> node_count_by_kind S g nk = Ok (length (ns nk))) \<and>
    distinct (concat (map ns (n_all S))) \<and>
    set (concat (map ns (n_all S))) = {n. is_node_deleted S g n = Ok False} \<and>
    node_count S g = Ok (length (concat (map ns (n_all S))))"
proof -
  obtain ns where ns: "\<And>nk. nodes_by_kind S g nk = Ok (ns nk) \<and> node_count_by_kind S g nk = Ok (length (ns nk)) \<and>
      distinct (ns nk) \<and> set (ns nk) = {n. nid_kind n = nk \<and> nid_seq n < kind_count S g nk \<and> \<not> deleted g n}"
    using node_count_by_kind_nodes [OF ok] by metis
  have kinds: "distinct (n_all S)" by (rule kind_laws_distinct [OF node_kinds])
  have dist: "distinct (concat (map ns ks))" if "distinct ks" for ks
    using that
  proof (induction ks)
    case (Cons k ks)
    have "set (ns k) \<inter> set (concat (map ns ks)) = {}" using Cons.prems ns by auto
    then show ?case using Cons ns by simp
  qed simp
  have mem: "n \<in> set (concat (map ns (n_all S))) \<longleftrightarrow> is_node_deleted S g n = Ok False" for n
    using ns deleted_out_of_range [OF ok, of n]
    by (cases "nid_seq n < kind_count S g (nid_kind n)") (auto simp: is_node_deleted_deleted [OF ok])
  have "map_each (node_count_by_kind S g) ks = Ok (map (\<lambda>nk. length (ns nk)) ks)" for ks
    using ns by (induction ks) simp_all
  then have "node_count S g = Ok (length (concat (map ns (n_all S))))"
    by (simp add: node_count_def length_concat comp_def)
  then show ?thesis using ns dist [OF kinds] mem by blast
qed

end

section \<open>Properties\<close>

text \<open>C20: the edges of a node are its row, in order: the half-edge at position \<open>j\<close> is returned with
  number \<open>j\<close>, its neighbor exists, its handle reads back the value stored with it, and the version
  without deleted nodes leaves out exactly the edges to deleted neighbors.\<close>

theorem get_edges_returns_row:
  assumes "schema_laws S" and "graph_ok S g" and "nid_seq n < kind_count S g (nid_kind n)"
    and "row = edge_row S g (nid_kind n) d ek (nid_seq n)"
  shows "\<exists>es. get_edges_with_deleted S g n ek d = Ok es \<and> length es = length row \<and>
    (\<forall>j<length es. \<exists>m. node_of_raw S (fst (row ! j)) = Ok m \<and> nid_seq m < kind_count S g (nid_kind m) \<and>
       es ! j = from_half n m ek d j \<and> get_edge_property S g (es ! j) = Ok (snd (row ! j))) \<and>
    get_edges S g n ek d = Ok (filter (\<lambda>e. is_node_deleted S g (neighbor e) = Ok False) es)"
  by (rule schema_laws.get_edges_rows [OF assms])

theorem get_edges_returns_row_witness:
  "\<exists>es. get_edges_with_deleted simple_schema sample_graph (NodeId Alpha 0) Base Out = Ok es \<and> length es = 3"
  using get_edges_returns_row [OF simple_schema_laws sample_ok, where n = "NodeId Alpha 0" and d = Out and ek = Base]
  by (auto simp: sample_rows)

text \<open>The counting queries agree with the iterating ones, with and without deleted neighbors.\<close>

theorem edge_counts_agree:
  assumes "schema_laws S" and "graph_ok S g" and "node_of_raw S r = Ok n" and "nid_seq n < kind_count S g (nid_kind n)"
  shows "\<exists>es fs. get_edges S g n ek d = Ok es \<and> get_edges_with_deleted S g n ek d = Ok fs \<and>
    get_edges_count S g r ek d = Ok (length es) \<and> get_edges_count_with_deleted S g r ek d = Ok (length fs)"
  by (rule schema_laws.edges_counted [OF assms])

theorem edge_counts_agree_witness:
  "\<exists>es. get_edges simple_schema sample_graph (NodeId Alpha 0) Base Out = Ok es \<and>
     get_edges_count simple_schema sample_graph (RawNodeId 0 0) Base Out = Ok (length es)"
proof -
  have "node_of_raw simple_schema (RawNodeId 0 0) = Ok (NodeId Alpha 0)"
    by (simp add: simple.node_of_raw_Ok raw_kind_def raw_seq_def)
  then show ?thesis
    using edge_counts_agree [OF simple_schema_laws sample_ok, of "RawNodeId 0 0" "NodeId Alpha 0" Base Out]
    by auto
qed

text \<open>C21: a node's property is the row of its slot; it is an error, never a panic, when the node does not
  exist or when no node of the kind has ever had the property.\<close>

theorem get_node_property_returns_row:
  assumes "schema_laws S" and "graph_ok S g" and "node_of_raw S r = Ok n"
  shows "get_node_property S g r pk =
    (if nid_seq n < kind_count S g (nid_kind n) \<and> ps_offsets (prop_slot_of S g (nid_kind n) pk) \<noteq> []
     then Ok (prop_row S g (nid_kind n) pk (nid_seq n)) else Err PropertyIndexNotFound)"
  by (rule schema_laws.get_node_property_row [OF assms])

theorem get_node_property_returns_row_witness:
  "get_node_property simple_schema sample_graph (RawNodeId 1 0) Count = Ok [SInt 7]"
proof -
  have "node_of_raw simple_schema (RawNodeId 1 0) = Ok (NodeId Beta 0)"
    by (simp add: simple.node_of_raw_Ok raw_kind_def raw_seq_def)
  moreover have "ps_offsets (prop_slot_of simple_schema sample_graph Beta Count) \<noteq> []"
    by (simp add: sample_eval)
  ultimately show ?thesis
    using get_node_property_returns_row [OF simple_schema_laws sample_ok, of "RawNodeId 1 0" "NodeId Beta 0" Count]
    by (simp add: sample_rows)
qed

text \<open>C22: the nodes of each kind are listed once each, their number is what the counting query says, and
  over all kinds they are exactly the nodes that exist and are not deleted.\<close>

theorem node_counts_agree:
  assumes "schema_laws S" and "graph_ok S g"
  shows "\<exists>ns. (\<forall>nk. nodes_by_kind S g nk = Ok (ns nk) \<and> node_count_by_kind S g nk = Ok (length (ns nk))) \<and>
    distinct (concat (map ns (n_all S))) \<and>
    set (concat (map ns (n_all S))) = {n. is_node_deleted S g n = Ok False} \<and>
    node_count S g = Ok (length (concat (map ns (n_all S))))"
  by (rule schema_laws.nodes_counted [OF assms])

theorem node_counts_agree_witness:
  "\<exists>ns. node_count simple_schema sample_graph = Ok (length (concat (map ns (n_all simple_schema)))) \<and>
     (\<forall>nk. nodes_by_kind simple_schema sample_graph nk = Ok (ns nk))"
  using node_counts_agree [OF simple_schema_laws sample_ok] by metis

end
