(* ===== verification/Data_Theorems.thy ===== *)
theory Data_Theorems
  imports Graph Value_Key
begin

text \<open>
  The properties of the data layer: the layout of the flat storages, identifiers, offsets, the CSR
  encoding, the typed arrays, the keys half-edges are compared by, and property values.
\<close>

section \<open>Conversions on every branch\<close>

context schema_laws begin

lemma node_to_raw:
  "if nid_seq n \<le> u32_max then \<exists>r. raw_of_node S n = Ok r \<and> node_of_raw S r = Ok n else raw_of_node S n = Panic"
proof (cases "nid_seq n \<le> u32_max")
  case True
  then have "\<exists>r. raw_of_node S n = Ok r" by (simp add: raw_of_node_def)
  then show ?thesis using True raw_node_roundtrip by auto
qed (simp add: raw_of_node_def raw_node_new_def)

lemma node_from_raw:
  "if raw_kind r < number_of_node_kinds S then \<exists>m. node_of_raw S r = Ok m \<and> raw_of_node S m = Ok r
   else node_of_raw S r = Err (UnresolvedNodeKind (raw_kind r))"
proof (cases "raw_kind r < number_of_node_kinds S")
  case True
  then have "node_of_raw S r = Ok (NodeId (n_all S ! raw_kind r) (raw_seq r))"
    by (simp add: node_of_raw_Ok number_of_node_kinds_def)
  then show ?thesis using True node_raw_roundtrip by auto
next
  case False
  then have "n_from_index S (raw_kind r) = None"
    by (simp add: kind_laws_from_index_None [OF node_kinds] number_of_node_kinds_def)
  then show ?thesis using False by (simp add: node_of_raw_def resolve_node_kind_def)
qed

lemma raw_of_edge_cases:
  "raw_of_edge S e = (if nid_seq (src_node e) \<le> u32_max \<and> nid_seq (dst_node e) \<le> u32_max \<and> edge_id_seq e \<le> u32_max
     then Ok \<lparr>re_src = RawNodeId (of_nat (n_index S (nid_kind (src_node e)))) (of_nat (nid_seq (src_node e))),
        re_dst = RawNodeId (of_nat (n_index S (nid_kind (dst_node e)))) (of_nat (nid_seq (dst_node e))),
        re_handle = \<lparr>eh_kind = of_nat (e_index S (edge_id_kind e)), eh_direction = of_nat (dir_factor (edge_id_dir e)),
          eh_seq = of_nat (edge_id_seq e)\<rparr>\<rparr> else Panic)"
proof -
  have "dir_factor d \<le> u32_max" for d by (cases d) (simp_all add: u32_max_def)
  then show ?thesis
    by (simp add: raw_of_edge_def edge_handle_of_def edge_handle_new_def raw_of_node_def raw_node_new_def assert_def)
qed

lemma edge_to_raw:
  "if nid_seq (src_node e) \<le> u32_max \<and> nid_seq (dst_node e) \<le> u32_max \<and> edge_id_seq e \<le> u32_max
   then \<exists>r. raw_of_edge S e = Ok r \<and> edge_of_raw S r = Ok e else raw_of_edge S e = Panic"
  using raw_of_edge_cases [of e] edge_raw_roundtrip by auto

end

text \<open>A stored value resolves whatever else is stored, and storing it again finds it.\<close>

lemma stored_settled:
  assumes "pool_repr pool ss" and "stored_as ss v p"
  shows "resolve_property pool p = Ok v \<and> sp_typ p = pv_typ v \<and>
    resolve_property (snd (to_stored_property w pool)) p = Ok v \<and> to_stored_property v pool = (Ok p, pool)"
proof (intro conjI)
  have "sp.extends ss (snd (to_stored_property w pool))"
    by (rule to_stored_extends [OF sp.extends_refl [OF assms(1)]])
  then show "resolve_property (snd (to_stored_property w pool)) p = Ok v"
    using stored_as_prefix [OF assms(2)] stored_as_resolve unfolding sp.extends_def by blast
  show "to_stored_property v pool = (Ok p, pool)"
  proof (cases "\<exists>s. v = VString s")
    case True
    then obtain s i where v: "v = VString s" "p = SStringId (RawStringId i)" and i: "get_at ss (unat i) = Some s"
      using assms(2) by (cases p; rename_tac j; case_tac j) (auto simp: stored_as_def)
    then have "position ((=) s) ss = Some (unat i)"
      using pool_reprD(4) [OF assms(1)] by (auto simp: position_eq_Some get_at_eq_Some nth_eq_iff_index_eq)
    then show ?thesis using intern_old [OF assms(1)] by (simp add: v)
  next
    case False
    then show ?thesis using assms(2) by (cases v; cases p) (auto simp: stored_as_def)
  qed
qed (use assms stored_as_resolve stored_as_typ in auto)

section \<open>Slots and identifiers\<close>

text \<open>C33: enumerating the slots of the two flat storages visits the indices of each array in order, every
  one exactly once, and an index determines the node kind, direction and edge kind, or the node kind and
  property kind, it stands for.\<close>

theorem storage_slots_bijective:
  assumes "schema_laws S"
  shows "map (\<lambda>(nk, d, ek). edge_storage_slot S nk d ek) (edge_storage_slots S) = [0..<edge_storage_size S] \<and>
    (edge_storage_slot S nk d ek = edge_storage_slot S nk' d' ek' \<longleftrightarrow> nk = nk' \<and> d = d' \<and> ek = ek') \<and>
    edge_storage_slots S ! edge_storage_slot S nk d ek = (nk, d, ek) \<and>
    map (\<lambda>(nk, pk). property_storage_slot S nk pk) (property_storage_slots S) = [0..<property_storage_size S] \<and>
    (property_storage_slot S nk pk = property_storage_slot S nk' pk' \<longleftrightarrow> nk = nk' \<and> pk = pk') \<and>
    property_storage_slots S ! property_storage_slot S nk pk = (nk, pk)"
  using schema_laws.edge_slots_in_order [OF assms] schema_laws.edge_slot_inj [OF assms, of nk d ek nk' d' ek']
    schema_laws.property_slots_in_order [OF assms] schema_laws.property_slot_inj [OF assms, of nk pk nk' pk']
    schema_laws.nth_slots [OF assms] by blast

theorem storage_slots_bijective_witness:
  "map (\<lambda>(nk, d, ek). edge_storage_slot simple_schema nk d ek) (edge_storage_slots simple_schema) = [0..<12] \<and>
   property_storage_slots simple_schema ! 11 = (Gamma, Ref)"
  using storage_slots_bijective [OF simple_schema_laws, of Gamma Out Base Gamma Out Base Ref Ref]
  by (simp add: property_storage_slot_def number_of_node_kinds_def)

text \<open>A typed node id converts to a raw one exactly when its number fits in 32 bits, and panics
  otherwise; converting back gives the id, and every raw id of a known kind comes from a typed one.\<close>

theorem node_id_roundtrip:
  assumes "schema_laws S"
  shows "(if nid_seq n \<le> u32_max then \<exists>r. raw_of_node S n = Ok r \<and> node_of_raw S r = Ok n
      else raw_of_node S n = Panic) \<and>
    (if raw_kind r < number_of_node_kinds S then \<exists>m. node_of_raw S r = Ok m \<and> raw_of_node S m = Ok r
      else node_of_raw S r = Err (UnresolvedNodeKind (raw_kind r)))"
  by (intro conjI schema_laws.node_to_raw [OF assms] schema_laws.node_from_raw [OF assms])

theorem node_id_roundtrip_witness:
  "\<exists>r. raw_of_node simple_schema (NodeId Beta 7) = Ok r \<and> node_of_raw simple_schema r = Ok (NodeId Beta 7)"
  using node_id_roundtrip [OF simple_schema_laws, of "NodeId Beta 7"] by (simp add: u32_max_def)

text \<open>The same for the raw form of an edge id, which holds the two nodes and a handle of three
  32-bit fields: within the widths it converts and converts back, beyond them it panics.\<close>

theorem edge_id_roundtrip:
  assumes "schema_laws S"
  shows "if nid_seq (src_node e) \<le> u32_max \<and> nid_seq (dst_node e) \<le> u32_max \<and> edge_id_seq e \<le> u32_max
    then \<exists>r. raw_of_edge S e = Ok r \<and> edge_of_raw S r = Ok e else raw_of_edge S e = Panic"
  by (rule schema_laws.edge_to_raw [OF assms])

theorem edge_id_roundtrip_witness:
  "\<exists>r. raw_of_edge simple_schema (from_half (NodeId Alpha 1) (NodeId Beta 2) Base In 3) = Ok r \<and>
     edge_of_raw simple_schema r = Ok (from_half (NodeId Alpha 1) (NodeId Beta 2) Base In 3)"
  using edge_id_roundtrip [OF simple_schema_laws, of "from_half (NodeId Alpha 1) (NodeId Beta 2) Base In 3"]
  by (simp add: u32_max_def from_half_def)

section \<open>Offsets and the CSR encoding\<close>

text \<open>C36: the arithmetic of \<open>Offset\<close> is exact or an error, never wrapped: \<open>new\<close>, \<open>checked_sub\<close>,
  \<open>checked_add_delta\<close> and \<open>checked_sub_delta\<close> on every branch.\<close>

theorem offset_arithmetic:
  "offset_new n = (if n \<le> u32_max then Ok (of_nat n) else Err (OffsetOverflow n)) \<and>
   offset_checked_sub a b =
     (if offset_value b \<le> offset_value a then Ok (offset_value a - offset_value b) else Err OffsetUnderflow) \<and>
   offset_checked_add_delta a n =
     (if n > u32_max then Err (OffsetOverflow n)
      else if offset_value a + n \<le> u32_max then Ok (of_nat (offset_value a + n))
      else Err (OffsetOverflow (offset_value a + n))) \<and>
   offset_checked_sub_delta a n =
     (if n \<le> offset_value a then Ok (of_nat (offset_value a - n)) else Err OffsetUnderflow)"
  by (intro conjI offset_new_cases offset_checked_sub_cases offset_checked_add_delta_cases
      offset_checked_sub_delta_cases)

text \<open>The offsets of rows that fit in 32 bits cut their concatenation back into the rows, and
  reading one row by its two offsets gives that row.\<close>

theorem csr_roundtrip:
  assumes "length (concat rows) \<le> u32_max"
  shows "csr_rows (csr_offsets rows) (concat rows) = rows \<and>
    csr_ok (csr_offsets rows) (length rows) (length (concat rows)) \<and>
    (\<forall>i<length rows. slice_or_empty (concat rows) (offset_value (csr_offsets rows ! i))
      (offset_value (csr_offsets rows ! Suc i)) = rows ! i)"
  using csr_encode [OF assms] csr_row(4) [OF csr_encode [OF assms]] csr_decode csr_ok_iff by blast

theorem csr_roundtrip_witness:
  "csr_rows (csr_offsets [[True], [], [False, True]]) [True, False, True] = [[True], [], [False, True]]"
  using csr_roundtrip [of "[[True], [], [False, True]]"] by (simp add: u32_max_def)

text \<open>An offset array passes the two checks of \<open>integrity.rs\<close> exactly when it is the offsets of
  some division of the data into the expected number of rows, and that division is unique.\<close>

lemma csr_checks_exact:
  "(csr_ok offs n (length xs) \<longleftrightarrow> (\<exists>rows. csr offs xs rows \<and> length rows = n)) \<and>
   (\<exists>\<^sub>\<le>\<^sub>1 rows. csr offs xs rows)"
  using csr_unique by (auto simp: csr_ok_iff Uniq_def)

section \<open>Typed arrays\<close>

text \<open>C34: each operation of \<open>StorageArray\<close> on whole arrays is the list operation on its values when the types
  agree, an error that names both types when they do not, and a panic exactly where the vector operation
  panics: \<open>new\<close>, \<open>get\<close>, \<open>iter_range\<close> with its iterator, \<open>try_push\<close>, \<open>try_append\<close>, \<open>try_extend_from_range\<close>,
  \<open>try_splice\<close>, \<open>try_insert\<close>, \<open>try_drain\<close>, \<open>len\<close> and \<open>is_empty\<close>. No operation changes the type of the array; an
  array of type \<open>None\<close> holds no value, has length 1, and cannot be spliced.\<close>

theorem storage_array_operations:
  "sa_typ (sa_new t) = t \<and> sa_values (sa_new t) = [] \<and>
   sa_typ (sa_of t vs) = t \<and> sa_values (sa_of t (filter (\<lambda>v. sp_typ v = t) vs)) = filter (\<lambda>v. sp_typ v = t) vs \<and>
   sa_of (sa_typ a) (sa_values a) = a \<and>
   sa_get a i = (if i < length (sa_values a) then Some (sa_values a ! i) else None) \<and>
   iter_items (sa_iter_range a i j) =
     (if i \<le> j \<and> j \<le> length (sa_values a) then take (j - i) (drop i (sa_values a)) else []) \<and>
   iter_items it = (case iter_next it of (None, _) \<Rightarrow> [] | (Some x, it') \<Rightarrow> x # iter_items it') \<and>
   sa_try_push a v =
     (if sp_typ v = sa_typ a then Ok (sa_of (sa_typ a) (sa_values a @ [v]))
      else Err (invalid_property_type (sa_typ a) (sp_typ v))) \<and>
   sa_try_append a b =
     (if sa_typ b = sa_typ a then Ok (sa_of (sa_typ a) (sa_values a @ sa_values b), sa_new (sa_typ a))
      else Err (invalid_property_type (sa_typ a) (sa_typ b))) \<and>
   sa_try_extend_from_range a b i j =
     (if sa_typ b \<noteq> sa_typ a then Err (invalid_property_type (sa_typ a) (sa_typ b))
      else if sa_typ a = TNone then Ok a
      else if i \<le> j \<and> j \<le> length (sa_values b)
        then Ok (sa_of (sa_typ a) (sa_values a @ take (j - i) (drop i (sa_values b))))
      else Err (PropertyIndexOutOfBounds i j (length (sa_values b)))) \<and>
   sa_try_splice a i b =
     (if sa_typ b = sa_typ a \<and> sa_typ a \<noteq> TNone
      then if i \<le> length (sa_values a)
        then Ok (sa_of (sa_typ a) (take i (sa_values a) @ sa_values b @ drop i (sa_values a)))
        else Panic
      else Err (invalid_property_type (sa_typ a) (sa_typ b))) \<and>
   sa_try_insert a i v =
     (if sp_typ v \<noteq> sa_typ a then Err (invalid_property_type (sa_typ a) (sp_typ v))
      else if i \<le> length (sa_values a)
        then Ok (sa_of (sa_typ a) (take i (sa_values a) @ v # drop i (sa_values a)))
      else Panic) \<and>
   sa_try_drain a i j =
     (if sa_typ a = TNone then Ok a
      else if i \<le> j \<and> j \<le> length (sa_values a)
        then Ok (sa_of (sa_typ a) (take i (sa_values a) @ drop j (sa_values a)))
      else Panic) \<and>
   sa_len a = (if sa_typ a = TNone then 1 else length (sa_values a)) \<and>
   (sa_is_empty a \<longleftrightarrow> sa_typ a \<noteq> TNone \<and> sa_values a = [])"
proof (intro conjI)
  show "sa_values (sa_of t (filter (\<lambda>v. sp_typ v = t) vs)) = filter (\<lambda>v. sp_typ v = t) vs"
    by (rule sa_of_values) (simp add: typed_def)
  show "iter_items it = (case iter_next it of (None, _) \<Rightarrow> [] | (Some x, it') \<Rightarrow> x # iter_items it')"
    by (rule iter_items_next)
  show "sa_is_empty a \<longleftrightarrow> sa_typ a \<noteq> TNone \<and> sa_values a = []"
    by (cases "sa_typ a = TNone") (simp_all add: sa_is_empty_def sa_len_values sa_len_TNone)
qed (simp_all add: sa_get_values get_at_def sa_iter_range_items slice_or_empty_def get_range_def sa_try_push_values
    sa_try_append_values sa_try_extend_from_range_values ranged_slice_cases sa_try_splice_values vec_splice_def
    sa_try_insert_values vec_insert_def sa_try_drain_values vec_drain_def sa_len_values sa_len_TNone)

text \<open>Pushing values one by one stores them all in order, or fails at the first of another type,
  and reading a range of positions back gives exactly the values there.\<close>

lemma storage_array_push_all:
  "for_each (\<lambda>v a. sa_try_push a v) vs a =
     (case find (\<lambda>v. sp_typ v \<noteq> sa_typ a) vs of
        None \<Rightarrow> Ok (sa_of (sa_typ a) (sa_values a @ vs))
      | Some v \<Rightarrow> Err (invalid_property_type (sa_typ a) (sp_typ v))) \<and>
   sa_get a i = get_at (sa_values a) i \<and>
   iter_items (sa_iter_range a i j) = slice_or_empty (sa_values a) i j"
  by (intro conjI sa_pushes_cases sa_get_values sa_iter_range_items)

section \<open>Keys\<close>

text \<open>C35: two values of arrays of one type have the same key exactly when they are the same value,
  floats bit by bit: nothing is lost by comparing half-edges through their keys.\<close>

theorem value_key_exact:
  assumes "sa_typ a = sa_typ b" and "i < length (sa_values a)" and "j < length (sa_values b)"
  shows "value_key a i = value_key b j \<longleftrightarrow> sa_get a i = sa_get b j"
proof -
  have "sp_typ (sa_values a ! i) = sp_typ (sa_values b ! j)"
    using assms sa_values_typ by (metis nth_mem)
  then show ?thesis using assms(2,3) by (simp add: value_key_get sa_get_values get_at_def sp_key_inject)
qed

theorem value_key_exact_witness:
  "value_key (ADouble [0]) 0 \<noteq> value_key (ADouble [0x8000000000000000]) 0"
  using value_key_exact [of "ADouble [0]" "ADouble [0x8000000000000000]" 0 0]
  by (simp add: get_at_def)

text \<open>The keys of signed integers order as the integers do, and the keys of doubles in the order
  \<open>total_cmp\<close> gives them.\<close>

lemma keys_ordered:
  "(signed_key m < signed_key n \<longleftrightarrow> sint m < sint n) \<and>
   (float64_key x < float64_key y \<longleftrightarrow> sint (total_cmp_64 x) < sint (total_cmp_64 y))"
  by (intro conjI signed_key_less float64_key_less)

section \<open>Property values\<close>

text \<open>A value that is stored reads back as itself, now and after any other value is stored; its
  stored form has its type; storing it again gives the same stored form, and storing panics only
  for a string the pool has no room for.\<close>

theorem stored_value_roundtrip:
  assumes "pool_repr pool ss"
  shows "case to_stored_property v pool of
      (Ok p, pool') \<Rightarrow> resolve_property pool' p = Ok v \<and> sp_typ p = pv_typ v \<and>
        resolve_property (snd (to_stored_property w pool')) p = Ok v \<and>
        to_stored_property v pool' = (Ok p, pool')
    | (Panic, pool') \<Rightarrow> pool' = pool \<and> (\<exists>s. v = VString s \<and> abs_intern ss s = None)
    | _ \<Rightarrow> False"
proof (cases "\<exists>s. v = VString s \<and> abs_intern ss s = None")
  case True
  then show ?thesis using sp.put_None [OF assms] by auto
next
  case False
  obtain p pool' ss' where "to_stored_property v pool = (Ok p, pool')" "pool_repr pool' ss'" "stored_as ss' v p"
  proof (rule to_stored_cases [OF assms, of v])
    assume full: "to_stored_property v pool = (Panic, pool)"
    obtain s where v: "v = VString s" using full by (cases v) simp_all
    then obtain i ss' where "abs_intern ss s = Some (i, ss')" using False by (cases "abs_intern ss s") auto
    then show thesis using sp.put_Some [OF assms] full by (force simp: v)
  qed (use that in blast)
  then show ?thesis using stored_settled by simp
qed

theorem stored_value_roundtrip_witness:
  "\<exists>p pool'. to_stored_property (VString [104]) pool_new = (Ok p, pool') \<and> resolve_property pool' p = Ok (VString [104])"
  using stored_value_roundtrip [OF pool_repr_new, of "VString [104]" "VBool True"]
  by (cases "to_stored_property (VString [104]) pool_new"; rename_tac r pool; case_tac r)
    (auto simp: abs_intern_def pool_room_def u32_max_def)

text \<open>\<open>add_property\<close> keeps a new node within its schema: declared kinds only, in key order, at
  least one value each and exactly one where the quantity is \<open>One\<close>; an error leaves the node as it
  was, and a value that is added comes after the ones the kind had.\<close>

theorem add_property_keeps_schema:
  assumes "new_node_ok S node"
  shows "case add_property S k v node of
      (Ok _, node') \<Rightarrow> new_node_ok S node' \<and>
        the (btree_get (nn_properties node') k) = (case btree_get (nn_properties node) k of None \<Rightarrow> [] | Some vs \<Rightarrow> vs) @ [v] \<and>
        (\<forall>k'. k' \<noteq> k \<longrightarrow> btree_get (nn_properties node') k' = btree_get (nn_properties node) k')
    | (Err _, node') \<Rightarrow> node' = node
    | _ \<Rightarrow> False"
  using add_property_inv [OF assms, of k v]
  by (auto simp: add_property_def btree_get_put Let_def split: if_splits)

theorem add_property_keeps_schema_witness:
  "new_node_ok simple_schema (snd (add_property simple_schema Key (VString [97]) (new_node_new Alpha)))"
  using add_property_keeps_schema [of simple_schema "new_node_new Alpha" Key "VString [97]"]
  by (simp add: new_node_ok_def new_node_new_def add_property_def simple_schema_def)

end
