(* ===== verification/Readback_Spec.thy ===== *)
theory Readback_Spec
  imports Apply_Spec Data_Theorems
begin

text \<open>
  What a caller reads after \<open>apply\<close>, through the rows of the graph: the properties and edges a diff
  asked for, the rows it left alone, and the handles \<open>get_edges\<close> returns.
\<close>

section \<open>Stored rows\<close>

lemma stored_all_resolves:
  assumes "stored_all ss vs ps" and "pool_repr (g_strings g) ss"
  shows "map_each (graph_resolve_property g) ps = Ok vs"
  using assms(1) unfolding stored_all_def
proof (induction rule: list_all2_induct)
  case (Cons v vs p ps)
  then show ?case using stored_as_resolve [OF Cons.hyps(1) assms(2)] by (simp add: graph_resolve_property_def)
qed simp

lemma of_kind_nth:
  assumes "i < length nodes"
  shows "of_kind (nn_kind (nodes ! i)) nodes ! new_count (take i nodes) (nn_kind (nodes ! i)) = nodes ! i"
proof -
  have "of_kind (nn_kind (nodes ! i)) nodes =
      of_kind (nn_kind (nodes ! i)) (take i nodes) @ nodes ! i # of_kind (nn_kind (nodes ! i)) (drop (Suc i) nodes)"
    by (subst id_take_nth_drop [OF assms]) (simp add: of_kind_def)
  then show ?thesis by (simp add: new_count_def nth_append)
qed

lemma resolve_prefix:
  assumes "pool_repr (g_strings g) ss" and "pool_repr (g_strings g') ss'" and "prefix ss ss'"
    and "graph_resolve_property g p = Ok v"
  shows "graph_resolve_property g' p = Ok v"
proof (cases p)
  case (SStringId i)
  obtain t where t: "get_at ss (unat (rs_index i)) = Some t" "v = VString t"
    using assms(4) SStringId by (auto simp: graph_resolve_property_def resolve_string_def pool_get_repr [OF assms(1)]
        ok_or_def split: option.splits)
  then have "get_at ss' (unat (rs_index i)) = Some t"
    using assms(3) by (auto simp: get_at_eq_Some prefix_def nth_append)
  then show ?thesis
    by (simp add: SStringId t graph_resolve_property_def resolve_string_def pool_get_repr [OF assms(2)])
qed (use assms(4) in \<open>auto simp: graph_resolve_property_def\<close>)

lemma rows_appliedD:
  assumes "rows_applied S g d ss rem adds g'"
  shows "kind_count S g' nk = new_total S g d nk"
    and "nid_seq n < new_total S g d (nid_kind n) \<Longrightarrow> is_node_deleted S g' n = Ok (node_gone S g d n)"
    and "seq < new_total S g d nk \<Longrightarrow> edge_row_applied S g rem adds g' nk dir ek seq"
    and "seq < new_total S g d nk \<Longrightarrow> prop_row_applied S g d ss g' nk pk seq"
  using assms unfolding rows_applied_def by blast+

context schema_laws begin

section \<open>Handles\<close>

lemma row_length_le:
  assumes "graph_ok S g" and "seq < kind_count S g nk"
  shows "length (edge_row S g nk d ek seq) \<le> u32_max"
proof -
  let ?slot = "edge_slot_of S g nk d ek"
  have csr: "slot_csr (es_offsets ?slot) (edge_halves ?slot) (kind_count S g nk) (edge_rows ?slot (kind_count S g nk))"
    by (rule edge_slot_ok_csr [OF graph_okD(4) [OF assms(1)]])
  have "edge_row S g nk d ek seq \<in> set (edge_rows ?slot (kind_count S g nk))"
    using assms(2) slot_csr_length [OF csr] by (simp add: edge_row_def)
  then have "length (edge_row S g nk d ek seq) \<le> length (edge_halves ?slot)"
    unfolding slot_csr_concat [OF csr, symmetric] length_concat by (intro member_le_sum_list) auto
  moreover have "length (edge_halves ?slot) \<le> u32_max"
    using csr csr_bound by (auto simp: slot_csr_def split: if_splits)
  ultimately show ?thesis by (rule order_trans)
qed

lemma handle_live:
  assumes ok: "graph_ok S g" and n: "nid_seq n < kind_count S g (nid_kind n)"
    and row: "row = edge_row S g (nid_kind n) d ek (nid_seq n)" and j: "j < length row"
    and m: "node_of_raw S (fst (row ! j)) = Ok m"
  shows "\<exists>r. raw_of_edge S (from_half n m ek d j) = Ok r \<and> edge_live S g r"
proof -
  have small: "nid_seq n \<le> u32_max" "nid_seq m \<le> u32_max" "j \<le> u32_max"
    using n kind_count_le [OF ok, of "nid_kind n"] m row_length_le [OF ok n, of d ek] j row by (simp_all add: node_of_raw_Ok)
  have far: "fst (row ! j) = RawNodeId (of_nat (n_index S (nid_kind m))) (of_nat (nid_seq m))"
    using m by (intro raw_node_eqI) (simp_all add: node_of_raw_Ok)
  have near: "node_of_raw S (RawNodeId (of_nat (n_index S (nid_kind n))) (of_nat (nid_seq n))) = Ok n"
    using small by (simp add: node_of_raw_Ok)
  show ?thesis
    using small n j [unfolded row] near
    by (cases d) (auto simp: raw_of_edge_cases from_half_def edge_live_def edge_near_def resolve_edge_kind_def
        resolve_edge_direction_def edge_seq_def far [unfolded row, symmetric] dir_from_index_def)
qed

section \<open>After \<open>apply\<close>\<close>

lemma applied_new_node:
  assumes app: "diff_applied S g d g'" and i: "i < length (gd_new_nodes d)"
    and node: "node = gd_new_nodes d ! i" and n: "n = diff_ids S g d ! i"
  shows "nid_kind n = nn_kind node \<and> is_node_deleted S g' n = Ok False \<and>
    map_each (graph_resolve_property g') (prop_row S g' (nid_kind n) pk (nid_seq n)) =
      Ok (case map_of (nn_properties node) pk of Some vs \<Rightarrow> vs | None \<Rightarrow> [])"
proof -
  obtain ss' rem adds where ss': "pool_repr (g_strings g') ss'" and rows: "rows_applied S g d ss' rem adds g'"
    using app by (auto simp: diff_applied_def)
  let ?nk = "nn_kind node" and ?j = "new_count (take i (gd_new_nodes d)) (nn_kind node)"
  have n': "n = NodeId ?nk (kind_count S g ?nk + ?j)"
    using i by (simp add: n node diff_ids_def new_ids_def new_id_def Let_def)
  have less: "nid_seq n < new_total S g d ?nk"
    using new_count_take_less [OF i] by (simp add: n' node new_total_def)
  have "\<not> node_gone S g d n" by (simp add: n' node_gone_def)
  then have "is_node_deleted S g' n = Ok False" using rows_appliedD(2) [OF rows, of n] less by (simp add: n')
  moreover have "stored_all ss' (node_values (gd_new_nodes d) ?nk pk ?j) (prop_row S g' ?nk pk (nid_seq n))"
    using rows_appliedD(4) [OF rows less, of pk] by (simp add: prop_row_applied_def n')
  moreover have "node_values (gd_new_nodes d) ?nk pk ?j =
      (case map_of (nn_properties node) pk of Some vs \<Rightarrow> vs | None \<Rightarrow> [])"
    using of_kind_nth [OF i] by (simp add: node_values_def node)
  ultimately show ?thesis using stored_all_resolves [OF _ ss'] by (simp add: n')
qed

lemma applied_update:
  assumes app: "diff_applied S g d g'" and seq: "seq < kind_count S g nk"
    and upd: "last_update S (gd_changes d) nk pk seq = Some q"
  shows "map_each (graph_resolve_property g') (prop_row S g' nk pk seq) = Ok (quantified_values q)"
proof -
  obtain ss' rem adds where "pool_repr (g_strings g') ss'" and rows: "rows_applied S g d ss' rem adds g'"
    using app by (auto simp: diff_applied_def)
  moreover have "stored_all ss' (quantified_values q) (prop_row S g' nk pk seq)"
    using rows_appliedD(4) [OF rows, of seq nk pk] seq upd by (simp add: prop_row_applied_def new_total_def)
  ultimately show ?thesis using stored_all_resolves by blast
qed

lemma no_removals_queued:
  "edges_queued S g [] rem \<Longrightarrow> seq < kind_count S g nk \<Longrightarrow> queued_at S g rem nk d ek seq = []"
  by (erule edges_queued.cases) (simp_all add: queued_at_def slot_removals_def edge_slot_less)

lemma applied_untouched:
  assumes app: "diff_applied S g d g'" and seq: "nid_seq n < kind_count S g (nid_kind n)"
  shows "(removed_edges (gd_changes d) = [] \<longrightarrow>
      prefix (edge_row S g (nid_kind n) dir ek (nid_seq n)) (edge_row S g' (nid_kind n) dir ek (nid_seq n))) \<and>
    (last_update S (gd_changes d) (nid_kind n) pk (nid_seq n) = None \<longrightarrow>
      prop_row S g' (nid_kind n) pk (nid_seq n) = prop_row S g (nid_kind n) pk (nid_seq n)) \<and>
    (is_node_deleted S g' n = Ok (node_gone S g d n)) \<and>
    (\<forall>p v. graph_resolve_property g p = Ok v \<longrightarrow> graph_resolve_property g' p = Ok v)"
proof -
  obtain ss ss' rem adds where pools: "pool_repr (g_strings g) ss" "pool_repr (g_strings g') ss'" "prefix ss ss'"
    and rows: "rows_applied S g d ss' rem adds g'" and edges: "diff_edges S g d ss' rem adds"
    using app by (auto simp: diff_applied_def)
  have less: "nid_seq n < new_total S g d (nid_kind n)" using seq by (simp add: new_total_def)
  have "removed_edges (gd_changes d) = [] \<Longrightarrow> queued_at S g rem (nid_kind n) dir ek (nid_seq n) = []"
    using edges no_removals_queued [OF _ seq] by (simp add: diff_edges_def)
  then show ?thesis
    using rows_appliedD(2) [OF rows less] rows_appliedD(3) [OF rows less, of dir ek] seq resolve_prefix [OF pools]
      rows_appliedD(4) [OF rows less, of pk]
    by (auto simp add: edge_row_applied_def prop_row_applied_def)
qed

lemma applied_new_edge:
  assumes app: "diff_applied S g d g'" and e: "e \<in> set (gd_new_edges d)"
    and s: "resolve_node_ref S (diff_ids S g d) (ne_src e) = Some s" "diff_lives S g d s"
    and t: "resolve_node_ref S (diff_ids S g d) (ne_dst e) = Some t" "diff_lives S g d t"
  shows "\<exists>p. (node_of S (nid_kind t) (nid_seq t), p) \<in> set (edge_row S g' (nid_kind s) Out (ne_kind e) (nid_seq s)) \<and>
    (node_of S (nid_kind s) (nid_seq s), p) \<in> set (edge_row S g' (nid_kind t) In (ne_kind e) (nid_seq t)) \<and>
    (case (ne_property e, p) of
      (None, None) \<Rightarrow> True
    | (Some v, Some q) \<Rightarrow> graph_resolve_property g' q = Ok v
    | _ \<Rightarrow> False)"
proof -
  obtain ss' rem adds where pool: "pool_repr (g_strings g') ss'" and rows: "rows_applied S g d ss' rem adds g'"
    and edges: "edges_added S (diff_ids S g d) (diff_lives S g d) ss' (gd_new_edges d) adds"
    using app by (auto simp: diff_applied_def diff_edges_def)
  obtain props where props: "list_all2 (edge_value ss') (gd_new_edges d) props"
    and adds: "adds = concat (map2 (edge_added S (diff_ids S g d) (diff_lives S g d)) (gd_new_edges d) props)"
    using edges by (auto simp: edges_added_def)
  obtain k where k: "k < length (gd_new_edges d)" "gd_new_edges d ! k = e" using e by (auto simp: in_set_conv_nth)
  define p where "p = props ! k"
  have p: "edge_value ss' e p" using list_all2_nthD [OF props k(1)] k(2) by (simp add: p_def)
  have "(e, p) \<in> set (zip (gd_new_edges d) props)"
    using k list_all2_lengthD [OF props] by (auto simp: p_def set_zip)
  moreover have "(s, t, ne_kind e, p) \<in> set (edge_added S (diff_ids S g d) (diff_lives S g d) e p)"
    using s t by (simp add: edge_added_def)
  ultimately have mem: "(s, t, ne_kind e, p) \<in> set adds" unfolding adds by force
  have total: "nid_seq s < new_total S g d (nid_kind s)" "nid_seq t < new_total S g d (nid_kind t)"
    using s(2) t(2) by (simp_all add: diff_lives_def node_lives_def)
  have "(node_of S (nid_kind t) (nid_seq t), p) \<in> set (added_halves S adds (nid_kind s) Out (ne_kind e) (nid_seq s))"
    and "(node_of S (nid_kind s) (nid_seq s), p) \<in> set (added_halves S adds (nid_kind t) In (ne_kind e) (nid_seq t))"
    using mem by force+
  moreover have "edge_row_applied S g rem adds g' (nid_kind s) Out (ne_kind e) (nid_seq s)"
    and "edge_row_applied S g rem adds g' (nid_kind t) In (ne_kind e) (nid_seq t)"
    using rows_appliedD(3) [OF rows] total by blast+
  moreover have "case (ne_property e, p) of
      (None, None) \<Rightarrow> True
    | (Some v, Some q) \<Rightarrow> graph_resolve_property g' q = Ok v
    | _ \<Rightarrow> False"
    using p stored_as_resolve [OF _ pool] by (auto simp: edge_value_def graph_resolve_property_def split: option.splits)
  ultimately show ?thesis unfolding edge_row_applied_def by (intro exI [of _ p]) simp
qed

end

end
