(* ===== verification/Edge_Rows_Spec.thy ===== *)
theory Edge_Rows_Spec
  imports Readback_Spec
begin

text \<open>
  The rows of edges after \<open>apply\<close>, half by half: a row loses only halves that a removed handle names, from
  either of its ends, and gains exactly the halves of the new edges that end at its node. What a handle that
  is out of date does to the pairing of the edges follows.
\<close>

section \<open>What a removal names\<close>

text \<open>The handle names the row from the node it is read at, or from the other end, where the half to remove is
  one whose neighbor is the node the handle is read at.\<close>

definition names_near :: "('n, 'e, 'p, 'r) schema \<Rightarrow> 'e \<Rightarrow> 'n node_id \<Rightarrow> dir \<Rightarrow> raw_edge_id \<Rightarrow> bool" where
  "names_near S ek n d e \<longleftrightarrow> resolve_edge_kind S (re_handle e) = Ok ek \<and>
     (\<exists>p s fd. edge_near e = Ok (p, d, s, fd) \<and> node_of_raw S p = Ok n)"

definition names_far :: "('n, 'e, 'p, 'r) schema \<Rightarrow> 'e \<Rightarrow> 'n node_id \<Rightarrow> dir \<Rightarrow> raw_edge_id \<Rightarrow> raw_node_id \<Rightarrow> bool" where
  "names_far S ek n d e p \<longleftrightarrow> resolve_edge_kind S (re_handle e) = Ok ek \<and>
     (\<exists>nd s. edge_near e = Ok (p, nd, s, d) \<and> node_of_raw S s = Ok n)"

definition names_row :: "('n, 'e, 'p, 'r) schema \<Rightarrow> 'e \<Rightarrow> 'n node_id \<Rightarrow> dir \<Rightarrow> raw_edge_id \<Rightarrow> bool" where
  "names_row S ek n d e \<longleftrightarrow> names_near S ek n d e \<or> (\<exists>p. names_far S ek n d e p)"

text \<open>The positions removed from a row: those the handles read at its node have, and for the other handles
  that name it at most one each, of a half that leads to the node the handle is read at.\<close>

definition removals_named ::
  "('n, 'e, 'p, 'r) schema \<Rightarrow> 'e \<Rightarrow> 'n node_id \<Rightarrow> dir \<Rightarrow> raw_edge_id list \<Rightarrow> (raw_node_id \<times> stored_property option) list \<Rightarrow>
     nat list \<Rightarrow> bool" where
  "removals_named S ek n d es row R \<longleftrightarrow>
     (\<forall>e\<in>set es. names_near S ek n d e \<longrightarrow> edge_seq e \<in> set R) \<and>
     (\<forall>j\<in>set R. \<exists>e\<in>set es. names_near S ek n d e \<and> edge_seq e = j \<or>
        (\<exists>p. names_far S ek n d e p \<and> j < length row \<and> fst (row ! j) = p)) \<and>
     length R \<le> length (filter (names_row S ek n d) es)"

lemma removals_named_mono:
  assumes named: "removals_named S ek n d es row R" and "names_near S ek n d e \<Longrightarrow> edge_seq e \<in> set R"
  shows "removals_named S ek n d (es @ [e]) row R"
  using assms unfolding removals_named_def by auto

lemma removals_named_near:
  assumes "removals_named S ek n d es row R" and "names_near S ek n d e"
  shows "removals_named S ek n d (es @ [e]) row (R @ [edge_seq e])"
  using assms unfolding removals_named_def by (auto simp: names_row_def)

lemma removals_named_far:
  assumes "removals_named S ek n d es row R" and "names_far S ek n d e p" and "j < length row" and "fst (row ! j) = p"
    and "\<not> names_near S ek n d e"
  shows "removals_named S ek n d (es @ [e]) row (R @ [j])"
  using assms unfolding removals_named_def by (auto simp: names_row_def)

lemma removals_named_none:
  assumes "removals_named S ek n d es row R" and "\<forall>e\<in>set es. \<not> names_row S ek n d e"
  shows "R = []"
proof -
  have "filter (names_row S ek n d) es = []" using assms(2) by (simp add: filter_empty_conv)
  then show ?thesis using assms(1) by (simp add: removals_named_def)
qed

lemma node_id_eqI: "nid_kind a = nk \<Longrightarrow> nid_seq a = seq \<Longrightarrow> a = NodeId nk seq"
  by (cases a) simp

context schema_laws begin

lemma edges_queued_named:
  assumes "edges_queued S g es rem" and seq: "seq < kind_count S g nk"
  shows "removals_named S ek (NodeId nk seq) d es (edge_row S g nk d ek seq) (queued_at S g rem nk d ek seq)"
  using assms(1)
proof (induction rule: edges_queued.induct)
  case none
  show ?case by (simp add: removals_named_def queued_at_new [OF seq])
next
  case (more es rem e rem')
  let ?n = "NodeId nk seq" and ?row = "edge_row S g nk d ek seq" and ?R = "queued_at S g rem nk d ek seq"
  obtain ek' p nd s fd near where e: "resolve_edge_kind S (re_handle e) = Ok ek'" "edge_near e = Ok (p, nd, s, fd)"
    "node_of_raw S p = Ok near"
    "if edge_seq e \<in> set (queued_at S g rem (nid_kind near) nd ek' (nid_seq near))
      then (\<forall>nk d ek'' seq. queued_at S g rem' nk d ek'' seq = queued_at S g rem nk d ek'' seq)
      else (\<exists>far. node_of_raw S s = Ok far \<and> nid_seq far < kind_count S g (nid_kind far) \<and>
        both_queued S g ek' p near nd (edge_seq e) far fd rem rem')"
    using more.hyps(2) unfolding edge_step_def by blast
  note dirs = edge_near_dirs [OF e(2)]
  have near: "names_near S ek ?n d e \<longleftrightarrow> (nk, d, ek, seq) = (nid_kind near, nd, ek', nid_seq near)"
    using e(1-3) by (cases near) (auto simp: names_near_def)
  show ?case
  proof (cases "edge_seq e \<in> set (queued_at S g rem (nid_kind near) nd ek' (nid_seq near))")
    case True
    then have same: "queued_at S g rem' nk d ek seq = ?R" using e(4) by simp
    show ?thesis unfolding same by (rule removals_named_mono [OF more.IH]) (use True near in auto)
  next
    case False
    then obtain far j where far: "node_of_raw S s = Ok far"
      and j: "reverse_match S g ek' p near nd (edge_seq e) far fd (queued_at S g rem (nid_kind far) fd ek' (nid_seq far)) j"
      and upd: "queued_at S g rem' nk d ek seq = ?R @
          (if (nk, d, ek, seq) = (nid_kind near, nd, ek', nid_seq near) then [edge_seq e] else []) @
          (if (nk, d, ek, seq) = (nid_kind far, fd, ek', nid_seq far) then [j] else [])"
      using e(4) unfolding both_queued_def by auto
    have jC: "j < length (edge_row S g (nid_kind far) fd ek' (nid_seq far))"
      "fst (edge_row S g (nid_kind far) fd ek' (nid_seq far) ! j) = p"
      using j by (simp_all add: reverse_match_def reverse_candidates_def Let_def)
    consider (near) "(nk, d, ek, seq) = (nid_kind near, nd, ek', nid_seq near)"
      | (far) "(nk, d, ek, seq) = (nid_kind far, fd, ek', nid_seq far)" "(nk, d, ek, seq) \<noteq> (nid_kind near, nd, ek', nid_seq near)"
      | (other) "(nk, d, ek, seq) \<noteq> (nid_kind far, fd, ek', nid_seq far)" "(nk, d, ek, seq) \<noteq> (nid_kind near, nd, ek', nid_seq near)"
      by blast
    then show ?thesis
    proof cases
      case near
      then have "queued_at S g rem' nk d ek seq = ?R @ [edge_seq e]" using upd dirs by auto
      then show ?thesis using removals_named_near [OF more.IH] near \<open>names_near S ek ?n d e \<longleftrightarrow> _\<close> by simp
    next
      case far': far
      then have "queued_at S g rem' nk d ek seq = ?R @ [j]" using upd by simp
      moreover have "names_far S ek ?n d e p" using e(1,2) far far'(1) by (cases far) (auto simp: names_far_def)
      ultimately show ?thesis using removals_named_far [OF more.IH] jC far' near by simp
    next
      case other
      then have "queued_at S g rem' nk d ek seq = ?R" using upd other by auto
      moreover have "\<not> names_near S ek ?n d e" using other(2) near by simp
      ultimately show ?thesis using removals_named_mono [OF more.IH, of e] by simp
    qed
  qed
qed

end

section \<open>What a diff adds\<close>

definition near_end :: "dir \<Rightarrow> 'e new_edge \<Rightarrow> new_or_existing_node" where
  "near_end d e = (case d of Out \<Rightarrow> ne_src e | In \<Rightarrow> ne_dst e)"

definition far_end :: "dir \<Rightarrow> 'e new_edge \<Rightarrow> new_or_existing_node" where
  "far_end d e = (case d of Out \<Rightarrow> ne_dst e | In \<Rightarrow> ne_src e)"

text \<open>The new edge is of the kind, its end on this side is the node, and both of its ends are there after the diff.\<close>

definition ends_at ::
  "('n, 'e, 'p, 'r) schema \<Rightarrow> graph \<Rightarrow> ('n, 'e, 'p) graph_diff \<Rightarrow> 'e \<Rightarrow> 'n node_id \<Rightarrow> dir \<Rightarrow> 'e new_edge \<Rightarrow> bool" where
  "ends_at S g d ek n dir e \<longleftrightarrow> ne_kind e = ek \<and> resolve_node_ref S (diff_ids S g d) (near_end dir e) = Some n \<and>
     diff_lives S g d n \<and> (\<exists>m. resolve_node_ref S (diff_ids S g d) (far_end dir e) = Some m \<and> diff_lives S g d m)"

text \<open>A half of the edge: it leads to the other end, with the value of the edge.\<close>

definition half_of_edge ::
  "('n, 'e, 'p, 'r) schema \<Rightarrow> graph \<Rightarrow> ('n, 'e, 'p) graph_diff \<Rightarrow> graph \<Rightarrow> dir \<Rightarrow> 'e new_edge \<Rightarrow>
     raw_node_id \<times> stored_property option \<Rightarrow> bool" where
  "half_of_edge S g d g' dir e h \<longleftrightarrow>
     (\<exists>m. resolve_node_ref S (diff_ids S g d) (far_end dir e) = Some m \<and> fst h = node_of S (nid_kind m) (nid_seq m)) \<and>
     (case (ne_property e, snd h) of
        (None, None) \<Rightarrow> True
      | (Some v, Some q) \<Rightarrow> graph_resolve_property g' q = Ok v
      | _ \<Rightarrow> False)"

definition halves_added ::
  "('n, 'e, 'p, 'r) schema \<Rightarrow> graph \<Rightarrow> ('n, 'e, 'p) graph_diff \<Rightarrow> graph \<Rightarrow> 'e \<Rightarrow> 'n node_id \<Rightarrow> dir \<Rightarrow>
     (raw_node_id \<times> stored_property option) list \<Rightarrow> bool" where
  "halves_added S g d g' ek n dir A \<longleftrightarrow>
     list_all2 (half_of_edge S g d g' dir) (filter (ends_at S g d ek n dir) (gd_new_edges d)) A"

lemma halves_added_none:
  assumes "halves_added S g d g' ek n dir A" and "\<forall>e\<in>set (gd_new_edges d). \<not> ends_at S g d ek n dir e"
  shows "A = []"
proof -
  have "filter (ends_at S g d ek n dir) (gd_new_edges d) = []" using assms(2) by (simp add: filter_empty_conv)
  then show ?thesis using assms(1) by (simp add: halves_added_def)
qed

lemma added_halves_of_edges:
  assumes "list_all2 (edge_value ss) es props" and pool: "pool_repr (g_strings g') ss"
  shows "list_all2 (half_of_edge S g d g' dir) (filter (ends_at S g d ek n dir) es)
    (added_halves S (concat (map2 (edge_added S (diff_ids S g d) (diff_lives S g d)) es props)) (nid_kind n) dir ek (nid_seq n))"
  using assms(1)
proof (induction rule: list_all2_induct)
  case (Cons e es p props)
  have "case (ne_property e, p) of (None, None) \<Rightarrow> True | (Some v, Some q) \<Rightarrow> graph_resolve_property g' q = Ok v | _ \<Rightarrow> False"
    using Cons.hyps(1) stored_as_resolve [OF _ pool] by (auto simp: edge_value_def graph_resolve_property_def split: option.splits)
  then have "list_all2 (half_of_edge S g d g' dir) (if ends_at S g d ek n dir e then [e] else [])
      (added_halves S (edge_added S (diff_ids S g d) (diff_lives S g d) e p) (nid_kind n) dir ek (nid_seq n))"
    by (cases dir) (auto simp: edge_added_def ends_at_def half_of_edge_def near_end_def far_end_def split: option.splits)
  from list_all2_appendI [OF this Cons.IH] show ?case by (simp add: added_halves_append split: if_splits)
qed simp

section \<open>Rows after \<open>apply\<close>\<close>

context schema_laws begin

lemma applied_edge_row:
  assumes app: "diff_applied S g d g'" and seq: "nid_seq n < kind_count S g (nid_kind n)"
  shows "\<exists>R A. edge_row S g' (nid_kind n) dir ek (nid_seq n) = remove_at (edge_row S g (nid_kind n) dir ek (nid_seq n)) R @ A \<and>
    removals_named S ek n dir (removed_edges (gd_changes d)) (edge_row S g (nid_kind n) dir ek (nid_seq n)) R \<and>
    halves_added S g d g' ek n dir A"
proof -
  obtain ss' rem adds where pool: "pool_repr (g_strings g') ss'" and rows: "rows_applied S g d ss' rem adds g'"
    and edges: "diff_edges S g d ss' rem adds"
    using app by (auto simp: diff_applied_def)
  have less: "nid_seq n < new_total S g d (nid_kind n)" using seq by (simp add: new_total_def)
  have "removals_named S ek n dir (removed_edges (gd_changes d)) (edge_row S g (nid_kind n) dir ek (nid_seq n))
      (queued_at S g rem (nid_kind n) dir ek (nid_seq n))"
    using edges_queued_named [OF _ seq] edges by (simp add: diff_edges_def)
  moreover have "halves_added S g d g' ek n dir (added_halves S adds (nid_kind n) dir ek (nid_seq n))"
    using edges added_halves_of_edges [OF _ pool] by (auto simp: diff_edges_def edges_added_def halves_added_def)
  ultimately show ?thesis
    using rows_appliedD(3) [OF rows less, of dir ek] seq unfolding edge_row_applied_def by auto
qed

end

section \<open>One removal\<close>

lemma remove_at_beyond: "length r \<le> k \<Longrightarrow> remove_at r [k] = r"
  by (auto simp: remove_at_def intro: nths_all)

lemma edges_queued_one:
  assumes "edges_queued S g [e] rem"
  shows "edge_step S g e (buckets_new (edge_storage_size S)) rem"
  using assms
proof cases
  case (more es rem0 e0)
  then have "es = []" "e0 = e" by simp_all
  moreover from \<open>edges_queued S g es rem0\<close> have "rem0 = buckets_new (edge_storage_size S)"
    unfolding \<open>es = []\<close> by cases simp_all
  ultimately show ?thesis using more by simp
qed

context schema_laws begin

text \<open>The two halves an accepted removal takes are those of one edge exactly where the handle is live.\<close>

lemma one_removal_unpaired:
  assumes ok: "graph_ok S g" and paired: "\<And>ek. edges_paired S g ek" and queued: "edges_queued S g [e] rem"
    and left: "\<And>ek. left_triples S g rem Out ek = left_triples S g rem In ek"
  shows "edge_live S g e"
proof -
  let ?new = "buckets_new (edge_storage_size S)"
  obtain ek p nd s fd near where e: "resolve_edge_kind S (re_handle e) = Ok ek" "edge_near e = Ok (p, nd, s, fd)"
    "node_of_raw S p = Ok near" "nid_seq near < kind_count S g (nid_kind near)"
    and step: "if edge_seq e \<in> set (queued_at S g ?new (nid_kind near) nd ek (nid_seq near))
      then (\<forall>nk d ek' seq. queued_at S g rem nk d ek' seq = queued_at S g ?new nk d ek' seq)
      else (\<exists>far. node_of_raw S s = Ok far \<and> nid_seq far < kind_count S g (nid_kind far) \<and>
        both_queued S g ek p near nd (edge_seq e) far fd ?new rem)"
    using edges_queued_one [OF queued] unfolding edge_step_def by blast
  note dirs = edge_near_dirs [OF e(2)]
  let ?near = "edge_row S g (nid_kind near) nd ek (nid_seq near)"
  obtain far j where far: "node_of_raw S s = Ok far" "nid_seq far < kind_count S g (nid_kind far)"
    and j: "j < length (edge_row S g (nid_kind far) fd ek (nid_seq far))"
      "fst (edge_row S g (nid_kind far) fd ek (nid_seq far) ! j) = p"
    and upd: "\<And>nk d ek' seq. queued_at S g rem nk d ek' seq = queued_at S g ?new nk d ek' seq @
        (if (nk, d, ek', seq) = (nid_kind near, nd, ek, nid_seq near) then [edge_seq e] else []) @
        (if (nk, d, ek', seq) = (nid_kind far, fd, ek, nid_seq far) then [j] else [])"
    using step queued_at_new [OF e(4)] by (auto simp: both_queued_def reverse_match_def reverse_candidates_def Let_def)
  let ?hj = "edge_row S g (nid_kind far) fd ek (nid_seq far) ! j"
  have whole: "left_triples S g ?new nd ek = left_triples S g ?new fd ek"
    using paired [of ek] dirs by (auto simp: left_triples_new [OF ok] edges_paired_def)
  have far_gone: "left_triples S g ?new fd ek =
      add_mset (triple fd (node_of S (nid_kind far) (nid_seq far)) ?hj) (left_triples S g rem fd ek)"
    using dirs by (intro left_triples_push [OF far(2) j(1)]) (auto simp: upd queued_at_new [OF far(2)])
  have same: "left_triples S g rem nd ek = left_triples S g rem fd ek" using left [of ek] dirs by auto
  have k: "edge_seq e < length ?near"
  proof (rule ccontr)
    assume "\<not> edge_seq e < length ?near"
    then have "remove_at (edge_row S g nk nd ek seq) (queued_at S g rem nk nd ek seq) = edge_row S g nk nd ek seq"
      if "seq < kind_count S g nk" for nk seq
      using dirs by (auto simp: upd queued_at_new [OF that] remove_at_beyond)
    then have "left_triples S g rem nd ek = left_triples S g ?new nd ek"
      unfolding left_triples_new [OF ok] edge_triples_sum [OF ok] left_triples_def
      by (intro sum.cong) (auto simp: node_set_mem queued_at_new)
    then show False using whole far_gone same by simp
  qed
  have "left_triples S g ?new nd ek =
      add_mset (triple nd (node_of S (nid_kind near) (nid_seq near)) (?near ! edge_seq e)) (left_triples S g rem nd ek)"
    using dirs by (intro left_triples_push [OF e(4) k]) (auto simp: upd queued_at_new [OF e(4)])
  then have "triple nd (node_of S (nid_kind near) (nid_seq near)) (?near ! edge_seq e) =
      triple fd (node_of S (nid_kind far) (nid_seq far)) ?hj"
    using whole far_gone same by simp
  then have "fst (?near ! edge_seq e) = s"
    using dirs node_of_raw_node_of [OF far(1)] by (cases "?near ! edge_seq e"; cases ?hj) auto
  then show ?thesis using e k unfolding edge_live_def by blast
qed

lemma removal_paired_iff:
  assumes ok: "graph_ok S g" and paired: "\<And>ek. edges_paired S g ek" and fits: "diff_fits g d"
    and one: "removed_edges (gd_changes d) = [e]" and app: "apply_diff S d g = Ok (g', ids)"
  shows "(\<forall>ek. edges_paired S g' ek) \<longleftrightarrow> edge_live S g e"
proof
  obtain ss' rem adds where rows: "rows_applied S g d ss' rem adds g'" and edges: "diff_edges S g d ss' rem adds"
    using apply_Ok(3) [OF ok fits app] by (auto simp: diff_applied_def)
  assume "\<forall>ek. edges_paired S g' ek"
  then have "left_triples S g rem Out ek = left_triples S g rem In ek" for ek
    by (simp add: edges_paired_def applied_triples [OF ok apply_Ok(2) [OF ok fits app] rows edges])
  moreover have "edges_queued S g [e] rem" using edges by (simp add: diff_edges_def one)
  ultimately show "edge_live S g e" using one_removal_unpaired [OF ok paired] by blast
next
  assume "edge_live S g e"
  then show "\<forall>ek. edges_paired S g' ek" using apply_paired [OF ok fits app paired] by (simp add: one)
qed

end

end
