(* ===== verification/Accept_Spec.thy ===== *)
theory Accept_Spec
  imports Apply_Spec
begin

text \<open>
  When a diff is refused. Each pass is followed for its errors alone: if the values of a diff have
  the types of the schema and its changes name what is there, the one error left is an offset that
  does not fit into 32 bits, and it is at most the length of a slot afterwards.
\<close>

section \<open>Errors of a computation\<close>

definition fails :: "('e \<Rightarrow> bool) \<Rightarrow> ('e, 'a) outcome \<Rightarrow> bool" where
  "fails E m \<longleftrightarrow> (\<forall>e. m = Err e \<longrightarrow> E e)"

text \<open>An offset that does not fit, in slots of at most \<open>B\<close> entries.\<close>

definition overflows :: "nat \<Rightarrow> error \<Rightarrow> bool" where
  "overflows B e \<longleftrightarrow> (\<exists>n. u32_max < n \<and> n \<le> B \<and> e = OffsetOverflow n)"

lemma fails_simps [simp]:
  "fails E (Ok a)" "fails E Panic" "fails E Diverge" "fails E (Err e) \<longleftrightarrow> E e"
  by (simp_all add: fails_def)

lemma fails_map_ok [simp]: "fails E (map_ok f m) \<longleftrightarrow> fails E m"
  by (cases m) simp_all

lemma fails_reads [simp]:
  "fails E (index_at xs i)" "fails E (store_at xs i x)" "fails E (expect y)" "fails E (assert b)"
  by (simp_all add: index_at_def store_at_def expect_def assert_def split: option.split)

lemma fails_andthen:
  "fails E m \<Longrightarrow> (\<And>a. m = Ok a \<Longrightarrow> fails E (f a)) \<Longrightarrow> fails E (andthen m f)"
  by (cases m) simp_all

lemma fails_sbind:
  assumes "fails E (fst (m s))" and "\<And>a t. m s = (Ok a, t) \<Longrightarrow> fails E (fst (f a t))"
  shows "fails E (fst (sbind m f s))"
proof -
  obtain r t where m: "m s = (r, t)" by (cases "m s")
  then show ?thesis using assms by (cases r) simp_all
qed

lemma fails_slift: "fails E m \<Longrightarrow> (\<And>a. m = Ok a \<Longrightarrow> fails E (fst (f a s))) \<Longrightarrow> fails E (fst (sbind (slift m) f s))"
  by (rule fails_sbind) auto

lemma fails_ospec: "ospec Q E F m \<Longrightarrow> fails E m"
  by (cases m) simp_all

lemma fails_sspec: "sspec Q (\<lambda>_ _. False) F r \<Longrightarrow> fails E (fst r)"
  by (cases r; cases "fst r") (auto simp: sspec_def)

lemma fails_mono: "fails E m \<Longrightarrow> (\<And>e. E e \<Longrightarrow> E' e) \<Longrightarrow> fails E' m"
  by (simp add: fails_def)

lemma fails_for_each:
  assumes "P s" and "\<And>x s. x \<in> set xs \<Longrightarrow> P s \<Longrightarrow> fails E (f x s)"
    and "\<And>x s t. x \<in> set xs \<Longrightarrow> P s \<Longrightarrow> f x s = Ok t \<Longrightarrow> P t"
  shows "fails E (for_each f xs s)"
  using assms
proof (induction xs arbitrary: s)
  case (Cons x xs)
  show ?case
    unfolding for_each.simps
  proof (rule fails_andthen)
    fix t assume t: "f x s = Ok t"
    show "fails E (for_each f xs t)"
    proof (rule Cons.IH)
      show "P t" by (rule Cons.prems(3) [OF _ Cons.prems(1) t]) simp
    qed (use Cons.prems(2,3) in \<open>auto intro: Cons.prems(3)\<close>)
  qed (use Cons.prems(1,2) in simp)
qed simp

lemma fails_sfor_each:
  assumes "P v" and "\<And>x v s. x \<in> set xs \<Longrightarrow> P v \<Longrightarrow> fails E (fst (f x v s))"
    and "\<And>x v s w t. x \<in> set xs \<Longrightarrow> P v \<Longrightarrow> f x v s = (Ok w, t) \<Longrightarrow> P w"
  shows "fails E (fst (sfor_each f xs v s))"
  using assms
proof (induction xs arbitrary: v s)
  case (Cons x xs)
  show ?case
    unfolding sfor_each.simps
  proof (rule fails_sbind)
    fix w t assume w: "f x v s = (Ok w, t)"
    show "fails E (fst (sfor_each f xs w t))"
    proof (rule Cons.IH)
      show "P w" by (rule Cons.prems(3) [OF _ Cons.prems(1) w]) simp
    qed (use Cons.prems(2) in \<open>auto intro: Cons.prems(3)\<close>)
  qed (use Cons.prems(1,2) in simp)
qed simp

text \<open>The same with the items done so far.\<close>

lemma fails_sfor_each_upto:
  assumes "P [] v" and "\<And>ys y zs v s. xs = ys @ y # zs \<Longrightarrow> P ys v \<Longrightarrow> fails E (fst (f y v s))"
    and "\<And>ys y zs v s w t. xs = ys @ y # zs \<Longrightarrow> P ys v \<Longrightarrow> f y v s = (Ok w, t) \<Longrightarrow> P (ys @ [y]) w"
  shows "fails E (fst (sfor_each f xs v s))"
proof -
  have "fails E (fst (sfor_each f zs v s))" if "xs = ys @ zs" and "P ys v" for ys zs v s
    using that
  proof (induction zs arbitrary: ys v s)
    case (Cons z zs)
    show ?case
      unfolding sfor_each.simps
    proof (rule fails_sbind)
      show "fails E (fst (f z v s))" using assms(2) Cons.prems by blast
      fix w t assume "f z v s = (Ok w, t)"
      then have "P (ys @ [z]) w" using assms(3) Cons.prems by blast
      then show "fails E (fst (sfor_each f zs w t))" using Cons.IH [of "ys @ [z]"] Cons.prems(1) by simp
    qed
  qed simp
  from this [of "[]"] show ?thesis using assms(1) by simp
qed

lemma sfor_each_value_inv:
  assumes "sfor_each f xs v s = (Ok w, t)" and "P v"
    and "\<And>x v s w t. x \<in> set xs \<Longrightarrow> P v \<Longrightarrow> f x v s = (Ok w, t) \<Longrightarrow> P w"
  shows "P w"
  using assms
proof (induction xs arbitrary: v s)
  case (Cons x xs)
  then obtain v' s' where "f x v s = (Ok v', s')" "sfor_each f xs v' s' = (Ok w, t)"
    by (auto simp: sbind_eq_Ok)
  then show ?case using Cons.IH Cons.prems(2,3) by (metis list.set_intros)
qed simp

lemma sfor_each_append: "sfor_each f (xs @ ys) v s = sbind (sfor_each f xs v) (sfor_each f ys) s"
proof (induction xs arbitrary: v s)
  case (Cons x xs)
  obtain r t where "f x v s = (r, t)" by (cases "f x v s")
  then show ?case using Cons by (cases r) (simp_all add: sbind_def)
qed simp

lemma overflows_add: "offset_value c + n \<le> B \<Longrightarrow> fails (overflows B) (offset_checked_add_delta c n)"
  by (simp add: offset_checked_add_delta_cases overflows_def)

section \<open>Values of the types of the schema\<close>

definition values_typed :: "property_type \<Rightarrow> property_value list \<Rightarrow> bool" where
  "values_typed t vs \<longleftrightarrow> (\<forall>v\<in>set vs. pv_typ v = t)"

lemma probe_find_fails:
  assumes "probe_find p string tag slot = Some r"
  shows "fails E r"
proof (rule probe_find.raw_induct [OF _ assms])
  fix loop :: "pool \<Rightarrow> bytes \<Rightarrow> u8 \<Rightarrow> nat \<Rightarrow> raw_string_id option res option" and p string tag slot r
  assume IH: "\<And>p string tag slot r. loop p string tag slot = Some r \<Longrightarrow> fails E r"
    and run: "(if sp_tags p ! slot = 0 then Some (Ok None)
      else if sp_tags p ! slot = tag then
        (case andthen (index_at (sp_slots p) slot) (\<lambda>sid. pool_resolve p (unat sid)) of
           Ok s \<Rightarrow>
             if s = string then Some (Ok (Some (RawStringId (sp_slots p ! slot))))
             else loop p string tag ((slot + 1) AND (length (sp_tags p) - 1))
         | Err e \<Rightarrow> Some (Err e)
         | Panic \<Rightarrow> Some Panic
         | Diverge \<Rightarrow> Some Diverge)
      else loop p string tag ((slot + 1) AND (length (sp_tags p) - 1))) = Some r"
  have "fails E (andthen (index_at (sp_slots p) slot) (\<lambda>sid. pool_resolve p (unat sid)))"
    by (auto intro!: fails_andthen simp: pool_resolve_def pool_slice_def Let_def)
  then show "fails E r" using run IH by (auto split: if_splits outcome.splits)
qed

lemma intern_fails: "fails E (fst (intern s pool))"
proof -
  have "fails E (pool_find pool s h)" for h
    by (auto simp: pool_find_def from_loop_def intro!: fails_andthen split: option.split dest: probe_find_fails)
  moreover have ins: "fails E (insert_slot tags slots h i)" for tags slots h i
    by (auto simp: insert_slot_def from_loop_def intro!: fails_andthen split: option.split)
  have "fails E (rebuild_lookup n p)" for n p
    unfolding rebuild_lookup_def Let_def
    by (rule fails_andthen, rule fails_for_each [where P = "\<lambda>_. True"]) (auto simp: ins)
  then have "fails E (pool_push s h pool)" for h
    unfolding pool_push_def Let_def
    by (auto intro!: fails_andthen simp: ins split: prod.split)
  ultimately show ?thesis
    by (auto simp: intern_def Let_def fails_def split: outcome.splits option.splits)
qed

lemma to_stored_fails: "fails E (fst (to_stored_property v pool))"
proof (cases v)
  case (VString s)
  show ?thesis by (simp add: VString fails_sbind intern_fails)
qed simp_all

lemma to_stored_typ: "to_stored_property v pool = (Ok p, t) \<Longrightarrow> sp_typ p = pv_typ v"
  by (cases v) (auto simp: sbind_eq_Ok)

lemma push_fails: "sp_typ v = sa_typ a \<Longrightarrow> fails E (sa_try_push a v)"
  by (simp add: sa_try_push_values)

lemma push_typ: "sa_try_push a v = Ok a' \<Longrightarrow> sa_typ a' = sa_typ a"
  by (auto simp: sa_try_push_values split: if_splits)

lemma batch_typ:
  assumes "append_property_batch a c props pool = (Ok (a', c'), t)"
  shows "sa_typ a' = sa_typ a"
proof -
  obtain s where "sfor_each (\<lambda>prop values. sbind (to_stored_property prop) (\<lambda>sp. slift (sa_try_push values sp))) props a pool = (Ok a', s)"
    using assms by (auto simp: append_property_batch_def sbind_eq_Ok)
  then show ?thesis
    by (rule sfor_each_value_inv [where P = "\<lambda>b. sa_typ b = sa_typ a"]) (auto simp: sbind_eq_Ok dest: push_typ)
qed

lemma batch_value:
  "append_property_batch a c props pool = (Ok (a', c'), t) \<Longrightarrow> offset_value c' = offset_value c + length props"
  by (auto simp: append_property_batch_def sbind_eq_Ok offset_checked_add_delta_Ok)

lemma batch_fails:
  assumes "values_typed (sa_typ a) props" and B: "offset_value c + length props \<le> B"
  shows "fails (overflows B) (fst (append_property_batch a c props pool))"
  unfolding append_property_batch_def
proof (rule fails_sbind)
  show "fails (overflows B) (fst (sfor_each (\<lambda>prop values. sbind (to_stored_property prop) (\<lambda>sp. slift (sa_try_push values sp))) props a pool))"
  proof (rule fails_sfor_each [where P = "\<lambda>b. sa_typ b = sa_typ a"])
    fix v b s assume v: "v \<in> set props" and b: "sa_typ b = sa_typ a"
    have "fails (overflows B) (sa_try_push b p)" if "to_stored_property v s = (Ok p, t)" for p t
      using to_stored_typ [OF that] v b assms(1) by (intro push_fails) (simp add: values_typed_def)
    then show "fails (overflows B) (fst (sbind (to_stored_property v) (\<lambda>sp. slift (sa_try_push b sp)) s))"
      by (intro fails_sbind) (simp_all add: to_stored_fails)
  qed (auto simp: sbind_eq_Ok dest: push_typ)
next
  fix b t
  show "fails (overflows B) (fst (sbind (slift (offset_checked_add_delta c (length props))) (\<lambda>c. sret (b, c)) t))"
    by (rule fails_slift) (simp_all add: overflows_add B)
qed

section \<open>Property updates\<close>

definition updates_typed :: "property_type \<Rightarrow> quantified_property option list \<Rightarrow> bool" where
  "updates_typed t us \<longleftrightarrow> (\<forall>q. Some q \<in> set us \<longrightarrow> values_typed t (quantified_values q))"

text \<open>The length of a row once its update is in, and of all the rows of a slot.\<close>

definition update_len :: "'a list \<Rightarrow> quantified_property option \<Rightarrow> nat" where
  "update_len row u = (case u of Some q \<Rightarrow> length (quantified_values q) | None \<Rightarrow> length row)"

definition update_total :: "prop_slot \<Rightarrow> nat \<Rightarrow> quantified_property option list \<Rightarrow> nat" where
  "update_total slot n us = (\<Sum>k<n. update_len (prop_rows slot n ! k) (us ! k))"

lemma sum_below: "k < n \<Longrightarrow> (\<Sum>i<k. f i) + f k \<le> (\<Sum>i<n. f i)" for f :: "nat \<Rightarrow> nat"
  using sum_mono2 [of "{..<n}" "{..<Suc k}" f] by simp

lemma update_node_fails:
  assumes slot: "csr (ps_offsets slot) (sa_values (ps_values slot)) rows" "sa_typ (ps_values slot) = t"
    and kr: "k < length rows" and us: "updates_typed t us" and a: "sa_typ a = t"
    and B: "offset_value c + update_len (rows ! k) (us ! k) \<le> B"
  shows "fails (overflows B) (fst (update_node slot us (Suc k) (a, offs, c) pool))"
proof -
  note row = csr_row [OF slot(1) kr]
  let ?a = "ps_offsets slot ! k" and ?b = "ps_offsets slot ! Suc k"
  have ix: "index_at (ps_offsets slot) k = Ok ?a" "index_at (ps_offsets slot) (Suc k) = Ok ?b"
    using kr csr_length [OF slot(1)] by simp_all
  have items: "iter_items (sa_iter_range (ps_values slot) (offset_value ?a) (offset_value ?b)) = rows ! k"
    using row(4) by (simp add: sa_iter_range_items)
  have "typed t (sa_values (ps_values slot))" using slot(2) by auto
  then have typed: "\<forall>v\<in>set (rows ! k). sp_typ v = t"
    using kr by (auto simp: csr_concat [OF slot(1)] typed_def)
  have old: "fails (overflows B) (for_each (\<lambda>prop values. sa_try_push values prop) (rows ! k) a)"
    by (rule fails_for_each [where P = "\<lambda>b. sa_typ b = t"]) (use typed a in \<open>auto intro: push_fails dest: push_typ\<close>)
  show ?thesis
    unfolding update_node_def prod.case Let_def diff_Suc_1
  proof (simp add: ix, rule fails_slift, simp, rule fails_sbind, goal_cases)
    case (1 u)
    then have u: "u \<in> set us" "u = us ! k" by auto
    show ?case
    proof (cases u)
      case None
      have n: "offset_checked_sub ?b ?a = Ok (length (rows ! k))" using row(1,3) by (simp add: offset_checked_sub_cases)
      have "fails (overflows B) (andthen (for_each (\<lambda>prop values. sa_try_push values prop) (rows ! k) a) (\<lambda>values.
           andthen (offset_checked_sub ?b ?a) (\<lambda>n. andthen (offset_checked_add_delta c n) (\<lambda>c. Ok (values, c)))))"
        using B None u(2) by (auto intro!: fails_andthen old overflows_add simp: n update_len_def)
      then show ?thesis by (simp add: None items)
    next
      case (Some q)
      then have "offset_value c + length (quantified_values q) \<le> B" using B u(2) by (simp add: update_len_def)
      then show ?thesis using Some us u(1) a by (simp add: batch_fails updates_typed_def)
    qed
  qed (simp split: prod.split)
qed

lemma update_node_value:
  assumes slot: "csr (ps_offsets slot) (sa_values (ps_values slot)) rows" and kr: "k < length rows"
    and run: "update_node slot us (Suc k) (a, offs, c) pool = (Ok (a', offs', c'), t)"
  shows "offset_value c' = offset_value c + update_len (rows ! k) (us ! k)"
proof -
  note row = csr_row [OF slot kr]
  have ix: "index_at (ps_offsets slot) k = Ok (ps_offsets slot ! k)"
    "index_at (ps_offsets slot) (Suc k) = Ok (ps_offsets slot ! Suc k)"
    using kr csr_length [OF slot] by simp_all
  have n: "offset_checked_sub (ps_offsets slot ! Suc k) (ps_offsets slot ! k) = Ok (length (rows ! k))"
    using row(1,3) by (simp add: offset_checked_sub_cases)
  show ?thesis
    using run by (auto simp: update_node_def ix n Let_def sbind_eq_Ok andthen_eq_Ok update_len_def offset_checked_add_delta_Ok
        index_at_eq_Ok split: option.splits dest: batch_value)
qed

lemma update_node_typ:
  assumes "update_node slot us fin (a, offs, c) pool = (Ok (a', offs', c'), t)"
  shows "sa_typ a' = sa_typ a"
proof -
  have "sa_typ b = sa_typ a" if "for_each (\<lambda>prop values. sa_try_push values prop) xs a = Ok b" for xs b
    by (rule for_each_inv [OF that, of "\<lambda>b. sa_typ b = sa_typ a"]) (auto dest: push_typ)
  then show ?thesis
    using assms by (auto simp: update_node_def Let_def sbind_eq_Ok andthen_eq_Ok split: option.splits dest: batch_typ)
qed

lemma update_slot_fails:
  assumes ok: "prop_slot_ok t n slot" and us: "updates_typed t us" and B: "update_total slot n us \<le> B"
  shows "fails (overflows B) (fst (update_slot slot us pool))"
  unfolding update_slot_def
proof (rule fails_sbind)
  let ?w = "\<lambda>k. update_len (prop_rows slot n ! k) (us ! k)"
  have ty: "sa_typ (ps_values slot) = t" using ok by (simp add: prop_slot_ok_def)
  show "fails (overflows B) (fst (sfor_each (update_node slot us) [1..<length (ps_offsets slot)]
      (sa_with_capacity (sa_typ (ps_values slot)) (sa_len (ps_values slot)), [offset_zero], offset_zero) pool))"
  proof (rule fails_sfor_each_upto [where P = "\<lambda>ys (a, offs, c). sa_typ a = t \<and> offset_value c = (\<Sum>k<length ys. ?w k)"])
    fix ys y zs and w :: "storage_array \<times> offset list \<times> offset"
    assume split: "[1..<length (ps_offsets slot)] = ys @ y # zs"
      and w: "case w of (a, offs, c) \<Rightarrow> sa_typ a = t \<and> offset_value c = (\<Sum>k<length ys. ?w k)"
    have y: "y = Suc (length ys)" and lt: "Suc (length ys) < length (ps_offsets slot)" using upt_split [OF split] by simp_all
    have csr: "csr (ps_offsets slot) (sa_values (ps_values slot)) (prop_rows slot n)" and n: "length (prop_rows slot n) = n"
      using prop_slot_ok_csr [OF ok] lt by (auto simp: slot_csr_def split: if_splits)
    have k: "length ys < n" using lt csr_length [OF csr] n by simp
    obtain a offs c where w': "w = (a, offs, c)" by (cases w) auto
    have "offset_value c + ?w (length ys) \<le> B"
      using w B sum_below [OF k, of ?w] by (simp add: w' update_total_def)
    then show "fails (overflows B) (fst (update_node slot us y w s))" for s
      using update_node_fails [OF csr ty _ us] k n w by (simp add: w' y)
    fix s w2 t2 assume "update_node slot us y w s = (Ok w2, t2)"
    then show "case w2 of (a, offs, c) \<Rightarrow> sa_typ a = t \<and> offset_value c = (\<Sum>k<length (ys @ [y]). ?w k)"
      using w k n update_node_value [OF csr] by (cases w2) (auto simp: w' y dest: update_node_typ)
  qed (use ok in \<open>auto simp: prop_slot_ok_def\<close>)
qed (simp split: prod.split)

text \<open>Buckets some of which are taken.\<close>

definition partly_taken :: "'t option list \<Rightarrow> 't option list \<Rightarrow> bool" where
  "partly_taken b b' \<longleftrightarrow> length b' = length b \<and> (\<forall>i<length b. b' ! i = None \<or> b' ! i = b ! i)"

lemma partly_taken_refl [simp]: "partly_taken b b"
  by (simp add: partly_taken_def)

lemma partly_taken_take:
  "partly_taken b b' \<Longrightarrow> i < length b' \<Longrightarrow> partly_taken b (b'[i := None]) \<and> (b' ! i = None \<or> b' ! i = b ! i)"
  by (auto simp: partly_taken_def nth_list_update)

lemma buckets_take_Ok: "buckets_take b i = Ok (x, b') \<longleftrightarrow> i < length b \<and> x = b ! i \<and> b' = b[i := None]"
  by (auto simp: buckets_take_def map_ok_eq_Ok)

lemma buckets_take_fails [simp]: "fails E (buckets_take b i)"
  by (simp add: buckets_take_def)

definition updates_accepted ::
  "('n, 'e, 'p, 'r) schema \<Rightarrow> nat \<Rightarrow> ('n \<Rightarrow> nat) \<Rightarrow> prop_storage \<Rightarrow> quantified_property option buckets \<Rightarrow> bool" where
  "updates_accepted S B cnt ps pending \<longleftrightarrow> (\<forall>nk pk us. pending ! property_storage_slot S nk pk = Some us \<longrightarrow>
     updates_typed (p_property_type S pk) us \<and>
     update_total (ps ! property_storage_slot S nk pk) (cnt nk) us \<le> B \<and>
     (ps_offsets (ps ! property_storage_slot S nk pk) = [] \<longrightarrow> set us \<subseteq> {None}))"

lemma prepare_property_updates_fails:
  fixes S :: "('n, 'e, 'p, 'r) schema"
  assumes ps: "props_ok S cnt ps" and acc: "updates_accepted S B cnt ps pending"
  shows "fails (overflows B) (fst (prepare_property_updates S ps pending pool))"
  unfolding prepare_property_updates_def
proof (rule fails_sbind)
  show "fails (overflows B) (fst (sfor_each (update_kind S ps) (property_storage_slots S) (pending, []) pool))"
  proof (rule fails_sfor_each [where P = "\<lambda>(b, rs). partly_taken pending b"])
    fix x and w :: "quantified_property option buckets \<times> prop_replace list" and s assume w: "case w of (b, rs) \<Rightarrow> partly_taken pending b"
    obtain nk :: 'n and pk :: 'p where x: "x = (nk, pk)" by (cases x)
    obtain b rs where w': "w = (b, rs)" by (cases w)
    let ?i = "property_storage_slot S nk pk"
    have slot: "prop_slot_ok (p_property_type S pk) (cnt nk) (ps ! ?i)" using ps by (simp add: props_ok_def)
    show "fails (overflows B) (fst (update_kind S ps x w s))"
      unfolding update_kind_def x w' prod.case Let_def
    proof (rule fails_slift, goal_cases)
      case (2 tb)
      then obtain b' where tb: "tb = (b ! ?i, b')" "?i < length b" by (cases tb) (auto simp: buckets_take_Ok)
      show ?case
      proof (cases "b ! ?i")
        case (Some us)
        then have "pending ! ?i = Some us" using partly_taken_take [of pending b ?i] w tb(2) by (auto simp: w')
        then have us: "updates_typed (p_property_type S pk) us" "update_total (ps ! ?i) (cnt nk) us \<le> B" "ps_offsets (ps ! ?i) = [] \<Longrightarrow> set us \<subseteq> {None}"
          using acc by (auto simp: updates_accepted_def)
        show ?thesis
          unfolding tb Some prod.case option.case
        proof (rule fails_slift, simp, goal_cases)
          case (1 slot')
          then have slot': "slot' = ps ! ?i" by simp
          show ?case
          proof (cases "ps_offsets slot' = []")
            case True
            then have "position (\<lambda>u. u \<noteq> None) us = None" using us(3) by (auto simp: slot' position_eq_None)
            then show ?thesis by (simp only: True if_True option.case) simp
          next
            case False
            then show ?thesis
              using update_slot_fails [OF slot us(1,2)] by (simp add: slot' fails_sbind split: prod.split)
          qed
        qed
      qed (simp add: tb)
    qed (simp add: buckets_take_def)
  next
    fix x and w w' :: "quantified_property option buckets \<times> prop_replace list" and s t assume w: "case w of (b, rs) \<Rightarrow> partly_taken pending b" and run: "update_kind S ps x w s = (Ok w', t)"
    then show "case w' of (b, rs) \<Rightarrow> partly_taken pending b"
      by (cases x; cases w)
        (auto simp: update_kind_def Let_def sbind_eq_Ok buckets_take_Ok dest: partly_taken_take split: option.splits if_splits)
  qed simp
qed (simp split: prod.split)

section \<open>Properties of new nodes\<close>

definition news_typed :: "property_type \<Rightarrow> property_value list option list \<Rightarrow> bool" where
  "news_typed t l \<longleftrightarrow> (\<forall>vs. Some vs \<in> set l \<longrightarrow> values_typed t vs)"

definition news_total :: "nat \<Rightarrow> property_value list option list \<Rightarrow> nat" where
  "news_total m l = (\<Sum>j<m. length (new_values l j))"

lemma append_nodes_fails:
  assumes l: "news_typed (sa_typ a) l" and B: "offset_value c + news_total m l \<le> B"
  shows "fails (overflows B) (fst (append_nodes l m a c tail pool))"
  unfolding append_nodes_def
proof (rule fails_sbind)
  let ?f = "\<lambda>local_index (values, cumulative, tail).
         sbind (case get_at l local_index of
             Some (Some props) \<Rightarrow> append_property_batch values cumulative props
           | _ \<Rightarrow> sret (values, cumulative))
         (\<lambda>(values, cumulative). sret (values, cumulative, tail @ [cumulative]))"
  let ?P = "\<lambda>ys (b, c', tail). sa_typ b = sa_typ a \<and> offset_value c' = offset_value c + (\<Sum>j<length ys. length (new_values l j))"
  show "fails (overflows B) (fst (sfor_each ?f [0..<m] (a, c, tail) pool))"
  proof (rule fails_sfor_each_upto [where P = ?P])
    fix ys y zs and w :: "storage_array \<times> offset \<times> offset list" assume split: "[0..<m] = ys @ y # zs" and w: "?P ys w"
    have y: "y = length ys" "length ys < m" using upt_split [OF split] by simp_all
    obtain b c' tail' where w': "w = (b, c', tail')" by (cases w) auto
    have "offset_value c' + length (new_values l y) \<le> B"
      using w B sum_below [of "length ys" m "\<lambda>j. length (new_values l j)"] y by (simp add: w' news_total_def)
    then have "fails (overflows B) (fst (append_property_batch b c' vs s))" if "get_at l y = Some (Some vs)" for vs s
      using that l w nth_mem [of y l] by (intro batch_fails) (auto simp: news_typed_def w' get_at_eq_Some new_values_def)
    then show "fails (overflows B) (fst (?f y w s))" for s
      by (auto simp: w' intro!: fails_sbind split: option.split)
    fix s w2 t2 assume "?f y w s = (Ok w2, t2)"
    then show "?P (ys @ [y]) w2"
      using w by (auto simp: w' y(1) sbind_eq_Ok new_values_def get_at_eq_Some split: option.splits dest: batch_typ batch_value)
  qed simp
qed (simp split: prod.split)

lemma prepare_new_node_properties_fails:
  fixes S :: "('n, 'e, 'p, 'r) schema"
  assumes ps: "props_ok S cnt ps" "props_ok S cnt ps1" and plo: "last_offsets_ok ps ps1 plo" and cs: "counts_ok S m nnc"
    and acc: "\<And>nk pk l. pending ! property_storage_slot S nk pk = Some l \<Longrightarrow> news_typed (p_property_type S pk) l \<and>
      length (sa_values (ps_values (ps1 ! property_storage_slot S nk pk))) + news_total (m nk) l \<le> B"
  shows "fails (overflows B) (fst (prepare_new_node_properties S ps max_seq nnc pending plo pool))"
  unfolding prepare_new_node_properties_def
proof (rule fails_sbind)
  show "fails (overflows B) (fst (sfor_each (new_node_slot S ps max_seq nnc plo) (property_storage_slots S) (pending, []) pool))"
  proof (rule fails_sfor_each [where P = "\<lambda>(b, aps). partly_taken pending b"])
    fix x and w :: "property_value list option buckets \<times> prop_append list" and s assume w: "case w of (b, aps) \<Rightarrow> partly_taken pending b"
    obtain nk :: 'n and pk :: 'p where x: "x = (nk, pk)" by (cases x)
    obtain b aps where w': "w = (b, aps)" by (cases w)
    let ?i = "property_storage_slot S nk pk"
    have ty: "sa_typ (ps_values (ps ! ?i)) = p_property_type S pk" using ps(1) by (simp add: props_ok_def prop_slot_ok_def)
    have nnc: "nnc ! n_index S nk = m nk" using cs by (simp add: counts_ok_def)
    have ok1: "prop_slot_ok (p_property_type S pk) (cnt nk) (ps1 ! ?i)" using ps(2) by (simp add: props_ok_def)
    let ?len = "length (sa_values (ps_values (ps1 ! ?i)))"
    have plo_i: "case plo ! ?i of None \<Rightarrow> ps_offsets (ps1 ! ?i) = ps_offsets (ps ! ?i)
        | Some l \<Rightarrow> ps_offsets (ps1 ! ?i) \<noteq> [] \<and> last (ps_offsets (ps1 ! ?i)) = l" if "?i < length ps"
      using plo that by (simp add: last_offsets_ok_def)
    have last_value: "offset_value (last (ps_offsets (ps1 ! ?i))) = ?len" if "ps_offsets (ps1 ! ?i) \<noteq> []"
      using prop_slot_ok_csr [OF ok1] that csr_last by (auto simp: slot_csr_def)
    have start: "plo ! ?i = Some l \<Longrightarrow> offset_value l = ?len"
      "plo ! ?i = None \<Longrightarrow> ps_offsets (ps ! ?i) = [] \<Longrightarrow> offset_value offset_zero = ?len"
      "plo ! ?i = None \<Longrightarrow> ps_offsets (ps ! ?i) \<noteq> [] \<Longrightarrow> offset_value (last (ps_offsets (ps ! ?i))) = ?len"
      if "?i < length ps" for l
      using plo_i [OF that] last_value ok1 by (auto simp: prop_slot_ok_def slot_ok_def)
    have news: "news_typed (p_property_type S pk) l \<and> length (sa_values (ps_values (ps1 ! ?i))) + news_total (m nk) l \<le> B"
      if "b ! ?i = Some l" "?i < length b" for l
      using that acc [of nk pk l] partly_taken_take [of pending b ?i] w by (auto simp: w')
    have run: "fails (overflows B) (fst (append_nodes l (m nk) (sa_new (p_property_type S pk)) c tail s))"
      if "b ! ?i = Some l" "?i < length b" "offset_value c = ?len" for l c tail s
      using news [OF that(1,2)] that(3) by (intro append_nodes_fails) simp_all
    show "fails (overflows B) (fst (new_node_slot S ps max_seq nnc plo x w s))"
      unfolding new_node_slot_def x w' prod.case Let_def
      by (auto intro!: fails_slift fails_sbind run simp: buckets_take_Ok ty nnc last_opt_def split: option.splits)
        (use start in \<open>simp_all add: sbind_eq_Ok\<close>)
  next
    fix x and w w' :: "property_value list option buckets \<times> prop_append list" and s t assume "case w of (b, aps) \<Rightarrow> partly_taken pending b" and "new_node_slot S ps max_seq nnc plo x w s = (Ok w', t)"
    then show "case w' of (b, aps) \<Rightarrow> partly_taken pending b"
      by (cases x; cases w)
        (auto simp: new_node_slot_def Let_def sbind_eq_Ok buckets_take_Ok dest: partly_taken_take split: option.splits if_splits prod.splits)
  qed simp
qed (simp split: prod.split)

section \<open>New edges\<close>

definition half_property_typed :: "property_type \<Rightarrow> slot_half_edge \<Rightarrow> bool" where
  "half_property_typed t h \<longleftrightarrow> (case sh_property h of None \<Rightarrow> t = TNone | Some v \<Rightarrow> sp_typ v = t)"

lemma run_starts_fails: "fails E (run_starts acc ds)"
  by (induction ds arbitrary: acc) (auto intro!: fails_andthen)

lemma place_halves_fails: "fails E (place_halves hs starts)"
  unfolding place_halves_def
  by (rule fails_for_each [where P = "\<lambda>_. True"]) (auto intro!: fails_andthen split: prod.split)

lemma place_runs_fails:
  assumes "\<And>c f. c \<in> set ends \<Longrightarrow> f \<in> set offs \<Longrightarrow> offset_value f + unat c \<le> B"
  shows "fails (overflows B) (place_runs ends offs)"
  unfolding place_runs_def fails_map_ok
proof (rule fails_for_each [where P = "\<lambda>_. True"])
  fix x :: "u32 \<times> offset" and w :: "offset list \<times> (nat \<times> nat) list \<times> nat" assume x: "x \<in> set (zip ends (drop 1 offs))"
  have "fst x \<in> set ends" "snd x \<in> set offs"
    using x by (metis prod.collapse set_zip_leftD) (metis x prod.collapse set_zip_rightD in_set_dropD)
  then have "offset_value (snd x) + unat (fst x) \<le> B" by (rule assms)
  then show "fails (overflows B) (place_run x w)"
    by (cases x; cases w) (auto simp: place_run_def Let_def intro!: fails_andthen overflows_add)
qed simp_all

text \<open>No run of the counting sort ends behind the last half.\<close>

lemma run_ends_bounded:
  assumes e: "half_edges_ok n e" and small: "length (she_halves e) \<le> u32_max"
    and starts: "run_starts 0 (she_counts e) = Ok starts" and place: "place_halves (she_halves e) starts = Ok (ends, order)"
    and c: "c \<in> set ends"
  shows "unat c \<le> length (she_halves e)"
proof -
  let ?hs = "she_halves e" and ?lens = "map (\<lambda>i. length (halves_at (she_halves e) i)) [0..<n]"
  have seqs: "\<forall>h\<in>set ?hs. sh_seq h < n" using e by (simp add: half_edges_ok_def)
  have counts: "map unat (she_counts e) = ?lens"
    using e by (intro nth_equalityI) (simp_all add: half_edges_ok_def)
  have total: "sum_list ?lens = length ?hs" using seqs by (rule sum_halves_at)
  have "map unat starts @ [length ?hs] = psums 0 ?lens"
    using run_starts_spec [of 0 "she_counts e"] small starts by (simp add: counts total)
  then have "map unat ends = tl (psums 0 ?lens)"
    using place_halves_spec [OF seqs small] place by fastforce
  then have "unat c \<in> set (psums 0 ?lens)"
    using c by (metis (no_types, lifting) list.set_map imageI list.set_sel(2) psums_not_Nil)
  then show ?thesis using psums_le total by fastforce
qed

lemma gather_fails:
  assumes "\<forall>h\<in>set halves. half_property_typed t h"
  shows "fails E (for_each (gather_step t halves) order ([], sa_new t))"
proof (rule fails_for_each [where P = "\<lambda>(ns, vs). sa_typ vs = t"])
  fix i :: u32 and w :: "raw_node_id list \<times> storage_array" assume w: "case w of (ns, vs) \<Rightarrow> sa_typ vs = t"
  obtain ns vs where w': "w = (ns, vs)" by (cases w)
  have "half_property_typed t h" if "index_at halves (unat i) = (Ok h :: slot_half_edge res)" for h
    using that assms by auto
  then show "fails E (gather_step t halves i w)"
    unfolding gather_step_def w' prod.case
    by (intro fails_andthen) (use w in \<open>force simp: w' half_property_typed_def Let_def push_fails split: option.splits bool.splits\<close>)+
next
  fix i :: u32 and w w' :: "raw_node_id list \<times> storage_array"
  assume "case w of (ns, vs) \<Rightarrow> sa_typ vs = t" and "gather_step t halves i w = Ok w'"
  then show "case w' of (ns, vs) \<Rightarrow> sa_typ vs = t"
    by (cases w) (auto simp: gather_step_def andthen_eq_Ok map_ok_eq_Ok Let_def split: option.splits bool.splits dest: push_typ)
qed simp

lemma prepare_slot_edges_fails:
  assumes typed: "\<forall>h\<in>set (she_halves e). half_property_typed (sa_typ (es_values slot)) h" and e: "half_edges_ok n e"
    and B: "length (she_halves e) \<le> B" "\<And>f. f \<in> set offs \<Longrightarrow> offset_value f + length (she_halves e) \<le> B"
  shows "fails (overflows B) (prepare_slot_edges i slot offs e)"
proof -
  have runs: "fails (overflows B) (place_runs ends offs)"
    if "length (she_halves e) \<le> u32_max" "run_starts 0 (she_counts e) = Ok starts"
      "place_halves (she_halves e) starts = Ok (ends, order)" for starts ends order
  proof (rule place_runs_fails)
    fix c f assume "c \<in> set ends" and "f \<in> set offs"
    then show "offset_value f + unat c \<le> B" using run_ends_bounded [OF e that] B(2) [of f] by fastforce
  qed
  show ?thesis
    unfolding prepare_slot_edges_def Let_def
    by (auto intro!: fails_andthen run_starts_fails place_halves_fails runs gather_fails
        simp: typed u32_try_from_def ok_or_def overflows_def B(1) split: prod.split if_splits)
qed

lemma grown_offsets_le:
  assumes "edge_slot_ok t n slot" and "f \<in> set (grown_offsets (n + m + 1) (es_offsets slot))"
  shows "offset_value f \<le> length (es_neighbors slot)"
proof -
  have "offset_value f \<in> set (psums 0 (map length (edge_rows slot n @ replicate m [])))"
    unfolding grown_offsets_psums [OF assms(1), symmetric] using assms(2) by simp
  then have "offset_value f \<le> sum_list (map length (edge_rows slot n @ replicate m []))" using psums_le by fastforce
  also have "\<dots> = length (concat (edge_rows slot n))" by (simp add: length_concat)
  finally show ?thesis
    using slot_csr_concat [OF edge_slot_ok_csr [OF assms(1)]] length_edge_halves [OF assms(1)] by simp
qed

lemma prepare_new_edges_fails:
  fixes S :: "('n, 'e, 'p, 'r) schema"
  assumes es: "edges_ok S cnt es" "edges_ok S cnt es1" and bl: "baseline_ok es es1 bl"
    and cs: "counts_ok S cnt max_seq" "counts_ok S m nnc" and hb: "halves_ok S (\<lambda>nk. cnt nk + m nk) hb"
    and acc: "\<And>nk d ek e. hb ! edge_storage_slot S nk d ek = Some e \<Longrightarrow>
      (\<forall>h\<in>set (she_halves e). half_property_typed (e_property_type S ek) h) \<and>
      length (es_neighbors (es1 ! edge_storage_slot S nk d ek)) + length (she_halves e) \<le> B"
  shows "fails (overflows B) (prepare_new_edges S es max_seq nnc hb bl)"
  unfolding prepare_new_edges_def fails_map_ok
proof (rule fails_for_each [where P = "\<lambda>(b, ins). partly_taken hb b"])
  fix x and w :: "edge_half_buckets \<times> edge_insert list" assume w: "case w of (b, ins) \<Rightarrow> partly_taken hb b"
  obtain nk :: 'n and d :: dir and ek :: 'e where x: "x = (nk, d, ek)" by (cases x)
  obtain b ins where w': "w = (b, ins)" by (cases w)
  let ?i = "edge_storage_slot S nk d ek"
  have ty: "sa_typ (es_values (es ! ?i)) = e_property_type S ek" using es(1) by (simp add: edges_ok_def edge_slot_ok_def)
  have ok1: "edge_slot_ok (e_property_type S ek) (cnt nk) (es1 ! ?i)" using es(2) by (simp add: edges_ok_def)
  have cnt: "nnc ! n_index S nk = m nk" "max_seq ! n_index S nk = cnt nk" using cs by (simp_all add: counts_ok_def)
  have offs: "(case bl ! ?i of Some b \<Rightarrow> b | None \<Rightarrow> es_offsets (es ! ?i)) = es_offsets (es1 ! ?i)" if "?i < length es"
    using bl that by (auto simp: baseline_ok_def split: option.splits)
  have run: "fails (overflows B) (prepare_slot_edges ?i (es ! ?i) (grown_offsets (cnt nk + m nk + 1) (es_offsets (es1 ! ?i))) e)"
    if "b ! ?i = Some e" "?i < length b" for e
  proof -
    have "hb ! ?i = Some e" using that partly_taken_take [of hb b ?i] w by (auto simp: w')
    then show ?thesis
      using acc [of nk d ek e] hb grown_offsets_le [OF ok1]
      by (intro prepare_slot_edges_fails [where n = "cnt nk + m nk"]) (fastforce simp: ty halves_ok_def)+
  qed
  show "fails (overflows B) (new_edge_slot S es max_seq nnc bl x w)"
    unfolding new_edge_slot_def x w' prod.case Let_def half_buckets_take_def
    by (auto intro!: fails_andthen simp: map_ok_eq_Ok ty cnt offs grown_offsets_def [symmetric] split: option.split)
      (use run in \<open>simp_all add: grown_offsets_def\<close>)
next
  fix x and w w' :: "edge_half_buckets \<times> edge_insert list"
  assume "case w of (b, ins) \<Rightarrow> partly_taken hb b" and "new_edge_slot S es max_seq nnc bl x w = Ok w'"
  then show "case w' of (b, ins) \<Rightarrow> partly_taken hb b"
    by (cases x; cases w)
      (auto simp: new_edge_slot_def half_buckets_take_def Let_def andthen_eq_Ok map_ok_eq_Ok dest: partly_taken_take
        split: option.splits if_splits prod.splits)
qed simp

section \<open>What the changes need\<close>

definition diff_typed :: "('n, 'e, 'p, 'r) schema \<Rightarrow> ('n, 'e, 'p) graph_diff \<Rightarrow> bool" where
  "diff_typed S d \<longleftrightarrow>
     (\<forall>n\<in>set (gd_new_nodes d). \<forall>(pk, vs)\<in>set (nn_properties n). values_typed (p_property_type S pk) vs) \<and>
     (\<forall>e\<in>set (gd_new_edges d). case ne_property e of
        None \<Rightarrow> e_property_type S (ne_kind e) = TNone | Some v \<Rightarrow> pv_typ v = e_property_type S (ne_kind e)) \<and>
     (\<forall>r pk q. UpdateNodeProperty r pk q \<in> set (gd_changes d) \<longrightarrow>
        values_typed (p_property_type S pk) (quantified_values q))"

text \<open>
  Every change names what is there. An updated property must have been given to some node of its kind
  before: a slot that never held a value has no offsets, and the update is refused.
\<close>

definition change_resolves :: "('n, 'e, 'p, 'r) schema \<Rightarrow> graph \<Rightarrow> 'p change \<Rightarrow> bool" where
  "change_resolves S g c = (case c of
     RemoveNode r \<Rightarrow> n_from_index S (raw_kind r) \<noteq> None
   | UpdateNodeProperty r pk q \<Rightarrow> (case n_from_index S (raw_kind r) of
       Some nk \<Rightarrow> raw_seq r < kind_count S g nk \<and> ps_offsets (prop_slot_of S g nk pk) \<noteq> [] | None \<Rightarrow> False)
   | RemoveEdge e \<Rightarrow> edge_live S g e)"

definition diff_resolves :: "('n, 'e, 'p, 'r) schema \<Rightarrow> graph \<Rightarrow> ('n, 'e, 'p) graph_diff \<Rightarrow> bool" where
  "diff_resolves S g d \<longleftrightarrow> (\<forall>c\<in>set (gd_changes d). change_resolves S g c)"

text \<open>
  The lengths of the slots afterwards: of a property slot exactly, with the values of the last update of
  each node and those of the new nodes; of an edge slot at most, as if no edge were removed or dropped.
\<close>

definition prop_len_after :: "('n, 'e, 'p, 'r) schema \<Rightarrow> graph \<Rightarrow> ('n, 'e, 'p) graph_diff \<Rightarrow> 'n \<Rightarrow> 'p \<Rightarrow> nat" where
  "prop_len_after S g d nk pk =
     (\<Sum>seq<kind_count S g nk. update_len (prop_row S g nk pk seq) (last_update S (gd_changes d) nk pk seq)) +
     (\<Sum>j<new_count (gd_new_nodes d) nk. length (node_values (gd_new_nodes d) nk pk j))"

definition edge_len_after :: "('n, 'e, 'p, 'r) schema \<Rightarrow> graph \<Rightarrow> ('n, 'e, 'p) graph_diff \<Rightarrow> 'n \<Rightarrow> dir \<Rightarrow> 'e \<Rightarrow> nat" where
  "edge_len_after S g d nk dir ek =
     length (es_neighbors (edge_slot_of S g nk dir ek)) + length (filter (\<lambda>e. ne_kind e = ek) (gd_new_edges d))"

definition slots_within :: "nat \<Rightarrow> ('n, 'e, 'p, 'r) schema \<Rightarrow> graph \<Rightarrow> ('n, 'e, 'p) graph_diff \<Rightarrow> bool" where
  "slots_within B S g d \<longleftrightarrow> (\<forall>nk pk. prop_len_after S g d nk pk \<le> B) \<and> (\<forall>nk dir ek. edge_len_after S g d nk dir ek \<le> B)"

lemma updated_rows_length:
  assumes "updated_rows ss us rows rows'"
  shows "length (concat rows') = (\<Sum>k<length us. update_len (rows ! k) (us ! k))"
proof -
  have "length (rows' ! k) = update_len (rows ! k) (us ! k)" if "k < length us" for k
    using assms that stored_all_length
    by (fastforce simp: updated_rows_def updated_row_def update_len_def split: option.splits)
  moreover have "length rows' = length us" using assms by (simp add: updated_rows_def)
  ultimately show ?thesis
    by (simp add: length_concat sum_list_sum_nth atLeast0LessThan)
qed

lemma removed_rows_length: "length (concat (map2 remove_at rows Rs)) \<le> length (concat rows)"
proof (induction rows Rs rule: list_induct2')
  case (4 r rows R Rs)
  have "length (remove_at r R) \<le> length r" by (simp add: remove_at_def length_nths) (rule card_mono [of "{..<length r}", simplified], auto)
  then show ?case using 4 by simp
qed simp_all

lemma one_node: "(\<Sum>seq<n. if c \<and> v = NodeId nk seq then 1 else 0) \<le> (1 :: nat)"
proof -
  have "(if c \<and> v = NodeId nk seq then 1 else 0) \<le> (if nid_seq v = seq then 1 else 0 :: nat)" for seq by auto
  then have "(\<Sum>seq<n. if c \<and> v = NodeId nk seq then 1 else 0) \<le> (\<Sum>seq<n. if nid_seq v = seq then 1 else 0 :: nat)"
    by (rule sum_mono)
  then show ?thesis by (simp split: if_splits)
qed

lemma added_halves_count:
  "(\<Sum>seq<n. length (added_halves S adds nk d ek seq)) \<le> length (filter (\<lambda>(s, t, k, p). k = ek) adds)"
proof (induction adds)
  case (Cons x adds)
  obtain s t k p where x: "x = (s, t, k, p)" by (cases x)
  have "length (added_halves S (x # adds) nk d ek seq) =
      (if k = ek \<and> (case d of Out \<Rightarrow> s | In \<Rightarrow> t) = NodeId nk seq then 1 else 0) + length (added_halves S adds nk d ek seq)" for seq
    by (cases d) (simp_all add: x)
  then have "(\<Sum>seq<n. length (added_halves S (x # adds) nk d ek seq)) =
      (\<Sum>seq<n. if k = ek \<and> (case d of Out \<Rightarrow> s | In \<Rightarrow> t) = NodeId nk seq then 1 else 0) +
      (\<Sum>seq<n. length (added_halves S adds nk d ek seq))" by (simp only: sum.distrib)
  moreover have "(\<Sum>seq<n. if k = ek \<and> (case d of Out \<Rightarrow> s | In \<Rightarrow> t) = NodeId nk seq then 1 else 0) \<le> (if k = ek then 1 else 0 :: nat)"
    using one_node [of True "case d of Out \<Rightarrow> s | In \<Rightarrow> t" nk n] by (cases "k = ek") simp_all
  moreover have "length (filter (\<lambda>(s, t, k, p). k = ek) (x # adds)) =
      (if k = ek then 1 else 0) + length (filter (\<lambda>(s, t, k, p). k = ek) adds)" by (simp add: x)
  ultimately show ?case using Cons by linarith
qed (cases d; simp)

lemma edges_added_count:
  assumes "edges_added S ids lives ss es adds"
  shows "length (filter (\<lambda>(s, t, k, p). k = ek) adds) \<le> length (filter (\<lambda>e. ne_kind e = ek) es)"
proof -
  obtain props where "list_all2 (edge_value ss) es props" and adds: "adds = concat (map2 (edge_added S ids lives) es props)"
    using assms by (auto simp: edges_added_def)
  from this(1) have "length (filter (\<lambda>(s, t, k, p). k = ek) (concat (map2 (edge_added S ids lives) es props))) \<le>
      length (filter (\<lambda>e. ne_kind e = ek) es)"
    by (induction rule: list_all2_induct) (auto simp: edge_added_def split: option.split)
  then show ?thesis by (simp only: adds)
qed

context schema_laws
begin

text \<open>A half is left at the other end: the edges not yet queued are still paired.\<close>

lemma live_edge_accepted:
  assumes ok: "graph_ok S g" and inv: "queue_paired S g rem" and live: "edge_live S g e"
  shows "edge_accepted S g e rem"
proof -
  obtain ek p nd s fd near where e: "resolve_edge_kind S (re_handle e) = Ok ek" "edge_near e = Ok (p, nd, s, fd)"
    "node_of_raw S p = Ok near" "nid_seq near < kind_count S g (nid_kind near)"
    and k: "edge_seq e < length (edge_row S g (nid_kind near) nd ek (nid_seq near))"
      "fst (edge_row S g (nid_kind near) nd ek (nid_seq near) ! edge_seq e) = s"
    using live unfolding edge_live_def by blast
  note dirs = edge_near_dirs [OF e(2)]
  show ?thesis
  proof (cases "edge_seq e \<in> set (queued_at S g rem (nid_kind near) nd ek (nid_seq near))")
    case True
    then show ?thesis using e by (auto simp: edge_accepted_def)
  next
    case False
    have p: "p = node_of S (nid_kind near) (nid_seq near)" by (rule node_of_raw_node_of [OF e(3)])
    obtain v where v: "edge_row S g (nid_kind near) nd ek (nid_seq near) ! edge_seq e = (s, v)"
      using k(2) by (cases "edge_row S g (nid_kind near) nd ek (nid_seq near) ! edge_seq e") auto
    have "triple nd p (s, v) \<in># left_triples S g rem nd ek"
      unfolding left_triples_mem using e(4) k False v p by metis
    then have "triple nd p (s, v) \<in># left_triples S g rem fd ek" using inv dirs by (auto simp: queue_paired_def)
    then obtain nk seq j where j: "seq < kind_count S g nk" "j < length (edge_row S g nk fd ek seq)"
      "j \<notin> set (queued_at S g rem nk fd ek seq)"
      "triple nd p (s, v) = triple fd (node_of S nk seq) (edge_row S g nk fd ek seq ! j)"
      unfolding left_triples_mem by blast
    obtain q u where qu: "edge_row S g nk fd ek seq ! j = (q, u)" by (cases "edge_row S g nk fd ek seq ! j")
    have eq: "node_of S nk seq = s" "q = p" using j(4) dirs by (auto simp: qu)
    have "seq \<le> u32_max" using j(1) kind_count_le [OF ok, of nk] by linarith
    then have far: "node_of_raw S s = Ok (NodeId nk seq)"
      by (simp add: node_of_raw_Ok node_of_def flip: eq(1))
    moreover have "j \<in> reverse_candidates S g nk fd ek seq p (queued_at S g rem nk fd ek seq)"
      using j qu eq by (simp add: reverse_candidates_def)
    ultimately show ?thesis unfolding edge_accepted_def using e(1-3) j(1) by (metis empty_iff node_id.sel)
  qed
qed

lemma change_not_refused:
  assumes ok: "graph_ok S g" and paired: "\<And>ek. edges_paired S g ek" and res: "\<forall>c\<in>set cs. change_resolves S g c"
  shows "\<not> change_refused S g cs"
proof
  assume "change_refused S g cs"
  then obtain ys c zs rem where cs: "cs = ys @ c # zs" and queued: "edges_queued S g (removed_edges ys) rem"
    and no: "\<not> change_accepted S g c rem" by (auto simp: change_refused_def)
  have c: "change_resolves S g c" using res cs by simp
  have live: "edge_live S g e" if "e \<in> set (removed_edges ys)" for e
  proof -
    have "change_resolves S g (RemoveEdge e)" using that res cs by (auto simp: mem_removed_edges)
    then show ?thesis by (simp add: change_resolves_def)
  qed
  show False
  proof (cases c)
    case (RemoveEdge e)
    then show False
      using live_edge_accepted [OF ok edges_queued_paired [OF queued ok paired live]] c no
      by (simp add: change_resolves_def change_accepted_def)
  qed (use c no in \<open>auto simp: change_resolves_def change_accepted_def node_exists_def node_of_raw_def resolve_node_kind_def
    split: option.splits\<close>)
qed

lemma last_update_change:
  "last_update S cs nk pk seq = Some q \<Longrightarrow>
     \<exists>r. UpdateNodeProperty r pk q \<in> set cs \<and> node_of_raw S r = Ok (NodeId nk seq)"
proof (induction cs rule: rev_induct)
  case (snoc c cs)
  then show ?case by (cases c) (auto split: if_splits)
qed simp

lemma classified_updates_accepted:
  assumes cl: "classified S g cs (ts, us, rem)" and res: "\<forall>c\<in>set cs. change_resolves S g c"
    and typed: "\<And>r pk q. UpdateNodeProperty r pk q \<in> set cs \<Longrightarrow> values_typed (p_property_type S pk) (quantified_values q)"
    and B: "\<And>nk pk. (\<Sum>seq<kind_count S g nk. update_len (prop_row S g nk pk seq) (last_update S cs nk pk seq)) \<le> B"
  shows "updates_accepted S B (kind_count S g) (g_props g) us"
  unfolding updates_accepted_def
proof (intro allI impI)
  fix nk pk l assume l: "us ! property_storage_slot S nk pk = Some l"
  have len: "length l = kind_count S g nk" using cl l by (simp add: classified_def updates_ok_def)
  have at: "l ! seq = last_update S cs nk pk seq" if "seq < kind_count S g nk" for seq
    using cl l that unfolding classified_def updates_are_def by (auto simp: slot_updates_def split: option.splits)
  have from_change: "\<exists>r. UpdateNodeProperty r pk q \<in> set cs \<and> n_from_index S (raw_kind r) = Some nk" if q: "Some q \<in> set l" for q
  proof -
    obtain seq where "seq < kind_count S g nk" "l ! seq = Some q" using q len by (auto simp: in_set_conv_nth)
    then have "last_update S cs nk pk seq = Some q" using at by simp
    then show ?thesis
      using last_update_change by (fastforce simp: node_of_raw_def resolve_node_kind_def andthen_eq_Ok)
  qed
  have "ps_offsets (g_props g ! property_storage_slot S nk pk) \<noteq> []" if "Some q \<in> set l" for q
    using from_change [OF that] res by (fastforce simp: change_resolves_def prop_slot_of_def)
  then have "ps_offsets (g_props g ! property_storage_slot S nk pk) = [] \<Longrightarrow> set l \<subseteq> {None}"
    by (metis insertI1 not_None_eq subsetI)
  moreover have "updates_typed (p_property_type S pk) l"
    using from_change typed by (auto simp: updates_typed_def)
  moreover have "update_total (g_props g ! property_storage_slot S nk pk) (kind_count S g nk) l \<le> B"
    using B [of nk pk] at by (simp add: update_total_def prop_row_def prop_slot_of_def)
  ultimately show "updates_typed (p_property_type S pk) l \<and>
      update_total (g_props g ! property_storage_slot S nk pk) (kind_count S g nk) l \<le> B \<and>
      (ps_offsets (g_props g ! property_storage_slot S nk pk) = [] \<longrightarrow> set l \<subseteq> {None})" by blast
qed

lemma removals_within:
  assumes ok: "graph_ok S g" and rem: "removals_ok S (kind_count S g) rem" and inv: "queue_paired S g rem"
  shows "\<not> removals_beyond S (kind_count S g) (g_edges g) rem"
proof -
  have "in_rows (edge_rows (g_edges g ! edge_storage_slot S nk d ek) (kind_count S g nk))
      (slot_removals rem (edge_storage_slot S nk d ek) (kind_count S g nk))" for nk d ek
  proof (rule in_rowsI)
    have len: "length (slot_removals rem (edge_storage_slot S nk d ek) (kind_count S g nk)) = kind_count S g nk"
      using rem by (auto simp: slot_removals_def removals_ok_def split: option.split)
    then show "length (edge_rows (g_edges g ! edge_storage_slot S nk d ek) (kind_count S g nk)) =
        length (slot_removals rem (edge_storage_slot S nk d ek) (kind_count S g nk))"
      using slot_csr_length [OF edge_slot_ok_csr [OF graph_okD(4) [OF ok, of ek nk d]]] by (simp add: edge_slot_of_def)
    fix i j assume "i < length (slot_removals rem (edge_storage_slot S nk d ek) (kind_count S g nk))"
      and "j \<in> set (slot_removals rem (edge_storage_slot S nk d ek) (kind_count S g nk) ! i)"
    then show "j < length (edge_rows (g_edges g ! edge_storage_slot S nk d ek) (kind_count S g nk) ! i)"
      using inv len by (simp add: queue_paired_def queued_at_def edge_row_def edge_slot_of_def)
  qed
  then show ?thesis by (simp add: removals_beyond_def)
qed

text \<open>The halves in the buckets have the values of the new edges, so their types.\<close>

lemma added_typed:
  assumes "edges_added S ids lives ss es adds" and "(s, t, k, p) \<in> set adds"
    and typed: "\<And>e. e \<in> set es \<Longrightarrow> case ne_property e of
      None \<Rightarrow> e_property_type S (ne_kind e) = TNone | Some v \<Rightarrow> pv_typ v = e_property_type S (ne_kind e)"
  shows "case p of None \<Rightarrow> e_property_type S k = TNone | Some v \<Rightarrow> sp_typ v = e_property_type S k"
proof -
  obtain props where props: "list_all2 (edge_value ss) es props"
    and adds: "adds = concat (map2 (edge_added S ids lives) es props)" using assms(1) by (auto simp: edges_added_def)
  then obtain e q where eq: "(e, q) \<in> set (zip es props)" "(s, t, k, p) \<in> set (edge_added S ids lives e q)"
    using assms(2) by auto
  then have "k = ne_kind e" "p = q" by (auto simp: edge_added_def split: option.splits if_splits)
  moreover have "edge_value ss e q" using props eq(1) by (auto simp: list_all2_iff)
  ultimately show ?thesis
    using typed [of e] set_zip_leftD [OF eq(1)] by (auto simp: edge_value_def stored_as_typ split: option.splits)
qed

lemma bucket_half:
  assumes hb: "halves_are S tot (added_halves S adds) hb" and e: "hb ! edge_storage_slot S nk d ek = Some e"
    and h: "h \<in> set (she_halves e)"
  shows "\<exists>s t. (s, t, ek, sh_property h) \<in> set adds"
proof -
  have ok: "half_edges_ok (tot nk) e" using hb e by (simp add: halves_are_def halves_ok_def)
  then have seq: "sh_seq h < tot nk" using h by (simp add: half_edges_ok_def)
  have "map (halves_at (she_halves e)) [0..<tot nk] = map (added_halves S adds nk d ek) [0..<tot nk]"
    using hb e unfolding halves_are_def slot_new_halves_def by (metis option.case(2))
  then have "map (halves_at (she_halves e)) [0..<tot nk] ! sh_seq h = map (added_halves S adds nk d ek) [0..<tot nk] ! sh_seq h"
    by (rule arg_cong)
  then have "halves_at (she_halves e) (sh_seq h) = added_halves S adds nk d ek (sh_seq h)" using seq by simp
  moreover have "half_of h \<in> set (halves_at (she_halves e) (sh_seq h))" using h by (auto simp: halves_at_def)
  ultimately show ?thesis by (cases d) (auto simp: half_of_def)
qed

lemma placed_typed:
  assumes news: "news_are S (new_count nodes) V (placed_vals nodes) pending" and l: "pending ! property_storage_slot S nk pk = Some l"
    and typed: "\<And>n pk vs. n \<in> set nodes \<Longrightarrow> (pk, vs) \<in> set (nn_properties n) \<Longrightarrow> values_typed (p_property_type S pk) vs"
  shows "news_typed (p_property_type S pk) l"
  unfolding news_typed_def
proof (intro allI impI)
  fix vs assume vs: "Some vs \<in> set l"
  have len: "length l = new_count nodes nk" using news l by (simp add: news_are_def)
  obtain j where j: "j < length l" "l ! j = Some vs" using vs by (auto simp: in_set_conv_nth)
  then have "new_values l j = placed_vals nodes nk pk j" using news l len by (force simp: news_are_def slot_news_def)
  then have eq: "vs = node_values nodes nk pk j" using j len by (simp add: new_values_def placed_vals_def)
  show "values_typed (p_property_type S pk) vs"
  proof (cases "map_of (nn_properties (of_kind nk nodes ! j)) pk")
    case None
    then show ?thesis by (simp add: eq node_values_def values_typed_def)
  next
    case (Some ws)
    have "of_kind nk nodes ! j \<in> set (of_kind nk nodes)" using j(1) len by (simp add: new_count_def)
    then have "of_kind nk nodes ! j \<in> set nodes" by (auto simp: of_kind_def)
    then show ?thesis using typed [OF _ map_of_SomeD [OF Some]] Some by (simp add: eq node_values_def)
  qed
qed

section \<open>The slots on the way\<close>

lemma updated_slot_length:
  assumes ps: "props_ok S (kind_count S g) (g_props g)" and cl: "classified S g cs (ts, us, rem)"
    and rs: "updated_upto S (kind_count S g) us (g_props g) ss rs UNIV"
  shows "length (sa_values (ps_values (fold put_replace rs (g_props g) ! property_storage_slot S nk pk))) =
    (\<Sum>seq<kind_count S g nk. update_len (prop_row S g nk pk seq) (last_update S cs nk pk seq))"
proof -
  let ?n = "kind_count S g nk" and ?i = "property_storage_slot S nk pk"
  let ?slot = "g_props g ! ?i" and ?slot' = "fold put_replace rs (g_props g) ! ?i" and ?us = "slot_updates us ?i ?n"
  have upd: "slot_updated ss ?n ?us ?slot ?slot'" by (rule updated_uptoD(3) [OF rs UNIV_I])
  have len: "length ?us = ?n"
    using cl by (auto simp: slot_updates_def classified_def updates_ok_def split: option.split)
  have "?us ! k = last_update S cs nk pk k" if "k < ?n" for k
    using cl that by (simp add: classified_def updates_are_def)
  then have "length (concat (prop_rows ?slot' ?n)) = (\<Sum>k<?n. update_len (prop_row S g nk pk k) (last_update S cs nk pk k))"
    using updated_rows_length [of ss ?us "prop_rows ?slot ?n" "prop_rows ?slot' ?n"] upd len
    by (simp add: slot_updated_def prop_row_def prop_slot_of_def)
  moreover have "concat (prop_rows ?slot' ?n) = sa_values (ps_values ?slot')"
    using upd by (auto simp: slot_updated_def intro: slot_csr_concat prop_slot_ok_csr)
  ultimately show ?thesis by simp
qed

lemma news_length:
  assumes news: "news_are S (new_count nodes) V (placed_vals nodes) pending" and l: "pending ! property_storage_slot S nk pk = Some l"
  shows "news_total (new_count nodes nk) l = (\<Sum>j<new_count nodes nk. length (node_values nodes nk pk j))"
proof -
  have "new_values l j = node_values nodes nk pk j" if j: "j < new_count nodes nk" for j
  proof -
    have "new_values (slot_news pending (property_storage_slot S nk pk)) j = placed_vals nodes nk pk j"
      using news j by (simp add: news_are_def)
    then show ?thesis using l j by (simp add: slot_news_def placed_vals_def)
  qed
  then show ?thesis by (simp add: news_total_def)
qed

lemma removed_slot_length:
  assumes es: "edges_ok S cnt es" and rs: "removed_upto S cnt pending es rs UNIV"
  shows "length (es_neighbors (fold put_edge_replace rs es ! edge_storage_slot S nk d ek)) \<le>
    length (es_neighbors (es ! edge_storage_slot S nk d ek))"
proof -
  let ?slot = "es ! edge_storage_slot S nk d ek" and ?slot' = "fold put_edge_replace rs es ! edge_storage_slot S nk d ek"
  have ok: "edge_slot_ok (e_property_type S ek) (cnt nk) ?slot" using es by (simp add: edges_ok_def)
  have rem: "slot_removed (cnt nk) (slot_removals pending (edge_storage_slot S nk d ek) (cnt nk)) ?slot ?slot'"
    by (rule removed_uptoD(3) [OF rs UNIV_I])
  then have ok': "edge_slot_ok (sa_typ (es_values ?slot)) (cnt nk) ?slot'" by (simp add: slot_removed_def)
  have "length (edge_halves ?slot') \<le> length (edge_halves ?slot)"
    using rem removed_rows_length slot_csr_concat [OF edge_slot_ok_csr [OF ok]] slot_csr_concat [OF edge_slot_ok_csr [OF ok']]
    unfolding slot_removed_def by metis
  then show ?thesis using length_edge_halves [OF ok] length_edge_halves [OF ok'] by simp
qed

lemma bucket_length:
  assumes hb: "halves_are S tot (added_halves S adds) hb" and e: "hb ! edge_storage_slot S nk d ek = Some e"
    and adds: "edges_added S ids lives ss es adds"
  shows "length (she_halves e) \<le> length (filter (\<lambda>e. ne_kind e = ek) es)"
proof -
  have "half_edges_ok (tot nk) e" using hb e by (simp add: halves_are_def halves_ok_def)
  then have sum: "sum_list (map (\<lambda>i. length (halves_at (she_halves e) i)) [0..<tot nk]) = length (she_halves e)"
    by (intro sum_halves_at) (simp add: half_edges_ok_def)
  have "map (halves_at (she_halves e)) [0..<tot nk] = map (added_halves S adds nk d ek) [0..<tot nk]"
    using hb e unfolding halves_are_def slot_new_halves_def by (metis option.case(2))
  then have "map length (map (halves_at (she_halves e)) [0..<tot nk]) = map length (map (added_halves S adds nk d ek) [0..<tot nk])"
    by (rule arg_cong)
  then have "length (she_halves e) = (\<Sum>seq<tot nk. length (added_halves S adds nk d ek seq))"
    using sum by (simp add: comp_def interv_sum_list_conv_sum_set_nat atLeast0LessThan)
  then show ?thesis using added_halves_count [of S adds nk d ek "tot nk"] edges_added_count [OF adds, of ek] by linarith
qed

section \<open>\<open>stage\<close>, \<open>prepare\<close> and \<open>apply\<close>\<close>

lemma stage_fails:
  assumes ok: "graph_ok S g" and fits: "diff_fits g d" and paired: "\<And>ek. edges_paired S g ek"
    and typed: "diff_typed S d" and res: "diff_resolves S g d" and B: "slots_within B S g d"
  shows "fails (overflows B) (fst (stage S d g (g_strings g)))"
proof -
  have prop_len: "(\<Sum>seq<kind_count S g nk. update_len (prop_row S g nk pk seq) (last_update S (gd_changes d) nk pk seq)) +
      (\<Sum>j<new_count (gd_new_nodes d) nk. length (node_values (gd_new_nodes d) nk pk j)) \<le> B"
    and edge_len: "length (es_neighbors (edge_slot_of S g nk dir ek)) + length (filter (\<lambda>e. ne_kind e = ek) (gd_new_edges d)) \<le> B"
    for nk pk dir ek using B by (simp_all add: slots_within_def prop_len_after_def edge_len_after_def)
  let ?cnt = "kind_count S g" and ?m = "new_count (gd_new_nodes d)"
  obtain ss where pool: "pool_repr (g_strings g) ss" using graph_okD(7) [OF ok] by blast
  note ps = graph_ok_props_ok [OF ok] and es = graph_ok_edges_ok [OF ok]
  have len: "property_storage_size S = length (g_props g)" "edge_storage_size S = length (g_edges g)"
    using ps es by (simp_all add: props_ok_def edges_ok_def)
  have res': "\<forall>c\<in>set (gd_changes d). change_resolves S g c" using res by (simp add: diff_resolves_def)
  have live: "edge_live S g e" if "e \<in> set (removed_edges (gd_changes d))" for e
  proof -
    have "change_resolves S g (RemoveEdge e)" using that res' by (auto simp: mem_removed_edges)
    then show ?thesis by (simp add: change_resolves_def)
  qed
  show ?thesis
    unfolding stage_def
  proof (rule fails_slift, goal_cases)
    case 1
    show ?case
      by (rule fails_mono [OF fails_ospec [OF classify_changes_spec [OF ok]]])
        (use change_not_refused [OF ok paired res'] in blast)
  next
    case (2 w)
    obtain ts us rem where w: "w = (ts, us, rem)" by (cases w)
    have cl: "classified S g (gd_changes d) (ts, us, rem)"
      using classify_changes_spec [OF ok, of "gd_changes d"] 2 by (simp add: w)
    then have us: "updates_ok S ?cnt (change_strings (gd_changes d)) us" and rem: "removals_ok S ?cnt rem"
      and queued: "edges_queued S g (removed_edges (gd_changes d)) rem" by (simp_all add: classified_def)
    show ?case
      unfolding w prod.case
    proof (rule fails_sbind, goal_cases)
      case 1
      show ?case
        by (rule prepare_property_updates_fails [OF ps classified_updates_accepted [OF cl res']])
          (use typed prop_len in \<open>auto simp: diff_typed_def intro: add_leD1\<close>)
    next
      case (2 rs pool1)
      obtain ss1 where pool1: "pool_repr pool1 ss1" and rs: "updated_upto S ?cnt us (g_props g) ss1 rs UNIV"
        using prepare_property_updates_spec [OF ps us pool] by (auto simp: 2)
      obtain plo where plo: "last_offsets (property_storage_size S) rs = Ok plo"
        "last_offsets_ok (g_props g) (fold put_replace rs (g_props g)) plo"
        using last_offsets_spec [of rs "g_props g"] updated_uptoD(1,2) [OF rs] unfolding len by blast
      obtain max_seq where ms: "map_each (node_count_by_kind_with_deleted S g) (n_all S) = Ok max_seq" "counts_ok S ?cnt max_seq"
        using max_seq_spec [OF ok] by blast
      obtain nnc where nnc: "count_new_nodes S (gd_new_nodes d) = Ok nnc" "counts_ok S ?m nnc"
        using count_new_nodes_spec by blast
      obtain counters metas ids pending where
        pl: "place_new_nodes S max_seq nnc (gd_new_nodes d) = Ok (counters, metas, ids, pending)"
        "placed S ?cnt ?m (node_strings (gd_new_nodes d)) (gd_new_nodes d) (counters, metas, ids, pending)"
        using place_new_nodes_spec [OF ms(2) nnc(2)] fits unfolding diff_fits_def by (metis prod_cases4)
      have vals: "news_are S ?m (node_strings (gd_new_nodes d)) (placed_vals (gd_new_nodes d)) pending"
        and ids: "ids = new_ids ?cnt (gd_new_nodes d)" using pl(2) by (simp_all add: placed_def)
      show ?case
      proof (rule fails_slift, goal_cases)
        case 1
        show ?case
          by (rule fails_mono [OF fails_ospec [OF prepare_edge_removals_spec [OF es rem]]])
            (use removals_within [OF ok rem edges_queued_paired [OF queued ok paired live]] in blast)
      next
        case (2 ers)
        then have ers: "removed_upto S ?cnt rem (g_edges g) ers UNIV"
          using prepare_edge_removals_spec [OF es rem] by simp
        obtain bl where bl: "offsets_baseline (edge_storage_size S) ers = Ok bl"
          "baseline_ok (g_edges g) (fold put_edge_replace ers (g_edges g)) bl"
          using offsets_baseline_spec [of ers "g_edges g"] removed_uptoD(1) [OF ers] unfolding len by blast
        show ?case
          unfolding plo(1) bl(1) ms(1) nnc(1) pl(1) sbind_slift_Ok prod.case
        proof (rule fails_sbind, goal_cases)
          case 1
          show ?case
          proof (rule prepare_new_node_properties_fails [OF ps props_ok_updated [OF ps rs] plo(2) nnc(2)])
            fix nk pk l assume l: "pending ! property_storage_slot S nk pk = Some l"
            have "news_typed (p_property_type S pk) l"
              by (rule placed_typed [OF vals l]) (use typed in \<open>auto simp: diff_typed_def\<close>)
            then show "news_typed (p_property_type S pk) l \<and> length (sa_values (ps_values
                (fold put_replace rs (g_props g) ! property_storage_slot S nk pk))) + news_total (?m nk) l \<le> B"
              using prop_len by (simp add: updated_slot_length [OF ps cl rs] news_length [OF vals l])
          qed
        next
          case (2 as pool2)
          obtain ss2 where pool2: "pool_repr pool2 ss2"
            using prepare_new_node_properties_spec [OF ps props_ok_updated [OF ps rs] plo(2) ms(2) nnc(2) news_are_ok [OF vals] pool1]
            by (auto simp: 2)
          have room: "length (gd_new_edges d) \<le> u32_max" using fits by (simp add: diff_fits_def)
          define node_tombstones where "node_tombstones = (if gd_new_edges d = [] then ts else sort ts)"
          define removed where "removed = (if gd_new_edges d = [] then [] else node_tombstones)"
          note edges = push_new_edges_spec [OF ok ms(2) nnc(2) refl new_total_le [OF ok fits] pool2 subset_refl room ids refl,
              of removed]
          show ?case
            unfolding Let_def node_tombstones_def [symmetric] removed_def [symmetric]
          proof (rule fails_sbind, rule fails_sspec [OF edges], goal_cases)
            case (1 hb pool3)
            obtain ss3 lives adds where adds: "edges_added S ids lives ss3 (gd_new_edges d) adds"
              "halves_are S (\<lambda>nk. ?cnt nk + ?m nk) (added_halves S adds) hb"
              using edges unfolding 1 by auto
            have half: "half_property_typed (e_property_type S ek) h"
              if h: "hb ! edge_storage_slot S nk dir ek = Some e" "h \<in> set (she_halves e)" for nk dir ek e h
            proof -
              obtain s t where "(s, t, ek, sh_property h) \<in> set adds" using bucket_half [OF adds(2) h] by blast
              then show ?thesis
                unfolding half_property_typed_def
                by (rule added_typed [OF adds(1)]) (use typed in \<open>simp add: diff_typed_def\<close>)
            qed
            have "length (es_neighbors (fold put_edge_replace ers (g_edges g) ! edge_storage_slot S nk dir ek)) +
                length (she_halves e) \<le> B" if e: "hb ! edge_storage_slot S nk dir ek = Some e" for nk dir ek e
              using removed_slot_length [OF es ers, of nk dir ek] bucket_length [OF adds(2) e adds(1)] edge_len [of nk dir ek]
              by (simp add: edge_slot_of_def)
            then have "fails (overflows B) (prepare_new_edges S (g_edges g) max_seq nnc hb bl)"
              using half adds(2) by (intro prepare_new_edges_fails [OF es edges_ok_removed [OF es ers] bl(2) ms(2) nnc(2)])
                (simp_all add: halves_are_def)
            then show ?case by (intro fails_slift) simp_all
          qed
        qed
      qed
    qed
  qed
qed

text \<open>After a rollback the error is the one \<open>stage\<close> returned; a staged diff commits.\<close>

lemma apply_fails:
  assumes ok: "graph_ok S g" and fits: "diff_fits g d" and stage: "fails E (fst (stage S d g (g_strings g)))"
  shows "fails E (apply_diff S d g)"
proof -
  obtain ss where pool: "pool_repr (g_strings g) ss" using graph_okD(7) [OF ok] by blast
  obtain r pool' where st: "stage S d g (g_strings g) = (r, pool')" by (cases "stage S d g (g_strings g)")
  have prep: "fails E (fst (prepare S d g))"
  proof (cases r)
    case (Err e)
    then obtain p where "pool_truncate (length ss) pool' = Ok p"
      using stage_spec [OF ok fits pool] sp.extends_cut [of ss pool'] by (auto simp: st)
    then show ?thesis using stage by (simp add: prepare_def st Err pool_len_repr [OF pool])
  qed (simp_all add: prepare_def st Let_def)
  show ?thesis
    unfolding apply_diff_def
  proof (rule fails_andthen [OF prep])
    fix sd assume "fst (prepare S d g) = Ok sd"
    then have "prepare S d g = (Ok sd, snd (prepare S d g))" by (metis prod.collapse)
    then obtain x where "commit S sd = Ok x" using prepared_commits [OF ok fits] by blast
    then show "fails E (commit S sd)" by simp
  qed
qed

lemma good_diff_applies:
  assumes ok: "graph_ok S g" and fits: "diff_fits g d" and paired: "\<And>ek. edges_paired S g ek"
    and typed: "diff_typed S d" and res: "diff_resolves S g d" and B: "slots_within B S g d"
  shows "ospec (\<lambda>(g', ids). diff_applied S g d g') (overflows B)
    (pool_full (diff_strings d) (g_strings (snd (prepare S d g)))) (apply_diff S d g)"
proof -
  have "edge_live S g e" if "e \<in> set (removed_edges (gd_changes d))" for e
  proof -
    have "change_resolves S g (RemoveEdge e)"
      using that res unfolding diff_resolves_def mem_removed_edges by blast
    then show ?thesis by (simp add: change_resolves_def)
  qed
  then have "\<not> diff_misplaced S g d" using live_not_misplaced [OF ok] by (auto simp: diff_misplaced_def)
  moreover have "fails (overflows B) (apply_diff S d g)"
    by (rule apply_fails [OF ok fits stage_fails [OF assms]])
  ultimately show ?thesis
    using apply_spec [OF ok fits] by (cases "apply_diff S d g") auto
qed

text \<open>An update of a property that no node of the kind was given is refused.\<close>

lemma untouched_slots:
  assumes "\<forall>(nk, pk)\<in>set ys. pending ! property_storage_slot S nk pk = None" and "length pending = property_storage_size S"
  shows "sfor_each (update_kind S ps) ys (pending, rs) pool = (Ok (pending, rs), pool)"
  using assms(1)
proof (induction ys)
  case (Cons y ys)
  obtain nk pk where y: "y = (nk, pk)" by (cases y)
  have i: "property_storage_slot S nk pk < length pending" using property_slot_less assms(2) by simp
  have "pending ! property_storage_slot S nk pk = None" using Cons.prems by (simp add: y)
  then have "pending[property_storage_slot S nk pk := None] = pending" by (metis list_update_id)
  then have "update_kind S ps y (pending, rs) pool = (Ok (pending, rs), pool)"
    using i Cons.prems by (simp add: y update_kind_def buckets_take_def Let_def)
  then show ?case using Cons by simp
qed simp

lemma unset_update_stage:
  assumes ok: "graph_ok S g" and cs: "gd_changes d = [UpdateNodeProperty r pk q]"
    and nk: "n_from_index S (raw_kind r) = Some nk" "raw_seq r < kind_count S g nk"
    and unset: "ps_offsets (prop_slot_of S g nk pk) = []"
  shows "stage S d g pool = (Err (NodeOffsetNotFound (raw_seq r)), pool)"
proof -
  let ?i = "property_storage_slot S nk pk" and ?new = "buckets_new (property_storage_size S) :: quantified_property option buckets"
  define us where "us = ?new[?i := Some ((replicate (kind_count S g nk) None)[raw_seq r := Some q])]"
  have i: "?i < length ?new" "?i < length (g_props g)"
    using property_slot_less [of nk pk] graph_ok_props_ok [OF ok] by (simp_all add: props_ok_def)
  have r: "node_of_raw S r = Ok (NodeId nk (raw_seq r))" using nk(1) by (simp add: node_of_raw_def resolve_node_kind_def)
  have "buckets_bucket None ?new ?i (kind_count S g nk) f = andthen (f (replicate (kind_count S g nk) None)) (\<lambda>v. Ok (?new[?i := Some v]))" for f
    using i property_slot_less by (simp add: buckets_bucket_def map_replicate_const)
  moreover have "map_ok length (index_at (g_node_meta g) (n_index S nk)) = (Ok (kind_count S g nk) :: nat res)"
    by (simp add: index_meta [OF ok] kind_count_def)
  ultimately have cl: "classify_changes S (gd_changes d) g = Ok ([], us, buckets_new (edge_storage_size S))"
    using nk(2) by (simp add: classify_changes_def cs classify_change_def r us_def)
  obtain ys zs where split: "property_storage_slots S = ys @ (nk, pk) # zs"
    using property_slot_mem [of nk pk] by (meson split_list)
  have "distinct (map (\<lambda>(nk, pk). property_storage_slot S nk pk) (property_storage_slots S))"
    by (simp add: property_slots_in_order)
  then have "(nk, pk) \<notin> set ys" unfolding split by (auto simp: image_iff)
  then have "?i \<noteq> property_storage_slot S nk' pk'" if "(nk', pk') \<in> set ys" for nk' pk'
    using that property_slot_inj [of nk pk nk' pk'] by auto
  then have "us ! property_storage_slot S nk' pk' = None" if "(nk', pk') \<in> set ys" for nk' pk'
    using that property_slot_less by (simp add: us_def)
  then have skip: "sfor_each (update_kind S (g_props g)) ys (us, []) pool = (Ok (us, []), pool)"
    by (intro untouched_slots) (auto simp: us_def)
  have pos: "position (\<lambda>u. u \<noteq> None) ((replicate (kind_count S g nk) None)[raw_seq r := Some q]) = Some (raw_seq r)"
    using nk(2) by (auto simp: position_eq_Some nth_list_update)
  have "update_kind S (g_props g) (nk, pk) (us, []) pool = (Err (NodeOffsetNotFound (raw_seq r)), pool)"
    using i unset pos by (simp add: update_kind_def buckets_take_def Let_def us_def prop_slot_of_def)
  then have "prepare_property_updates S (g_props g) us pool = (Err (NodeOffsetNotFound (raw_seq r)), pool)"
    unfolding prepare_property_updates_def split by (simp add: sfor_each_append skip)
  then show ?thesis by (simp add: stage_def cl)
qed

lemma unset_update_refused:
  assumes ok: "graph_ok S g" and stage: "\<And>pool. stage S d g pool = (Err e, pool)"
  shows "apply_diff S d g = Err e"
proof -
  obtain ss where "pool_repr (g_strings g) ss" using graph_okD(7) [OF ok] by blast
  then have "pool_truncate (pool_len (g_strings g)) (g_strings g) = Ok (g_strings g)"
    by (simp add: pool_truncate_def pool_len_def)
  then show ?thesis by (simp add: apply_diff_def prepare_def stage)
qed

end

end
