(* ===== verification/Room_Spec.thy ===== *)
theory Room_Spec
  imports Accept_Spec
begin

text \<open>
  When there is room. \<open>stage\<close> interns no other strings than those of the diff, so a pool that can hold
  them beside its own never runs full. With slots that stay below \<open>2^32\<close> entries no error is left, and a
  diff that names what is there, with values of the types of the schema, is applied.
\<close>

section \<open>The strings of the pool\<close>

definition pool_within :: "bytes set \<Rightarrow> pool \<Rightarrow> bool" where
  "pool_within W p \<longleftrightarrow> (\<exists>ss. pool_repr p ss \<and> set ss \<subseteq> W)"

text \<open>A step that keeps the strings of its pool within a set, whatever it returns.\<close>

definition keeps :: "bytes set \<Rightarrow> (pool \<Rightarrow> ('e, 'a) outcome \<times> pool) \<Rightarrow> bool" where
  "keeps W m \<longleftrightarrow> (\<forall>p. pool_within W p \<longrightarrow> pool_within W (snd (m p)))"

lemma keeps_simps [simp]: "keeps W (sret a)" "keeps W (slift r)"
  by (simp_all add: keeps_def sret_def slift_def)

lemma keeps_sbind:
  assumes "keeps W m" and "\<And>a p t. m p = (Ok a, t) \<Longrightarrow> keeps W (f a)"
  shows "keeps W (sbind m f)"
  unfolding keeps_def
proof (intro allI impI)
  fix p assume p: "pool_within W p"
  obtain r t where m: "m p = (r, t)" by (cases "m p")
  have t: "pool_within W t" using assms(1) p m by (auto simp: keeps_def)
  then show "pool_within W (snd (sbind m f p))"
    using assms(2) [of p _ t] m by (cases r) (simp_all add: sbind_def keeps_def)
qed

lemma keeps_sfor_each:
  assumes "P v" and "\<And>x v. x \<in> set xs \<Longrightarrow> P v \<Longrightarrow> keeps W (f x v)"
    and "\<And>x v w s t. x \<in> set xs \<Longrightarrow> P v \<Longrightarrow> f x v s = (Ok w, t) \<Longrightarrow> P w"
  shows "keeps W (sfor_each f xs v)"
  using assms
proof (induction xs arbitrary: v)
  case (Cons x xs)
  have "sfor_each f (x # xs) v = sbind (f x v) (sfor_each f xs)" by (rule ext) simp
  moreover have "keeps W (sfor_each f xs w)" if "f x v s = (Ok w, t)" for w s t
  proof (rule Cons.IH)
    show "P w" by (rule Cons.prems(3) [OF _ Cons.prems(1) that]) simp
  qed (use Cons.prems(2,3) in \<open>auto intro: Cons.prems(3)\<close>)
  ultimately show ?case using Cons.prems(1,2) by (auto intro: keeps_sbind)
qed (simp add: keeps_def)

lemma keeps_to_stored:
  assumes "value_strings v \<subseteq> W"
  shows "keeps W (to_stored_property v)"
proof (cases "\<exists>s. v = VString s")
  case True
  then obtain s where v: "v = VString s" by blast
  have "pool_within W (snd (intern s p))" if "pool_repr p ss" "set ss \<subseteq> W" for p ss
    using that(1)
  proof (cases rule: sp.put_cases [where s = s])
    case (stored i p' ss')
    have "set ss' \<subseteq> insert s (set ss)" using stored(4) by (auto simp: abs_intern_def split: option.splits if_splits)
    then show ?thesis using that(2) assms v stored(1,2) by (auto simp: pool_within_def)
  next
    case full
    then show ?thesis using that by (auto simp: pool_within_def)
  qed
  then have "keeps W (intern s)" by (auto simp: keeps_def pool_within_def)
  then show ?thesis by (simp add: v) (rule keeps_sbind, simp_all)
next
  case False
  then show ?thesis by (cases v) (auto simp: keeps_def sret_def)
qed

lemma keeps_batch:
  assumes "\<And>v. v \<in> set props \<Longrightarrow> value_strings v \<subseteq> W"
  shows "keeps W (append_property_batch a c props)"
  unfolding append_property_batch_def
  by (intro keeps_sbind keeps_sfor_each [where P = "\<lambda>_. True"] keeps_to_stored) (use assms in auto)

section \<open>The passes\<close>

lemma keeps_update_node:
  assumes "update_strings us \<subseteq> W"
  shows "keeps W (update_node slot us fin w)"
proof -
  have "keeps W (append_property_batch a c (quantified_values q))" if "us ! k = Some q" "k < length us" for a c q k
  proof (rule keeps_batch)
    have "Some q \<in> set us" using that nth_mem by fastforce
    then show "value_strings v \<subseteq> W" if "v \<in> set (quantified_values q)" for v
      using that assms by (force simp: update_strings_def)
  qed
  then show ?thesis
    by (auto simp: update_node_def Let_def intro!: keeps_sbind split: option.split prod.split)
qed

lemma keeps_property_updates:
  fixes S :: "('n, 'e, 'p, 'r) schema"
  assumes us: "updates_ok S cnt W pending"
  shows "keeps W (prepare_property_updates S ps pending)"
  unfolding prepare_property_updates_def
proof (rule keeps_sbind)
  show "keeps W (sfor_each (update_kind S ps) (property_storage_slots S) (pending, []))"
  proof (rule keeps_sfor_each [where P = "\<lambda>(b, rs). partly_taken pending b"])
    fix x and w :: "quantified_property option buckets \<times> prop_replace list" assume w: "case w of (b, rs) \<Rightarrow> partly_taken pending b"
    obtain nk :: 'n and pk :: 'p where x: "x = (nk, pk)" by (cases x)
    obtain b rs where w': "w = (b, rs)" by (cases w)
    have "keeps W (update_node slot l fin u)"
      if "b ! property_storage_slot S nk pk = Some l" "property_storage_slot S nk pk < length b" for slot l fin u
      using that us w partly_taken_take [of pending b "property_storage_slot S nk pk"]
      by (intro keeps_update_node) (fastforce simp: w' updates_ok_def)
    then show "keeps W (update_kind S ps x w)"
      by (auto simp: update_kind_def update_slot_def x w' Let_def buckets_take_Ok split: option.split prod.split
          intro!: keeps_sbind keeps_sfor_each [where P = "\<lambda>_. True"])
  next
    fix x and w w' :: "quantified_property option buckets \<times> prop_replace list" and s t
    assume "case w of (b, rs) \<Rightarrow> partly_taken pending b" and "update_kind S ps x w s = (Ok w', t)"
    then show "case w' of (b, rs) \<Rightarrow> partly_taken pending b"
      by (cases x; cases w)
        (auto simp: update_kind_def Let_def sbind_eq_Ok buckets_take_Ok dest: partly_taken_take split: option.splits if_splits)
  qed simp
qed (simp split: prod.split)

lemma keeps_append_nodes:
  assumes "new_strings l \<subseteq> W"
  shows "keeps W (append_nodes l m a c tail)"
proof -
  have "keeps W (append_property_batch a c vs)" if "get_at l i = Some (Some vs)" for a c vs i
  proof (rule keeps_batch)
    have "Some vs \<in> set l" using that by (auto simp: get_at_eq_Some) (metis nth_mem)
    then show "value_strings v \<subseteq> W" if "v \<in> set vs" for v
      using that assms by (force simp: new_strings_def)
  qed
  then show ?thesis
    by (auto simp: append_nodes_def intro!: keeps_sbind keeps_sfor_each [where P = "\<lambda>_. True"]
        split: option.split prod.split)
qed

lemma keeps_new_node_properties:
  fixes S :: "('n, 'e, 'p, 'r) schema"
  assumes news: "\<And>nk pk l. pending ! property_storage_slot S nk pk = Some l \<Longrightarrow> new_strings l \<subseteq> W"
  shows "keeps W (prepare_new_node_properties S ps max_seq nnc pending plo)"
  unfolding prepare_new_node_properties_def
proof (rule keeps_sbind)
  show "keeps W (sfor_each (new_node_slot S ps max_seq nnc plo) (property_storage_slots S) (pending, []))"
  proof (rule keeps_sfor_each [where P = "\<lambda>(b, aps). partly_taken pending b"])
    fix x and w :: "property_value list option buckets \<times> prop_append list" assume w: "case w of (b, aps) \<Rightarrow> partly_taken pending b"
    obtain nk :: 'n and pk :: 'p where x: "x = (nk, pk)" by (cases x)
    obtain b aps where w': "w = (b, aps)" by (cases w)
    have "keeps W (append_nodes l m a c tail)"
      if "b ! property_storage_slot S nk pk = Some l" "property_storage_slot S nk pk < length b" for l m a c tail
      using that news [of nk pk l] w partly_taken_take [of pending b "property_storage_slot S nk pk"]
      by (intro keeps_append_nodes) (auto simp: w')
    then show "keeps W (new_node_slot S ps max_seq nnc plo x w)"
      by (auto simp: new_node_slot_def x w' Let_def buckets_take_Ok split: option.split prod.split
          intro!: keeps_sbind)
  next
    fix x and w w' :: "property_value list option buckets \<times> prop_append list" and s t
    assume "case w of (b, aps) \<Rightarrow> partly_taken pending b" and "new_node_slot S ps max_seq nnc plo x w s = (Ok w', t)"
    then show "case w' of (b, aps) \<Rightarrow> partly_taken pending b"
      by (cases x; cases w)
        (auto simp: new_node_slot_def Let_def sbind_eq_Ok buckets_take_Ok dest: partly_taken_take split: option.splits if_splits prod.splits)
  qed simp
qed (simp split: prod.split)

lemma keeps_new_edges:
  assumes "edge_strings es \<subseteq> W"
  shows "keeps W (sfor_each (push_new_edge S g max_seq nnc removed ids) es hb)"
proof (rule keeps_sfor_each [where P = "\<lambda>_. True"])
  fix e hb assume "e \<in> set es"
  then have "value_strings v \<subseteq> W" if "ne_property e = Some v" for v
    using that assms by (force simp: edge_strings_def)
  then show "keeps W (push_new_edge S g max_seq nnc removed ids e hb)"
    by (auto simp: push_new_edge_def intro!: keeps_sbind keeps_to_stored split: option.split)
qed simp_all

context schema_laws begin

lemma stage_keeps:
  assumes ok: "graph_ok S g" and fits: "diff_fits g d" and W: "diff_strings d \<subseteq> W"
  shows "keeps W (stage S d g)"
proof -
  obtain max_seq where ms: "map_each (node_count_by_kind_with_deleted S g) (n_all S) = Ok max_seq"
    "counts_ok S (kind_count S g) max_seq" using max_seq_spec [OF ok] by blast
  obtain nnc where nnc: "count_new_nodes S (gd_new_nodes d) = Ok nnc" "counts_ok S (new_count (gd_new_nodes d)) nnc"
    using count_new_nodes_spec by blast
  obtain counters metas ids pending where
    pl: "place_new_nodes S max_seq nnc (gd_new_nodes d) = Ok (counters, metas, ids, pending)"
    "placed S (kind_count S g) (new_count (gd_new_nodes d)) (node_strings (gd_new_nodes d)) (gd_new_nodes d) (counters, metas, ids, pending)"
    using place_new_nodes_spec [OF ms(2) nnc(2)] fits unfolding diff_fits_def by (metis prod_cases4)
  have sub: "change_strings (gd_changes d) \<subseteq> W" "node_strings (gd_new_nodes d) \<subseteq> W" "edge_strings (gd_new_edges d) \<subseteq> W"
    using W by (simp_all add: diff_strings_def)
  have "news_are S (new_count (gd_new_nodes d)) (node_strings (gd_new_nodes d)) (placed_vals (gd_new_nodes d)) pending"
    using pl(2) by (simp add: placed_def)
  then have news: "new_strings l \<subseteq> W" if "pending ! property_storage_slot S nk pk = Some l" for nk pk l
    using that sub(2) unfolding news_are_def by blast
  have cl: "keeps W (prepare_property_updates S (g_props g) us)" if "classify_changes S (gd_changes d) g = Ok (ts, us, rem)" for ts us rem
  proof (rule keeps_property_updates)
    have "updates_ok S (kind_count S g) (change_strings (gd_changes d)) us"
      using classify_changes_spec [OF ok, of "gd_changes d"] that by (simp add: classified_def)
    then show "updates_ok S (kind_count S g) W us" using sub(1) unfolding updates_ok_def by blast
  qed
  show ?thesis
    unfolding stage_def Let_def
    by (intro keeps_sbind keeps_simps; (clarsimp simp: ms(1) nnc(1) pl(1))?)
      (auto intro!: keeps_sbind cl keeps_new_node_properties news keeps_new_edges sub(3))
qed

end

section \<open>Room for the strings\<close>

text \<open>The pool can hold the strings of the diff beside its own.\<close>

definition strings_room :: "graph \<Rightarrow> ('n, 'e, 'p) graph_diff \<Rightarrow> bool" where
  "strings_room g d \<longleftrightarrow> (\<forall>ss. pool_repr (g_strings g) ss \<longrightarrow>
     card (set ss \<union> diff_strings d) \<le> u32_max \<and> (\<Sum>s\<in>set ss \<union> diff_strings d. length s) \<le> u32_max)"

lemma finite_value_strings [simp]: "finite (value_strings v)"
  by (cases v) simp_all

lemma finite_diff_strings: "finite (diff_strings d)"
proof -
  have "change_strings cs \<subseteq> (\<Union>c\<in>set cs. case c of UpdateNodeProperty r pk q \<Rightarrow> \<Union>v\<in>set (quantified_values q). value_strings v | _ \<Rightarrow> {})"
    for cs :: "'c change list"
    by (force simp: change_strings_def update_strings_def)
  then have "finite (change_strings cs)" for cs :: "'c change list"
    by (rule finite_subset) (auto split: change.split)
  moreover have "finite (node_strings nodes)" for nodes :: "('a, 'c) new_node list" by (auto simp: node_strings_def)
  moreover have "edge_strings es \<subseteq> (\<Union>e\<in>set es. case ne_property e of Some v \<Rightarrow> value_strings v | None \<Rightarrow> {})"
    for es :: "'b new_edge list"
    by (force simp: edge_strings_def)
  then have "finite (edge_strings es)" for es :: "'b new_edge list"
    by (rule finite_subset) (auto split: option.split)
  ultimately show ?thesis by (simp add: diff_strings_def)
qed

lemma room_not_full:
  assumes W: "finite W" "card W \<le> u32_max" "(\<Sum>s\<in>W. length s) \<le> u32_max" and V: "V \<subseteq> W" and p: "pool_within W p"
  shows "\<not> pool_full V p"
proof
  assume "pool_full V p"
  then obtain ss s where ss: "pool_repr p ss" "s \<in> V" "abs_intern ss s = None" by (auto simp: pool_full_def)
  then have s: "s \<notin> set ss" "\<not> pool_room ss s"
    by (auto simp: abs_intern_def position_eq_None split: option.splits if_splits)
  obtain ss' where "pool_repr p ss'" "set ss' \<subseteq> W" using p by (auto simp: pool_within_def)
  then have sub: "set (s # ss) \<subseteq> W" using pool_repr_unique [OF ss(1)] ss(2) V by auto
  have dist: "distinct (s # ss)" using s(1) sp.repr_distinct [OF ss(1)] by simp
  have "length (s # ss) \<le> card W" using card_mono [OF W(1) sub] distinct_card [OF dist] by simp
  moreover have "length (concat (s # ss)) = (\<Sum>x\<in>set (s # ss). length x)"
    unfolding length_concat by (rule sum_list_distinct_conv_sum_set [OF dist])
  then have "length (concat (s # ss)) \<le> (\<Sum>x\<in>W. length x)" using sum_mono2 [OF W(1) sub, of length] by simp
  ultimately show False using W(2,3) s(2) by (simp add: pool_room_def)
qed

context schema_laws begin

lemma prepare_not_full:
  assumes ok: "graph_ok S g" and fits: "diff_fits g d" and room: "strings_room g d" and panic: "apply_diff S d g = Panic"
  shows "\<not> pool_full (diff_strings d) (g_strings (snd (prepare S d g)))"
proof -
  obtain ss where pool: "pool_repr (g_strings g) ss" using graph_okD(7) [OF ok] by blast
  let ?W = "set ss \<union> diff_strings d"
  have W: "finite ?W" "card ?W \<le> u32_max" "(\<Sum>s\<in>?W. length s) \<le> u32_max"
    using room pool finite_diff_strings [of d] unfolding strings_room_def by blast+
  obtain r pool' where st: "stage S d g (g_strings g) = (r, pool')" by (cases "stage S d g (g_strings g)")
  have "pool_within ?W (g_strings g)" using pool by (auto simp: pool_within_def)
  then have "pool_within ?W pool'"
    using stage_keeps [OF ok fits, of ?W] st by (auto simp: keeps_def)
  moreover have "g_strings (snd (prepare S d g)) = pool'"
  proof (cases r)
    case (Ok parts)
    then have "prepare S d g = (Ok \<lparr>sd_graph = g\<lparr>g_strings := pool'\<rparr>, sd_strings_baseline = Some (pool_len (g_strings g)),
        sd_parts = parts\<rparr>, g\<lparr>g_strings := pool'\<rparr>)" by (simp add: prepare_def st Let_def)
    then show ?thesis by simp
  next
    case (Err e)
    then obtain p where "pool_truncate (length ss) pool' = Ok p"
      using stage_spec [OF ok fits pool] sp.extends_cut [of ss pool'] by (auto simp: st)
    then have "apply_diff S d g = Err e" using Err by (simp add: apply_diff_def prepare_def st pool_len_repr [OF pool])
    then show ?thesis using panic by simp
  qed (simp_all add: prepare_def st Let_def)
  ultimately show ?thesis using room_not_full [OF W] by blast
qed

theorem fitting_diff_applies:
  assumes ok: "graph_ok S g" and fits: "diff_fits g d" and paired: "\<And>ek. edges_paired S g ek"
    and typed: "diff_typed S d" and res: "diff_resolves S g d"
    and slots: "slots_within u32_max S g d" and room: "strings_room g d"
  shows "\<exists>g'. apply_diff S d g = Ok (g', diff_ids S g d)"
proof (cases "apply_diff S d g")
  case (Ok r)
  then show ?thesis using apply_Ok(1) [OF ok fits, of "fst r" "snd r"] by (cases r) simp
next
  case Panic
  then show ?thesis
    using good_diff_applies [OF ok fits paired typed res slots] prepare_not_full [OF ok fits room Panic] by simp
qed (use good_diff_applies [OF ok fits paired typed res slots] in \<open>auto simp: overflows_def\<close>)

end

end
