(* ===== verification/Builder_Theorems.thy ===== *)
theory Builder_Theorems
  imports Sample Edge_Rows_Spec Room_Spec
begin

text \<open>
  The properties of \<open>GraphDiff\<close>: what \<open>prepare\<close>, \<open>commit\<close> and \<open>apply\<close> do to a well-formed graph, what a
  caller reads afterwards, and what handles that no longer name an edge lead to.
\<close>

section \<open>Panics\<close>

context schema_laws begin

lemma misplaced_panics:
  assumes ok: "graph_ok S g" and changes: "gd_changes d = RemoveEdge e # cs"
    and ek: "resolve_edge_kind S (re_handle e) = Ok ek" and near: "edge_near e = Ok (p, pd, s, sd)"
    and n: "node_of_raw S p = Ok n" and beyond: "kind_count S g (nid_kind n) \<le> nid_seq n"
  shows "apply_diff S d g = Panic"
proof -
  have p: "resolve_node_kind S p = Ok (nid_kind n)" "raw_seq p = nid_seq n"
    using n by (simp_all add: node_of_raw_Ok resolve_node_kind_Ok)
  obtain x where x: "resolve_edge_direction (re_handle e) = Ok x" "orient_edge x (re_src e) (re_dst e) = (p, pd, s, sd)"
    using near by (cases "resolve_edge_direction (re_handle e)") (simp_all add: edge_near_def)
  have "classify_remove_edge S g e (buckets_new (edge_storage_size S)) = Panic"
    using beyond by (simp add: classify_remove_edge_def Let_def ek x p index_meta [OF ok] buckets_get_def index_at_def edge_slot_less kind_count_def)
  then have "classify_changes S (gd_changes d) g = Panic"
    by (simp add: classify_changes_def changes classify_change_def)
  then show ?thesis by (simp add: apply_diff_def prepare_def stage_def sbind_def)
qed

end

section \<open>Ids and handles\<close>

lemma mem_new_ids:
  "n \<in> set (new_ids cnt nodes) \<longleftrightarrow> cnt (nid_kind n) \<le> nid_seq n \<and> nid_seq n < cnt (nid_kind n) + new_count nodes (nid_kind n)"
proof (induction nodes rule: rev_induct)
  case (snoc x nodes)
  then show ?case by (cases n) (auto simp: new_ids_snoc)
qed (simp add: new_ids_def)

context schema_laws begin

lemma applied_ids:
  assumes "graph_ok S g" and "diff_fits g d" and "apply_diff S d g = Ok (g', ids)"
  shows "distinct ids \<and> length ids = length (gd_new_nodes d) \<and>
    (\<forall>n. nid_seq n < kind_count S g' (nid_kind n) \<longleftrightarrow> nid_seq n < kind_count S g (nid_kind n) \<or> n \<in> set ids) \<and>
    (\<forall>n\<in>set ids. kind_count S g (nid_kind n) \<le> nid_seq n)"
proof -
  obtain ss' rem adds where "rows_applied S g d ss' rem adds g'"
    using apply_Ok(3) [OF assms] by (auto simp: diff_applied_def)
  then have "kind_count S g' nk = kind_count S g nk + new_count (gd_new_nodes d) nk" for nk
    by (simp add: rows_applied_def new_total_def)
  then show ?thesis
    unfolding apply_Ok(1) [OF assms] diff_ids_def using new_ids_distinct by (auto simp: mem_new_ids)
qed

lemma returned_live:
  assumes ok: "graph_ok S g" and n: "nid_seq n < kind_count S g (nid_kind n)"
    and es: "get_edges S g n ek d = Ok es" and e: "e \<in> set es"
  shows "\<exists>r. raw_of_edge S e = Ok r \<and> edge_live S g r"
proof -
  let ?row = "edge_row S g (nid_kind n) d ek (nid_seq n)"
  obtain j where j: "j < length ?row" "e = from_half n (typed_node (fst (?row ! j))) ek d j"
    using es e by (auto simp: get_edges_row [OF ok n] row_edges_def)
  have "node_of_raw S (fst (?row ! j)) = Ok (typed_node (fst (?row ! j)))"
    using node_exists_typed [OF row_neighbors_exist [OF ok n nth_mem [OF j(1)]]] by simp
  then show ?thesis using handle_live [OF ok n refl j(1)] j(2) by simp
qed

end

section \<open>Handles of the sample graph\<close>

lemma out_edges_live:
  "edge_live simple_schema sample_graph (out_edge 0 2 0)" "edge_live simple_schema sample_graph (out_edge 0 1 1)"
proof -
  have es: "get_edges simple_schema sample_graph (NodeId Alpha 0) Base Out =
      Ok [from_half (NodeId Alpha 0) (NodeId Gamma 0) Base Out 0, from_half (NodeId Alpha 0) (NodeId Beta 0) Base Out 1,
          from_half (NodeId Alpha 0) (NodeId Gamma 0) Base Out 2]"
    by code_simp
  have raw: "raw_of_edge simple_schema (from_half (NodeId Alpha 0) (NodeId Gamma 0) Base Out 0) = Ok (out_edge 0 2 0)"
    "raw_of_edge simple_schema (from_half (NodeId Alpha 0) (NodeId Beta 0) Base Out 1) = Ok (out_edge 0 1 1)"
    by code_simp+
  have "\<exists>r. raw_of_edge simple_schema x = Ok r \<and> edge_live simple_schema sample_graph r"
    if "x = from_half (NodeId Alpha 0) (NodeId Gamma 0) Base Out 0 \<or> x = from_half (NodeId Alpha 0) (NodeId Beta 0) Base Out 1" for x
    by (rule simple.returned_live [OF sample_ok _ es]) (use that in auto)
  from this [OF disjI1 [OF refl]] this [OF disjI2 [OF refl]]
  show "edge_live simple_schema sample_graph (out_edge 0 2 0)" "edge_live simple_schema sample_graph (out_edge 0 1 1)"
    using raw by simp_all
qed

lemma remove_fits: "diff_fits sample_graph (remove_out_edge seq dst j)"
  by (simp add: diff_fits_def sample_graph_def sample_with_def remove_out_edge_def u32_max_def)

lemma removed_fits: "diff_fits sample_removed (remove_out_edge seq dst j)"
  by (simp add: diff_fits_def sample_removed_def sample_with_def remove_out_edge_def u32_max_def)

lemma stale_not_live: "\<not> edge_live simple_schema sample_removed (out_edge 0 1 1)"
proof
  assume "edge_live simple_schema sample_removed (out_edge 0 1 1)"
  then obtain near where node: "node_of_raw simple_schema (RawNodeId 0 0) = Ok near"
    and live: "fst (edge_row simple_schema sample_removed (nid_kind near) Out Base (nid_seq near) ! 1) = RawNodeId 1 0"
    by (auto simp: edge_live_def edge_near_def edge_seq_def out_edge_def resolve_edge_direction_def resolve_edge_kind_def
        dir_from_index_def simple_schema_def)
  have "near = NodeId Alpha 0"
    using node by (cases near; cases "nid_kind near") (simp_all add: simple.node_of_raw_Ok raw_kind_def raw_seq_def)
  moreover have "edge_row simple_schema sample_removed Alpha Out Base 0 = [(RawNodeId 1 0, None), (RawNodeId 2 0, None)]"
    by code_simp
  ultimately show False using live by simp
qed

section \<open>\<open>apply\<close>\<close>

text \<open>C1: \<open>apply\<close> always ends. When it succeeds the graph is well formed, the new ids are those of the new
  nodes, and every row and every deletion mark is what the diff says; it panics only where the pool
  is out of room for one of the diff's strings or where an edge is removed by a handle of a node that
  does not exist.\<close>

theorem apply_correct:
  assumes "schema_laws S" and "graph_ok S g" and "diff_fits g d"
  shows "case apply_diff S d g of
      Ok (g', ids) \<Rightarrow> ids = diff_ids S g d \<and> graph_ok S g' \<and> diff_applied S g d g'
    | Err e \<Rightarrow> True
    | Panic \<Rightarrow> pool_full (diff_strings d) (g_strings (snd (prepare S d g))) \<or> diff_misplaced S g d
    | Diverge \<Rightarrow> False"
  using schema_laws.apply_spec [OF assms] by (cases "apply_diff S d g") auto

theorem apply_correct_witness:
  "\<exists>g0. graph_new simple_schema = Ok g0 \<and> diff_applied simple_schema g0 sample_diff sample_graph \<and>
     sample_ids = diff_ids simple_schema g0 sample_diff"
proof -
  obtain g0 where "graph_new simple_schema = Ok g0" "graph_ok simple_schema g0" "diff_fits g0 sample_diff"
    "apply_diff simple_schema sample_diff g0 = Ok (sample_graph, sample_ids)" by (rule sample_built)
  then show ?thesis using apply_correct [OF simple_schema_laws, of g0 sample_diff] by auto
qed

text \<open>C2: every graph a program can reach is well formed: one that is new or was loaded through the
  integrity check, after any number of diffs that were applied, refused, or staged and dropped.\<close>

theorem reachable_graphs_ok:
  assumes "schema_laws S" and "reachable S g"
  shows "graph_ok S g"
  by (rule schema_laws.reachable_graph_ok [OF assms])

theorem reachable_graphs_ok_witness: "graph_ok simple_schema sample_graph"
  by (rule reachable_graphs_ok [OF simple_schema_laws reachable_live_reachable [OF sample_reachable_live]])

text \<open>C3: as long as edges are removed by handles that name an edge of the graph, every edge is stored
  at both of its ends with the same value: the half-edges of the two directions agree as multisets.\<close>

theorem reachable_edges_paired:
  assumes "schema_laws S" and "reachable_live S g"
  shows "edges_paired S g ek"
  by (rule schema_laws.reachable_live_paired [OF assms])

theorem reachable_edges_paired_witness: "edges_paired simple_schema sample_graph Base"
  by (rule reachable_edges_paired [OF simple_schema_laws sample_reachable_live])

text \<open>C6: a staged diff always commits: every check \<open>commit\<close> relies on was made by \<open>prepare\<close>, so none of
  its indexing, merging or appending fails, and the ids it returns are the ones staging promised.\<close>

theorem commit_never_fails:
  assumes "schema_laws S" and "graph_ok S g" and "diff_fits g d" and "prepare S d g = (Ok sd, g1)"
  shows "\<exists>g'. commit S sd = Ok (g', diff_ids S g d) \<and> graph_ok S g' \<and> diff_applied S g d g'"
proof -
  have "apply_diff S d g = commit S sd" by (simp add: apply_diff_def assms(4))
  then have "\<exists>r. commit S sd = Ok r"
    using schema_laws.prepared_commits [OF assms] by simp
  then show ?thesis
    using schema_laws.apply_spec [OF assms(1-3)] by (auto simp: apply_diff_def assms(4))
qed

theorem commit_never_fails_witness:
  "\<exists>g0 sd g1. prepare simple_schema sample_diff g0 = (Ok sd, g1) \<and> (\<exists>r. commit simple_schema sd = Ok r)"
proof -
  obtain g0 where g0: "graph_ok simple_schema g0" "diff_fits g0 sample_diff"
    "apply_diff simple_schema sample_diff g0 = Ok (sample_graph, sample_ids)" by (rule sample_built)
  obtain r g1 where prep: "prepare simple_schema sample_diff g0 = (r, g1)" by (cases "prepare simple_schema sample_diff g0")
  then obtain sd where "r = Ok sd" using g0(3) by (cases r) (auto simp: apply_diff_def)
  then show ?thesis using commit_never_fails [OF simple_schema_laws g0(1,2)] prep by blast
qed

text \<open>C7: a diff that is refused leaves the graph with exactly the content it had, strings included; so
  does one that is staged and then dropped, and dropping never fails.\<close>

theorem prepare_rolls_back:
  assumes "schema_laws S" and "graph_ok S g" and "diff_fits g d"
  shows "case prepare S d g of
      (Ok sd, _) \<Rightarrow> \<exists>g'. staged_drop sd = Ok g' \<and> same_content g g'
    | (Err _, g') \<Rightarrow> same_content g g'
    | (Panic, _) \<Rightarrow> apply_diff S d g = Panic
    | (Diverge, _) \<Rightarrow> False"
proof -
  obtain ss where ss: "pool_repr (g_strings g) ss" using graph_okD(7) [OF assms(2)] by blast
  obtain r g1 where prep: "prepare S d g = (r, g1)" by (cases "prepare S d g")
  show ?thesis
    using schema_laws.prepare_spec [OF assms ss] schema_laws.staged_drop_spec [OF assms] prep
    by (cases r) (simp_all add: apply_diff_def)
qed

theorem prepare_rolls_back_witness:
  "\<exists>e g'. prepare simple_schema (graph_diff_default\<lparr>gd_changes := [RemoveNode (RawNodeId 9 0)]\<rparr>) sample_graph = (Err e, g') \<and>
     same_content sample_graph g'"
proof -
  let ?d = "graph_diff_default\<lparr>gd_changes := [RemoveNode (RawNodeId 9 0)]\<rparr>"
  obtain r g' where prep: "prepare simple_schema ?d sample_graph = (r, g')"
    by (cases "prepare simple_schema ?d sample_graph")
  have "fst (prepare simple_schema ?d sample_graph) = Err (UnresolvedNodeKind 9)" by code_simp
  moreover have "diff_fits sample_graph ?d"
    by (simp add: diff_fits_def sample_graph_def sample_with_def graph_diff_default_def u32_max_def)
  ultimately show ?thesis
    using prepare_rolls_back [OF simple_schema_laws sample_ok, of ?d] prep by auto
qed

text \<open>A diff that removes edges only by handles that name an edge of the graph panics only where the
  pool has no room for one of its strings; so without strings it never panics.\<close>

theorem live_diff_panics_only_when_full:
  assumes "schema_laws S" and "graph_ok S g" and "diff_fits g d" and "diff_live S g d" and "apply_diff S d g = Panic"
  shows "\<exists>s ss. s \<in> diff_strings d \<and> pool_repr (g_strings (snd (prepare S d g))) ss \<and> \<not> pool_room ss s"
proof -
  have "\<not> diff_misplaced S g d"
    using schema_laws.live_not_misplaced [OF assms(1,2)] assms(4) by (auto simp: diff_misplaced_def diff_live_def)
  then have "pool_full (diff_strings d) (g_strings (snd (prepare S d g)))"
    using schema_laws.apply_spec [OF assms(1-3)] assms(5) by simp
  then show ?thesis by (auto simp: pool_full_def abs_intern_def split: option.splits if_splits)
qed

theorem live_diff_panics_only_when_full_witness:
  "apply_diff simple_schema (graph_diff_default\<lparr>gd_changes := [RemoveNode (RawNodeId 0 0)]\<rparr>) sample_graph \<noteq> Panic"
proof
  let ?d = "graph_diff_default\<lparr>gd_changes := [RemoveNode (RawNodeId 0 0)]\<rparr> :: (simple_node, simple_edge, simple_property) graph_diff"
  have d: "diff_fits sample_graph ?d" "diff_live simple_schema sample_graph ?d" "diff_strings ?d = {}"
    by (simp_all add: diff_fits_def sample_graph_def sample_with_def graph_diff_default_def u32_max_def diff_live_def
        removed_edges_def diff_strings_def change_strings_def node_strings_def edge_strings_def)
  assume "apply_diff simple_schema ?d sample_graph = Panic"
  then show False using live_diff_panics_only_when_full [OF simple_schema_laws sample_ok d(1,2)] d(3) by simp
qed

text \<open>C8: a diff whose values have the types of the schema and whose changes name what is there is
  applied, on any graph reached so far, as long as there is room: no slot grows past 32 bits and the
  string pool can hold the strings of the diff beside its own.\<close>

theorem good_diffs_apply:
  assumes "schema_laws S" and "reachable_live S g" and "diff_fits g d" and "diff_typed S d" and "diff_resolves S g d"
    and "slots_within u32_max S g d" and "strings_room g d"
  shows "\<exists>g'. apply_diff S d g = Ok (g', diff_ids S g d) \<and> diff_applied S g d g'"
proof -
  have ok: "graph_ok S g"
    by (rule schema_laws.reachable_graph_ok [OF assms(1) reachable_live_reachable [OF assms(2)]])
  show ?thesis
    using schema_laws.fitting_diff_applies [OF assms(1) ok assms(3) schema_laws.reachable_live_paired [OF assms(1,2)] assms(4-7)]
      schema_laws.apply_Ok(3) [OF assms(1) ok assms(3)] by blast
qed

text \<open>One change of each kind, with a new node and a new edge.\<close>

definition sample_changes :: "(simple_node, simple_edge, simple_property) graph_diff" where
  "sample_changes =
     \<lparr>gd_new_nodes = [\<lparr>nn_kind = Beta, nn_properties = [(Count, [VInt 3])]\<rparr>],
      gd_new_edges = [\<lparr>ne_src = NewNodeRef 0, ne_dst = Existing (RawNodeId 0 0), ne_kind = Base, ne_property = None\<rparr>],
      gd_changes = [UpdateNodeProperty (RawNodeId 1 0) Count (QOne (VInt 9)), RemoveNode (RawNodeId 2 0),
        RemoveEdge (out_edge 0 1 1)]\<rparr>"

theorem good_diffs_apply_witness:
  "\<exists>g' ids. apply_diff simple_schema sample_changes sample_graph = Ok (g', ids) \<and>
     diff_applied simple_schema sample_graph sample_changes g'"
proof -
  have "diff_fits sample_graph sample_changes" "diff_typed simple_schema sample_changes"
    by (simp_all add: diff_fits_def sample_graph_def sample_with_def sample_changes_def u32_max_def diff_typed_def values_typed_def
        simple_schema_def)
  moreover have "diff_resolves simple_schema sample_graph sample_changes"
  proof -
    have "n_from_index simple_schema 1 = Some Beta" "n_from_index simple_schema 2 = Some Gamma"
      by (simp_all add: simple_schema_def)
    moreover have "ps_offsets (prop_slot_of simple_schema sample_graph Beta Count) = [0, 1]" by code_simp
    ultimately show ?thesis
      by (simp add: diff_resolves_def sample_changes_def change_resolves_def out_edges_live raw_kind_def raw_seq_def)
  qed
  moreover have "slots_within u32_max simple_schema sample_graph sample_changes"
  proof -
    have "prop_len_after simple_schema sample_graph sample_changes nk pk \<le> 2" for nk pk
      by (cases nk; cases pk; hypsubst; code_simp)
    moreover have "edge_len_after simple_schema sample_graph sample_changes nk d ek \<le> 4" for nk d ek
      by (cases nk; cases d; cases ek; hypsubst; code_simp)
    moreover have "2 \<le> u32_max" "4 \<le> u32_max" by (simp_all add: u32_max_def)
    ultimately show ?thesis unfolding slots_within_def using le_trans by blast
  qed
  moreover have "strings_room sample_graph sample_changes"
  proof -
    have "diff_strings sample_changes = {}"
      by (simp add: diff_strings_def change_strings_def update_strings_def node_strings_def edge_strings_def sample_changes_def)
    moreover have "ss = []" if "pool_repr (g_strings sample_graph) ss" for ss
      using that pool_repr_unique [OF pool_repr_new, of ss] by (simp add: sample_graph_def sample_with_def)
    ultimately show ?thesis by (fastforce simp: strings_room_def)
  qed
  ultimately show ?thesis
    using good_diffs_apply [OF simple_schema_laws sample_reachable_live, of sample_changes] by blast
qed

text \<open>C38: an update of a property of a node that is there is refused when no node of its kind was ever given
  the property, although the property may be declared for the kind; the rest of the diff goes with it.\<close>

theorem unset_property_not_updatable:
  assumes "schema_laws S" and "graph_ok S g" and "gd_changes d = [UpdateNodeProperty r pk q]"
    and "n_from_index S (raw_kind r) = Some nk" and "raw_seq r < kind_count S g nk"
    and "ps_offsets (prop_slot_of S g nk pk) = []"
  shows "apply_diff S d g = Err (NodeOffsetNotFound (raw_seq r))"
  by (rule schema_laws.unset_update_refused [OF assms(1,2) schema_laws.unset_update_stage [OF assms]])

theorem unset_property_not_updatable_witness:
  "Key \<in> set (n_properties simple_schema Alpha) \<and> node_exists simple_schema sample_graph (RawNodeId 0 0) \<and>
   apply_diff simple_schema (graph_diff_default\<lparr>gd_changes := [UpdateNodeProperty (RawNodeId 0 0) Key (QOne (VString []))]\<rparr>)
     sample_graph = Err (NodeOffsetNotFound 0)"
proof -
  let ?d = "graph_diff_default\<lparr>gd_changes := [UpdateNodeProperty (RawNodeId 0 0) Key (QOne (VString []))]\<rparr> ::
    (simple_node, simple_edge, simple_property) graph_diff"
  have kind: "n_from_index simple_schema (raw_kind (RawNodeId 0 0)) = Some Alpha" "raw_seq (RawNodeId 0 0) = 0"
    by (simp_all add: simple_schema_def raw_kind_def raw_seq_def)
  moreover have "ps_offsets (prop_slot_of simple_schema sample_graph Alpha Key) = []" by code_simp
  ultimately show ?thesis
    using unset_property_not_updatable [OF simple_schema_laws sample_ok, of ?d "RawNodeId 0 0" Key "QOne (VString [])" Alpha]
    by (simp add: node_exists_def) (simp add: simple_schema_def)
qed

section \<open>What a caller reads afterwards\<close>

text \<open>C9: the id returned for a new node is of its kind, the node is live, and each of its properties
  reads back as the values it was given, in order; a property it was not given reads as empty.\<close>

theorem new_nodes_read_back:
  assumes "schema_laws S" and "graph_ok S g" and "diff_fits g d" and "apply_diff S d g = Ok (g', ids)"
    and "i < length (gd_new_nodes d)"
  shows "nid_kind (ids ! i) = nn_kind (gd_new_nodes d ! i) \<and> is_node_deleted S g' (ids ! i) = Ok False \<and>
    map_each (graph_resolve_property g') (prop_row S g' (nid_kind (ids ! i)) pk (nid_seq (ids ! i))) =
      Ok (case map_of (nn_properties (gd_new_nodes d ! i)) pk of Some vs \<Rightarrow> vs | None \<Rightarrow> [])"
  unfolding schema_laws.apply_Ok(1) [OF assms(1-4)]
  by (rule schema_laws.applied_new_node [OF assms(1) schema_laws.apply_Ok(3) [OF assms(1-4)] assms(5) refl refl])

theorem new_nodes_read_back_witness:
  "map_each (graph_resolve_property sample_graph) (prop_row simple_schema sample_graph Beta Count 0) = Ok [VInt 7]"
proof -
  obtain g0 where "graph_ok simple_schema g0" "diff_fits g0 sample_diff"
    "apply_diff simple_schema sample_diff g0 = Ok (sample_graph, sample_ids)" by (rule sample_built)
  then show ?thesis
    using new_nodes_read_back [OF simple_schema_laws, of g0 sample_diff sample_graph sample_ids 1 Count]
    by (simp add: sample_diff_def sample_ids_def)
qed

text \<open>C24: the ids of new nodes are distinct, start after the nodes each kind already has, and leave no
  gap: together with the old numbers they are exactly the nodes of the graph afterwards.\<close>

theorem new_ids_fresh_and_dense:
  assumes "schema_laws S" and "graph_ok S g" and "diff_fits g d" and "apply_diff S d g = Ok (g', ids)"
  shows "distinct ids \<and> length ids = length (gd_new_nodes d) \<and>
    (\<forall>n. nid_seq n < kind_count S g' (nid_kind n) \<longleftrightarrow> nid_seq n < kind_count S g (nid_kind n) \<or> n \<in> set ids) \<and>
    (\<forall>n\<in>set ids. kind_count S g (nid_kind n) \<le> nid_seq n)"
  by (rule schema_laws.applied_ids [OF assms])

theorem new_ids_fresh_and_dense_witness:
  "\<exists>g0. graph_new simple_schema = Ok g0 \<and> (\<forall>n\<in>set sample_ids. kind_count simple_schema g0 (nid_kind n) \<le> nid_seq n)"
proof -
  obtain g0 where "graph_new simple_schema = Ok g0" "graph_ok simple_schema g0" "diff_fits g0 sample_diff"
    "apply_diff simple_schema sample_diff g0 = Ok (sample_graph, sample_ids)" by (rule sample_built)
  then show ?thesis using new_ids_fresh_and_dense [OF simple_schema_laws, of g0 sample_diff] by blast
qed

text \<open>C10: after a diff that updates a property of a node, the property reads as the values of the last
  update; the earlier ones leave no trace.\<close>

theorem last_update_wins:
  assumes "schema_laws S" and "graph_ok S g" and "diff_fits g d" and "apply_diff S d g = Ok (g', ids)"
    and "seq < kind_count S g nk" and "last_update S (gd_changes d) nk pk seq = Some q"
  shows "map_each (graph_resolve_property g') (prop_row S g' nk pk seq) = Ok (quantified_values q)"
  by (rule schema_laws.applied_update [OF assms(1) schema_laws.apply_Ok(3) [OF assms(1-4)] assms(5,6)])

theorem last_update_wins_witness:
  "\<exists>g' ids. apply_diff simple_schema sample_update sample_graph = Ok (g', ids) \<and>
     map_each (graph_resolve_property g') (prop_row simple_schema g' Beta Count 0) = Ok [VInt 9]"
proof -
  obtain g' ids where d: "diff_fits sample_graph sample_update"
    and app: "apply_diff simple_schema sample_update sample_graph = Ok (g', ids)" by (rule sample_updated)
  have "last_update simple_schema (gd_changes sample_update) Beta Count 0 = Some (QOne (VInt 9))"
    by (simp add: last_update_def sample_update_def simple.node_of_raw_Ok raw_kind_def raw_seq_def)
  then show ?thesis using last_update_wins [OF simple_schema_laws sample_ok d app, of 0 Beta Count] app by auto
qed

text \<open>C11: a diff leaves everything else alone. A row of edges loses only halves that a removed handle
  names (the one at its position, or at most one half that leads back to the node of a handle read at the
  other end) and gains, behind what is left, one half for each new edge that ends at its node, in their
  order. So where no removed handle names the row, it is a prefix of the new one and the edge ids handed out
  before still name the same edges, and where no new edge ends there either, it is the same row. A row of a
  property that is not updated is the same; a node is deleted afterwards exactly when it was or the diff
  removes it; and every stored value still resolves to what it did.\<close>

theorem apply_leaves_the_rest:
  assumes "schema_laws S" and "graph_ok S g" and "diff_fits g d" and "apply_diff S d g = Ok (g', ids)"
    and "nid_seq n < kind_count S g (nid_kind n)"
  shows "(\<exists>R A. edge_row S g' (nid_kind n) dir ek (nid_seq n) = remove_at (edge_row S g (nid_kind n) dir ek (nid_seq n)) R @ A \<and>
      removals_named S ek n dir (removed_edges (gd_changes d)) (edge_row S g (nid_kind n) dir ek (nid_seq n)) R \<and>
      halves_added S g d g' ek n dir A) \<and>
    ((\<forall>e\<in>set (removed_edges (gd_changes d)). \<not> names_row S ek n dir e) \<longrightarrow>
      prefix (edge_row S g (nid_kind n) dir ek (nid_seq n)) (edge_row S g' (nid_kind n) dir ek (nid_seq n)) \<and>
      ((\<forall>e\<in>set (gd_new_edges d). \<not> ends_at S g d ek n dir e) \<longrightarrow>
        edge_row S g' (nid_kind n) dir ek (nid_seq n) = edge_row S g (nid_kind n) dir ek (nid_seq n))) \<and>
    (last_update S (gd_changes d) (nid_kind n) pk (nid_seq n) = None \<longrightarrow>
      prop_row S g' (nid_kind n) pk (nid_seq n) = prop_row S g (nid_kind n) pk (nid_seq n)) \<and>
    is_node_deleted S g' n = Ok (is_node_deleted S g n = Ok True \<or>
      node_of S (nid_kind n) (nid_seq n) \<in> set (removed_nodes (gd_changes d))) \<and>
    (\<forall>p v. graph_resolve_property g p = Ok v \<longrightarrow> graph_resolve_property g' p = Ok v)"
proof -
  obtain R A where "edge_row S g' (nid_kind n) dir ek (nid_seq n) = remove_at (edge_row S g (nid_kind n) dir ek (nid_seq n)) R @ A"
    and R: "removals_named S ek n dir (removed_edges (gd_changes d)) (edge_row S g (nid_kind n) dir ek (nid_seq n)) R"
    and A: "halves_added S g d g' ek n dir A"
    using schema_laws.applied_edge_row [OF assms(1) schema_laws.apply_Ok(3) [OF assms(1-4)] assms(5)] by blast
  moreover have "R = []" if "\<forall>e\<in>set (removed_edges (gd_changes d)). \<not> names_row S ek n dir e"
    by (rule removals_named_none [OF R that])
  moreover have "A = []" if "\<forall>e\<in>set (gd_new_edges d). \<not> ends_at S g d ek n dir e"
    by (rule halves_added_none [OF A that])
  ultimately show ?thesis
    using schema_laws.applied_untouched [OF assms(1) schema_laws.apply_Ok(3) [OF assms(1-4)] assms(5), of dir ek pk] assms(5)
    by (auto simp: node_gone_def)
qed

text \<open>Removing an edge between the \<open>Alpha\<close> and the \<open>Gamma\<close> node leaves the row of the \<open>Beta\<close> node.\<close>

theorem apply_leaves_the_rest_witness:
  "(\<exists>g' ids. apply_diff simple_schema sample_update sample_graph = Ok (g', ids) \<and>
     prefix (edge_row simple_schema sample_graph Alpha Out Base 0) (edge_row simple_schema g' Alpha Out Base 0)) \<and>
   apply_diff simple_schema (remove_out_edge 0 2 0) sample_graph = Ok (sample_removed, []) \<and>
   edge_row simple_schema sample_removed Beta Out Base 0 = edge_row simple_schema sample_graph Beta Out Base 0"
proof -
  obtain g' ids where d: "diff_fits sample_graph sample_update"
    and app: "apply_diff simple_schema sample_update sample_graph = Ok (g', ids)" by (rule sample_updated)
  have "removed_edges (gd_changes sample_update) = []" by (simp add: removed_edges_def sample_update_def)
  then have "prefix (edge_row simple_schema sample_graph Alpha Out Base 0) (edge_row simple_schema g' Alpha Out Base 0)"
    using apply_leaves_the_rest [OF simple_schema_laws sample_ok d app, of "NodeId Alpha 0" Out Base Key] by simp
  moreover have "\<not> names_row simple_schema Base (NodeId Beta 0) Out (out_edge 0 2 0)"
    by (auto simp: names_row_def names_near_def names_far_def edge_near_def out_edge_def resolve_edge_direction_def
        dir_from_index_def simple.node_of_raw_Ok raw_kind_def raw_seq_def)
  then have "edge_row simple_schema sample_removed Beta Out Base 0 = edge_row simple_schema sample_graph Beta Out Base 0"
    using apply_leaves_the_rest [OF simple_schema_laws sample_ok remove_fits sample_removals(1), of "NodeId Beta 0" Out Base Key]
    by (simp add: remove_out_edge_def removed_edges_def)
  ultimately show ?thesis using app sample_removals(1) by blast
qed

text \<open>C12: an edge added between two nodes that exist afterwards is found at both of its ends, with the
  value it was given.\<close>

theorem new_edges_at_both_ends:
  assumes "schema_laws S" and "graph_ok S g" and "diff_fits g d" and "apply_diff S d g = Ok (g', ids)"
    and "e \<in> set (gd_new_edges d)"
    and "resolve_node_ref S ids (ne_src e) = Some s" and "diff_lives S g d s"
    and "resolve_node_ref S ids (ne_dst e) = Some t" and "diff_lives S g d t"
  shows "\<exists>p. (node_of S (nid_kind t) (nid_seq t), p) \<in> set (edge_row S g' (nid_kind s) Out (ne_kind e) (nid_seq s)) \<and>
    (node_of S (nid_kind s) (nid_seq s), p) \<in> set (edge_row S g' (nid_kind t) In (ne_kind e) (nid_seq t)) \<and>
    (case (ne_property e, p) of
      (None, None) \<Rightarrow> True
    | (Some v, Some q) \<Rightarrow> graph_resolve_property g' q = Ok v
    | _ \<Rightarrow> False)"
  using schema_laws.applied_new_edge [OF assms(1) schema_laws.apply_Ok(3) [OF assms(1-4)] assms(5)] assms(6-9)
    schema_laws.apply_Ok(1) [OF assms(1-4)] by simp

theorem new_edges_at_both_ends_witness:
  "\<exists>g0. graph_new simple_schema = Ok g0 \<and>
     (\<exists>p. (RawNodeId 0 0, p) \<in> set (edge_row simple_schema sample_graph Gamma In Base 0))"
proof -
  obtain g0 where g0: "graph_new simple_schema = Ok g0" "graph_ok simple_schema g0" "diff_fits g0 sample_diff"
    "apply_diff simple_schema sample_diff g0 = Ok (sample_graph, sample_ids)" by (rule sample_built)
  have zero: "kind_count simple_schema g0 nk = 0" for nk using g0(1) simple.graph_new_ok by fastforce
  have "diff_lives simple_schema g0 sample_diff (NodeId Alpha 0)" "diff_lives simple_schema g0 sample_diff (NodeId Gamma 0)"
    by (simp_all add: diff_lives_def node_lives_def new_total_def zero new_count_def of_kind_def sample_diff_def)
  then show ?thesis
    using new_edges_at_both_ends [OF simple_schema_laws g0(2-4), of "base_edge 0 2" "NodeId Alpha 0" "NodeId Gamma 0"] g0(1)
    by (auto simp: sample_diff_def base_edge_def resolve_node_ref_def sample_ids_def get_at_def node_of_def)
qed

section \<open>Handles of edges\<close>

text \<open>C23: every handle \<open>get_edges\<close> returns converts to a raw handle that names an edge of the graph, so a
  diff may remove it.\<close>

theorem returned_handles_live:
  assumes "schema_laws S" and "graph_ok S g" and "nid_seq n < kind_count S g (nid_kind n)"
    and "get_edges S g n ek d = Ok es" and "e \<in> set es"
  shows "\<exists>r. raw_of_edge S e = Ok r \<and> edge_live S g r"
  by (rule schema_laws.returned_live [OF assms])

theorem returned_handles_live_witness:
  "\<exists>es. get_edges simple_schema sample_graph (NodeId Alpha 0) Base Out = Ok es \<and>
     (\<forall>e\<in>set es. \<exists>r. raw_of_edge simple_schema e = Ok r \<and> edge_live simple_schema sample_graph r)"
  using returned_handles_live [OF simple_schema_laws sample_ok, of "NodeId Alpha 0" Base Out]
    simple.get_edges_row [OF sample_ok, of "NodeId Alpha 0" Base Out] by auto

text \<open>C37: a handle is not checked against the edge it was made for. On a graph whose edges agree at both
  ends, a diff that removes one edge and is applied leaves them in agreement exactly when the handle names an
  edge of the graph. With any other handle it accepts, it takes the half of one edge at one end and that of
  another, or nothing, at the other, and the graph it returns is no longer paired.\<close>

theorem stale_handle_unpairs:
  assumes "schema_laws S" and "graph_ok S g" and "\<forall>ek. edges_paired S g ek" and "diff_fits g d"
    and "removed_edges (gd_changes d) = [e]" and "apply_diff S d g = Ok (g', ids)"
  shows "(\<forall>ek. edges_paired S g' ek) \<longleftrightarrow> edge_live S g e"
  by (rule schema_laws.removal_paired_iff [OF assms(1,2) spec [OF assms(3)] assms(4-6)])

text \<open>The \<open>Alpha\<close> node has three edges. The removal of the first keeps the pairing; after it the handle that
  \<open>get_edges\<close> returned before for the second names no edge, is accepted all the same, and unpairs the graph.\<close>

theorem stale_handle_unpairs_witness:
  "raw_of_edge simple_schema (from_half (NodeId Alpha 0) (NodeId Beta 0) Base Out 1) = Ok (out_edge 0 1 1) \<and>
   edge_live simple_schema sample_graph (out_edge 0 1 1) \<and>
   apply_diff simple_schema (remove_out_edge 0 2 0) sample_graph = Ok (sample_removed, []) \<and>
   (\<forall>ek. edges_paired simple_schema sample_removed ek) \<and> \<not> edge_live simple_schema sample_removed (out_edge 0 1 1) \<and>
   apply_diff simple_schema (remove_out_edge 0 1 1) sample_removed = Ok (sample_unpaired, []) \<and>
   \<not> (\<forall>ek. edges_paired simple_schema sample_unpaired ek)"
proof -
  have one: "removed_edges (gd_changes (remove_out_edge seq dst j)) = [out_edge seq dst j]" for seq dst j
    by (simp add: removed_edges_def remove_out_edge_def)
  have "\<forall>ek. edges_paired simple_schema sample_graph ek" using simple.reachable_live_paired [OF sample_reachable_live] by blast
  then have paired: "\<forall>ek. edges_paired simple_schema sample_removed ek"
    using stale_handle_unpairs [OF simple_schema_laws sample_ok _ remove_fits one sample_removals(1)] out_edges_live(1) by blast
  have ok: "graph_ok simple_schema sample_removed" by (rule simple.apply_Ok(2) [OF sample_ok remove_fits sample_removals(1)])
  have "\<not> (\<forall>ek. edges_paired simple_schema sample_unpaired ek)"
    using stale_handle_unpairs [OF simple_schema_laws ok paired removed_fits one sample_removals(2)] stale_not_live by blast
  moreover have "raw_of_edge simple_schema (from_half (NodeId Alpha 0) (NodeId Beta 0) Base Out 1) = Ok (out_edge 0 1 1)"
    by code_simp
  ultimately show ?thesis using paired out_edges_live(2) stale_not_live sample_removals by blast
qed

text \<open>C39: a handle whose node is not in the graph makes \<open>apply\<close> panic, where the other changes return an
  error for such a node.\<close>

theorem misplaced_handle_panics:
  assumes "schema_laws S" and "graph_ok S g" and "gd_changes d = RemoveEdge e # cs"
    and "resolve_edge_kind S (re_handle e) = Ok ek" and "edge_near e = Ok (p, pd, s, sd)"
    and "node_of_raw S p = Ok n" and "kind_count S g (nid_kind n) \<le> nid_seq n"
  shows "apply_diff S d g = Panic"
  by (rule schema_laws.misplaced_panics [OF assms])

theorem misplaced_handle_panics_witness:
  "apply_diff simple_schema (remove_out_edge 1 2 0) sample_graph = Panic"
proof (rule misplaced_handle_panics [OF simple_schema_laws sample_ok, where ek = Base and n = "NodeId Alpha 1"])
  show "resolve_edge_kind simple_schema (re_handle (out_edge 1 2 0)) = Ok Base"
    by (simp add: resolve_edge_kind_def simple_schema_def out_edge_def)
  show "node_of_raw simple_schema (RawNodeId 0 1) = Ok (NodeId Alpha 1)"
    by (simp add: simple.node_of_raw_Ok raw_kind_def raw_seq_def)
qed (simp_all add: remove_out_edge_def out_edge_def edge_near_def resolve_edge_direction_def dir_from_index_def
    simple.node_of_raw_Ok raw_kind_def raw_seq_def)

end
