(* ===== verification/Passes_Theorems.thy ===== *)
theory Passes_Theorems
  imports Sample
begin

text \<open>
  The properties of the passes of \<open>prepare\<close> and of the merge of \<open>commit\<close>: what each returns, in terms of
  the rows of the slots it reads.
\<close>

section \<open>Two half-edges and the batch they make\<close>

definition two_rows :: "(raw_node_id \<times> stored_property option) list list" where
  "two_rows = [[(RawNodeId 0 0, None)], [(RawNodeId 1 0, None)]]"

definition new_rows :: "(raw_node_id \<times> stored_property option) list list" where
  "new_rows = [[(RawNodeId 2 0, None)], []]"

definition two_halves :: "slot_half_edge list" where
  "two_halves = [\<lparr>sh_seq = 1, sh_neighbor = RawNodeId 0 0, sh_property = None\<rparr>,
     \<lparr>sh_seq = 0, sh_neighbor = RawNodeId 1 0, sh_property = None\<rparr>,
     \<lparr>sh_seq = 1, sh_neighbor = RawNodeId 2 0, sh_property = None\<rparr>]"

section \<open>Properties\<close>

text \<open>Classifying the changes of a diff ends, and panics only for a removed edge whose node does not
  exist. It gives the removed nodes that exist, for each node and property the last update, and for each
  row the positions of the half-edges to remove: each edge once, together with a half at the other end
  that was not taken yet and that carries the same value where there is one.\<close>

theorem classify_changes_correct:
  assumes "schema_laws S" and "graph_ok S g"
  shows "case classify_changes S cs g of
      Ok c \<Rightarrow> classified S g cs c
    | Err _ \<Rightarrow> True
    | Panic \<Rightarrow> \<exists>e\<in>set (removed_edges cs). edge_misplaced S g e
    | Diverge \<Rightarrow> False"
  using schema_laws.classify_changes_spec [OF assms, of cs] by (cases "classify_changes S cs g") auto

theorem classify_changes_correct_witness:
  "classify_changes simple_schema (gd_changes sample_update) sample_graph \<noteq> Panic"
  using classify_changes_correct [OF simple_schema_laws sample_ok, of "gd_changes sample_update"]
  by (auto simp: removed_edges_def sample_update_def)

text \<open>The search for the other half of an edge returns a position of the row, with the neighbor it
  looks for and not excluded, and prefers one with the wanted value whenever there is one; it never
  panics.\<close>

theorem find_reverse_correct:
  assumes "schema_laws S" and "graph_ok S g" and "resolve_node_kind S r = Ok nk"
  shows "case find_reverse_edge_seq S (g_edges g) r (edge_storage_slot S nk d ek) d ek target excluded wanted of
      Ok j \<Rightarrow> j \<in> reverse_candidates S g nk d ek (raw_seq r) target excluded \<and>
        (\<forall>w. wanted = Some w \<longrightarrow>
          (\<exists>j'\<in>reverse_candidates S g nk d ek (raw_seq r) target excluded.
            opt_key (snd (edge_row S g nk d ek (raw_seq r) ! j')) = w) \<longrightarrow>
          opt_key (snd (edge_row S g nk d ek (raw_seq r) ! j)) = w)
    | Err _ \<Rightarrow> True
    | Panic \<Rightarrow> False
    | Diverge \<Rightarrow> False"
  using schema_laws.find_reverse_edge_seq_spec [OF assms, of d ek target excluded wanted]
  by (cases "find_reverse_edge_seq S (g_edges g) r (edge_storage_slot S nk d ek) d ek target excluded wanted") auto

theorem find_reverse_correct_witness:
  "find_reverse_edge_seq simple_schema (g_edges sample_graph) (RawNodeId 0 0)
     (edge_storage_slot simple_schema Alpha Out Base) Out Base (RawNodeId 2 0) [0] None \<noteq> Panic"
proof -
  have "resolve_node_kind simple_schema (RawNodeId 0 0) = Ok Alpha"
    by (simp add: simple.resolve_node_kind_Ok raw_kind_def)
  then show ?thesis
    using find_reverse_correct [OF simple_schema_laws sample_ok, of "RawNodeId 0 0" Alpha Out Base "RawNodeId 2 0" "[0]" None]
    by auto
qed

text \<open>Rebuilding the edge slots without the queued half-edges touches exactly the slots with a queued
  one, keeps them well formed, and removes from each row the queued positions and nothing else; it
  never panics.\<close>

theorem edge_removals_correct:
  assumes "schema_laws S" and "edges_ok S cnt es" and "removals_ok S cnt pending"
  shows "case prepare_edge_removals S es pending of
      Ok rs \<Rightarrow> \<forall>nk d ek. let i = edge_storage_slot S nk d ek;
          old = es ! i; new = fold put_edge_replace rs es ! i in
        edge_slot_ok (sa_typ (es_values old)) (cnt nk) new \<and>
        edge_rows new (cnt nk) = map2 remove_at (edge_rows old (cnt nk)) (slot_removals pending i (cnt nk))
    | Err _ \<Rightarrow> True
    | Panic \<Rightarrow> False
    | Diverge \<Rightarrow> False"
  using schema_laws.prepare_edge_removals_spec [OF assms] removed_uptoD(3) [OF _ UNIV_I]
  by (cases "prepare_edge_removals S es pending") (fastforce simp: slot_removed_def Let_def)+

theorem edge_removals_correct_witness:
  "prepare_edge_removals simple_schema (g_edges sample_graph) (buckets_new 12) \<noteq> Panic"
proof -
  have "removals_ok simple_schema (kind_count simple_schema sample_graph) (buckets_new 12)"
    using simple.removals_ok_new [of "kind_count simple_schema sample_graph"] by simp
  then show ?thesis
    using edge_removals_correct [OF simple_schema_laws graph_ok_edges_ok [OF sample_ok]] by fastforce
qed

text \<open>The counting sort of new half-edges by the node they belong to is stable: given the start of each
  node's run it returns the positions of the half-edges node by node, each in the order they came, and
  the end of each run.\<close>

theorem place_halves_sorts:
  assumes "\<forall>h\<in>set hs. sh_seq h < n" and "length hs \<le> u32_max"
    and "map unat starts @ [length hs] = psums 0 (map (\<lambda>i. length (filter (\<lambda>h. sh_seq h = i) hs)) [0..<n])"
  shows "\<exists>ends order. place_halves hs starts = Ok (ends, order) \<and>
    map unat order = concat (map (\<lambda>i. filter (\<lambda>j. sh_seq (hs ! j) = i) [0..<length hs]) [0..<n]) \<and>
    map unat ends = tl (psums 0 (map (\<lambda>i. length (filter (\<lambda>h. sh_seq h = i) hs)) [0..<n]))"
  using place_halves_spec [OF assms(1,2), of starts] assms(3) by (simp add: halves_at_def index_run_def [abs_def])

theorem place_halves_sorts_witness:
  "\<exists>ends order. place_halves two_halves [0, 1] = Ok (ends, order) \<and> map unat order = [1, 0, 2]"
  using place_halves_sorts [of two_halves 2 "[0, 1]"]
  by (auto simp: two_halves_def u32_max_def upt_rec numeral_2_eq_2)

text \<open>Merging the new half-edges of all nodes into a slot in one pass over its runs gives the slot whose
  rows are the old ones followed by the new ones, whatever the rows are.\<close>

theorem merge_edge_batches_appends:
  assumes "halves_typed t (concat xs)" and "length xs = length ys" and "halves_typed t (concat ys)"
  shows "merge_edge_batches (slot_of_halves t offs (concat xs)) (runs 0 xs ys) (map fst (concat ys))
      (sa_of t (halves_values t (concat ys))) = Ok (slot_of_halves t offs (concat (map2 (@) xs ys)))"
  by (rule merge_edge_batches_spec [OF assms])

theorem merge_edge_batches_appends_witness:
  "\<exists>slot. merge_edge_batches (slot_of_halves TNone [0, 1, 2] (concat two_rows)) (runs 0 two_rows new_rows)
       [RawNodeId 2 0] (sa_of TNone []) = Ok slot \<and>
     es_neighbors slot = [RawNodeId 0 0, RawNodeId 2 0, RawNodeId 1 0]"
  using merge_edge_batches_appends [of TNone two_rows new_rows "[0, 1, 2]"]
  by (simp add: two_rows_def new_rows_def halves_typed_def halves_values_def slot_of_halves_def)

end
