(* ===== verification/Valid_Spec.thy ===== *)
theory Valid_Spec
  imports Readback_Spec Accept_Spec
begin

text \<open>
  Which diffs keep a graph valid. \<open>apply\<close> leaves two things to its caller that \<open>check_integrity\<close> looks at:
  node ids and enum ids held as values, and the handles edges are removed by. A diff whose ids are of
  nodes of the resulting graph, whose enum ids are of the schema and whose handles are live takes a
  valid graph to a valid graph; so a graph built by such diffs alone always passes the check.
\<close>

section \<open>What a diff brings in\<close>

text \<open>A node that is there once the diff is applied.\<close>

definition node_after :: "('n, 'e, 'p, 'r) schema \<Rightarrow> graph \<Rightarrow> ('n, 'e, 'p) graph_diff \<Rightarrow> raw_node_id \<Rightarrow> bool" where
  "node_after S g d r \<longleftrightarrow> (case n_from_index S (raw_kind r) of
     Some nk \<Rightarrow> raw_seq r < new_total S g d nk | None \<Rightarrow> False)"

definition input_ok ::
  "('n, 'e, 'p, 'r) schema \<Rightarrow> graph \<Rightarrow> ('n, 'e, 'p) graph_diff \<Rightarrow> nat option \<Rightarrow> property_value \<Rightarrow> bool" where
  "input_ok S g d expected v = (case v of
      VNodeId r \<Rightarrow> node_after S g d r
    | VEnum e \<Rightarrow> enum_ok S expected e
    | _ \<Rightarrow> True)"

definition diff_valid :: "('n, 'e, 'p, 'r) schema \<Rightarrow> graph \<Rightarrow> ('n, 'e, 'p) graph_diff \<Rightarrow> bool" where
  "diff_valid S g d \<longleftrightarrow>
     (\<forall>r pk q. UpdateNodeProperty r pk q \<in> set (gd_changes d) \<longrightarrow>
        (\<forall>v\<in>set (quantified_values q). input_ok S g d (p_enum_index S pk) v)) \<and>
     (\<forall>n\<in>set (gd_new_nodes d). \<forall>(pk, vs)\<in>set (nn_properties n). \<forall>v\<in>set vs. input_ok S g d (p_enum_index S pk) v) \<and>
     (\<forall>e\<in>set (gd_new_edges d). \<forall>v. ne_property e = Some v \<longrightarrow> input_ok S g d (e_enum_index S (ne_kind e)) v)"

lemma diff_validD:
  assumes "diff_valid S g d"
  shows "UpdateNodeProperty r pk q \<in> set (gd_changes d) \<Longrightarrow> v \<in> set (quantified_values q) \<Longrightarrow>
      input_ok S g d (p_enum_index S pk) v"
    and "n \<in> set (gd_new_nodes d) \<Longrightarrow> (pk, vs) \<in> set (nn_properties n) \<Longrightarrow> v \<in> set vs \<Longrightarrow>
      input_ok S g d (p_enum_index S pk) v"
    and "e \<in> set (gd_new_edges d) \<Longrightarrow> ne_property e = Some v \<Longrightarrow> input_ok S g d (e_enum_index S (ne_kind e)) v"
  using assms unfolding diff_valid_def by fast+

section \<open>Values of a graph, row by row\<close>

definition half_value_ok ::
  "('n, 'e, 'p, 'r) schema \<Rightarrow> graph \<Rightarrow> 'e \<Rightarrow> raw_node_id \<times> stored_property option \<Rightarrow> bool" where
  "half_value_ok S g ek h \<longleftrightarrow> (\<forall>v. snd h = Some v \<longrightarrow> value_ok S g (e_enum_index S ek) v)"

lemma ball_concat_nth: "(\<forall>x\<in>set (concat rows). P x) \<longleftrightarrow> (\<forall>i<length rows. \<forall>x\<in>set (rows ! i). P x)"
  by (simp add: all_set_conv_all_nth)

context schema_laws begin

lemma prop_values_rows:
  assumes "graph_ok S g"
  shows "values_ok S g t (ps_values (prop_slot_of S g nk pk)) \<longleftrightarrow>
    (\<forall>seq<kind_count S g nk. \<forall>v\<in>set (prop_row S g nk pk seq). value_ok S g t v)"
proof -
  note csr = prop_slot_ok_csr [OF graph_okD(5) [OF assms, of pk nk]]
  show ?thesis
    unfolding values_ok_def slot_csr_concat [OF csr, symmetric] ball_concat_nth
    by (simp add: slot_csr_length [OF csr] prop_row_def)
qed

lemma edge_values_rows:
  assumes "graph_ok S g"
  shows "values_ok S g (e_enum_index S ek) (es_values (edge_slot_of S g nk d ek)) \<longleftrightarrow>
    (\<forall>seq<kind_count S g nk. \<forall>h\<in>set (edge_row S g nk d ek seq). half_value_ok S g ek h)"
proof -
  let ?slot = "edge_slot_of S g nk d ek" and ?t = "e_property_type S ek"
  have slot: "edge_slot_ok ?t (kind_count S g nk) ?slot" by (rule graph_okD(4) [OF assms])
  note csr = edge_slot_ok_csr [OF slot]
  have vals: "sa_values (es_values ?slot) = halves_values ?t (edge_halves ?slot)"
    using slot_of_halves_fields(4) [OF edge_slot_halves(1) [OF slot]] edge_slot_halves(2) [OF slot] by metis
  have "(\<forall>v\<in>set (sa_values (es_values ?slot)). value_ok S g (e_enum_index S ek) v) \<longleftrightarrow>
      (\<forall>h\<in>set (edge_halves ?slot). half_value_ok S g ek h)"
  proof -
    have some: "snd h \<noteq> None \<longleftrightarrow> ?t \<noteq> TNone" if "h \<in> set (edge_halves ?slot)" for h
      using bspec [OF edge_slot_halves(1) [OF slot, unfolded halves_typed_def] that]
      by (cases "snd h") (auto dest: arg_cong [where f = "\<lambda>x. x = TNone"])
    then show ?thesis by (force simp: vals halves_values_def half_value_ok_def)
  qed
  also have "\<dots> \<longleftrightarrow> (\<forall>seq<kind_count S g nk. \<forall>h\<in>set (edge_row S g nk d ek seq). half_value_ok S g ek h)"
    unfolding slot_csr_concat [OF csr, symmetric] ball_concat_nth
    by (simp add: slot_csr_length [OF csr] edge_row_def)
  finally show ?thesis by (simp only: values_ok_def)
qed

section \<open>Values of the graph afterwards\<close>

text \<open>A graph with at least the nodes and strings of another.\<close>

definition grown :: "graph \<Rightarrow> graph \<Rightarrow> bool" where
  "grown g g' \<longleftrightarrow> (\<forall>nk. kind_count S g nk \<le> kind_count S g' nk) \<and> pool_len (g_strings g) \<le> pool_len (g_strings g')"

lemma value_ok_grown: "value_ok S g t v \<Longrightarrow> grown g g' \<Longrightarrow> value_ok S g' t v"
  by (cases v) (auto simp: value_ok_def grown_def node_exists_def split: option.splits intro: less_le_trans)

lemma half_value_ok_grown: "half_value_ok S g ek h \<Longrightarrow> grown g g' \<Longrightarrow> half_value_ok S g' ek h"
  using value_ok_grown by (auto simp: half_value_ok_def)

lemma node_after_exists:
  "(\<And>nk. kind_count S g' nk = new_total S g d nk) \<Longrightarrow> node_after S g d r \<longleftrightarrow> node_exists S g' r"
  by (simp add: node_after_def node_exists_def split: option.split)

lemma stored_value_ok:
  assumes st: "stored_as ss v p" and "pool_repr (g_strings g') ss" and "input_ok S g d t v"
    and "\<And>nk. kind_count S g' nk = new_total S g d nk"
  shows "value_ok S g' t p"
proof -
  have "node_after S g d r \<longleftrightarrow> node_exists S g' r" for r by (rule node_after_exists) (rule assms(4))
  then show ?thesis
    using st assms(3) pool_len_repr [OF assms(2)]
    by (cases v; cases p) (auto simp: stored_as_def input_ok_def value_ok_def get_at_eq_Some)
qed

lemma stored_all_values_ok:
  assumes "stored_all ss vs ps" and "pool_repr (g_strings g') ss" and "\<And>v. v \<in> set vs \<Longrightarrow> input_ok S g d t v"
    and "\<And>nk. kind_count S g' nk = new_total S g d nk" and "p \<in> set ps"
  shows "value_ok S g' t p"
proof -
  obtain v where "v \<in> set vs" "stored_as ss v p"
    using assms(1,5) unfolding stored_all_def list_all2_conv_all_nth in_set_conv_nth by metis
  then show ?thesis using stored_value_ok [OF _ assms(2)] assms(3,4) by blast
qed

lemma node_values_mem:
  assumes "v \<in> set (node_values nodes nk pk j)" and "j < new_count nodes nk"
  obtains n vs where "n \<in> set nodes" and "(pk, vs) \<in> set (nn_properties n)" and "v \<in> set vs"
proof -
  have "of_kind nk nodes ! j \<in> set (of_kind nk nodes)" using assms(2) by (simp add: new_count_def)
  then have n: "of_kind nk nodes ! j \<in> set nodes" by (simp add: of_kind_def)
  show thesis
  proof (cases "map_of (nn_properties (of_kind nk nodes ! j)) pk")
    case None
    then show ?thesis using assms(1) by (simp add: node_values_def)
  next
    case (Some vs)
    then show ?thesis using assms(1) that [OF n map_of_SomeD] by (simp add: node_values_def)
  qed
qed

lemma edges_added_value:
  assumes "edges_added S ids lives ss es adds" and "(s, t, k, p) \<in> set adds"
  shows "\<exists>e\<in>set es. ne_kind e = k \<and> edge_value ss e p"
proof -
  obtain props where props: "list_all2 (edge_value ss) es props" "adds = concat (map2 (edge_added S ids lives) es props)"
    using assms(1) by (auto simp: edges_added_def)
  then obtain e q where "(e, q) \<in> set (zip es props)" "(s, t, k, p) \<in> set (edge_added S ids lives e q)"
    using assms(2) by auto
  then show ?thesis
    using props(1) by (auto simp: list_all2_iff edge_added_def dest: set_zip_leftD split: option.splits if_splits)
qed

lemma added_halves_mem: "h \<in> set (added_halves S adds nk d ek seq) \<Longrightarrow> \<exists>s t. (s, t, ek, snd h) \<in> set adds"
  by (cases d) (clarsimp, rule exI, rule exI, assumption)+

section \<open>Valid diffs\<close>

lemma applied_prop_values:
  assumes ok: "graph_ok S g'" and old: "values_ok S g (p_enum_index S pk) (ps_values (prop_slot_of S g nk pk))"
    and okg: "graph_ok S g" and dv: "diff_valid S g d" and pool: "pool_repr (g_strings g') ss" and grown: "grown g g'"
    and rows: "rows_applied S g d ss rem adds g'"
  shows "values_ok S g' (p_enum_index S pk) (ps_values (prop_slot_of S g' nk pk))"
  unfolding prop_values_rows [OF ok]
proof (intro allI impI ballI)
  fix seq v assume seq: "seq < kind_count S g' nk" and v: "v \<in> set (prop_row S g' nk pk seq)"
  note count = rows_appliedD(1) [OF rows]
  have row: "prop_row_applied S g d ss g' nk pk seq" using rows_appliedD(4) [OF rows] seq by (simp add: count)
  show "value_ok S g' (p_enum_index S pk) v"
  proof (cases "seq < kind_count S g nk")
    case True
    show ?thesis
    proof (cases "last_update S (gd_changes d) nk pk seq")
      case None
      then have "v \<in> set (prop_row S g nk pk seq)" using row True v by (simp add: prop_row_applied_def)
      then have "value_ok S g (p_enum_index S pk) v" using old True by (simp add: prop_values_rows [OF okg])
      then show ?thesis using grown by (rule value_ok_grown)
    next
      case (Some q)
      obtain r where "UpdateNodeProperty r pk q \<in> set (gd_changes d)" using last_update_change [OF Some] by blast
      note input = diff_validD(1) [OF dv this]
      have "stored_all ss (quantified_values q) (prop_row S g' nk pk seq)"
        using row True Some by (simp add: prop_row_applied_def)
      then show ?thesis by (rule stored_all_values_ok [OF _ pool input count v])
    qed
  next
    case False
    then have st: "stored_all ss (node_values (gd_new_nodes d) nk pk (seq - kind_count S g nk)) (prop_row S g' nk pk seq)"
      using row by (simp add: prop_row_applied_def)
    have less: "seq - kind_count S g nk < new_count (gd_new_nodes d) nk" using seq False by (simp add: count new_total_def)
    have "input_ok S g d (p_enum_index S pk) w"
      if "w \<in> set (node_values (gd_new_nodes d) nk pk (seq - kind_count S g nk))" for w
      by (rule node_values_mem [OF that less]) (rule diff_validD(2) [OF dv])
    then show ?thesis by (rule stored_all_values_ok [OF st pool _ count v])
  qed
qed

lemma applied_edge_values:
  assumes ok: "graph_ok S g'" and old: "values_ok S g (e_enum_index S ek) (es_values (edge_slot_of S g nk dir ek))"
    and okg: "graph_ok S g" and dv: "diff_valid S g d" and pool: "pool_repr (g_strings g') ss" and grown: "grown g g'"
    and rows: "rows_applied S g d ss rem adds g'" and edges: "diff_edges S g d ss rem adds"
  shows "values_ok S g' (e_enum_index S ek) (es_values (edge_slot_of S g' nk dir ek))"
  unfolding edge_values_rows [OF ok]
proof (intro allI impI ballI)
  fix seq h assume seq: "seq < kind_count S g' nk" and h: "h \<in> set (edge_row S g' nk dir ek seq)"
  note count = rows_appliedD(1) [OF rows]
  have "edge_row_applied S g rem adds g' nk dir ek seq" using rows_appliedD(3) [OF rows] seq by (simp add: count)
  then consider (old) "seq < kind_count S g nk" "h \<in> set (edge_row S g nk dir ek seq)"
    | (new) "h \<in> set (added_halves S adds nk dir ek seq)"
    using h by (auto simp: edge_row_applied_def remove_at_mem split: if_splits)
  then show "half_value_ok S g' ek h"
  proof cases
    case old
    then have "half_value_ok S g ek h" using \<open>values_ok S g _ _\<close> by (simp add: edge_values_rows [OF okg])
    then show ?thesis using grown by (rule half_value_ok_grown)
  next
    case new
    have "edges_added S (diff_ids S g d) (diff_lives S g d) ss (gd_new_edges d) adds" using edges by (simp add: diff_edges_def)
    then obtain e where e: "e \<in> set (gd_new_edges d)" "ne_kind e = ek" "edge_value ss e (snd h)"
      using edges_added_value added_halves_mem [OF new] by blast
    have "value_ok S g' (e_enum_index S ek) p" if some: "snd h = Some p" for p
    proof -
      obtain v where "ne_property e = Some v" "stored_as ss v p"
        using e(3) some by (auto simp: edge_value_def split: option.splits)
      then show ?thesis using stored_value_ok [OF _ pool _ count] diff_validD(3) [OF dv e(1)] e(2) by blast
    qed
    then show ?thesis by (simp add: half_value_ok_def)
  qed
qed

theorem apply_wf:
  assumes wf: "graph_wf S g" and fits: "diff_fits g d" and live: "diff_live S g d" and dv: "diff_valid S g d"
    and app: "apply_diff S d g = Ok (g', ids)"
  shows "graph_wf S g'"
proof -
  have ok: "graph_ok S g" and vals: "graph_values_ok S g" and paired: "edges_paired S g ek" for ek
    using wf by (simp_all add: graph_wf_def)
  note ok' = apply_Ok(2) [OF ok fits app]
  obtain ss ss' rem adds where pools: "pool_repr (g_strings g) ss" "pool_repr (g_strings g') ss'" "prefix ss ss'"
    and edges: "diff_edges S g d ss' rem adds" and rows: "rows_applied S g d ss' rem adds g'"
    using apply_Ok(3) [OF ok fits app] by (auto simp: diff_applied_def)
  have grown: "grown g g'"
    using rows_appliedD(1) [OF rows] pools prefix_length_le [OF pools(3)]
    by (simp add: grown_def new_total_def pool_len_repr)
  have "graph_values_ok S g'"
    unfolding graph_values_ok_def
    using applied_prop_values [OF ok' _ ok dv pools(2) grown rows]
      applied_edge_values [OF ok' _ ok dv pools(2) grown rows edges] vals
    unfolding graph_values_ok_def by blast
  then show ?thesis
    using ok' apply_paired [OF ok fits app paired] live by (simp add: graph_wf_def diff_live_def)
qed

end

section \<open>The valid graphs a program reaches\<close>

inductive reachable_valid :: "('n, 'e, 'p, 'r) schema \<Rightarrow> graph \<Rightarrow> bool" for S where
  valid_created: "graph_new S = Ok g \<Longrightarrow> reachable_valid S g"
| valid_loaded: "graph_of_raw par S raw = Ok g \<Longrightarrow> pool_repr (rg_strings raw) ss \<Longrightarrow> reachable_valid S g"
| valid_stepped: "reachable_valid S g \<Longrightarrow> graph_step S g d g' \<Longrightarrow> diff_live S g d \<Longrightarrow> diff_valid S g d \<Longrightarrow> reachable_valid S g'"

context schema_laws begin

lemma same_content_values:
  assumes "same_content g g'" and "graph_ok S g" and "graph_values_ok S g"
  shows "graph_values_ok S g'"
proof -
  obtain ss where ss: "pool_repr (g_strings g) ss" using graph_okD(7) [OF assms(2)] by blast
  have same: "g' = g\<lparr>g_strings := g_strings g'\<rparr>" and "pool_repr (g_strings g') ss"
    using assms(1) ss by (auto simp: same_content_def)
  then have len: "pool_len (g_strings g') = pool_len (g_strings g)" using ss by (simp add: pool_len_repr)
  have counts: "kind_count S g' nk = kind_count S g nk" and slots: "prop_slot_of S g' nk pk = prop_slot_of S g nk pk"
      "edge_slot_of S g' nk d ek = edge_slot_of S g nk d ek" for nk pk d ek
    by (subst same; simp add: kind_count_def prop_slot_of_def edge_slot_of_def)+
  have "value_ok S g' t v = value_ok S g t v" for t v
    by (cases v) (simp_all add: value_ok_def node_exists_def counts len split: option.split)
  then show ?thesis using assms(3) by (simp add: graph_values_ok_def values_ok_def slots)
qed

lemma graph_step_wf:
  assumes wf: "graph_wf S g" and step: "graph_step S g d g'" and live: "diff_live S g d" and dv: "diff_valid S g d"
  shows "graph_wf S g'"
proof -
  have ok: "graph_ok S g" using wf by (simp add: graph_wf_def)
  show ?thesis
    using graph_step_cases [OF ok step]
  proof (elim disjE conjE exE)
    assume "same_content g g'"
    then show ?thesis
      using wf same_content_ok same_content_values same_content_paired by (metis graph_wf_def)
  qed (rule apply_wf [OF wf _ live dv])
qed

lemma graph_new_wf:
  assumes new: "graph_new S = Ok g"
  shows "graph_wf S g"
proof -
  have ok: "graph_ok S g" and zero: "kind_count S g nk = 0" for nk using graph_new_ok new by fastforce+
  then have "graph_values_ok S g"
    by (simp add: graph_values_ok_def prop_values_rows edge_values_rows)
  then show ?thesis using ok graph_new_paired [OF new] by (simp add: graph_wf_def)
qed

lemma reachable_valid_wf: "reachable_valid S g \<Longrightarrow> graph_wf S g"
proof (induction rule: reachable_valid.induct)
  case (valid_stepped g d g')
  then show ?case using graph_step_wf by blast
qed (use graph_new_wf graph_of_raw_wf in blast)+

lemma reachable_valid_checked:
  assumes "reachable_valid S g"
  shows "graph_check_integrity par S g = Ok ()"
proof -
  have wf: "graph_wf S g" using assms by (rule reachable_valid_wf)
  then obtain ss where "pool_repr (g_strings g) ss" using graph_okD(7) [of S g] by (auto simp: graph_wf_def)
  then show ?thesis using decides_iff [OF graph_check_integrity_cases(1)] wf by blast
qed

end

end
