(* ===== verification/Integrity_Theorems.thy ===== *)
theory Integrity_Theorems
  imports Sample Valid_Spec Room_Spec
begin

text \<open>
  The properties of \<open>check_integrity\<close>: it decides a declarative notion of a valid graph, with or without
  the parallel feature, and a graph passes through \<open>RawGraph\<close> and back unchanged exactly when it is valid.
\<close>

section \<open>Values that a diff stores\<close>

text \<open>The values that are in the graph afterwards because of the diff, each with the index of the enum its place
  is declared with: those of the last update of a property, those of a new node, and that of a new edge
  whose ends are both there.\<close>

definition diff_stores ::
  "('n, 'e, 'p, 'r) schema \<Rightarrow> graph \<Rightarrow> ('n, 'e, 'p) graph_diff \<Rightarrow> nat option \<Rightarrow> property_value \<Rightarrow> bool" where
  "diff_stores S g d t v \<longleftrightarrow>
     (\<exists>nk pk seq q. seq < kind_count S g nk \<and> last_update S (gd_changes d) nk pk seq = Some q \<and>
        v \<in> set (quantified_values q) \<and> t = p_enum_index S pk) \<or>
     (\<exists>n\<in>set (gd_new_nodes d). \<exists>pk vs. map_of (nn_properties n) pk = Some vs \<and> v \<in> set vs \<and> t = p_enum_index S pk) \<or>
     (\<exists>e\<in>set (gd_new_edges d). ne_property e = Some v \<and> t = e_enum_index S (ne_kind e) \<and>
        (\<exists>a. resolve_node_ref S (diff_ids S g d) (ne_src e) = Some a \<and> diff_lives S g d a) \<and>
        (\<exists>b. resolve_node_ref S (diff_ids S g d) (ne_dst e) = Some b \<and> diff_lives S g d b))"

lemma map_each_memD: "map_each f xs = Ok ys \<Longrightarrow> y \<in> set ys \<Longrightarrow> \<exists>x\<in>set xs. f x = Ok y"
  by (induction xs arbitrary: ys) (auto simp: andthen_eq_Ok)

context schema_laws begin

text \<open>A value of the diff that is not an id of a node or variant that is there is no better in the graph.\<close>

lemma stored_bad:
  assumes "graph_resolve_property g' q = Ok v" and "\<And>nk. kind_count S g' nk = new_total S g d nk" and "\<not> input_ok S g d t v"
  shows "\<not> value_ok S g' t q"
proof -
  have "node_after S g d r \<longleftrightarrow> node_exists S g' r" for r by (rule node_after_exists) (rule assms(2))
  then show ?thesis
    using assms(1,3)
    by (cases q) (auto simp: graph_resolve_property_def input_ok_def value_ok_def map_ok_eq_Ok)
qed

lemma bad_prop_row:
  assumes ok: "graph_ok S g'" and seq: "seq < kind_count S g' nk"
    and row: "map_each (graph_resolve_property g') (prop_row S g' nk pk seq) = Ok vs" and v: "v \<in> set vs"
    and count: "\<And>nk. kind_count S g' nk = new_total S g d nk" and bad: "\<not> input_ok S g d (p_enum_index S pk) v"
  shows "\<not> graph_values_ok S g'"
proof -
  obtain q where "q \<in> set (prop_row S g' nk pk seq)" "graph_resolve_property g' q = Ok v" using map_each_memD [OF row v] by blast
  then show ?thesis
    using seq stored_bad [OF _ count bad] unfolding graph_values_ok_def prop_values_rows [OF ok] by blast
qed

lemma stored_values_bad:
  assumes ok: "graph_ok S g'" and app: "diff_applied S g d g'" and stores: "diff_stores S g d t v" and bad: "\<not> input_ok S g d t v"
  shows "\<not> graph_values_ok S g'"
proof -
  have count: "kind_count S g' nk = new_total S g d nk" for nk
    using app by (auto simp: diff_applied_def rows_applied_def)
  consider (update) nk pk seq q where "seq < kind_count S g nk" "last_update S (gd_changes d) nk pk seq = Some q"
      "v \<in> set (quantified_values q)" "t = p_enum_index S pk"
    | (node) n pk vs where "n \<in> set (gd_new_nodes d)" "map_of (nn_properties n) pk = Some vs" "v \<in> set vs" "t = p_enum_index S pk"
    | (edge) e a b where "e \<in> set (gd_new_edges d)" "ne_property e = Some v" "t = e_enum_index S (ne_kind e)"
      "resolve_node_ref S (diff_ids S g d) (ne_src e) = Some a" "diff_lives S g d a"
      "resolve_node_ref S (diff_ids S g d) (ne_dst e) = Some b" "diff_lives S g d b"
    using stores unfolding diff_stores_def by blast
  then show ?thesis
  proof cases
    case update
    then have "seq < kind_count S g' nk" by (simp add: count new_total_def)
    then show ?thesis
      using bad_prop_row [OF ok _ applied_update [OF app update(1,2)] update(3) count] bad update(4) by simp
  next
    case node
    obtain i where i: "i < length (gd_new_nodes d)" "gd_new_nodes d ! i = n" using node(1) by (auto simp: in_set_conv_nth)
    have "nid_seq (diff_ids S g d ! i) < kind_count S g' (nn_kind n)"
      using i new_count_take_less [OF i(1)] by (simp add: count new_total_def diff_ids_def new_ids_def new_id_def Let_def)
    moreover have "map_each (graph_resolve_property g') (prop_row S g' (nn_kind n) pk (nid_seq (diff_ids S g d ! i))) = Ok vs"
      using applied_new_node [OF app i(1) refl refl, of pk] i(2) node(2) by auto
    ultimately show ?thesis using bad_prop_row [OF ok _ _ node(3) count] bad node(4) by blast
  next
    case edge
    obtain p where p: "(node_of S (nid_kind b) (nid_seq b), p) \<in> set (edge_row S g' (nid_kind a) Out (ne_kind e) (nid_seq a))"
      "case (ne_property e, p) of (None, None) \<Rightarrow> True | (Some v, Some q) \<Rightarrow> graph_resolve_property g' q = Ok v | _ \<Rightarrow> False"
      using applied_new_edge [OF app edge(1,4-7)] by blast
    then obtain q where q: "p = Some q" "graph_resolve_property g' q = Ok v" by (cases p) (simp_all add: edge(2))
    have "\<not> half_value_ok S g' (ne_kind e) (node_of S (nid_kind b) (nid_seq b), p)"
      using stored_bad [OF q(2) count bad] by (simp add: half_value_ok_def q(1) edge(3))
    moreover have "nid_seq a < kind_count S g' (nid_kind a)"
      using edge(5) by (simp add: count diff_lives_def node_lives_def)
    ultimately show ?thesis
      using p(1) unfolding graph_values_ok_def edge_values_rows [OF ok] by blast
  qed
qed

end

section \<open>A dangling node reference\<close>

text \<open>The \<open>Ref\<close> of the \<open>Gamma\<close> node set to a node that does not exist.\<close>

definition dangling_update :: "(simple_node, simple_edge, simple_property) graph_diff" where
  "dangling_update =
     graph_diff_default\<lparr>gd_changes := [UpdateNodeProperty (RawNodeId 2 0) Ref (QOne (VNodeId (RawNodeId 0 9)))]\<rparr>"

lemma dangling_good:
  "diff_fits sample_graph dangling_update" "diff_typed simple_schema dangling_update"
  "diff_resolves simple_schema sample_graph dangling_update" "slots_within u32_max simple_schema sample_graph dangling_update"
  "strings_room sample_graph dangling_update"
proof -
  show "diff_fits sample_graph dangling_update" "diff_typed simple_schema dangling_update"
    by (simp_all add: diff_fits_def sample_graph_def sample_with_def dangling_update_def graph_diff_default_def u32_max_def
        diff_typed_def values_typed_def simple_schema_def)
  have "n_from_index simple_schema 2 = Some Gamma" by (simp add: simple_schema_def)
  moreover have "ps_offsets (prop_slot_of simple_schema sample_graph Gamma Ref) = [0, 1]" by code_simp
  ultimately show "diff_resolves simple_schema sample_graph dangling_update"
    by (simp add: diff_resolves_def dangling_update_def graph_diff_default_def change_resolves_def raw_kind_def raw_seq_def)
  have "prop_len_after simple_schema sample_graph dangling_update nk pk \<le> 2" for nk pk
    by (cases nk; cases pk; hypsubst; code_simp)
  moreover have "edge_len_after simple_schema sample_graph dangling_update nk d ek \<le> 4" for nk d ek
    by (cases nk; cases d; cases ek; hypsubst; code_simp)
  moreover have "2 \<le> u32_max" "4 \<le> u32_max" by (simp_all add: u32_max_def)
  ultimately show "slots_within u32_max simple_schema sample_graph dangling_update" unfolding slots_within_def using le_trans by blast
  have "diff_strings dangling_update = {}"
    by (simp add: diff_strings_def change_strings_def update_strings_def node_strings_def edge_strings_def dangling_update_def
        graph_diff_default_def)
  moreover have "ss = []" if "pool_repr (g_strings sample_graph) ss" for ss
    using that pool_repr_unique [OF pool_repr_new, of ss] by (simp add: sample_graph_def sample_with_def)
  ultimately show "strings_room sample_graph dangling_update" by (fastforce simp: strings_room_def)
qed

lemma sample_pool: "pool_repr (g_strings sample_graph) []"
  by (simp add: sample_graph_def sample_with_def pool_repr_new)

lemma sample_wf: "graph_wf simple_schema sample_graph"
proof -
  have "values_ok simple_schema sample_graph t (ps_values (prop_slot_of simple_schema sample_graph nk pk))" for t nk pk
  proof -
    have "node_exists simple_schema sample_graph (RawNodeId 0 0)"
      using simple.node_exists_node_of [of 0 sample_graph Alpha] by (simp add: node_of_def u32_max_def)
    then show ?thesis
      by (cases nk; cases pk)
        (simp_all add: values_ok_def value_ok_def sample_eval)
  qed
  moreover have "values_ok simple_schema sample_graph t (es_values (edge_slot_of simple_schema sample_graph nk d ek))" for t nk d ek
    by (cases nk; cases d; cases ek)
      (simp_all add: values_ok_def sample_eval)
  ultimately show ?thesis
    using sample_ok simple.reachable_live_paired [OF sample_reachable_live] by (simp add: graph_wf_def graph_values_ok_def)
qed

lemma sample_checked: "graph_check_integrity par simple_schema sample_graph = Ok ()"
  using simple.graph_check_integrity_cases(1) [OF sample_pool, of par] sample_wf
  by (cases "graph_check_integrity par simple_schema sample_graph") simp_all

lemma sample_dense: "\<exists>ni. node_index_new (kinds_of simple_schema sample_graph) = Ok ni"
  using node_index_new_spec [of "kinds_of simple_schema sample_graph"]
  by (cases "node_index_new (kinds_of simple_schema sample_graph)") (simp_all add: kinds_of_def u32_max_def)

section \<open>Properties\<close>

text \<open>C4: for a graph with a sound string pool, \<open>check_integrity\<close> ends without a panic and accepts exactly
  the valid graphs: slots that cut their data into one row per node, values of the schema's types that
  refer to nodes, strings and enum variants that exist, neighbors that exist, and half-edges that agree
  between the two directions with their values.\<close>

theorem check_integrity_decides:
  assumes "schema_laws S" and "pool_repr (g_strings g) ss"
  shows "case graph_check_integrity par S g of
      Ok _ \<Rightarrow> graph_ok S g \<and> graph_values_ok S g \<and> (\<forall>ek. edges_paired S g ek)
    | Err _ \<Rightarrow> \<not> (graph_ok S g \<and> graph_values_ok S g \<and> (\<forall>ek. edges_paired S g ek))
    | Panic \<Rightarrow> False
    | Diverge \<Rightarrow> False"
  using schema_laws.graph_check_integrity_cases(1) [OF assms, of par]
  unfolding graph_wf_def by (cases "graph_check_integrity par S g") auto

theorem check_integrity_decides_witness: "\<forall>ek. edges_paired simple_schema sample_graph ek"
  using check_integrity_decides [OF simple_schema_laws sample_pool, of False] by (simp add: sample_checked)

text \<open>C27: the check with the \<open>parallel\<close> feature returns what the sequential one returns, the same error
  included, whatever the size of the graph.\<close>

theorem parallel_check_agrees:
  assumes "schema_laws S" and "pool_repr (g_strings g) ss"
  shows "graph_check_integrity par S g = graph_check_integrity False S g"
  by (rule schema_laws.graph_check_integrity_cases(2) [OF assms])

theorem parallel_check_agrees_witness: "graph_check_integrity True simple_schema sample_graph = Ok ()"
  using parallel_check_agrees [OF simple_schema_laws sample_pool, where par = True] sample_checked by (rule trans)

text \<open>C26: a graph turned into a \<open>RawGraph\<close> converts back to itself exactly when it is valid, and what a
  raw graph converts to is a valid graph with the same content.\<close>

theorem raw_graph_roundtrip:
  assumes "schema_laws S" and "pool_repr (g_strings g) ss"
  shows "(graph_of_raw par S (raw_of_graph g) = Ok g \<longleftrightarrow> graph_wf S g) \<and>
    (\<forall>g'. graph_of_raw par S (raw_of_graph g) = Ok g' \<longrightarrow> g' = g)"
proof -
  have "graph_of_raw par S (raw_of_graph g) = andthen (graph_check_integrity par S g) (\<lambda>_. Ok g)"
    by (cases g) (simp add: graph_of_raw_def raw_of_graph_def graph_check_integrity_def)
  then show ?thesis
    using schema_laws.graph_check_integrity_cases(1) [OF assms, of par]
    by (cases "graph_check_integrity par S g") simp_all
qed

theorem raw_graph_roundtrip_witness:
  "graph_of_raw False simple_schema (raw_of_graph sample_graph) = Ok sample_graph"
  using raw_graph_roundtrip [OF simple_schema_laws sample_pool] sample_wf by blast

text \<open>In the index that numbers the nodes of all kinds densely the number of a node resolves back to it, and numbers order as the ids do, so the sorted
  half-edges of the pairing check are sorted by id.\<close>

theorem node_index_roundtrip:
  assumes "node_index_new kinds = Ok ni" and "node_in kinds a" and "node_in kinds b"
  shows "resolve_dense ni (densify ni a) = Ok a \<and> (densify ni a < densify ni b \<longleftrightarrow> a < b) \<and>
    (densify ni a = densify ni b \<longleftrightarrow> a = b)"
proof -
  have "node_index_of ni kinds" using node_index_new_spec [of kinds] assms(1) by simp
  then show ?thesis using assms(2,3) by (simp add: resolve_densify densify_less densify_inject)
qed

theorem node_index_roundtrip_witness:
  "\<exists>ni. node_index_new (kinds_of simple_schema sample_graph) = Ok ni \<and>
     resolve_dense ni (densify ni (RawNodeId 2 0)) = Ok (RawNodeId 2 0)"
proof -
  have "node_in (kinds_of simple_schema sample_graph) (RawNodeId 2 0)"
    by (simp add: node_in_def kinds_of_def raw_kind_def raw_seq_def)
  then show ?thesis using node_index_roundtrip sample_dense by blast
qed

lemma sample_reachable_valid: "reachable_valid simple_schema sample_graph"
proof -
  obtain g0 where g0: "graph_new simple_schema = Ok g0" "graph_ok simple_schema g0"
    "diff_fits g0 sample_diff" "apply_diff simple_schema sample_diff g0 = Ok (sample_graph, sample_ids)"
    by (rule sample_built)
  have "diff_live simple_schema g0 sample_diff"
    by (simp add: diff_live_def sample_diff_def removed_edges_def)
  moreover have "diff_valid simple_schema g0 sample_diff"
    by (auto simp: diff_valid_def sample_diff_def input_ok_def node_after_def new_total_def new_count_def of_kind_def
        simple_schema_def raw_kind_def raw_seq_def base_edge_def)
  ultimately show ?thesis using g0 reachable_valid.intros graph_step.intros by metis
qed

text \<open>C5: a graph built by diffs that remove edges by live handles and hold only ids of nodes of the graph
  they make and of enum variants of the schema always passes the integrity check, sequential or
  parallel; this includes the diffs that were refused or dropped along the way.\<close>

theorem valid_diffs_keep_integrity:
  assumes "schema_laws S" and "reachable_valid S g"
  shows "graph_check_integrity par S g = Ok ()"
  by (rule schema_laws.reachable_valid_checked [OF assms])

theorem valid_diffs_keep_integrity_witness: "graph_check_integrity True simple_schema sample_graph = Ok ()"
  by (rule valid_diffs_keep_integrity [OF simple_schema_laws sample_reachable_valid])

text \<open>C40: \<open>apply\<close> does not look at the node ids and enum ids among the values of a diff. Under the conditions
  of C8, a diff that stores an id of a node that will not exist, or of an enum variant its property is not
  declared with, is applied like any other, and the graph it returns fails the integrity check.\<close>

theorem dangling_reference_accepted:
  assumes "schema_laws S" and "reachable_live S g" and "diff_fits g d" and "diff_typed S d" and "diff_resolves S g d"
    and "slots_within u32_max S g d" and "strings_room g d"
    and "diff_stores S g d t v" and "\<not> input_ok S g d t v"
  shows "\<exists>g'. apply_diff S d g = Ok (g', diff_ids S g d) \<and> (\<exists>e. graph_check_integrity par S g' = Err e)"
proof -
  have ok: "graph_ok S g"
    by (rule schema_laws.reachable_graph_ok [OF assms(1) reachable_live_reachable [OF assms(2)]])
  obtain g' where app: "apply_diff S d g = Ok (g', diff_ids S g d)"
    using schema_laws.fitting_diff_applies [OF assms(1) ok assms(3) schema_laws.reachable_live_paired [OF assms(1,2)] assms(4-7)]
    by blast
  note ok' = schema_laws.apply_Ok(2) [OF assms(1) ok assms(3) app]
  obtain ss where pool: "pool_repr (g_strings g') ss" using graph_okD(7) [OF ok'] by blast
  have "\<not> graph_wf S g'"
    using schema_laws.stored_values_bad [OF assms(1) ok' schema_laws.apply_Ok(3) [OF assms(1) ok assms(3) app] assms(8,9)]
    by (simp add: graph_wf_def)
  then show ?thesis
    using schema_laws.graph_check_integrity_cases(1) [OF assms(1) pool, of par] app
    by (cases "graph_check_integrity par S g'") simp_all
qed

text \<open>The sample graph passes the check; the update of the \<open>Ref\<close> of its \<open>Gamma\<close> node to a node that does not
  exist is applied, and the graph afterwards does not pass.\<close>

theorem dangling_reference_accepted_witness:
  "graph_check_integrity False simple_schema sample_graph = Ok () \<and>
   (\<exists>g'. apply_diff simple_schema dangling_update sample_graph = Ok (g', []) \<and>
     (\<exists>e. graph_check_integrity False simple_schema g' = Err e))"
proof -
  let ?v = "VNodeId (RawNodeId 0 9)"
  have "last_update simple_schema (gd_changes dangling_update) Gamma Ref 0 = Some (QOne ?v)"
    by (simp add: last_update_def dangling_update_def graph_diff_default_def simple.node_of_raw_Ok raw_kind_def raw_seq_def)
  then have "diff_stores simple_schema sample_graph dangling_update (p_enum_index simple_schema Ref) ?v"
    unfolding diff_stores_def by (intro disjI1 exI conjI) (assumption | simp)+
  moreover have "\<not> input_ok simple_schema sample_graph dangling_update (p_enum_index simple_schema Ref) ?v"
  proof -
    have "n_from_index simple_schema 0 = Some Alpha" by (simp add: simple_schema_def)
    then show ?thesis
      by (simp add: input_ok_def node_after_def raw_kind_def raw_seq_def new_total_def new_count_def of_kind_def
          dangling_update_def graph_diff_default_def)
  qed
  moreover have "diff_ids simple_schema sample_graph dangling_update = []"
    by (simp add: diff_ids_def new_ids_def dangling_update_def graph_diff_default_def)
  ultimately show ?thesis
    using dangling_reference_accepted [OF simple_schema_laws sample_reachable_live dangling_good, where par = False] sample_checked
    by auto
qed

end
