(* ===== verification/Derive_Enums.thy ===== *)
theory Derive_Enums
  imports Schema
begin

text \<open>
  The derives of \<open>graph-schema-derive\<close> that turn an enum into the tables of a kind
  (\<open>enum_derives.rs\<close>, the helpers of \<open>common.rs\<close>, and the property lists of
  \<open>node_structs_derives.rs\<close>). What \<open>syn\<close> parses is data: an item is its name, attributes and variants,
  and an attribute is its name with the arguments as \<open>syn\<close> splits them. What a derive returns is the
  arms of the matches it generates, in order; such a match takes the first arm that fits, as \<open>map_of\<close>
  does. A \<open>compile_error!\<close> is an error value.
\<close>

section \<open>Items\<close>

type_synonym ident = string

text \<open>\<open>GenericArgument\<close> and \<open>PathArguments\<close>; a type is its tokens.\<close>

datatype generic_argument = TypeArgument string | OtherArgument

datatype path_arguments = NoArguments | AngleBracketed "generic_argument list" | Parenthesized

type_synonym type_path = "(ident \<times> path_arguments) list"

text \<open>
  The arguments of an attribute: \<open>key = value\<close> pairs (a value that is not a path is \<open>None\<close>), a list of
  paths, or tokens that are neither.
\<close>

datatype attr_args = Pairs "(ident \<times> type_path option) list" | Paths "type_path list" | OtherTokens

record attribute =
  at_ident :: ident
  at_args :: attr_args

record enum_variant =
  v_ident :: ident
  v_attrs :: "attribute list"

record item_enum =
  i_ident :: ident
  i_attrs :: "attribute list"
  i_variants :: "enum_variant list"

datatype derive_error =
  SyntaxError
| NotAnnotated ident ident
| MissingParameter ident ident
| AbsentProperty ident bool
| EmptyTypPath
| EnumArgumentRequired
| EnumArgumentCount
| UnsupportedTyp string
| NoneOnProperty ident
| DuplicateMethod ident ident
| MissingEnumType ident
| EmptyRegistry ident
| DuplicateEnumType ident
| UnknownKey ident
| DuplicateKey ident
| MissingKeys "string list"
| InvalidVersion string
| InvalidComponent string string

type_synonym 'a derived = "(derive_error, 'a) outcome"

definition variant_idents :: "item_enum \<Rightarrow> ident list" where
  "variant_idents input = map v_ident (i_variants input)"

section \<open>Attributes\<close>

definition find_attribute :: "ident \<Rightarrow> attribute list \<Rightarrow> attribute option" where
  "find_attribute ident_str attrs = find (\<lambda>a. at_ident a = ident_str) attrs"

definition require_attribute :: "ident \<Rightarrow> attribute list \<Rightarrow> ident \<Rightarrow> attribute derived" where
  "require_attribute attr_name attrs on =
     ok_or (NotAnnotated on attr_name) (find_attribute attr_name attrs)"

text \<open>\<open>parse_args_with\<close> of the three grammars the derives use; \<open>()\<close> fits all of them.\<close>

definition parse_pairs :: "attribute \<Rightarrow> (ident \<times> type_path option) list derived" where
  "parse_pairs attr = (case at_args attr of Pairs ps \<Rightarrow> Ok ps | Paths [] \<Rightarrow> Ok [] | _ \<Rightarrow> Err SyntaxError)"

definition parse_comma_separated_types :: "attribute \<Rightarrow> type_path list derived" where
  "parse_comma_separated_types attr =
     (case at_args attr of Paths ps \<Rightarrow> Ok ps | Pairs [] \<Rightarrow> Ok [] | _ \<Rightarrow> Err SyntaxError)"

definition require_type_param :: "(ident \<times> type_path option) list \<Rightarrow> ident \<Rightarrow> ident \<Rightarrow> type_path derived" where
  "require_type_param args key attr_name =
     andthen (ok_or (MissingParameter key attr_name) (find (\<lambda>m. fst m = key) args)) (\<lambda>m.
     ok_or SyntaxError (snd m))"

definition parse_kind_attr :: "ident \<Rightarrow> item_enum \<Rightarrow> (ident \<times> type_path option) list derived" where
  "parse_kind_attr attr_name input =
     andthen (require_attribute attr_name (i_attrs input) (i_ident input)) parse_pairs"

definition typ_last_segment_name :: "type_path \<Rightarrow> ident derived" where
  "typ_last_segment_name typ = (if typ = [] then Err EmptyTypPath else Ok (fst (last typ)))"

definition enum_typ_inner_type :: "type_path \<Rightarrow> string derived" where
  "enum_typ_inner_type typ =
     (if typ = [] then Err EmptyTypPath
      else case snd (last typ) of
        AngleBracketed args \<Rightarrow>
          (case List.map_filter (\<lambda>a. case a of TypeArgument t \<Rightarrow> Some t | OtherArgument \<Rightarrow> None) args of
             [inner_ty] \<Rightarrow> Ok inner_ty
           | _ \<Rightarrow> Err EnumArgumentCount)
      | _ \<Rightarrow> Err EnumArgumentRequired)"

section \<open>The tables of an enum\<close>

definition enum_item_all_derive :: "item_enum \<Rightarrow> ident list" where
  "enum_item_all_derive input = variant_idents input"

definition enum_item_from_index_derive :: "item_enum \<Rightarrow> (nat \<times> ident) list" where
  "enum_item_from_index_derive input = map (\<lambda>(i, v). (i, v)) (enumerate 0 (variant_idents input))"

definition enum_item_index_derive :: "item_enum \<Rightarrow> (ident \<times> nat) list" where
  "enum_item_index_derive input = map (\<lambda>(i, v). (v, i)) (enumerate 0 (variant_idents input))"

record property_item_attrs =
  pa_variant :: ident
  prop_typ :: "type_path option"
  prop_qty :: "type_path option"
  pa_rename :: "type_path option"

definition parse_property_attr :: "attribute \<Rightarrow> ident \<Rightarrow> property_item_attrs derived" where
  "parse_property_attr attr variant =
     andthen (parse_pairs attr) (\<lambda>args.
     andthen (map_each (\<lambda>(k, v). map_ok (\<lambda>p. (k, p)) (ok_or SyntaxError v)) args) (\<lambda>prefs.
     Ok \<lparr>pa_variant = variant, prop_typ = map_of prefs ''typ'', prop_qty = map_of prefs ''quantity'',
         pa_rename = map_of prefs ''rename''\<rparr>))"

definition variant_label :: "ident \<Rightarrow> attribute list \<Rightarrow> string derived" where
  "variant_label variant attrs =
     andthen (case find_attribute ''property'' attrs of
         Some attr \<Rightarrow> map_ok pa_rename (parse_property_attr attr variant)
       | None \<Rightarrow> Ok None) (\<lambda>rename.
     case rename of
       Some rename_typ \<Rightarrow> typ_last_segment_name rename_typ
     | None \<Rightarrow> Ok variant)"

definition enum_item_as_str_derive :: "item_enum \<Rightarrow> (ident \<times> string) list derived" where
  "enum_item_as_str_derive input =
     map_each (\<lambda>v. map_ok (\<lambda>label. (v_ident v, label)) (variant_label (v_ident v) (v_attrs v)))
       (i_variants input)"

definition enum_item_from_str_derive :: "item_enum \<Rightarrow> (string \<times> ident) list derived" where
  "enum_item_from_str_derive input =
     map_each (\<lambda>v. map_ok (\<lambda>label. (label, v_ident v)) (variant_label (v_ident v) (v_attrs v)))
       (i_variants input)"

text \<open>The generated \<open>from_str\<close>, over its arms.\<close>

definition derived_from_str :: "item_enum \<Rightarrow> (string \<times> ident) list \<Rightarrow> string \<Rightarrow> ident res" where
  "derived_from_str input arms s =
     (case map_of arms s of Some v \<Rightarrow> Ok v | None \<Rightarrow> Err (UnknownLabel (i_ident input) s))"

text \<open>\<open>absent_attribute_error\<close> and the arms of \<open>ItemKindPropertyType\<close>: the names of the variants of
  \<open>PropertyType\<close> and \<open>QuantityType\<close>, and the domain enum of a property of type \<open>Enum\<close>.\<close>

definition absent_attribute_error :: "ident \<Rightarrow> bool \<Rightarrow> derive_error" where
  "absent_attribute_error variant has_qty = AbsentProperty variant has_qty"

definition property_attrs :: "item_enum \<Rightarrow> bool \<Rightarrow> property_item_attrs list derived" where
  "property_attrs input has_qty =
     map_each (\<lambda>v.
         andthen (ok_or (absent_attribute_error (v_ident v) has_qty) (find_attribute ''property'' (v_attrs v)))
           (\<lambda>attr. parse_property_attr attr (v_ident v)))
       (i_variants input)"

record property_arm =
  pm_variant :: ident
  pm_typ :: ident
  pm_qty :: "type_path option"
  pm_enum :: "string option"

definition item_kind_property_type_derive :: "item_enum \<Rightarrow> bool \<Rightarrow> property_arm list derived" where
  "item_kind_property_type_derive input has_qty =
     andthen (property_attrs input has_qty) (map_each (\<lambda>attr.
       andthen (ok_or (absent_attribute_error (pa_variant attr) has_qty) (prop_typ attr)) (\<lambda>typ.
       andthen (typ_last_segment_name typ) (\<lambda>typ_name.
       andthen (if typ_name = ''Enum'' then map_ok Some (enum_typ_inner_type typ) else Ok None) (\<lambda>enum_index.
       andthen (if has_qty then map_ok Some (ok_or (absent_attribute_error (pa_variant attr) has_qty) (prop_qty attr))
                else Ok None) (\<lambda>qty.
       Ok \<lparr>pm_variant = pa_variant attr, pm_typ = typ_name, pm_qty = qty, pm_enum = enum_index\<rparr>))))))"

section \<open>Names of methods\<close>

definition rust_keywords :: "string list" where
  "rust_keywords =
     [''as'', ''async'', ''await'', ''break'', ''const'', ''continue'', ''crate'', ''dyn'', ''else'', ''enum'', ''extern'',
      ''false'', ''fn'', ''for'', ''if'', ''impl'', ''in'', ''let'', ''loop'', ''match'', ''mod'', ''move'', ''mut'', ''pub'',
      ''ref'', ''return'', ''static'', ''struct'', ''super'', ''trait'', ''true'', ''type'', ''unsafe'', ''use'',
      ''where'', ''while'', ''abstract'', ''become'', ''box'', ''do'', ''final'', ''macro'', ''override'', ''priv'',
      ''typeof'', ''unsized'', ''virtual'', ''yield'', ''try'']"

definition is_rust_keyword :: "string \<Rightarrow> bool" where
  "is_rust_keyword s \<longleftrightarrow> s \<in> set rust_keywords"

text \<open>\<open>char::is_ascii_uppercase\<close> and its relatives, on the code of the character.\<close>

definition is_upper :: "char \<Rightarrow> bool" where
  "is_upper ch \<longleftrightarrow> 65 \<le> (of_char ch :: nat) \<and> (of_char ch :: nat) \<le> 90"

definition is_lower :: "char \<Rightarrow> bool" where
  "is_lower ch \<longleftrightarrow> 97 \<le> (of_char ch :: nat) \<and> (of_char ch :: nat) \<le> 122"

definition is_digit :: "char \<Rightarrow> bool" where
  "is_digit ch \<longleftrightarrow> 48 \<le> (of_char ch :: nat) \<and> (of_char ch :: nat) \<le> 57"

definition to_lower :: "char \<Rightarrow> char" where
  "to_lower ch = (if is_upper ch then char_of (of_char ch + 32 :: nat) else ch)"

definition to_snake_case :: "string \<Rightarrow> string" where
  "to_snake_case input = concat (map (\<lambda>(i, ch).
     if is_upper ch then
       (let prev_lower_or_digit = i > 0 \<and> (is_lower (input ! (i - 1)) \<or> is_digit (input ! (i - 1)));
            prev_upper_next_lower = i > 0 \<and> is_upper (input ! (i - 1)) \<and> i + 1 < length input \<and>
              is_lower (input ! (i + 1)) in
        (if i > 0 \<and> (prev_lower_or_digit \<or> prev_upper_next_lower) then ''_'' else []) @ [to_lower ch])
     else [ch]) (enumerate 0 input))"

text \<open>
  \<open>Ident::new_raw\<close> of the compiler's \<open>proc_macro\<close>: a raw identifier prints with \<open>r#\<close> in front, and
  the keywords that can start a path are refused with a panic.
\<close>

definition ident_new_raw :: "string \<Rightarrow> ident derived" where
  "ident_new_raw s =
     (if s \<in> set [''_'', ''super'', ''self'', ''Self'', ''crate''] then Panic else Ok (''r#'' @ s))"

definition method_ident :: "ident \<Rightarrow> ident derived" where
  "method_ident variant =
     (let snake = to_snake_case variant in if is_rust_keyword snake then ident_new_raw snake else Ok snake)"

section \<open>Available properties\<close>

record node_kind_config =
  nc_schema :: type_path
  nc_property_kind :: type_path

definition parse_node_kind_config :: "item_enum \<Rightarrow> node_kind_config derived" where
  "parse_node_kind_config input =
     andthen (parse_kind_attr ''node_kind'' input) (\<lambda>args.
     andthen (require_type_param args ''schema'' ''node_kind'') (\<lambda>schema.
     andthen (require_type_param args ''property_kind'' ''node_kind'') (\<lambda>property_kind.
     Ok \<lparr>nc_schema = schema, nc_property_kind = property_kind\<rparr>)))"

definition node_available_properties_derive :: "item_enum \<Rightarrow> (ident \<times> type_path list) list derived" where
  "node_available_properties_derive input =
     map_each (\<lambda>v.
         andthen (require_attribute ''properties'' (v_attrs v) (v_ident v)) (\<lambda>attr.
         map_ok (\<lambda>props. (v_ident v, props)) (parse_comma_separated_types attr)))
       (i_variants input)"

section \<open>What the tables are\<close>

lemma map_of_enumerate:
  "map_of (enumerate n xs) i = (if n \<le> i then get_at xs (i - n) else None)"
proof (induction xs arbitrary: n)
  case (Cons x xs)
  then show ?case by (auto simp: get_at_def nth_Cons' Suc_diff_le)
qed (simp add: get_at_def)

lemma from_index_get_at: "map_of (enum_item_from_index_derive input) i = get_at (variant_idents input) i"
  by (simp add: enum_item_from_index_derive_def map_of_enumerate)

lemma map_of_index:
  "distinct xs \<Longrightarrow> i < length xs \<Longrightarrow> map_of (map (\<lambda>(i, v). (v, i)) (enumerate n xs)) (xs ! i) = Some (n + i)"
proof (induction xs arbitrary: n i)
  case (Cons x xs)
  then show ?case by (cases i) auto
qed simp

lemma index_nth:
  "distinct (variant_idents input) \<Longrightarrow> i < length (variant_idents input) \<Longrightarrow>
     map_of (enum_item_index_derive input) (variant_idents input ! i) = Some i"
  using map_of_index [of "variant_idents input" i 0] by (simp add: enum_item_index_derive_def)

text \<open>
  The enum type that the derives are for has one value per variant: \<open>name\<close> is its value's variant. A type
  with these tables has the functions \<open>all\<close>, \<open>index\<close>, \<open>from_index\<close> and \<open>as_str\<close> of the right-hand sides.
\<close>

definition values_named :: "item_enum \<Rightarrow> ('k \<Rightarrow> ident) \<Rightarrow> bool" where
  "values_named input name \<longleftrightarrow> distinct (variant_idents input) \<and>
     inj name \<and> range name = set (variant_idents input) \<and> length (variant_idents input) \<le> u32_max"

definition derives_kind ::
  "item_enum \<Rightarrow> ('k \<Rightarrow> ident) \<Rightarrow> 'k list \<Rightarrow> ('k \<Rightarrow> nat) \<Rightarrow> (nat \<Rightarrow> 'k option) \<Rightarrow> ('k \<Rightarrow> string) \<Rightarrow> bool" where
  "derives_kind input name ks ix fi str \<longleftrightarrow>
     map name ks = enum_item_all_derive input \<and>
     (\<forall>k. map_of (enum_item_index_derive input) (name k) = Some (ix k)) \<and>
     (\<forall>i. map_option name (fi i) = map_of (enum_item_from_index_derive input) i) \<and>
     (\<exists>arms. enum_item_as_str_derive input = Ok arms \<and> (\<forall>k. map_of arms (name k) = Some (str k)))"

lemma derived_kind_laws:
  assumes named: "values_named input name" and derived: "derives_kind input name ks ix fi str"
  shows "kind_laws ks ix fi"
proof -
  have inj: "name a = name b \<longleftrightarrow> a = b" for a b using named by (auto simp: values_named_def inj_def)
  have vs: "variant_idents input = map name ks"
    using derived by (simp add: derives_kind_def enum_item_all_derive_def)
  have at: "ix k = i" if "i < length ks" "ks ! i = k" for i k
    using index_nth [of input i] named derived that by (auto simp: derives_kind_def values_named_def vs)
  have index: "ix k < length ks \<and> ks ! ix k = k" for k
  proof -
    have "inj name" "name k \<in> name ` set ks" using named by (auto simp: values_named_def vs)
    then have "k \<in> set ks" by (simp only: inj_image_mem_iff)
    then obtain i where "i < length ks" "ks ! i = k" by (auto simp only: in_set_conv_nth)
    then show ?thesis using at [of i k] by simp
  qed
  have "map_option name (fi i) = map_option name (get_at ks i)" for i
    using derived by (simp add: derives_kind_def from_index_get_at vs get_at_map)
  then have from_index: "fi i = get_at ks i" for i
    using named by (metis values_named_def option.inj_map injD)
  have "length ks \<le> u32_max" using named by (simp add: values_named_def vs)
  then show ?thesis
    unfolding kind_laws_def using index at from_index by blast
qed

text \<open>Labels: \<open>from_str\<close> finds the first variant with the label.\<close>

lemma map_each_swap:
  "map_each (\<lambda>x. map_ok (\<lambda>b. (f x, b)) (g x)) xs = Ok ps \<Longrightarrow>
     map_each (\<lambda>x. map_ok (\<lambda>b. (b, f x)) (g x)) xs = Ok (map prod.swap ps) \<and> map fst ps = map f xs"
  by (induction xs arbitrary: ps) (auto simp: andthen_eq_Ok map_ok_def)

lemma from_str_arms:
  assumes "enum_item_as_str_derive input = Ok arms"
  shows "enum_item_from_str_derive input = Ok (map prod.swap arms)" and "map fst arms = variant_idents input"
  using map_each_swap [OF assms [unfolded enum_item_as_str_derive_def]]
  by (simp_all add: enum_item_from_str_derive_def variant_idents_def)

lemma label_roundtrip:
  assumes "enum_item_as_str_derive input = Ok arms" and "distinct (variant_idents input)"
  shows "(\<forall>v\<in>set (variant_idents input). derived_from_str input (map prod.swap arms) (the (map_of arms v)) = Ok v) \<longleftrightarrow>
    distinct (map snd arms)"
proof -
  have keys: "distinct (map fst arms)" and vs: "set (variant_idents input) = fst ` set arms"
    using assms from_str_arms(2) [OF assms(1)] by (simp_all flip: list.set_map)
  have arm: "the (map_of arms (fst a)) = snd a" if "a \<in> set arms" for a
    using map_of_is_SomeI [OF keys, of "fst a" "snd a"] that by simp
  have "(\<forall>a\<in>set arms. map_of (map prod.swap arms) (snd a) = Some (fst a)) \<longleftrightarrow> distinct (map snd arms)"
  proof
    assume all: "\<forall>a\<in>set arms. map_of (map prod.swap arms) (snd a) = Some (fst a)"
    have "inj_on snd (set arms)"
    proof (rule inj_onI)
      fix a b assume "a \<in> set arms" "b \<in> set arms" "snd a = snd b"
      then show "a = b" using all by (metis option.inject prod.expand)
    qed
    then show "distinct (map snd arms)"
      using keys by (simp add: distinct_map)
  next
    assume "distinct (map snd arms)"
    then have dist: "distinct (map fst (map prod.swap arms))" by (simp add: comp_def)
    show "\<forall>a\<in>set arms. map_of (map prod.swap arms) (snd a) = Some (fst a)"
      using dist by (auto intro!: map_of_is_SomeI rev_image_eqI)
  qed
  then show ?thesis
    using arm by (simp add: derived_from_str_def vs split: option.splits) fastforce
qed

end
