(* ===== verification/Derive_Access.thy ===== *)
theory Derive_Access
  imports Derive_Enums Integrity_Spec
begin

text \<open>
  The accessors that the derives generate: a trait with one method per property kind
  (\<open>property_trait_derives.rs\<close>), the \<open>property\<close> method of an edge struct (\<open>edge_structs_derives.rs\<close>),
  the methods that list nodes by kind (\<open>graph_view_derives.rs\<close>), the node builders
  (\<open>node_structs_derives.rs\<close>) and the conversions of a registered enum
  (\<open>enum_property_registry_derives.rs\<close>). A derive returns the description of the code it generates, and
  a \<open>run\<close> function is that code on a graph.
\<close>

section \<open>Bindings\<close>

text \<open>
  \<open>PropertyBinding\<close>: the pattern is named by the type of the values it matches, and \<open>expr\<close> is one of
  the four forms the macro writes.
\<close>

datatype binding_expr = BindValue | BindNode | BindString | BindEnum string

datatype elem_ty = ElemPlain string | ElemNodeId type_path | ElemEnum string

record binding =
  b_elem_ty :: elem_ty
  b_pattern :: property_type
  b_expr :: binding_expr
  b_prop_type :: property_type

definition plain_binding :: "string \<Rightarrow> property_type \<Rightarrow> binding" where
  "plain_binding ty t = \<lparr>b_elem_ty = ElemPlain ty, b_pattern = t, b_expr = BindValue, b_prop_type = t\<rparr>"

definition property_binding :: "string \<Rightarrow> type_path \<Rightarrow> type_path \<Rightarrow> binding derived" where
  "property_binding typ_name typ schema_ty =
     (if typ_name = ''Bool'' then Ok (plain_binding ''bool'' TBool)
      else if typ_name = ''Byte'' then Ok (plain_binding ''u8'' TByte)
      else if typ_name = ''Short'' then Ok (plain_binding ''i16'' TShort)
      else if typ_name = ''Int'' then Ok (plain_binding ''i32'' TInt)
      else if typ_name = ''Long'' then Ok (plain_binding ''i64'' TLong)
      else if typ_name = ''Float'' then Ok (plain_binding ''f32'' TFloat)
      else if typ_name = ''Double'' then Ok (plain_binding ''f64'' TDouble)
      else if typ_name = ''NodeId'' then
        Ok \<lparr>b_elem_ty = ElemNodeId schema_ty, b_pattern = TNodeId, b_expr = BindNode,
            b_prop_type = TNodeId\<rparr>
      else if typ_name = ''String'' then
        Ok \<lparr>b_elem_ty = ElemPlain ''&str'', b_pattern = TString, b_expr = BindString, b_prop_type = TString\<rparr>
      else if typ_name = ''Enum'' then
        andthen (enum_typ_inner_type typ) (\<lambda>inner_ty.
        Ok \<lparr>b_elem_ty = ElemEnum inner_ty, b_pattern = TEnum, b_expr = BindEnum inner_ty, b_prop_type = TEnum\<rparr>)
      else Err (UnsupportedTyp typ_name))"

section \<open>The traits of the property kinds\<close>

record accessor =
  a_trait :: ident
  a_method :: ident
  a_multi :: bool
  a_borrows :: bool
  a_deprecated :: bool
  a_binding :: binding

definition build_property_trait :: "property_item_attrs \<Rightarrow> accessor derived" where
  "build_property_trait attrs =
     andthen (ok_or (absent_attribute_error (pa_variant attrs) True) (prop_typ attrs)) (\<lambda>typ.
     andthen (ok_or (absent_attribute_error (pa_variant attrs) True) (prop_qty attrs)) (\<lambda>qty.
     andthen (typ_last_segment_name typ) (\<lambda>typ_name.
     if typ_name = ''None'' then Err (NoneOnProperty (pa_variant attrs))
     else let is_multi = (qty \<noteq> [] \<and> fst (last qty) = ''Multi'') in
       andthen (method_ident (pa_variant attrs)) (\<lambda>method_name.
       andthen (property_binding typ_name typ [(''S'', NoArguments)]) (\<lambda>binding.
       Ok \<lparr>a_trait = pa_variant attrs, a_method = method_name, a_multi = is_multi,
           a_borrows = (typ_name = ''String''), a_deprecated = (typ_name = ''NodeId''),
           a_binding = binding\<rparr>)))))"

definition property_traits_derive :: "item_enum \<Rightarrow> accessor list derived" where
  "property_traits_derive input =
     andthen (property_attrs input True) (map_each build_property_trait)"

section \<open>The property method of an edge struct\<close>

record edge_kind_config =
  ec_schema :: type_path

definition parse_edge_kind_config :: "item_enum \<Rightarrow> edge_kind_config derived" where
  "parse_edge_kind_config input =
     andthen (parse_kind_attr ''edge_kind'' input) (\<lambda>args.
     andthen (require_type_param args ''schema'' ''edge_kind'') (\<lambda>schema.
     Ok \<lparr>ec_schema = schema\<rparr>))"

definition edge_struct_name :: "ident \<Rightarrow> ident" where
  "edge_struct_name name = name @ ''Edge''"

definition build_edge_property_method :: "property_item_attrs \<Rightarrow> type_path \<Rightarrow> binding option derived" where
  "build_edge_property_method attrs schema_ty =
     andthen (ok_or (absent_attribute_error (pa_variant attrs) False) (prop_typ attrs)) (\<lambda>typ.
     andthen (typ_last_segment_name typ) (\<lambda>typ_name.
     if typ_name = ''None'' then Ok None
     else map_ok Some (property_binding typ_name typ schema_ty)))"

record edge_struct =
  x_variant :: ident
  x_struct :: ident
  x_property :: "binding option"

definition edge_structs_derive :: "item_enum \<Rightarrow> edge_kind_config \<Rightarrow> edge_struct list derived" where
  "edge_structs_derive input config =
     andthen (property_attrs input False) (map_each (\<lambda>attrs.
       map_ok (\<lambda>m. \<lparr>x_variant = pa_variant attrs, x_struct = edge_struct_name (pa_variant attrs), x_property = m\<rparr>)
         (build_edge_property_method attrs (ec_schema config))))"

section \<open>Node structs, builders and listings\<close>

definition node_struct_name :: "ident \<Rightarrow> ident" where
  "node_struct_name name = name @ ''Node''"

definition node_builder_name :: "ident \<Rightarrow> ident" where
  "node_builder_name name = name @ ''Builder''"

definition builder_new :: "'n \<Rightarrow> ('n, 'p) new_node" where
  "builder_new kind = new_node_new kind"

definition builder_add_property ::
  "('n, 'e, 'p :: linorder, 'r) schema \<Rightarrow> 'p \<Rightarrow> property_value \<Rightarrow> ('n, 'p) new_node \<Rightarrow> ('n, 'p) new_node res" where
  "builder_add_property S prop_kind value b =
     (case add_property S prop_kind value b of (r, b') \<Rightarrow> map_ok (\<lambda>_. b') r)"

text \<open>The strings of Rust literals and of \<open>format!\<close> that callers pass as values.\<close>

definition bytes_of :: "string \<Rightarrow> bytes" where
  "bytes_of s = map of_char s"

definition str_value :: "string \<Rightarrow> property_value" where
  "str_value s = VString (bytes_of s)"

definition collision_step :: "enum_variant \<Rightarrow> ident list \<Rightarrow> ident list derived" where
  "collision_step variant seen =
     andthen (method_ident (v_ident variant)) (\<lambda>name.
     if name \<in> set seen then Err (DuplicateMethod (v_ident variant) name) else Ok (seen @ [name]))"

definition check_no_method_name_collisions :: "enum_variant list \<Rightarrow> unit derived" where
  "check_no_method_name_collisions variants = map_ok (\<lambda>_. ()) (for_each collision_step variants [])"

definition node_accessor_traits_derive :: "item_enum \<Rightarrow> (ident \<times> ident \<times> ident) list derived" where
  "node_accessor_traits_derive input =
     andthen (check_no_method_name_collisions (i_variants input)) (\<lambda>_.
     map_each (\<lambda>v. map_ok (\<lambda>m. (v @ ''NodesAccessor'', m, v)) (method_ident v)) (variant_idents input))"

section \<open>Registered enums\<close>

definition parse_enum_type_attr :: "item_enum \<Rightarrow> type_path list derived" where
  "parse_enum_type_attr input =
     map_each (\<lambda>variant.
         andthen (ok_or (MissingEnumType (v_ident variant)) (find_attribute ''enum_type'' (v_attrs variant))) (\<lambda>attr.
         case at_args attr of Paths [ty] \<Rightarrow> Ok ty | _ \<Rightarrow> Err SyntaxError))
       (i_variants input)"

text \<open>What the registry implements: \<open>enum_property_index\<close> of each enum type, and the arms of
  \<open>variant_count\<close>, which name the enum type whose variants are counted.\<close>

record registry_impls =
  ri_index :: "(type_path \<times> nat) list"
  ri_variant_count :: "(ident \<times> type_path) list"

definition enum_property_registry_derive :: "item_enum \<Rightarrow> registry_impls derived" where
  "enum_property_registry_derive input =
     andthen (parse_enum_type_attr input) (\<lambda>enum_types.
     Ok \<lparr>ri_index = map (\<lambda>(i, enum_ty). (enum_ty, i)) (enumerate 0 enum_types),
         ri_variant_count = zip (variant_idents input) enum_types\<rparr>)"

text \<open>A domain enum as the generated code sees it: its name, its \<open>enum_property_index()\<close>, and its
  derived tables.\<close>

record domain_enum =
  de_name :: string
  de_index :: nat
  de_item :: item_enum

definition de_from_index :: "domain_enum \<Rightarrow> nat \<Rightarrow> ident option" where
  "de_from_index de = map_of (enum_item_from_index_derive (de_item de))"

text \<open>The arm of the accessors and of \<open>try_from\<close> for an enum value.\<close>

definition resolve_enum :: "domain_enum \<Rightarrow> raw_enum_id \<Rightarrow> ident res" where
  "resolve_enum de v =
     (if raw_enum_index v = de_index de
      then ok_or (UnresolvedEnumVariant (de_name de) (raw_enum_variant v)) (de_from_index de (raw_enum_variant v))
      else Err (EnumPropIndexMismatch (de_name de) (raw_enum_index v)))"

definition enum_try_from :: "domain_enum \<Rightarrow> property_value \<Rightarrow> ident res" where
  "enum_try_from de value =
     (case value of
        VEnum v \<Rightarrow> resolve_enum de v
      | other \<Rightarrow> Err (invalid_property_type TEnum (pv_typ other)))"

section \<open>The derives\<close>

text \<open>
  The entry points of \<open>lib.rs\<close>. Every part is generated, and one that is an error becomes a \<open>compile_error!\<close> in
  the output: the program does not compile, and the value is the first error of the output. A part that panics
  ends the macro, whatever the parts before it were.
\<close>

definition quote_both :: "('e, 'a) outcome \<Rightarrow> ('e, 'b) outcome \<Rightarrow> ('e, 'a \<times> 'b) outcome" where
  "quote_both a b =
     (case (a, b) of
        (Panic, _) \<Rightarrow> Panic
      | (Diverge, _) \<Rightarrow> Diverge
      | (_, Panic) \<Rightarrow> Panic
      | (_, Diverge) \<Rightarrow> Diverge
      | (Err e, _) \<Rightarrow> Err e
      | (Ok _, Err e) \<Rightarrow> Err e
      | (Ok x, Ok y) \<Rightarrow> Ok (x, y))"

lemma quote_both_eq_Ok [simp]: "quote_both a b = Ok (x, y) \<longleftrightarrow> a = Ok x \<and> b = Ok y"
  by (auto simp: quote_both_def split: outcome.splits)

lemma quote_both_eq_Panic: "quote_both a b = Panic \<longleftrightarrow> a = Panic \<or> a \<noteq> Diverge \<and> b = Panic"
  by (auto simp: quote_both_def split: outcome.splits)

record node_kind_impl =
  nk_labels :: "(ident \<times> string) list"
  nk_from_str :: "(string \<times> ident) list"
  nk_properties :: "(ident \<times> type_path list) list"
  nk_accessors :: "(ident \<times> ident \<times> ident) list"

definition node_kind_derive :: "item_enum \<Rightarrow> node_kind_impl derived" where
  "node_kind_derive input =
     andthen (parse_node_kind_config input) (\<lambda>config.
     andthen (quote_both (enum_item_as_str_derive input)
       (quote_both (enum_item_from_str_derive input)
       (quote_both (node_available_properties_derive input)
         (node_accessor_traits_derive input)))) (\<lambda>(labels, from_str, props, accessors).
     Ok \<lparr>nk_labels = labels, nk_from_str = from_str, nk_properties = props, nk_accessors = accessors\<rparr>))"

record edge_kind_impl =
  ek_labels :: "(ident \<times> string) list"
  ek_from_str :: "(string \<times> ident) list"
  ek_arms :: "property_arm list"
  ek_structs :: "edge_struct list"

definition edge_kind_derive :: "item_enum \<Rightarrow> edge_kind_impl derived" where
  "edge_kind_derive input =
     andthen (parse_edge_kind_config input) (\<lambda>config.
     andthen (quote_both (enum_item_as_str_derive input)
       (quote_both (enum_item_from_str_derive input)
       (quote_both (item_kind_property_type_derive input False)
         (edge_structs_derive input config)))) (\<lambda>(labels, from_str, arms, structs).
     Ok \<lparr>ek_labels = labels, ek_from_str = from_str, ek_arms = arms, ek_structs = structs\<rparr>))"

record property_kind_impl =
  pk_labels :: "(ident \<times> string) list"
  pk_from_str :: "(string \<times> ident) list"
  pk_arms :: "property_arm list"
  pk_traits :: "accessor list"

definition property_kind_derive :: "item_enum \<Rightarrow> property_kind_impl derived" where
  "property_kind_derive input =
     andthen (quote_both (enum_item_as_str_derive input)
       (quote_both (enum_item_from_str_derive input)
       (quote_both (item_kind_property_type_derive input True)
         (property_traits_derive input)))) (\<lambda>(labels, from_str, arms, traits).
     Ok \<lparr>pk_labels = labels, pk_from_str = from_str, pk_arms = arms, pk_traits = traits\<rparr>)"

definition enum_property_derive :: "item_enum \<Rightarrow> ((ident \<times> string) list \<times> (string \<times> ident) list) derived" where
  "enum_property_derive input =
     quote_both (enum_item_as_str_derive input) (enum_item_from_str_derive input)"

record registry_impl =
  rg_labels :: "(ident \<times> string) list"
  rg_from_str :: "(string \<times> ident) list"
  rg_enums :: registry_impls

definition registry_derive :: "item_enum \<Rightarrow> registry_impl derived" where
  "registry_derive input =
     andthen (quote_both (enum_item_as_str_derive input)
       (quote_both (enum_item_from_str_derive input)
         (enum_property_registry_derive input))) (\<lambda>(labels, from_str, enums).
     Ok \<lparr>rg_labels = labels, rg_from_str = from_str, rg_enums = enums\<rparr>)"

lemma node_kind_derive_Ok:
  "node_kind_derive input = Ok out \<Longrightarrow> node_available_properties_derive input = Ok (nk_properties out)"
  by (auto simp: node_kind_derive_def andthen_eq_Ok)

lemma edge_kind_derive_Ok:
  "edge_kind_derive input = Ok out \<Longrightarrow> item_kind_property_type_derive input False = Ok (ek_arms out) \<and>
     (\<exists>config. edge_structs_derive input config = Ok (ek_structs out))"
  by (auto simp: edge_kind_derive_def andthen_eq_Ok)

lemma property_kind_derive_Ok:
  "property_kind_derive input = Ok out \<Longrightarrow> item_kind_property_type_derive input True = Ok (pk_arms out) \<and>
     property_traits_derive input = Ok (pk_traits out)"
  by (auto simp: property_kind_derive_def andthen_eq_Ok)

section \<open>The generated methods on a graph\<close>

datatype 'n accessed = GValue stored_property | GNode "'n node_id" | GString bytes | GVariant ident

datatype 'n returned = ReturnsOne "'n accessed" | ReturnsVec "'n accessed list"

fun run_expr ::
  "('n, 'e, 'p, 'r) schema \<Rightarrow> graph \<Rightarrow> (string \<Rightarrow> domain_enum) \<Rightarrow> binding_expr \<Rightarrow> stored_property \<Rightarrow> 'n accessed res" where
  "run_expr S g types BindValue v = Ok (GValue v)"
| "run_expr S g types BindNode v = map_ok GNode (node_of_raw S (un_NodeId v))"
| "run_expr S g types BindString v = map_ok GString (graph_resolve_string g (un_StringId v))"
| "run_expr S g types (BindEnum ty) v = map_ok GVariant (resolve_enum (types ty) (un_Enum v))"

definition run_arm ::
  "('n, 'e, 'p, 'r) schema \<Rightarrow> graph \<Rightarrow> (string \<Rightarrow> domain_enum) \<Rightarrow> binding \<Rightarrow> stored_property \<Rightarrow> 'n accessed res" where
  "run_arm S g types b p =
     (if sp_typ p = b_pattern b then run_expr S g types (b_expr b) p
      else Err (invalid_property_type (b_prop_type b) (sp_typ p)))"

text \<open>The method of a trait, on the struct of a node, with the property kind of its variant.\<close>

definition run_accessor ::
  "('n, 'e, 'p, 'r) schema \<Rightarrow> graph \<Rightarrow> (string \<Rightarrow> domain_enum) \<Rightarrow> accessor \<Rightarrow> 'n \<Rightarrow> nat \<Rightarrow> 'p \<Rightarrow> 'n returned res" where
  "run_accessor S g types a kind seq pk =
     andthen (stored_node_id S kind seq) (\<lambda>node_id.
     andthen (get_node_property S g node_id pk) (\<lambda>p.
     if a_multi a then map_ok ReturnsVec (map_each (run_arm S g types (a_binding a)) p)
     else case p of
       v # _ \<Rightarrow> map_ok ReturnsOne (run_arm S g types (a_binding a) v)
     | [] \<Rightarrow> Err PropertyIndexNotFound))"

text \<open>
  A \<open>Node\<close> or an \<open>Edge\<close> on the graph: \<open>new\<close> takes the arm of the kind, whose struct keeps the other
  arguments and answers \<open>kind()\<close> with its variant; \<open>edge()\<close> is the provided method of \<open>StoredEdge\<close>.
\<close>

record 'n node_view =
  nv_kind :: 'n
  nv_seq :: nat

record ('n, 'e) edge_view =
  ev_kind :: 'e
  ev_src :: "'n node_id"
  ev_dst :: "'n node_id"
  ev_direction :: dir
  ev_seq :: nat

definition node_view_new :: "'n \<Rightarrow> nat \<Rightarrow> 'n node_view" where
  "node_view_new kind seq = \<lparr>nv_kind = kind, nv_seq = seq\<rparr>"

definition edge_view_new :: "'e \<Rightarrow> 'n node_id \<Rightarrow> 'n node_id \<Rightarrow> dir \<Rightarrow> nat \<Rightarrow> ('n, 'e) edge_view" where
  "edge_view_new kind src dst d seq =
     \<lparr>ev_kind = kind, ev_src = src, ev_dst = dst, ev_direction = d, ev_seq = seq\<rparr>"

definition stored_edge :: "('n, 'e) edge_view \<Rightarrow> ('n, 'e) edge_id" where
  "stored_edge v = \<lparr>src_node = ev_src v, dst_node = ev_dst v, edge_id_kind = ev_kind v,
     edge_id_dir = ev_direction v, edge_id_seq = ev_seq v\<rparr>"

definition run_edge_property ::
  "('n, 'e, 'p, 'r) schema \<Rightarrow> graph \<Rightarrow> (string \<Rightarrow> domain_enum) \<Rightarrow> binding \<Rightarrow> ('n, 'e) edge_view \<Rightarrow> 'n accessed option res" where
  "run_edge_property S g types b edge =
     andthen (get_edge_property S g (stored_edge edge)) (\<lambda>p.
     case p of None \<Rightarrow> Ok None | Some v \<Rightarrow> map_ok Some (run_arm S g types b v))"

text \<open>The method of a \<open>NodesAccessor\<close> trait, and the two of \<open>EdgesAccessor\<close>.\<close>

definition run_nodes_accessor :: "('n, 'e, 'p, 'r) schema \<Rightarrow> graph \<Rightarrow> 'n \<Rightarrow> 'n node_view list res" where
  "run_nodes_accessor S g kind =
     map_ok (map (\<lambda>node. node_view_new (nid_kind node) (nid_seq node))) (nodes_by_kind S g kind)"

definition edge_view_of :: "('n, 'e) edge_id \<Rightarrow> ('n, 'e) edge_view" where
  "edge_view_of e = edge_view_new (edge_id_kind e) (src_node e) (dst_node e) (edge_id_dir e) (edge_id_seq e)"

definition run_edges ::
  "('n, 'e, 'p, 'r) schema \<Rightarrow> graph \<Rightarrow> 'n node_id \<Rightarrow> 'e \<Rightarrow> dir \<Rightarrow> ('n, 'e) edge_view list res" where
  "run_edges S g n edge_kind d = map_ok (map edge_view_of) (get_edges S g n edge_kind d)"

definition run_edges_with_deleted ::
  "('n, 'e, 'p, 'r) schema \<Rightarrow> graph \<Rightarrow> 'n node_id \<Rightarrow> 'e \<Rightarrow> dir \<Rightarrow> ('n, 'e) edge_view list res" where
  "run_edges_with_deleted S g n edge_kind d = map_ok (map edge_view_of) (get_edges_with_deleted S g n edge_kind d)"

lemma stored_edge_view [simp]: "stored_edge (edge_view_of e) = (e :: ('n, 'e) edge_id)"
  by (simp add: stored_edge_def edge_view_of_def edge_view_new_def)

end
