(* ===== verification/Derive_Spec.thy ===== *)
theory Derive_Spec
  imports Derive_Access
begin

text \<open>
  Why the generated code fits the schema: the type a property kind is stored with is the type its accessor
  matches on, so on a graph that passes the integrity check an accessor fails only where nothing is stored.
\<close>

section \<open>The type in the schema and the type in the accessor\<close>

text \<open>\<open>PropertyType::#typ_ident\<close>: the variant of that name.\<close>

definition typ_of_name :: "string \<Rightarrow> property_type option" where
  "typ_of_name s = find (\<lambda>t. property_type_str t = s)
     [TNone, TBool, TByte, TShort, TInt, TLong, TFloat, TDouble, TNodeId, TString, TEnum]"

fun expr_fits :: "binding_expr \<Rightarrow> property_type \<Rightarrow> bool" where
  "expr_fits BindValue t \<longleftrightarrow> t \<notin> {TNone, TNodeId, TString, TEnum}"
| "expr_fits BindNode t \<longleftrightarrow> t = TNodeId"
| "expr_fits BindString t \<longleftrightarrow> t = TString"
| "expr_fits (BindEnum ty) t \<longleftrightarrow> t = TEnum"

definition binding_fits :: "binding \<Rightarrow> property_type \<Rightarrow> string option \<Rightarrow> bool" where
  "binding_fits b t enum \<longleftrightarrow> b_pattern b = t \<and> b_prop_type b = t \<and> expr_fits (b_expr b) t \<and>
     (\<forall>ty. b_expr b = BindEnum ty \<longleftrightarrow> enum = Some ty)"

lemma typ_of_name_str: "typ_of_name (property_type_str t) = Some t"
  by (cases t) (simp_all add: typ_of_name_def)

lemmas typ_of_names = typ_of_name_str [of TNodeId] typ_of_name_str [of TString] typ_of_name_str [of TEnum]

lemma property_type_str_Enum [simp]: "property_type_str t = ''Enum'' \<longleftrightarrow> t = TEnum"
  by (cases t) simp_all

lemma property_binding_cases:
  assumes "property_binding n typ sch = Ok b"
  obtains (plain) e t where "n = property_type_str t" "t \<notin> {TNone, TNodeId, TString, TEnum}" "b = plain_binding e t"
  | (node) "n = property_type_str TNodeId" "b_pattern b = TNodeId" "b_expr b = BindNode" "b_prop_type b = TNodeId"
  | (str) "n = property_type_str TString" "b_pattern b = TString" "b_expr b = BindString" "b_prop_type b = TString"
  | (enum) ty where "n = property_type_str TEnum" "enum_typ_inner_type typ = Ok ty"
      "b_pattern b = TEnum" "b_expr b = BindEnum ty" "b_prop_type b = TEnum"
proof -
  consider "n = ''NodeId''" | "n = ''String''" | "n = ''Enum''"
    | t where "n = property_type_str t" "t \<in> {TBool, TByte, TShort, TInt, TLong, TFloat, TDouble}"
    using assms by (simp add: property_binding_def split: if_splits) (metis property_type_str.simps)+
  then show thesis
  proof cases
    case 4
    then have "\<exists>e. b = plain_binding e t" using assms by (auto simp: property_binding_def)
    then show ?thesis using 4 plain by fastforce
  qed (use assms node str enum in \<open>auto simp: property_binding_def andthen_eq_Ok\<close>)
qed

text \<open>A binding is for the property type of the same name, and for the enum type in its argument.\<close>

lemma property_binding_fits:
  assumes "property_binding n typ sch = Ok b"
    and "(if n = ''Enum'' then map_ok Some (enum_typ_inner_type typ) else Ok None) = (Ok enum :: _ derived)"
  shows "\<exists>t. typ_of_name n = Some t \<and> binding_fits b t enum"
proof -
  show ?thesis
    using assms(1)
  proof (cases rule: property_binding_cases)
    case (plain e t)
    then show ?thesis
      using assms(2) by (auto simp: typ_of_name_str binding_fits_def plain_binding_def)
  qed (use assms(2) typ_of_names in \<open>auto simp: binding_fits_def map_ok_eq_Ok\<close>)
qed

definition arm_fits :: "property_arm \<Rightarrow> accessor \<Rightarrow> bool" where
  "arm_fits arm a \<longleftrightarrow> a_trait a = pm_variant arm \<and>
     (\<exists>t. typ_of_name (pm_typ arm) = Some t \<and> binding_fits (a_binding a) t (pm_enum arm)) \<and>
     (\<exists>q. pm_qty arm = Some q \<and> (a_multi a \<longleftrightarrow> q \<noteq> [] \<and> fst (last q) = ''Multi''))"

lemma map_each_list_all2:
  assumes "map_each f xs = Ok ys" and "map_each g xs = Ok zs"
    and "\<And>x y z. x \<in> set xs \<Longrightarrow> f x = Ok y \<Longrightarrow> g x = Ok z \<Longrightarrow> R y z"
  shows "list_all2 R ys zs"
  using assms
proof (induction xs arbitrary: ys zs)
  case (Cons x xs)
  then obtain y ys' z zs' where *: "f x = Ok y" "map_each f xs = Ok ys'" "ys = y # ys'"
    "g x = Ok z" "map_each g xs = Ok zs'" "zs = z # zs'"
    by (auto simp: andthen_eq_Ok map_ok_eq_Ok)
  have "R y z" using Cons.prems(3) [of x y z] * by simp
  moreover have "list_all2 R ys' zs'" using * by (intro Cons.IH) (auto intro: Cons.prems(3))
  ultimately show ?case using * by simp
qed simp

lemma arm_fits_accessor:
  assumes arm: "andthen (ok_or (absent_attribute_error (pa_variant attr) has_qty) (prop_typ attr)) (\<lambda>typ.
       andthen (typ_last_segment_name typ) (\<lambda>typ_name.
       andthen (if typ_name = ''Enum'' then map_ok Some (enum_typ_inner_type typ) else Ok None) (\<lambda>enum_index.
       andthen (map_ok Some (ok_or (absent_attribute_error (pa_variant attr) has_qty) (prop_qty attr))) (\<lambda>qty.
       Ok \<lparr>pm_variant = pa_variant attr, pm_typ = typ_name, pm_qty = qty, pm_enum = enum_index\<rparr>)))) = Ok arm"
    and acc: "build_property_trait attr = Ok a"
  shows "arm_fits arm a"
proof -
  obtain ty n enum qty where ty: "prop_typ attr = Some ty" "typ_last_segment_name ty = Ok n"
    and enum: "(if n = ''Enum'' then map_ok Some (enum_typ_inner_type ty) else Ok None) = (Ok enum :: _ derived)"
    and qty: "prop_qty attr = Some qty"
    and arm: "arm = \<lparr>pm_variant = pa_variant attr, pm_typ = n, pm_qty = Some qty, pm_enum = enum\<rparr>"
    using arm by (auto simp only: andthen_eq_Ok ok_or_eq_Ok map_ok_eq_Ok outcome.inject)
  obtain m b where b: "property_binding n ty [(''S'', NoArguments)] = Ok b" and a: "a_trait a = pa_variant attr"
    "a_multi a \<longleftrightarrow> qty \<noteq> [] \<and> fst (last qty) = ''Multi''" "a_binding a = b"
    using acc by (auto simp: build_property_trait_def ty qty andthen_eq_Ok Let_def split: if_splits)
  show ?thesis
    using property_binding_fits [OF b enum] by (simp add: arm_fits_def arm a)
qed

lemma arms_fit_accessors:
  assumes "item_kind_property_type_derive input True = Ok arms" and "property_traits_derive input = Ok accs"
  shows "list_all2 arm_fits arms accs"
proof -
  obtain attrs where "property_attrs input True = Ok attrs"
    using assms(2) by (auto simp: property_traits_derive_def andthen_eq_Ok)
  then show ?thesis
    using assms unfolding item_kind_property_type_derive_def property_traits_derive_def
    by (auto elim!: map_each_list_all2 dest: arm_fits_accessor)
qed

section \<open>Accessors on a valid graph\<close>

text \<open>
  The functions of the schema for a property kind, as the derive generates them: the arm of its variant
  with the enum types of the program, and a registry that counts the variants of those types.
\<close>

definition quantity_of_path :: "type_path \<Rightarrow> quantity_type option" where
  "quantity_of_path q =
     (if q = [] then None else if fst (last q) = ''One'' then Some One
      else if fst (last q) = ''Multi'' then Some Multi else None)"

definition arm_describes ::
  "('n, 'e, 'p, 'r) schema \<Rightarrow> (string \<Rightarrow> domain_enum) \<Rightarrow> property_arm \<Rightarrow> 'p \<Rightarrow> bool" where
  "arm_describes S types arm pk \<longleftrightarrow>
     typ_of_name (pm_typ arm) = Some (p_property_type S pk) \<and>
     (\<exists>q. pm_qty arm = Some q \<and> quantity_of_path q = Some (p_quantity S pk)) \<and>
     p_enum_index S pk = map_option (\<lambda>ty. de_index (types ty)) (pm_enum arm)"

definition enum_counted :: "('n, 'e, 'p, 'r) schema \<Rightarrow> domain_enum \<Rightarrow> bool" where
  "enum_counted S de \<longleftrightarrow> (\<forall>k. r_from_index S (de_index de) = Some k \<longrightarrow>
     r_variant_count S k = length (enum_item_all_derive (de_item de)))"

text \<open>What the result of an accessor says of the stored value.\<close>

fun reads_as ::
  "('n, 'e, 'p, 'r) schema \<Rightarrow> graph \<Rightarrow> (string \<Rightarrow> domain_enum) \<Rightarrow> binding_expr \<Rightarrow> stored_property \<Rightarrow> 'n accessed \<Rightarrow> bool" where
  "reads_as S g types e v (GValue p) \<longleftrightarrow> p = v \<and> e = BindValue"
| "reads_as S g types e v (GNode n) \<longleftrightarrow>
     (\<exists>r. v = SNodeId r \<and> node_of_raw S r = Ok n \<and> nid_seq n < kind_count S g (nid_kind n))"
| "reads_as S g types e v (GString s) \<longleftrightarrow> graph_resolve_property g v = Ok (VString s)"
| "reads_as S g types e v (GVariant c) \<longleftrightarrow>
     (\<exists>ty r. e = BindEnum ty \<and> v = SEnum r \<and> raw_enum_index r = de_index (types ty) \<and>
       get_at (enum_item_all_derive (de_item (types ty))) (raw_enum_variant r) = Some c)"

lemma de_from_index_get_at: "de_from_index de i = get_at (enum_item_all_derive (de_item de)) i"
  by (simp add: de_from_index_def from_index_get_at enum_item_all_derive_def)

lemma resolve_enum_ok:
  assumes "enum_ok S (Some (de_index de)) r" and "enum_counted S de"
  shows "raw_enum_index r = de_index de \<and>
    (\<exists>c. resolve_enum de r = Ok c \<and> get_at (enum_item_all_derive (de_item de)) (raw_enum_variant r) = Some c)"
  using assms by (auto simp: enum_ok_def enum_counted_def resolve_enum_def de_from_index_get_at)

context schema_laws
begin

lemma run_arm_reads:
  assumes fits: "binding_fits b (sp_typ v) enum" and ok: "value_ok S g (map_option (\<lambda>ty. de_index (types ty)) enum) v"
    and enums: "\<And>ty. enum = Some ty \<Longrightarrow> enum_counted S (types ty)"
    and pool: "pool_repr (g_strings g) ss"
  shows "\<exists>x. run_arm S g types b v = Ok x \<and> reads_as S g types (b_expr b) v x"
proof (cases v)
  case (SNodeId r)
  then have "b_expr b = BindNode" "b_pattern b = TNodeId"
    using fits by (cases "b_expr b"; simp add: binding_fits_def)+
  then show ?thesis using ok SNodeId by (auto simp: run_arm_def value_ok_def node_exists_iff)
next
  case (SStringId i)
  then have "b_expr b = BindString" "b_pattern b = TString"
    using fits by (cases "b_expr b"; simp add: binding_fits_def)+
  then show ?thesis
    using ok SStringId pool_get_repr [OF pool, of i] pool_len_repr [OF pool]
    by (auto simp: run_arm_def value_ok_def graph_resolve_string_def graph_resolve_property_def resolve_string_def)
next
  case (SEnum r)
  then obtain ty where ty: "b_expr b = BindEnum ty" "b_pattern b = TEnum" "enum = Some ty"
    using fits by (cases "b_expr b") (auto simp: binding_fits_def)
  then have "enum_ok S (Some (de_index (types ty))) r" using ok SEnum by (simp add: value_ok_def)
  then show ?thesis
    using resolve_enum_ok [OF _ enums [OF ty(3)]] ty SEnum by (force simp: run_arm_def)
qed (use fits in \<open>cases "b_expr b"; simp add: binding_fits_def run_arm_def\<close>)+

lemma prop_row_values:
  assumes "graph_ok S g" and "seq < kind_count S g nk" and "v \<in> set (prop_row S g nk pk seq)"
  shows "v \<in> set (sa_values (ps_values (prop_slot_of S g nk pk)))" and "sp_typ v = p_property_type S pk"
proof -
  have ok: "prop_slot_ok (p_property_type S pk) (kind_count S g nk) (prop_slot_of S g nk pk)"
    using graph_okD(5) [OF assms(1)] .
  note csr = prop_slot_ok_csr [OF ok]
  have "prop_row S g nk pk seq \<in> set (prop_rows (prop_slot_of S g nk pk) (kind_count S g nk))"
    using assms(2) slot_csr_length [OF csr] by (simp add: prop_row_def)
  then show v: "v \<in> set (sa_values (ps_values (prop_slot_of S g nk pk)))"
    using assms(3) slot_csr_concat [OF csr] by (metis in_set_conv_decomp concat_append concat.simps(2) UN_I set_concat)
  then show "sp_typ v = p_property_type S pk"
    using ok sa_values_typ by (simp add: prop_slot_ok_def)
qed

lemma run_arms_read:
  assumes "\<And>v. v \<in> set vs \<Longrightarrow> \<exists>x. run_arm S g types b v = Ok x \<and> reads_as S g types (b_expr b) v x"
  shows "\<exists>xs. map_each (run_arm S g types b) vs = Ok xs \<and> list_all2 (reads_as S g types (b_expr b)) vs xs"
  using assms
proof (induction vs)
  case (Cons v vs)
  then obtain x xs where "run_arm S g types b v = Ok x" "reads_as S g types (b_expr b) v x"
    "map_each (run_arm S g types b) vs = Ok xs" "list_all2 (reads_as S g types (b_expr b)) vs xs"
    by force
  then show ?case by simp
qed simp

lemma run_accessor_valid:
  assumes wf: "graph_wf S g" and seq: "seq < kind_count S g nk"
    and arm: "arm_fits arm a" "arm_describes S types arm pk"
    and enums: "\<And>ty. pm_enum arm = Some ty \<Longrightarrow> enum_counted S (types ty)"
  shows "\<exists>xs. list_all2 (reads_as S g types (b_expr (a_binding a))) (prop_row S g nk pk seq) xs \<and>
    run_accessor S g types a nk seq pk =
      (if ps_offsets (prop_slot_of S g nk pk) = [] then Err PropertyIndexNotFound
       else if a_multi a then Ok (ReturnsVec xs)
       else case xs of [] \<Rightarrow> Err PropertyIndexNotFound | x # _ \<Rightarrow> Ok (ReturnsOne x))"
proof -
  have ok: "graph_ok S g" using wf by (simp add: graph_wf_def)
  obtain ss where pool: "pool_repr (g_strings g) ss" using graph_okD(7) [OF ok] by blast
  obtain r where r: "raw_of_node S (NodeId nk seq) = Ok r"
    using raw_of_node_in_range [OF ok, of "NodeId nk seq"] seq by auto
  then have id: "stored_node_id S nk seq = Ok r" by (simp add: stored_node_id_def raw_of_node_def)
  have n: "node_of_raw S r = Ok (NodeId nk seq)" by (rule raw_node_roundtrip [OF r])
  have "\<exists>x. run_arm S g types (a_binding a) v = Ok x \<and> reads_as S g types (b_expr (a_binding a)) v x"
    if v: "v \<in> set (prop_row S g nk pk seq)" for v
  proof (rule run_arm_reads [OF _ _ enums pool])
    have "value_ok S g (p_enum_index S pk) v"
      using wf prop_row_values(1) [OF ok seq v] by (simp add: graph_wf_def graph_values_ok_def values_ok_def)
    then show "value_ok S g (map_option (\<lambda>ty. de_index (types ty)) (pm_enum arm)) v"
      using arm(2) by (simp add: arm_describes_def)
    show "binding_fits (a_binding a) (sp_typ v) (pm_enum arm)"
      using arm prop_row_values(2) [OF ok seq v] by (auto simp: arm_fits_def arm_describes_def)
  qed
  then obtain xs where xs: "map_each (run_arm S g types (a_binding a)) (prop_row S g nk pk seq) = Ok xs"
    "list_all2 (reads_as S g types (b_expr (a_binding a))) (prop_row S g nk pk seq) xs"
    using run_arms_read by metis
  have "run_accessor S g types a nk seq pk =
      (if ps_offsets (prop_slot_of S g nk pk) = [] then Err PropertyIndexNotFound
       else if a_multi a then Ok (ReturnsVec xs)
       else case xs of [] \<Rightarrow> Err PropertyIndexNotFound | x # _ \<Rightarrow> Ok (ReturnsOne x))"
    using get_node_property_row [OF ok n, of pk] seq xs
    by (cases xs) (auto simp: run_accessor_def id list_all2_Cons2 andthen_eq_Ok map_ok_eq_Ok)
  then show ?thesis using xs(2) by blast
qed

end

section \<open>A schema made by the derives\<close>

text \<open>
  The four enums of a schema and the functions that the derives generate for them. \<open>nn\<close>, \<open>en\<close>, \<open>pn\<close> and
  \<open>rn\<close> name the variant of a value, and \<open>types\<close> the enum types of the program.
\<close>

definition edge_arm_describes ::
  "('n, 'e, 'p, 'r) schema \<Rightarrow> (string \<Rightarrow> domain_enum) \<Rightarrow> property_arm \<Rightarrow> 'e \<Rightarrow> bool" where
  "edge_arm_describes S types arm ek \<longleftrightarrow>
     typ_of_name (pm_typ arm) = Some (e_property_type S ek) \<and>
     e_enum_index S ek = map_option (\<lambda>ty. de_index (types ty)) (pm_enum arm)"

definition nodes_derived :: "('n, 'e, 'p, 'r) schema \<Rightarrow> item_enum \<Rightarrow> ('n \<Rightarrow> ident) \<Rightarrow> ('p \<Rightarrow> ident) \<Rightarrow> bool" where
  "nodes_derived S nodes nn pn \<longleftrightarrow>
     values_named nodes nn \<and> derives_kind nodes nn (n_all S) (n_index S) (n_from_index S) (n_str S) \<and>
     (\<exists>out. node_kind_derive nodes = Ok out \<and> (\<forall>nk. \<exists>ps. map_of (nk_properties out) (nn nk) = Some ps \<and>
        map_each typ_last_segment_name ps = Ok (map pn (n_properties S nk))))"

definition edges_derived :: "('n, 'e, 'p, 'r) schema \<Rightarrow> (string \<Rightarrow> domain_enum) \<Rightarrow> item_enum \<Rightarrow> ('e \<Rightarrow> ident) \<Rightarrow> bool" where
  "edges_derived S types edges en \<longleftrightarrow>
     values_named edges en \<and> derives_kind edges en (e_all S) (e_index S) (e_from_index S) (e_str S) \<and>
     (\<exists>out. edge_kind_derive edges = Ok out \<and>
        (\<forall>ek. \<exists>arm\<in>set (ek_arms out). pm_variant arm = en ek \<and> edge_arm_describes S types arm ek))"

definition props_derived :: "('n, 'e, 'p, 'r) schema \<Rightarrow> (string \<Rightarrow> domain_enum) \<Rightarrow> item_enum \<Rightarrow> ('p \<Rightarrow> ident) \<Rightarrow> bool" where
  "props_derived S types props pn \<longleftrightarrow>
     values_named props pn \<and> derives_kind props pn (p_all S) (p_index S) (p_from_index S) (p_str S) \<and>
     (\<exists>out. property_kind_derive props = Ok out \<and>
        (\<forall>pk. \<exists>arm\<in>set (pk_arms out). pm_variant arm = pn pk \<and> arm_describes S types arm pk))"

definition registry_derived :: "('n, 'e, 'p, 'r) schema \<Rightarrow> (string \<Rightarrow> domain_enum) \<Rightarrow> item_enum \<Rightarrow> ('r \<Rightarrow> ident) \<Rightarrow> bool" where
  "registry_derived S types registry rn \<longleftrightarrow>
     values_named registry rn \<and> (\<exists>ix. derives_kind registry rn (r_all S) ix (r_from_index S) (r_str S)) \<and>
     (\<forall>ty. enum_counted S (types ty))"

definition schema_derived ::
  "('n, 'e, 'p, 'r) schema \<Rightarrow> (string \<Rightarrow> domain_enum) \<Rightarrow> item_enum \<Rightarrow> ('n \<Rightarrow> ident) \<Rightarrow> item_enum \<Rightarrow> ('e \<Rightarrow> ident) \<Rightarrow>
     item_enum \<Rightarrow> ('p \<Rightarrow> ident) \<Rightarrow> item_enum \<Rightarrow> ('r \<Rightarrow> ident) \<Rightarrow> bool" where
  "schema_derived S types nodes nn edges en props pn registry rn \<longleftrightarrow>
     nodes_derived S nodes nn pn \<and> edges_derived S types edges en \<and> props_derived S types props pn \<and>
     registry_derived S types registry rn"

lemma map_each_map_fst:
  "map_each f xs = Ok ys \<Longrightarrow> (\<And>x y. x \<in> set xs \<Longrightarrow> f x = Ok y \<Longrightarrow> h y = k x) \<Longrightarrow> map h ys = map k xs"
proof (induction xs arbitrary: ys)
  case (Cons x xs)
  then obtain y ys' where "f x = Ok y" "map_each f xs = Ok ys'" "ys = y # ys'"
    by (auto simp: andthen_eq_Ok map_ok_eq_Ok)
  then show ?case using Cons.IH [of ys'] Cons.prems(2) by simp
qed simp

lemma arms_variants:
  assumes "item_kind_property_type_derive input qty = Ok arms"
  shows "map pm_variant arms = variant_idents input"
proof -
  obtain attrs where attrs: "property_attrs input qty = Ok attrs"
    using assms by (auto simp: item_kind_property_type_derive_def andthen_eq_Ok)
  have "map pa_variant attrs = variant_idents input"
    unfolding variant_idents_def
    by (rule map_each_map_fst [OF attrs [unfolded property_attrs_def]])
      (auto simp: andthen_eq_Ok parse_property_attr_def)
  moreover have "map pm_variant arms = map pa_variant attrs"
    by (rule map_each_map_fst [OF assms [unfolded item_kind_property_type_derive_def attrs, simplified]])
      (auto simp: andthen_eq_Ok)
  ultimately show ?thesis by simp
qed

lemma expr_fits_not_TNone: "expr_fits e t \<Longrightarrow> t \<noteq> TNone"
  by (cases e) auto

text \<open>The accessor of a variant is the one for the arm of that variant.\<close>

lemma list_all2_key:
  assumes "list_all2 R xs ys" and "distinct (map k xs)" and "x \<in> set xs" and "y \<in> set ys" and "k x = l y"
    and "\<And>a b. R a b \<Longrightarrow> k a = l b"
  shows "R x y"
  using assms
proof (induction xs ys rule: list_all2_induct)
  case (Cons a xs b ys)
  have "l y' \<in> k ` set xs" if "y' \<in> set ys" for y'
    using Cons.hyps(2) Cons.prems(5) that by (auto simp: list_all2_conv_all_nth in_set_conv_nth) (metis imageI nth_mem)
  then show ?case using Cons by (auto simp: rev_image_eqI)
qed simp

lemma accessor_arm:
  assumes "props_derived S types props pn" and out: "property_kind_derive props = Ok out"
  shows "\<exists>a\<in>set (pk_traits out). a_trait a = pn pk"
    and "a \<in> set (pk_traits out) \<Longrightarrow> a_trait a = pn pk \<Longrightarrow> \<exists>arm. arm_fits arm a \<and> arm_describes S types arm pk"
proof -
  let ?arms = "pk_arms out" and ?accs = "pk_traits out"
  have arms: "item_kind_property_type_derive props True = Ok ?arms" and accs: "property_traits_derive props = Ok ?accs"
    using property_kind_derive_Ok [OF out] by blast+
  obtain arm where arm: "arm \<in> set ?arms" "pm_variant arm = pn pk" "arm_describes S types arm pk"
    using assms(1) out unfolding props_derived_def by (metis outcome.inject(1))
  have fits: "list_all2 arm_fits ?arms ?accs" by (rule arms_fit_accessors [OF arms accs])
  have "distinct (map pm_variant ?arms)"
    using assms(1) arms_variants [OF arms] by (simp add: props_derived_def values_named_def)
  obtain i where i: "i < length ?arms" "?arms ! i = arm" using arm(1) by (auto simp: in_set_conv_nth)
  have "arm_fits arm (?accs ! i)" using list_all2_nthD [OF fits i(1)] i(2) by simp
  then show "\<exists>a\<in>set ?accs. a_trait a = pn pk"
    using i(1) list_all2_lengthD [OF fits] arm(2) by (force simp: arm_fits_def)
  show "\<exists>arm. arm_fits arm a \<and> arm_describes S types arm pk" if a: "a \<in> set ?accs" "a_trait a = pn pk"
    using list_all2_key [OF fits \<open>distinct _\<close> arm(1) a(1), of a_trait] arm(2,3) a(2)
    by (metis arm_fits_def)
qed

text \<open>The same for the struct of an edge kind, whose \<open>property\<close> method exists when the kind has a property.\<close>

definition struct_fits :: "edge_struct \<Rightarrow> property_type \<Rightarrow> string option \<Rightarrow> bool" where
  "struct_fits x t enum \<longleftrightarrow>
     (case x_property x of None \<Rightarrow> t = TNone | Some b \<Rightarrow> t \<noteq> TNone \<and> binding_fits b t enum)"

lemma edge_struct_arm:
  assumes arm: "andthen (ok_or e (prop_typ attr)) (\<lambda>typ.
       andthen (typ_last_segment_name typ) (\<lambda>typ_name.
       andthen (if typ_name = ''Enum'' then map_ok Some (enum_typ_inner_type typ) else Ok None) (\<lambda>enum_index.
       Ok \<lparr>pm_variant = pa_variant attr, pm_typ = typ_name, pm_qty = None, pm_enum = enum_index\<rparr>))) = Ok arm"
    and struct: "build_edge_property_method attr sch = Ok m"
  shows "pm_variant arm = pa_variant attr \<and>
    (\<exists>t. typ_of_name (pm_typ arm) = Some t \<and> struct_fits \<lparr>x_variant = v, x_struct = w, x_property = m\<rparr> t (pm_enum arm))"
proof -
  obtain ty n enum where ty: "prop_typ attr = Some ty" "typ_last_segment_name ty = Ok n"
    and enum: "(if n = ''Enum'' then map_ok Some (enum_typ_inner_type ty) else Ok None) = (Ok enum :: _ derived)"
    and arm: "arm = \<lparr>pm_variant = pa_variant attr, pm_typ = n, pm_qty = None, pm_enum = enum\<rparr>"
    using arm by (auto simp only: andthen_eq_Ok ok_or_eq_Ok outcome.inject)
  show ?thesis
  proof (cases "n = ''None''")
    case True
    then show ?thesis
      using struct ty typ_of_name_str [of TNone] by (simp add: build_edge_property_method_def struct_fits_def arm)
  next
    case False
    then obtain b where b: "property_binding n ty sch = Ok b" "m = Some b"
      using struct ty by (auto simp: build_edge_property_method_def map_ok_eq_Ok)
    then obtain t where t: "typ_of_name n = Some t" "binding_fits b t enum"
      using property_binding_fits [OF b(1) enum] by blast
    then have "t \<noteq> TNone" using expr_fits_not_TNone by (auto simp: binding_fits_def)
    then show ?thesis using t b(2) by (simp add: struct_fits_def arm)
  qed
qed

lemma edge_struct_describes:
  assumes "edges_derived S types edges en" and out: "edge_kind_derive edges = Ok out"
    and x: "x \<in> set (ek_structs out)" "x_variant x = en ek"
  shows "\<exists>enum. struct_fits x (e_property_type S ek) enum \<and>
    e_enum_index S ek = map_option (\<lambda>ty. de_index (types ty)) enum"
proof -
  let ?arms = "ek_arms out"
  obtain config where arms: "item_kind_property_type_derive edges False = Ok ?arms"
    and structs: "edge_structs_derive edges config = Ok (ek_structs out)"
    using edge_kind_derive_Ok [OF out] by blast
  obtain arm where arm: "arm \<in> set ?arms" "pm_variant arm = en ek" "edge_arm_describes S types arm ek"
    using assms(1) out unfolding edges_derived_def by (metis outcome.inject(1))
  obtain attrs where attrs: "property_attrs edges False = Ok attrs"
    using structs by (auto simp: edge_structs_derive_def andthen_eq_Ok)
  have fits: "list_all2 (\<lambda>arm x. pm_variant arm = x_variant x \<and>
      (\<exists>t. typ_of_name (pm_typ arm) = Some t \<and> struct_fits x t (pm_enum arm))) ?arms (ek_structs out)"
  proof (rule map_each_list_all2)
    show "map_each (\<lambda>attr.
       andthen (ok_or (absent_attribute_error (pa_variant attr) False) (prop_typ attr)) (\<lambda>typ.
       andthen (typ_last_segment_name typ) (\<lambda>typ_name.
       andthen (if typ_name = ''Enum'' then map_ok Some (enum_typ_inner_type typ) else Ok None) (\<lambda>enum_index.
       Ok \<lparr>pm_variant = pa_variant attr, pm_typ = typ_name, pm_qty = None, pm_enum = enum_index\<rparr>)))) attrs = Ok ?arms"
      using arms by (simp add: item_kind_property_type_derive_def attrs)
    show "map_each (\<lambda>attrs.
       map_ok (\<lambda>m. \<lparr>x_variant = pa_variant attrs, x_struct = edge_struct_name (pa_variant attrs), x_property = m\<rparr>)
         (build_edge_property_method attrs (ec_schema config))) attrs = Ok (ek_structs out)"
      using structs by (simp add: edge_structs_derive_def attrs)
  qed (auto simp: map_ok_eq_Ok dest: edge_struct_arm)
  have "distinct (map pm_variant ?arms)"
    using assms(1) arms_variants [OF arms] by (simp add: edges_derived_def values_named_def)
  from list_all2_key [OF fits this arm(1) x(1), of x_variant]
  show ?thesis using arm(2,3) x(2) by (auto simp: edge_arm_describes_def)
qed

lemma schema_derived_laws:
  assumes "schema_derived S types nodes nn edges en props pn registry rn"
  shows "schema_laws S"
proof
  show "kind_laws (n_all S) (n_index S) (n_from_index S)" "kind_laws (e_all S) (e_index S) (e_from_index S)"
    "kind_laws (p_all S) (p_index S) (p_from_index S)"
    using assms derived_kind_laws unfolding schema_derived_def nodes_derived_def edges_derived_def props_derived_def by blast+
  obtain ix where "kind_laws (r_all S) ix (r_from_index S)"
    using assms derived_kind_laws unfolding schema_derived_def registry_derived_def by blast
  then show "r_from_index S i = get_at (r_all S) i" for i by (rule kind_laws_get_at)
  have props: "props_derived S types props pn" using assms by (simp add: schema_derived_def)
  then obtain out where out: "property_kind_derive props = Ok out" by (auto simp: props_derived_def)
  show "p_property_type S pk \<noteq> TNone" for pk
  proof -
    obtain a where "a \<in> set (pk_traits out)" "a_trait a = pn pk" using accessor_arm(1) [OF props out] by blast
    then obtain arm where "arm_fits arm a" "arm_describes S types arm pk" using accessor_arm(2) [OF props out] by blast
    then show ?thesis using expr_fits_not_TNone by (auto simp: arm_fits_def arm_describes_def binding_fits_def)
  qed
qed

lemma arm_quantity: "arm_fits arm a \<Longrightarrow> arm_describes S types arm pk \<Longrightarrow> a_multi a \<longleftrightarrow> p_quantity S pk = Multi"
  by (auto simp: arm_fits_def arm_describes_def quantity_of_path_def split: if_splits)

end
