(* ===== verification/Derive_Macros.thy ===== *)
theory Derive_Macros
  imports Derive_Access
begin

text \<open>
  The function-like macros of \<open>graph-schema-derive\<close>: \<open>schema!\<close> (\<open>schema_macro.rs\<close>) with its
  hand-written parser, and \<open>enum_property_registry!\<close> (\<open>enum_property_registry_macro.rs\<close>). The input is
  the list of its tokens after the visibility, where a path of several tokens and a string literal count
  as one; the visibility is only passed on.
\<close>

section \<open>Parsing\<close>

datatype token = TkIdent ident | TkPath type_path | TkLit string | TkEq | TkComma | TkColon | TkOther

text \<open>\<open>input.parse()\<close> of a token at the front, for the three types of values.\<close>

definition parse_ident :: "token \<Rightarrow> ident derived" where
  "parse_ident t = (case t of TkIdent i \<Rightarrow> Ok i | _ \<Rightarrow> Err SyntaxError)"

definition parse_type_path :: "token \<Rightarrow> type_path derived" where
  "parse_type_path t = (case t of TkIdent i \<Rightarrow> Ok [(i, NoArguments)] | TkPath p \<Rightarrow> Ok p | _ \<Rightarrow> Err SyntaxError)"

definition parse_lit :: "token \<Rightarrow> string derived" where
  "parse_lit t = (case t of TkLit s \<Rightarrow> Ok s | _ \<Rightarrow> Err SyntaxError)"

section \<open>The arguments of \<open>schema!\<close>\<close>

record schema_slots =
  ss_name :: "ident option"
  ss_node_kind :: "type_path option"
  ss_edge_kind :: "type_path option"
  ss_prop_kind :: "type_path option"
  ss_enum_prop_registry :: "type_path option"
  ss_version :: "string option"

record schema_def =
  sd_name :: ident
  sd_node_kind :: type_path
  sd_edge_kind :: type_path
  sd_prop_kind :: type_path
  sd_enum_prop_registry :: "type_path option"
  sd_version :: string

definition no_slots :: schema_slots where
  "no_slots = \<lparr>ss_name = None, ss_node_kind = None, ss_edge_kind = None, ss_prop_kind = None,
     ss_enum_prop_registry = None, ss_version = None\<rparr>"

text \<open>\<open>parse_and_set\<close>: the slot is checked before the value is parsed; \<open>rest\<close> is what follows the value.\<close>

definition parse_and_set ::
  "'a option \<Rightarrow> ident \<Rightarrow> (token \<Rightarrow> 'a derived) \<Rightarrow> token list \<Rightarrow> ('a \<times> token list) derived" where
  "parse_and_set slot key parse input =
     (if slot \<noteq> None then Err (DuplicateKey key)
      else case input of [] \<Rightarrow> Err SyntaxError | t # rest \<Rightarrow> map_ok (\<lambda>v. (v, rest)) (parse t))"

text \<open>The keys, and the match on the text of a key.\<close>

datatype schema_key = KName | KNodeKind | KEdgeKind | KPropKind | KEnumPropRegistry | KVersion

fun key_str :: "schema_key \<Rightarrow> string" where
  "key_str KName = ''name''"
| "key_str KNodeKind = ''node_kind''"
| "key_str KEdgeKind = ''edge_kind''"
| "key_str KPropKind = ''prop_kind''"
| "key_str KEnumPropRegistry = ''enum_prop_registry''"
| "key_str KVersion = ''version''"

definition key_of :: "string \<Rightarrow> schema_key option" where
  "key_of key = find (\<lambda>k. key_str k = key) [KName, KNodeKind, KEdgeKind, KPropKind, KEnumPropRegistry, KVersion]"

definition parse_entry :: "ident \<Rightarrow> token list \<Rightarrow> schema_slots \<Rightarrow> (schema_slots \<times> token list) derived" where
  "parse_entry key input s =
     (case key_of key of
        Some KName \<Rightarrow>
          map_ok (\<lambda>(v, rest). (s\<lparr>ss_name := Some v\<rparr>, rest)) (parse_and_set (ss_name s) key parse_ident input)
      | Some KNodeKind \<Rightarrow>
          map_ok (\<lambda>(v, rest). (s\<lparr>ss_node_kind := Some v\<rparr>, rest)) (parse_and_set (ss_node_kind s) key parse_type_path input)
      | Some KEdgeKind \<Rightarrow>
          map_ok (\<lambda>(v, rest). (s\<lparr>ss_edge_kind := Some v\<rparr>, rest)) (parse_and_set (ss_edge_kind s) key parse_type_path input)
      | Some KPropKind \<Rightarrow>
          map_ok (\<lambda>(v, rest). (s\<lparr>ss_prop_kind := Some v\<rparr>, rest)) (parse_and_set (ss_prop_kind s) key parse_type_path input)
      | Some KEnumPropRegistry \<Rightarrow>
          map_ok (\<lambda>(v, rest). (s\<lparr>ss_enum_prop_registry := Some v\<rparr>, rest))
            (parse_and_set (ss_enum_prop_registry s) key parse_type_path input)
      | Some KVersion \<Rightarrow>
          map_ok (\<lambda>(v, rest). (s\<lparr>ss_version := Some v\<rparr>, rest)) (parse_and_set (ss_version s) key parse_lit input)
      | None \<Rightarrow> Err (UnknownKey key))"

lemma parse_entry_shorter: "parse_entry key input s = Ok (s', rest) \<Longrightarrow> length rest < length input"
  by (auto simp: parse_entry_def parse_and_set_def map_ok_eq_Ok
      split: if_splits list.splits option.splits schema_key.splits)

text \<open>The loop of \<open>SchemaDef::parse\<close>.\<close>

function parse_entries :: "token list \<Rightarrow> schema_slots \<Rightarrow> schema_slots derived" where
  "parse_entries input s =
     (case input of
        [] \<Rightarrow> Ok s
      | TkIdent key # TkEq # input' \<Rightarrow>
          (case parse_entry key input' s of
             Ok (s', rest) \<Rightarrow>
               (case rest of
                  [] \<Rightarrow> Ok s'
                | TkComma # rest' \<Rightarrow> parse_entries rest' s'
                | _ \<Rightarrow> Err SyntaxError)
           | Err e \<Rightarrow> Err e
           | Panic \<Rightarrow> Panic
           | Diverge \<Rightarrow> Diverge)
      | _ \<Rightarrow> Err SyntaxError)"
  by pat_completeness auto

termination parse_entries
  by (relation "measure (\<lambda>(input, s). length input)") (use parse_entry_shorter in \<open>fastforce+\<close>)

declare parse_entries.simps [simp del]

definition missing_keys_error :: "(string \<times> bool) list \<Rightarrow> derive_error" where
  "missing_keys_error keys = MissingKeys (map fst (filter snd keys))"

definition parse_schema :: "token list \<Rightarrow> schema_def derived" where
  "parse_schema input =
     andthen (parse_entries input no_slots) (\<lambda>s.
     case (ss_name s, ss_node_kind s, ss_edge_kind s, ss_prop_kind s, ss_version s) of
       (Some name, Some node_kind, Some edge_kind, Some prop_kind, Some version) \<Rightarrow>
         Ok \<lparr>sd_name = name, sd_node_kind = node_kind, sd_edge_kind = edge_kind, sd_prop_kind = prop_kind,
             sd_enum_prop_registry = ss_enum_prop_registry s, sd_version = version\<rparr>
     | (name, node_kind, edge_kind, prop_kind, version) \<Rightarrow>
         Err (missing_keys_error
           [(key_str KName, name = None), (key_str KNodeKind, node_kind = None), (key_str KEdgeKind, edge_kind = None),
            (key_str KPropKind, prop_kind = None), (key_str KVersion, version = None)]))"

text \<open>\<open>quoted_list\<close>: a backquote is the character \<open>96\<close>.\<close>

definition backquoted :: "string \<Rightarrow> string" where
  "backquoted name = [CHR 0x60] @ name @ [CHR 0x60]"

definition quoted_list :: "string list \<Rightarrow> string" where
  "quoted_list names =
     (let quoted = map backquoted names in
      if quoted = [] then []
      else if butlast quoted = [] then last quoted
      else join '', '' (butlast quoted) @ '' and '' @ last quoted)"

definition usage :: string where
  "usage = ''schema!(name = SimpleSchema, node_kind = SimpleNode, edge_kind = SimpleEdge, prop_kind = SimpleProperty, version = '' @
     quoted ''1.0.0'' @ '')''"

definition missing_keys_message :: "string list \<Rightarrow> string" where
  "missing_keys_message missing =
     (let noun = (if length missing = 1 then ''key'' else ''keys'') in
      ''missing '' @ noun @ '' '' @ quoted_list missing @ '' in '' @ backquoted ''schema!'' @
      [CHR 0x0A] @ ''help: '' @ usage)"

section \<open>Versions\<close>

text \<open>\<open>str::split('.')\<close> and \<open>str::parse::<u32>\<close>.\<close>

fun split_dot :: "string \<Rightarrow> string list" where
  "split_dot [] = [[]]"
| "split_dot (c # s) =
     (if c = CHR ''.'' then [] # split_dot s
      else case split_dot s of p # ps \<Rightarrow> (c # p) # ps | [] \<Rightarrow> [[c]])"

definition digits_value :: "string \<Rightarrow> nat" where
  "digits_value s = foldl (\<lambda>n c. 10 * n + (of_char c - 48)) 0 s"

definition parse_u32 :: "string \<Rightarrow> u32 option" where
  "parse_u32 s =
     (let ds = (case s of c # rest \<Rightarrow> if c = CHR ''+'' then rest else s | [] \<Rightarrow> []) in
      if ds = [] \<or> \<not> list_all is_digit ds then None else u32_try_from (digits_value ds))"

definition parse_component :: "string \<Rightarrow> string \<Rightarrow> u32 derived" where
  "parse_component lit s = ok_or (InvalidComponent lit s) (parse_u32 s)"

definition parse_version :: "string \<Rightarrow> version derived" where
  "parse_version lit =
     (case split_dot lit of
        [maj_str, min_str, patch_str] \<Rightarrow>
          andthen (parse_component lit maj_str) (\<lambda>a.
          andthen (parse_component lit min_str) (\<lambda>b.
          andthen (parse_component lit patch_str) (\<lambda>c.
          Ok \<lparr>major = a, minor = b, patch = c\<rparr>)))
      | _ \<Rightarrow> Err (InvalidVersion lit))"

text \<open>What \<open>schema!\<close> generates: the type of the registry, the name and the version.\<close>

record schema_impl =
  si_name :: ident
  si_node_kind :: type_path
  si_edge_kind :: type_path
  si_prop_kind :: type_path
  si_epr :: type_path
  si_version :: version

definition schema_expand :: "schema_def \<Rightarrow> schema_impl derived" where
  "schema_expand d =
     (let epr = (case sd_enum_prop_registry d of
          Some registry \<Rightarrow> registry
        | None \<Rightarrow> [(''flatpg'', NoArguments), (''enum_property'', NoArguments), (''NoEnumProps'', NoArguments)]) in
      andthen (parse_version (sd_version d)) (\<lambda>version.
      Ok \<lparr>si_name = sd_name d, si_node_kind = sd_node_kind d, si_edge_kind = sd_edge_kind d,
          si_prop_kind = sd_prop_kind d, si_epr = epr, si_version = version\<rparr>))"

section \<open>\<open>enum_property_registry!\<close>\<close>

record registry_def =
  rd_ident :: ident
  rd_enum_types :: "type_path list"

text \<open>A list of types with commas between them and, maybe, one at the end.\<close>

fun parse_types :: "token list \<Rightarrow> type_path list derived" where
  "parse_types [] = Ok []"
| "parse_types [t] = map_ok (\<lambda>ty. [ty]) (parse_type_path t)"
| "parse_types (t # u # rest) =
     andthen (parse_type_path t) (\<lambda>ty.
     if u = TkComma then map_ok (\<lambda>tys. ty # tys) (parse_types rest) else Err SyntaxError)"

definition parse_registry :: "token list \<Rightarrow> registry_def derived" where
  "parse_registry input =
     (case input of
        TkIdent i # TkColon # rest \<Rightarrow> map_ok (\<lambda>tys. \<lparr>rd_ident = i, rd_enum_types = tys\<rparr>) (parse_types rest)
      | _ \<Rightarrow> Err SyntaxError)"

definition duplicate_step :: "type_path \<Rightarrow> string list \<Rightarrow> string list derived" where
  "duplicate_step ty seen =
     andthen (typ_last_segment_name ty) (\<lambda>name.
     if name \<in> set seen then Err (DuplicateEnumType name) else Ok (seen @ [name]))"

definition check_no_duplicates :: "type_path list \<Rightarrow> unit derived" where
  "check_no_duplicates enum_types = map_ok (\<lambda>_. ()) (for_each duplicate_step enum_types [])"

definition registry_variant :: "type_path \<Rightarrow> enum_variant derived" where
  "registry_variant ty =
     map_ok (\<lambda>name. \<lparr>v_ident = name, v_attrs = [\<lparr>at_ident = ''enum_type'', at_args = Paths [ty]\<rparr>]\<rparr>)
       (typ_last_segment_name ty)"

definition registry_expand :: "registry_def \<Rightarrow> item_enum derived" where
  "registry_expand d =
     (if rd_enum_types d = [] then Err (EmptyRegistry (rd_ident d))
      else andthen (check_no_duplicates (rd_enum_types d)) (\<lambda>_.
        andthen (map_each registry_variant (rd_enum_types d)) (\<lambda>variants.
        Ok \<lparr>i_ident = rd_ident d, i_attrs = [], i_variants = variants\<rparr>)))"

end
