(* ===== verification/Derive_Macros_Spec.thy ===== *)
theory Derive_Macros_Spec
  imports Derive_Macros
begin

text \<open>
  What the macros accept and generate: \<open>schema!\<close> reads its keys in any order, the version of a schema is
  read back from its text, and a registry made by \<open>enum_property_registry!\<close> numbers its enums in order.
\<close>

section \<open>Loops over names that must differ\<close>

lemma for_each_seen:
  "for_each (\<lambda>x seen. andthen (f x) (\<lambda>n. if n \<in> set seen then Err (e x n) else Ok (seen @ [n]))) xs seen = Ok seen' \<longleftrightarrow>
     (\<exists>ns. map_each f xs = Ok ns \<and> seen' = seen @ ns \<and> distinct ns \<and> set ns \<inter> set seen = {})"
proof (induction xs arbitrary: seen)
  case (Cons x xs)
  show ?case
    by (cases "f x") (auto simp: Cons andthen_eq_Ok map_ok_eq_Ok)
qed auto

lemma check_no_duplicates_Ok:
  "check_no_duplicates tys = Ok u \<longleftrightarrow> (\<exists>ns. map_each typ_last_segment_name tys = Ok ns \<and> distinct ns)"
  by (simp add: check_no_duplicates_def duplicate_step_def [abs_def] map_ok_eq_Ok for_each_seen)

lemma check_no_collisions_Ok:
  "check_no_method_name_collisions vs = Ok u \<longleftrightarrow>
     (\<exists>ns. map_each (\<lambda>v. method_ident (v_ident v)) vs = Ok ns \<and> distinct ns)"
  by (simp add: check_no_method_name_collisions_def collision_step_def [abs_def] map_ok_eq_Ok for_each_seen)

section \<open>The registry\<close>

lemma map_each_map: "map_each f (map g xs) = map_each (\<lambda>x. f (g x)) xs"
  by (induction xs) simp_all

lemma registry_variants:
  "map_each registry_variant tys = Ok vs \<Longrightarrow>
     map_each typ_last_segment_name tys = Ok (map v_ident vs) \<and>
     vs = map2 (\<lambda>n ty. \<lparr>v_ident = n, v_attrs = [\<lparr>at_ident = ''enum_type'', at_args = Paths [ty]\<rparr>]\<rparr>) (map v_ident vs) tys"
  by (induction tys arbitrary: vs) (auto simp: andthen_eq_Ok map_ok_eq_Ok registry_variant_def)

lemma registry_types:
  "length ns = length tys \<Longrightarrow>
   map_each (\<lambda>v. andthen (ok_or (MissingEnumType (v_ident v)) (find_attribute ''enum_type'' (v_attrs v)))
       (\<lambda>attr. case at_args attr of Paths [ty] \<Rightarrow> Ok ty | _ \<Rightarrow> Err SyntaxError))
     (map2 (\<lambda>n ty. \<lparr>v_ident = n, v_attrs = [\<lparr>at_ident = ''enum_type'', at_args = Paths [ty]\<rparr>]\<rparr>) ns tys) = Ok tys"
  by (induction ns tys rule: list_induct2) (simp_all add: find_attribute_def)

lemma registry_labels:
  "map_each (\<lambda>v. map_ok (\<lambda>label. (v_ident v, label)) (variant_label (v_ident v) (v_attrs v)))
     (map2 (\<lambda>n ty. \<lparr>v_ident = n, v_attrs = [\<lparr>at_ident = ''enum_type'', at_args = Paths [ty]\<rparr>]\<rparr>) ns tys) =
   Ok (map2 (\<lambda>n ty. (n, n)) ns tys)"
  by (induction ns tys rule: list_induct2') (simp_all add: variant_label_def find_attribute_def)

lemma registry_expanded:
  assumes "registry_expand d = Ok item"
  shows "map_each typ_last_segment_name (rd_enum_types d) = Ok (variant_idents item)"
    and "distinct (variant_idents item)" and "rd_enum_types d \<noteq> []"
    and "enum_property_registry_derive item =
      Ok \<lparr>ri_index = map (\<lambda>(i, enum_ty). (enum_ty, i)) (enumerate 0 (rd_enum_types d)),
          ri_variant_count = zip (variant_idents item) (rd_enum_types d)\<rparr>"
    and "enum_item_as_str_derive item = Ok (map (\<lambda>n. (n, n)) (variant_idents item))"
proof -
  let ?tys = "rd_enum_types d"
  obtain vs ns where ne: "?tys \<noteq> []" and ns: "map_each typ_last_segment_name ?tys = Ok ns" "distinct ns"
    and vs: "map_each registry_variant ?tys = Ok vs" and item: "item = \<lparr>i_ident = rd_ident d, i_attrs = [], i_variants = vs\<rparr>"
    using assms by (auto simp: registry_expand_def andthen_eq_Ok check_no_duplicates_Ok split: if_splits)
  have idents: "variant_idents item = map v_ident vs" by (simp add: variant_idents_def item)
  show names: "map_each typ_last_segment_name ?tys = Ok (variant_idents item)"
    and "distinct (variant_idents item)" and "?tys \<noteq> []"
    using registry_variants [OF vs] ns ne by (simp_all add: idents)
  have len: "length (variant_idents item) = length ?tys"
    using names by (auto simp: map_each_eq_Ok dest: list_all2_lengthD)
  have eq: "i_variants item = map2 (\<lambda>n ty. \<lparr>v_ident = n, v_attrs = [\<lparr>at_ident = ''enum_type'', at_args = Paths [ty]\<rparr>]\<rparr>)
      (variant_idents item) ?tys"
    using registry_variants [OF vs] by (simp add: idents) (simp add: item)
  show "enum_property_registry_derive item =
      Ok \<lparr>ri_index = map (\<lambda>(i, enum_ty). (enum_ty, i)) (enumerate 0 ?tys),
          ri_variant_count = zip (variant_idents item) ?tys\<rparr>"
    unfolding enum_property_registry_derive_def parse_enum_type_attr_def
    by (subst eq, subst registry_types [OF len]) simp
  show "enum_item_as_str_derive item = Ok (map (\<lambda>n. (n, n)) (variant_idents item))"
    unfolding enum_item_as_str_derive_def
    by (subst eq, subst registry_labels)
      (use len in \<open>auto simp: map2_map_map split: prod.split intro!: nth_equalityI\<close>)
qed

section \<open>Enum values\<close>

lemma enum_try_from_value:
  assumes "value_of_enum (de_index de) i = Ok v"
  shows "enum_try_from de v =
    (case get_at (enum_item_all_derive (de_item de)) i of
       Some c \<Rightarrow> Ok c | None \<Rightarrow> Err (UnresolvedEnumVariant (de_name de) i))"
  using assms
  by (auto simp: value_of_enum_def map_ok_eq_Ok raw_enum_new_def andthen_eq_Ok enum_try_from_def resolve_enum_def
      raw_enum_index_def raw_enum_variant_def de_from_index_def from_index_get_at enum_item_all_derive_def ok_or_def
      split: option.split)

section \<open>Versions\<close>

lemma of_char_digit: "n < 10 \<Longrightarrow> (of_char (char_of (48 + n) :: char) :: nat) = 48 + n"
  by (simp add: of_char_of)

lemma digits_value_append: "digits_value (s @ [c]) = 10 * digits_value s + (of_char c - 48)"
  by (simp add: digits_value_def)

lemma nat_str_digits: "nat_str n \<noteq> [] \<and> list_all is_digit (nat_str n) \<and> digits_value (nat_str n) = n"
proof (induction n rule: nat_str.induct)
  case (1 n)
  show ?case
  proof (cases "n < 10")
    case True
    then show ?thesis
      by (subst (1 2 3) nat_str.simps) (simp add: is_digit_def digits_value_def of_char_digit)
  next
    case False
    have "is_digit (char_of (48 + n mod 10))" by (simp add: is_digit_def of_char_digit)
    then show ?thesis
      using 1 False by (subst (1 2 3) nat_str.simps) (simp add: digits_value_append of_char_digit)
  qed
qed

lemma parse_u32_nat_str: "parse_u32 (nat_str n) = u32_try_from n"
proof (cases "nat_str n")
  case (Cons c s)
  then have "is_digit c" using nat_str_digits [of n] by simp
  then have "c \<noteq> CHR ''+''" by (auto simp: is_digit_def)
  then show ?thesis using nat_str_digits [of n] Cons by (simp add: parse_u32_def)
qed (use nat_str_digits [of n] in simp)

lemma split_dot_append: "CHR ''.'' \<notin> set a \<Longrightarrow> split_dot (a @ CHR ''.'' # b) = a # split_dot b"
  by (induction a) auto

lemma split_dot_single: "CHR ''.'' \<notin> set a \<Longrightarrow> split_dot a = [a]"
  by (induction a) auto

lemma nat_str_no_dot: "CHR ''.'' \<notin> set (nat_str n)"
  using nat_str_digits [of n] by (auto simp: list_all_iff is_digit_def)

lemma parse_version_str: "parse_version (version_str v) = Ok v"
proof -
  have "split_dot (version_str v) = [nat_str (unat (major v)), nat_str (unat (minor v)), nat_str (unat (patch v))]"
    by (simp add: version_str_def split_dot_append split_dot_single nat_str_no_dot)
  moreover have "u32_try_from (unat w) = Some w" for w :: u32 by (simp add: u32_try_from_def)
  ultimately show ?thesis
    by (simp add: parse_version_def parse_component_def parse_u32_nat_str)
qed

section \<open>The arguments of \<open>schema!\<close>\<close>

text \<open>An entry of the call: a known key, and a token that is a value of its type.\<close>

lemma key_of_str [simp]: "key_of (key_str k) = Some k"
  by (cases k) (simp_all add: key_of_def)

fun entry_ok :: "schema_key \<times> token \<Rightarrow> bool" where
  "entry_ok (k, TkIdent i) \<longleftrightarrow> k \<noteq> KVersion"
| "entry_ok (k, TkPath p) \<longleftrightarrow> k \<noteq> KName \<and> k \<noteq> KVersion"
| "entry_ok (k, TkLit s) \<longleftrightarrow> k = KVersion"
| "entry_ok (k, _) \<longleftrightarrow> False"

fun entry_tokens :: "schema_key \<times> token \<Rightarrow> token list" where
  "entry_tokens (k, t) = [TkIdent (key_str k), TkEq, t]"

definition leading :: "(schema_key \<times> token) list \<Rightarrow> token list" where
  "leading es = concat (map (\<lambda>e. entry_tokens e @ [TkComma]) es)"

fun token_ident :: "token \<Rightarrow> ident" where
  "token_ident (TkIdent i) = i" | "token_ident _ = []"

fun token_path :: "token \<Rightarrow> type_path" where
  "token_path (TkIdent i) = [(i, NoArguments)]" | "token_path (TkPath p) = p" | "token_path _ = []"

fun token_lit :: "token \<Rightarrow> string" where
  "token_lit (TkLit s) = s" | "token_lit _ = []"

fun set_entry :: "schema_key \<times> token \<Rightarrow> schema_slots \<Rightarrow> schema_slots" where
  "set_entry (KName, t) s = s\<lparr>ss_name := Some (token_ident t)\<rparr>"
| "set_entry (KNodeKind, t) s = s\<lparr>ss_node_kind := Some (token_path t)\<rparr>"
| "set_entry (KEdgeKind, t) s = s\<lparr>ss_edge_kind := Some (token_path t)\<rparr>"
| "set_entry (KPropKind, t) s = s\<lparr>ss_prop_kind := Some (token_path t)\<rparr>"
| "set_entry (KEnumPropRegistry, t) s = s\<lparr>ss_enum_prop_registry := Some (token_path t)\<rparr>"
| "set_entry (KVersion, t) s = s\<lparr>ss_version := Some (token_lit t)\<rparr>"

fun filled :: "schema_slots \<Rightarrow> schema_key \<Rightarrow> bool" where
  "filled s KName \<longleftrightarrow> ss_name s \<noteq> None"
| "filled s KNodeKind \<longleftrightarrow> ss_node_kind s \<noteq> None"
| "filled s KEdgeKind \<longleftrightarrow> ss_edge_kind s \<noteq> None"
| "filled s KPropKind \<longleftrightarrow> ss_prop_kind s \<noteq> None"
| "filled s KEnumPropRegistry \<longleftrightarrow> ss_enum_prop_registry s \<noteq> None"
| "filled s KVersion \<longleftrightarrow> ss_version s \<noteq> None"

lemma parse_entry_Ok:
  "entry_ok (k, t) \<Longrightarrow> \<not> filled s k \<Longrightarrow> parse_entry (key_str k) (t # rest) s = Ok (set_entry (k, t) s, rest)"
  by (cases t; cases k)
    (simp_all add: parse_entry_def parse_and_set_def parse_ident_def parse_type_path_def parse_lit_def del: key_str.simps)

lemma parse_entry_filled: "filled s k \<Longrightarrow> parse_entry (key_str k) input s = Err (DuplicateKey (key_str k))"
  by (cases k) (simp_all add: parse_entry_def parse_and_set_def del: key_str.simps)

lemma filled_set_entry: "filled (set_entry (k, t) s) k' \<longleftrightarrow> k' = k \<or> filled s k'"
  by (cases k; cases k') simp_all

text \<open>The loop after some entries with a comma each; what it does next is what it does with the rest.\<close>

lemma parse_entries_leading:
  assumes "list_all entry_ok es" and "distinct (map fst es)" and "\<And>k. k \<in> fst ` set es \<Longrightarrow> \<not> filled s k"
  shows "parse_entries (leading es @ input) s = parse_entries input (fold set_entry es s)"
  using assms
proof (induction es arbitrary: s)
  case (Cons e es)
  obtain k t where e: "e = (k, t)" by (cases e)
  have "parse_entries (leading (e # es) @ input) s = parse_entries (leading es @ input) (set_entry e s)"
    using Cons.prems(1) Cons.prems(3) [of k]
    by (subst parse_entries.simps) (simp add: leading_def e parse_entry_Ok)
  also have "\<dots> = parse_entries input (fold set_entry es (set_entry e s))"
    by (rule Cons.IH) (use Cons.prems in \<open>auto simp: e filled_set_entry\<close>)
  finally show ?case by simp
qed (simp add: leading_def)

lemma parse_entries_entry:
  "entry_ok (k, t) \<Longrightarrow> \<not> filled s k \<Longrightarrow> parse_entries (entry_tokens (k, t)) s = Ok (set_entry (k, t) s)"
  by (subst parse_entries.simps) (simp add: parse_entry_Ok)

lemma parse_entries_Nil: "parse_entries [] s = Ok s"
  by (simp add: parse_entries.simps)

lemma parse_entries_duplicate:
  "filled s k \<Longrightarrow> parse_entries (TkIdent (key_str k) # TkEq # input) s = Err (DuplicateKey (key_str k))"
  by (subst parse_entries.simps) (simp add: parse_entry_filled)

lemma parse_entries_unknown:
  "key_of key = None \<Longrightarrow> parse_entries (TkIdent key # TkEq # input) s = Err (UnknownKey key)"
  by (subst parse_entries.simps) (simp add: parse_entry_def)

lemma filled_fold: "filled (fold set_entry es s) k \<longleftrightarrow> k \<in> fst ` set es \<or> filled s k"
  by (induction es arbitrary: s) (auto simp: filled_set_entry)

lemma fold_set_entry:
  assumes "distinct (map fst es)"
  shows "ss_name (fold set_entry es s) = (case map_of es KName of Some t \<Rightarrow> Some (token_ident t) | None \<Rightarrow> ss_name s)"
    and "ss_node_kind (fold set_entry es s) = (case map_of es KNodeKind of Some t \<Rightarrow> Some (token_path t) | None \<Rightarrow> ss_node_kind s)"
    and "ss_edge_kind (fold set_entry es s) = (case map_of es KEdgeKind of Some t \<Rightarrow> Some (token_path t) | None \<Rightarrow> ss_edge_kind s)"
    and "ss_prop_kind (fold set_entry es s) = (case map_of es KPropKind of Some t \<Rightarrow> Some (token_path t) | None \<Rightarrow> ss_prop_kind s)"
    and "ss_enum_prop_registry (fold set_entry es s) =
      (case map_of es KEnumPropRegistry of Some t \<Rightarrow> Some (token_path t) | None \<Rightarrow> ss_enum_prop_registry s)"
    and "ss_version (fold set_entry es s) = (case map_of es KVersion of Some t \<Rightarrow> Some (token_lit t) | None \<Rightarrow> ss_version s)"
  using assms
proof (atomize (full), induction es arbitrary: s)
  case (Cons e es)
  obtain k t where e: "e = (k, t)" by (cases e)
  have "map_of es k = None" using Cons.prems by (simp add: e map_of_eq_None_iff)
  then show ?case
    using Cons.IH [of "set_entry (k, t) s"] Cons.prems by (cases k) (simp_all add: e split: option.splits)
qed simp

definition schema_tokens :: "bool \<Rightarrow> (schema_key \<times> token) list \<Rightarrow> token list" where
  "schema_tokens trailing es =
     (if trailing \<or> es = [] then leading es else leading (butlast es) @ entry_tokens (last es))"

lemma parse_schema_tokens:
  assumes ok: "list_all entry_ok es" and dist: "distinct (map fst es)"
  shows "parse_entries (schema_tokens trailing es) no_slots = Ok (fold set_entry es no_slots)"
proof -
  have none: "\<not> filled no_slots k" for k by (cases k) (simp_all add: no_slots_def)
  show ?thesis
  proof (cases "trailing \<or> es = []")
    case True
    then show ?thesis
      using parse_entries_leading [OF ok dist, of no_slots "[]"] none by (simp add: schema_tokens_def parse_entries_Nil)
  next
    case False
    then obtain es' k t where es: "es = es' @ [(k, t)]" by (metis prod.collapse append_butlast_last_id)
    then have "parse_entries (leading es' @ entry_tokens (k, t)) no_slots =
        parse_entries (entry_tokens (k, t)) (fold set_entry es' no_slots)"
      using ok dist none by (intro parse_entries_leading) simp_all
    also have "\<dots> = Ok (set_entry (k, t) (fold set_entry es' no_slots))"
      using ok dist none es by (intro parse_entries_entry) (simp_all add: filled_fold)
    finally show ?thesis using False by (simp add: schema_tokens_def es)
  qed
qed

section \<open>Names of methods\<close>

lemma method_ident_eq:
  "method_ident v = (let snake = to_snake_case v in
     if snake = ''super'' \<or> snake = ''crate'' then Panic
     else Ok (if is_rust_keyword snake then ''r#'' @ snake else snake))"
  by (auto simp: method_ident_def ident_new_raw_def Let_def is_rust_keyword_def rust_keywords_def)

lemma to_snake_case_hash: "CHR ''#'' \<notin> set v \<Longrightarrow> CHR ''#'' \<notin> set (to_snake_case v)"
proof
  assume v: "CHR ''#'' \<notin> set v" and "CHR ''#'' \<in> set (to_snake_case v)"
  then obtain i ch where ich: "(i, ch) \<in> set (enumerate 0 v)" "CHR ''#'' = to_lower ch \<or> CHR ''#'' = ch"
    by (auto simp: to_snake_case_def Let_def split: if_splits)
  moreover have "to_lower ch \<noteq> CHR ''#''" if "ch \<noteq> CHR ''#''"
    using that by (auto simp: to_lower_def is_upper_def dest!: arg_cong [where f = "of_char :: char \<Rightarrow> nat"])
  moreover have "ch \<in> set v" using ich(1) by (auto simp: in_set_enumerate_eq)
  ultimately show False using v by metis
qed

text \<open>The name of the method for a variant, where there is one.\<close>

definition accessor_method :: "ident \<Rightarrow> ident" where
  "accessor_method v = (if is_rust_keyword (to_snake_case v) then ''r#'' @ to_snake_case v else to_snake_case v)"

definition path_keyword :: "ident \<Rightarrow> bool" where
  "path_keyword v \<longleftrightarrow> to_snake_case v \<in> {''super'', ''crate''}"

lemma method_ident_cases: "method_ident v = (if path_keyword v then Panic else Ok (accessor_method v))"
  by (simp add: method_ident_eq Let_def accessor_method_def path_keyword_def)

lemma accessor_method_inject:
  assumes "CHR ''#'' \<notin> set v" and "CHR ''#'' \<notin> set w"
  shows "accessor_method v = accessor_method w \<longleftrightarrow> to_snake_case v = to_snake_case w"
  using to_snake_case_hash [OF assms(1)] to_snake_case_hash [OF assms(2)]
  by (auto simp: accessor_method_def split: if_splits) (metis list.set_intros)+

lemma method_idents: "(\<And>v. v \<in> set vs \<Longrightarrow> \<not> path_keyword v) \<Longrightarrow> map_each method_ident vs = Ok (map accessor_method vs)"
  by (rule map_each_Ok_cong) (simp add: method_ident_cases)

lemma distinct_accessor_methods:
  assumes "\<forall>v\<in>set vs. CHR ''#'' \<notin> set v"
  shows "distinct (map accessor_method vs) \<longleftrightarrow> distinct (map to_snake_case vs)"
  using assms accessor_method_inject by (auto simp: distinct_map inj_on_def)

text \<open>The first variant whose name is taken, or cannot be a method, decides.\<close>

lemma collision_at:
  assumes vs: "map v_ident vs = ys @ v # zs" and names: "\<forall>u\<in>set (map v_ident vs). CHR ''#'' \<notin> set u"
    and ys: "\<forall>u\<in>set ys. \<not> path_keyword u" "distinct (map to_snake_case ys)"
  shows "path_keyword v \<Longrightarrow> check_no_method_name_collisions vs = Panic"
    and "\<not> path_keyword v \<Longrightarrow> to_snake_case v \<in> to_snake_case ` set ys \<Longrightarrow>
      check_no_method_name_collisions vs = Err (DuplicateMethod v (accessor_method v))"
proof -
  obtain ys' x zs' where split: "vs = ys' @ x # zs'" "map v_ident ys' = ys" "v_ident x = v"
    using vs by (auto simp: map_eq_append_conv map_eq_Cons_conv)
  have "map_each (\<lambda>u. method_ident (v_ident u)) ys' = Ok (map accessor_method ys)"
    using method_idents [of ys] ys(1) by (simp add: map_each_map flip: split(2))
  moreover have "distinct (map accessor_method ys)"
    using names ys(2) by (subst distinct_accessor_methods) (auto simp: vs)
  ultimately have seen: "for_each collision_step ys' [] = Ok (map accessor_method ys)"
    by (simp add: collision_step_def [abs_def] for_each_seen)
  show "check_no_method_name_collisions vs = Panic" if "path_keyword v"
    using that by (simp add: check_no_method_name_collisions_def split(1,3) for_each_append seen collision_step_def method_ident_cases)
  show "check_no_method_name_collisions vs = Err (DuplicateMethod v (accessor_method v))"
    if "\<not> path_keyword v" "to_snake_case v \<in> to_snake_case ` set ys"
  proof -
    have "accessor_method v \<in> accessor_method ` set ys" using that(2) by (auto simp: accessor_method_def)
    then show ?thesis
      using that(1) by (simp add: check_no_method_name_collisions_def split(1,3) for_each_append seen collision_step_def method_ident_cases)
  qed
qed

lemma accessors_derived:
  assumes "\<forall>v\<in>set (variant_idents input). CHR ''#'' \<notin> set v"
    and "\<forall>v\<in>set (variant_idents input). \<not> path_keyword v" and "distinct (map to_snake_case (variant_idents input))"
  shows "node_accessor_traits_derive input = Ok (map (\<lambda>v. (v @ ''NodesAccessor'', accessor_method v, v)) (variant_idents input))"
proof -
  have "map_each (\<lambda>v. method_ident (v_ident v)) (i_variants input) = Ok (map accessor_method (variant_idents input))"
    using method_idents [of "variant_idents input"] assms(2) by (simp add: variant_idents_def map_each_map)
  moreover have "distinct (map accessor_method (variant_idents input))"
    using distinct_accessor_methods [OF assms(1)] assms(3) by simp
  ultimately have "check_no_method_name_collisions (i_variants input) = Ok ()" by (simp add: check_no_collisions_Ok)
  moreover have "map_each (\<lambda>v. map_ok (\<lambda>m. (v @ ''NodesAccessor'', m, v)) (method_ident v)) (variant_idents input) =
      Ok (map (\<lambda>v. (v @ ''NodesAccessor'', accessor_method v, v)) (variant_idents input))"
    using assms(2) by (intro map_each_Ok_cong) (simp add: method_ident_cases)
  ultimately show ?thesis by (simp add: node_accessor_traits_derive_def)
qed

lemma accessors_derived_only:
  assumes "\<forall>v\<in>set (variant_idents input). CHR ''#'' \<notin> set v" and "node_accessor_traits_derive input = Ok ts"
  shows "(\<forall>v\<in>set (variant_idents input). \<not> path_keyword v) \<and> distinct (map to_snake_case (variant_idents input))"
proof -
  have "check_no_method_name_collisions (i_variants input) = Ok ()"
    using assms(2) by (auto simp: node_accessor_traits_derive_def andthen_eq_Ok)
  then obtain ns where ns: "map_each method_ident (variant_idents input) = Ok ns" "distinct ns"
    by (auto simp: check_no_collisions_Ok variant_idents_def map_each_map)
  then have legal: "\<forall>v\<in>set (variant_idents input). \<not> path_keyword v"
    by (auto simp: map_each_eq_Ok list_all2_conv_all_nth in_set_conv_nth method_ident_cases split: if_splits)
  then have "ns = map accessor_method (variant_idents input)" using ns(1) method_idents [of "variant_idents input"] by simp
  then show ?thesis using legal ns(2) distinct_accessor_methods [OF assms(1)] by simp
qed

end
