(* ===== verification/Derive_Example.thy ===== *)
theory Derive_Example
  imports Derive_Spec Derive_Macros_Spec Sample
begin

text \<open>
  The enums of \<open>examples/simple_graph.rs\<close> as the derives see them, and the two macro calls of the
  example. What the derives generate from them is \<open>simple_schema\<close>.
\<close>

section \<open>Strings of the example\<close>

text \<open>
  Hashing by unfolding 64-bit words is slow, so the four strings of the example are hashed once by
  \<open>simp\<close>, and evaluation looks them up.
\<close>

lemma rotl5: "word_rotl 5 (w::u64) = w * 32 OR drop_bit 59 w"
proof -
  have "bit (word_rotl 5 w) n = bit (push_bit 5 w OR drop_bit 59 w) n" if "n < 64" for n
  proof (cases "n < 5")
    case True
    with that show ?thesis
      by (auto simp: bit_word_rotl_iff bit_or_iff bit_push_bit_iff bit_drop_bit_eq add.commute)
  next
    case False
    with that have "bit w (59 + n) = False" by (auto dest: bit_imp_le_length)
    with False that show ?thesis
      by (auto simp: bit_word_rotl_iff bit_or_iff bit_push_bit_iff bit_drop_bit_eq le_mod_geq)
  qed
  then have "word_rotl 5 w = push_bit 5 w OR drop_bit 59 w" by (intro bit_word_eqI) simp
  then show ?thesis by (simp add: push_bit_eq_mult mult.commute)
qed

lemma replicate_num: "replicate (numeral k) x = x # replicate (pred_numeral k) x"
  by (simp add: numeral_eq_Suc)

lemma hashes:
  "hash_str [104, 101, 108, 108, 111] = 2324854955"
  "hash_str [118, 49] = 4075324927"
  "hash_str [118, 50] = 723544358"
  "hash_str [114, 101, 102, 101, 114, 115, 45, 116, 111] = 3016507486"
  by (simp_all add: hash_str_def hash_chunks.simps mix_def hash_multiplier_def push_bit_eq_mult rotl5 replicate_num)

definition known_hashes :: "(bytes \<times> u32) list" where
  "known_hashes = [([104, 101, 108, 108, 111], 2324854955), ([118, 49], 4075324927), ([118, 50], 723544358),
    ([114, 101, 102, 101, 114, 115, 45, 116, 111], 3016507486)]"

lemma hash_str_code [code]:
  "hash_str bs = (case map_of known_hashes bs of Some h \<Rightarrow> h | None \<Rightarrow>
     (let (hash, remainder) = hash_chunks 0 bs;
          tail = remainder @ replicate (8 - length remainder) 0;
          hash' = mix hash (from_le_bytes tail XOR of_nat (length bs))
      in ucast (hash' XOR drop_bit 32 hash')))"
  unfolding hash_str_def [symmetric] by (auto simp: known_hashes_def hashes split: option.splits)

section \<open>The enums\<close>

definition plain_path :: "ident \<Rightarrow> type_path" where
  "plain_path i = [(i, NoArguments)]"

definition bare_variant :: "ident \<Rightarrow> enum_variant" where
  "bare_variant i = \<lparr>v_ident = i, v_attrs = []\<rparr>"

definition property_variant :: "ident \<Rightarrow> (ident \<times> type_path option) list \<Rightarrow> enum_variant" where
  "property_variant i args = \<lparr>v_ident = i, v_attrs = [\<lparr>at_ident = ''property'', at_args = Pairs args\<rparr>]\<rparr>"

definition status_item :: item_enum where
  "status_item =
     \<lparr>i_ident = ''Status'', i_attrs = [],
      i_variants = [bare_variant ''Active'', bare_variant ''Inactive'', bare_variant ''Banned'']\<rparr>"

definition simple_registry_call :: "token list" where
  "simple_registry_call = [TkIdent ''SimplePropEnumsRegistry'', TkColon, TkIdent ''Status'']"

definition simple_property_item :: item_enum where
  "simple_property_item =
     \<lparr>i_ident = ''SimpleProperty'', i_attrs = [],
      i_variants =
        [property_variant ''Key'' [(''typ'', Some (plain_path ''String'')), (''quantity'', Some (plain_path ''One''))],
         property_variant ''Values'' [(''typ'', Some (plain_path ''String'')), (''quantity'', Some (plain_path ''Multi''))],
         property_variant ''Count'' [(''typ'', Some (plain_path ''Int'')), (''quantity'', Some (plain_path ''One''))],
         property_variant ''Ref'' [(''typ'', Some (plain_path ''NodeId'')), (''quantity'', Some (plain_path ''One''))],
         property_variant ''State''
           [(''typ'', Some [(''Enum'', AngleBracketed [TypeArgument ''Status''])]), (''quantity'', Some (plain_path ''One''))],
         property_variant ''Tag'' [(''typ'', Some (plain_path ''String'')), (''quantity'', Some (plain_path ''One'')),
           (''rename'', Some (plain_path ''Label''))]]\<rparr>"

definition simple_node_item :: item_enum where
  "simple_node_item =
     \<lparr>i_ident = ''SimpleNode'',
      i_attrs = [\<lparr>at_ident = ''node_kind'', at_args = Pairs
        [(''schema'', Some (plain_path ''SimpleSchema'')), (''property_kind'', Some (plain_path ''SimpleProperty''))]\<rparr>],
      i_variants =
        [\<lparr>v_ident = ''Alpha'', v_attrs = [\<lparr>at_ident = ''properties'', at_args = Paths [plain_path ''Key'', plain_path ''Values'']\<rparr>]\<rparr>,
         \<lparr>v_ident = ''Beta'', v_attrs = [\<lparr>at_ident = ''properties'', at_args = Paths [plain_path ''Count'']\<rparr>]\<rparr>,
         \<lparr>v_ident = ''Gamma'', v_attrs = [\<lparr>at_ident = ''properties'', at_args = Paths [plain_path ''Ref'', plain_path ''State'']\<rparr>]\<rparr>]\<rparr>"

definition simple_edge_item :: item_enum where
  "simple_edge_item =
     \<lparr>i_ident = ''SimpleEdge'',
      i_attrs = [\<lparr>at_ident = ''edge_kind'', at_args = Pairs [(''schema'', Some (plain_path ''SimpleSchema''))]\<rparr>],
      i_variants =
        [property_variant ''Base'' [(''typ'', Some (plain_path ''None''))],
         property_variant ''Extended'' [(''typ'', Some (plain_path ''String''))]]\<rparr>"

definition simple_schema_entries :: "(schema_key \<times> token) list" where
  "simple_schema_entries =
     [(KName, TkIdent ''SimpleSchema''), (KNodeKind, TkIdent ''SimpleNode''), (KEdgeKind, TkIdent ''SimpleEdge''),
      (KPropKind, TkIdent ''SimpleProperty''), (KEnumPropRegistry, TkIdent ''SimplePropEnumsRegistry''),
      (KVersion, TkLit ''1.0.0'')]"

text \<open>The enum the registry macro writes, and the enum type it registers.\<close>

definition simple_registry_item :: item_enum where
  "simple_registry_item =
     \<lparr>i_ident = ''SimplePropEnumsRegistry'', i_attrs = [],
      i_variants = [\<lparr>v_ident = ''Status'', v_attrs = [\<lparr>at_ident = ''enum_type'', at_args = Paths [plain_path ''Status'']\<rparr>]\<rparr>]\<rparr>"

definition status_enum :: domain_enum where
  "status_enum = \<lparr>de_name = ''Status'', de_index = 0, de_item = status_item\<rparr>"

lemma simple_registry_expanded:
  "andthen (parse_registry simple_registry_call) registry_expand = Ok simple_registry_item"
  by code_simp

text \<open>The variants of the values.\<close>

fun node_variant :: "simple_node \<Rightarrow> ident" where
  "node_variant Alpha = ''Alpha''" | "node_variant Beta = ''Beta''" | "node_variant Gamma = ''Gamma''"

fun edge_variant :: "simple_edge \<Rightarrow> ident" where
  "edge_variant Base = ''Base''" | "edge_variant Extended = ''Extended''"

fun prop_variant :: "simple_property \<Rightarrow> ident" where
  "prop_variant Key = ''Key''" | "prop_variant Values = ''Values''" | "prop_variant Count = ''Count''"
| "prop_variant Ref = ''Ref''" | "prop_variant State = ''State''" | "prop_variant Tag = ''Tag''"

fun registry_variant_name :: "simple_prop_enums_registry \<Rightarrow> ident" where
  "registry_variant_name RegStatus = ''Status''"

lemma values_namedI:
  assumes "map name ks = variant_idents input" and "set ks = UNIV" and "distinct (variant_idents input)"
    and "length ks \<le> u32_max"
  shows "values_named input name"
proof -
  have "distinct (map name ks)" using assms(1,3) by simp
  then have "inj name" using assms(2) by (simp add: distinct_map)
  moreover have "range name = set (variant_idents input)" using assms(1,2) by (metis list.set_map)
  ultimately show ?thesis
    using assms(3,4) length_map [of name ks] by (simp add: values_named_def assms(1))
qed

lemma simple_variants:
  "variant_idents simple_node_item = [''Alpha'', ''Beta'', ''Gamma'']"
  "variant_idents simple_edge_item = [''Base'', ''Extended'']"
  "variant_idents simple_property_item = [''Key'', ''Values'', ''Count'', ''Ref'', ''State'', ''Tag'']"
  "variant_idents simple_registry_item = [''Status'']"
  by code_simp+

lemma simple_labels:
  "enum_item_as_str_derive simple_node_item = Ok [(''Alpha'', ''Alpha''), (''Beta'', ''Beta''), (''Gamma'', ''Gamma'')]"
  "enum_item_as_str_derive simple_edge_item = Ok [(''Base'', ''Base''), (''Extended'', ''Extended'')]"
  "enum_item_as_str_derive simple_property_item = Ok [(''Key'', ''Key''), (''Values'', ''Values''), (''Count'', ''Count''),
     (''Ref'', ''Ref''), (''State'', ''State''), (''Tag'', ''Label'')]"
  "enum_item_as_str_derive simple_registry_item = Ok [(''Status'', ''Status'')]"
  by code_simp+

lemma simple_values_named:
  "values_named simple_node_item node_variant" "values_named simple_edge_item edge_variant"
  "values_named simple_property_item prop_variant" "values_named simple_registry_item registry_variant_name"
proof -
  have "UNIV = set [Alpha, Beta, Gamma]" using simple_node.exhaust by auto
  then show "values_named simple_node_item node_variant"
    by (intro values_namedI [where ks = "[Alpha, Beta, Gamma]"]) (simp_all add: simple_variants u32_max_def)
  have "UNIV = set [Base, Extended]" using simple_edge.exhaust by auto
  then show "values_named simple_edge_item edge_variant"
    by (intro values_namedI [where ks = "[Base, Extended]"]) (simp_all add: simple_variants u32_max_def)
  have "UNIV = set [Key, Values, Count, Ref, State, Tag]" using simple_property.exhaust by auto
  then show "values_named simple_property_item prop_variant"
    by (intro values_namedI [where ks = "[Key, Values, Count, Ref, State, Tag]"]) (simp_all add: simple_variants u32_max_def)
  have "UNIV = set [RegStatus]" using simple_prop_enums_registry.exhaust by auto
  then show "values_named simple_registry_item registry_variant_name"
    by (intro values_namedI [where ks = "[RegStatus]"]) (simp_all add: simple_variants u32_max_def)
qed

lemma derives_kindI:
  assumes "map name ks = variant_idents input" and "enum_item_as_str_derive input = Ok arms"
    and "\<And>k. map_of (enum_item_index_derive input) (name k) = Some (ix k) \<and> map_of arms (name k) = Some (str k)"
    and "\<And>i. fi i = get_at ks i"
  shows "derives_kind input name ks ix fi str"
  using assms(1,3,4) unfolding derives_kind_def from_index_get_at
  by (auto simp: enum_item_all_derive_def assms(2) get_at_map simp flip: assms(1))

lemma simple_node_tables:
  "derives_kind simple_node_item node_variant (n_all simple_schema) (n_index simple_schema)
     (n_from_index simple_schema) (n_str simple_schema)"
proof (rule derives_kindI [OF _ simple_labels(1)], goal_cases)
  case (2 k)
  show ?case by (cases k) (simp_all add: enum_item_index_derive_def simple_variants simple_schema_def)
qed (auto simp: simple_variants simple_schema_def get_at_def less_Suc_eq nth_Cons')

lemma simple_edge_tables:
  "derives_kind simple_edge_item edge_variant (e_all simple_schema) (e_index simple_schema)
     (e_from_index simple_schema) (e_str simple_schema)"
proof (rule derives_kindI [OF _ simple_labels(2)], goal_cases)
  case (2 k)
  show ?case by (cases k) (simp_all add: enum_item_index_derive_def simple_variants simple_schema_def)
qed (auto simp: simple_variants simple_schema_def get_at_def less_Suc_eq nth_Cons')

lemma simple_property_tables:
  "derives_kind simple_property_item prop_variant (p_all simple_schema) (p_index simple_schema)
     (p_from_index simple_schema) (p_str simple_schema)"
proof (rule derives_kindI [OF _ simple_labels(3)], goal_cases)
  case (2 k)
  show ?case by (cases k) (simp_all add: enum_item_index_derive_def simple_variants simple_schema_def)
qed (auto simp: simple_variants simple_schema_def get_at_def less_Suc_eq nth_Cons')

lemma simple_registry_tables:
  "derives_kind simple_registry_item registry_variant_name (r_all simple_schema) (\<lambda>_. 0)
     (r_from_index simple_schema) (r_str simple_schema)"
proof (rule derives_kindI [OF _ simple_labels(4)], goal_cases)
  case (2 k)
  show ?case by (cases k) (simp_all add: enum_item_index_derive_def simple_variants simple_schema_def)
qed (auto simp: simple_variants simple_schema_def get_at_def less_Suc_eq nth_Cons')

lemma simple_arms:
  "item_kind_property_type_derive simple_edge_item False = Ok
     [\<lparr>pm_variant = ''Base'', pm_typ = ''None'', pm_qty = None, pm_enum = None\<rparr>,
      \<lparr>pm_variant = ''Extended'', pm_typ = ''String'', pm_qty = None, pm_enum = None\<rparr>]"
  "item_kind_property_type_derive simple_property_item True = Ok
     [\<lparr>pm_variant = ''Key'', pm_typ = ''String'', pm_qty = Some (plain_path ''One''), pm_enum = None\<rparr>,
      \<lparr>pm_variant = ''Values'', pm_typ = ''String'', pm_qty = Some (plain_path ''Multi''), pm_enum = None\<rparr>,
      \<lparr>pm_variant = ''Count'', pm_typ = ''Int'', pm_qty = Some (plain_path ''One''), pm_enum = None\<rparr>,
      \<lparr>pm_variant = ''Ref'', pm_typ = ''NodeId'', pm_qty = Some (plain_path ''One''), pm_enum = None\<rparr>,
      \<lparr>pm_variant = ''State'', pm_typ = ''Enum'', pm_qty = Some (plain_path ''One''), pm_enum = Some ''Status''\<rparr>,
      \<lparr>pm_variant = ''Tag'', pm_typ = ''String'', pm_qty = Some (plain_path ''One''), pm_enum = None\<rparr>]"
  "node_available_properties_derive simple_node_item = Ok
     [(''Alpha'', [plain_path ''Key'', plain_path ''Values'']), (''Beta'', [plain_path ''Count'']),
      (''Gamma'', [plain_path ''Ref'', plain_path ''State''])]"
  by code_simp+

definition count_accessor :: accessor where
  "count_accessor = \<lparr>a_trait = ''Count'', a_method = ''count'', a_multi = False, a_borrows = False,
     a_deprecated = False, a_binding = plain_binding ''i32'' TInt\<rparr>"

text \<open>The derives accept the enums of the example.\<close>

lemma simple_compiles:
  "\<exists>out. property_kind_derive simple_property_item = Ok out \<and> count_accessor \<in> set (pk_traits out)"
  "\<exists>out. node_kind_derive simple_node_item = Ok out"
  "\<exists>out. edge_kind_derive simple_edge_item = Ok out \<and>
     ek_structs out ! 0 = \<lparr>x_variant = ''Base'', x_struct = ''BaseEdge'', x_property = None\<rparr> \<and> length (ek_structs out) = 2"
  "map_ok (\<lambda>out. ri_index (rg_enums out)) (registry_derive simple_registry_item) = Ok [(plain_path ''Status'', 0)]"
proof -
  have "map_ok (\<lambda>out. (pk_traits out ! 2, length (pk_traits out))) (property_kind_derive simple_property_item) =
      Ok (count_accessor, 6)"
    by code_simp
  then obtain out where "property_kind_derive simple_property_item = Ok out" "pk_traits out ! 2 = count_accessor"
    "length (pk_traits out) = 6"
    by (auto simp: map_ok_eq_Ok)
  then show "\<exists>out. property_kind_derive simple_property_item = Ok out \<and> count_accessor \<in> set (pk_traits out)"
    using nth_mem [of 2 "pk_traits out"] by auto
  have "map_ok (\<lambda>_. ()) (node_kind_derive simple_node_item) = Ok ()" by code_simp
  then show "\<exists>out. node_kind_derive simple_node_item = Ok out" by (auto simp: map_ok_eq_Ok)
  have "map_ok (\<lambda>out. (ek_structs out ! 0, length (ek_structs out))) (edge_kind_derive simple_edge_item) =
      Ok (\<lparr>x_variant = ''Base'', x_struct = ''BaseEdge'', x_property = None\<rparr>, 2)"
    by code_simp
  then show "\<exists>out. edge_kind_derive simple_edge_item = Ok out \<and>
     ek_structs out ! 0 = \<lparr>x_variant = ''Base'', x_struct = ''BaseEdge'', x_property = None\<rparr> \<and> length (ek_structs out) = 2"
    by (auto simp: map_ok_eq_Ok)
  show "map_ok (\<lambda>out. ri_index (rg_enums out)) (registry_derive simple_registry_item) = Ok [(plain_path ''Status'', 0)]"
    by code_simp
qed

lemma simple_types:
  "typ_of_name ''None'' = Some TNone" "typ_of_name ''String'' = Some TString" "typ_of_name ''Int'' = Some TInt"
  "typ_of_name ''NodeId'' = Some TNodeId" "typ_of_name ''Enum'' = Some TEnum"
  "quantity_of_path (plain_path ''One'') = Some One" "quantity_of_path (plain_path ''Multi'') = Some Multi"
  by code_simp+

lemma simple_derived:
  "schema_derived simple_schema (\<lambda>_. status_enum) simple_node_item node_variant simple_edge_item edge_variant
     simple_property_item prop_variant simple_registry_item registry_variant_name"
proof -
  have "nodes_derived simple_schema simple_node_item node_variant prop_variant"
  proof -
    obtain out where out: "node_kind_derive simple_node_item = Ok out" using simple_compiles(2) by blast
    then have "nk_properties out = [(''Alpha'', [plain_path ''Key'', plain_path ''Values'']), (''Beta'', [plain_path ''Count'']),
        (''Gamma'', [plain_path ''Ref'', plain_path ''State''])]"
      using node_kind_derive_Ok simple_arms(3) by fastforce
    moreover have "map_of [(''Alpha'', [plain_path ''Key'', plain_path ''Values'']), (''Beta'', [plain_path ''Count'']),
        (''Gamma'', [plain_path ''Ref'', plain_path ''State''])] (node_variant nk) =
      Some (map (\<lambda>pk. plain_path (prop_variant pk)) (n_properties simple_schema nk))" for nk
      by (cases nk) (simp_all add: simple_schema_def)
    ultimately show ?thesis
      unfolding nodes_derived_def
      using simple_values_named(1) simple_node_tables out
      by (auto simp: map_each_map plain_path_def typ_last_segment_name_def simp del: simple_schema_simps)
  qed
  moreover have "edges_derived simple_schema (\<lambda>_. status_enum) simple_edge_item edge_variant"
  proof -
    obtain out where out: "edge_kind_derive simple_edge_item = Ok out" using simple_compiles(3) by blast
    then have "ek_arms out = [\<lparr>pm_variant = ''Base'', pm_typ = ''None'', pm_qty = None, pm_enum = None\<rparr>,
        \<lparr>pm_variant = ''Extended'', pm_typ = ''String'', pm_qty = None, pm_enum = None\<rparr>]"
      using edge_kind_derive_Ok simple_arms(1) by fastforce
    moreover have "\<exists>arm\<in>set [\<lparr>pm_variant = ''Base'', pm_typ = ''None'', pm_qty = None, pm_enum = None\<rparr>,
        \<lparr>pm_variant = ''Extended'', pm_typ = ''String'', pm_qty = None, pm_enum = None\<rparr>].
        pm_variant arm = edge_variant ek \<and> edge_arm_describes simple_schema (\<lambda>_. status_enum) arm ek" for ek
      by (cases ek) (simp_all add: simple_schema_def edge_arm_describes_def simple_types)
    ultimately show ?thesis
      unfolding edges_derived_def using simple_values_named(2) simple_edge_tables out by metis
  qed
  moreover have "props_derived simple_schema (\<lambda>_. status_enum) simple_property_item prop_variant"
  proof -
    obtain out where out: "property_kind_derive simple_property_item = Ok out" using simple_compiles(1) by blast
    then have arms: "pk_arms out = [\<lparr>pm_variant = ''Key'', pm_typ = ''String'', pm_qty = Some (plain_path ''One''), pm_enum = None\<rparr>,
          \<lparr>pm_variant = ''Values'', pm_typ = ''String'', pm_qty = Some (plain_path ''Multi''), pm_enum = None\<rparr>,
          \<lparr>pm_variant = ''Count'', pm_typ = ''Int'', pm_qty = Some (plain_path ''One''), pm_enum = None\<rparr>,
          \<lparr>pm_variant = ''Ref'', pm_typ = ''NodeId'', pm_qty = Some (plain_path ''One''), pm_enum = None\<rparr>,
          \<lparr>pm_variant = ''State'', pm_typ = ''Enum'', pm_qty = Some (plain_path ''One''), pm_enum = Some ''Status''\<rparr>,
          \<lparr>pm_variant = ''Tag'', pm_typ = ''String'', pm_qty = Some (plain_path ''One''), pm_enum = None\<rparr>]"
      using property_kind_derive_Ok simple_arms(2) by fastforce
    have "\<exists>arm\<in>set (pk_arms out). pm_variant arm = prop_variant pk \<and> arm_describes simple_schema (\<lambda>_. status_enum) arm pk" for pk
      unfolding arms by (cases pk) (simp_all add: simple_schema_def arm_describes_def simple_types status_enum_def)
    then show ?thesis
      unfolding props_derived_def using simple_values_named(3) simple_property_tables out by metis
  qed
  moreover have "enum_counted simple_schema status_enum"
    by (simp add: enum_counted_def status_enum_def simple_schema_def enum_item_all_derive_def variant_idents_def status_item_def)
  ultimately show ?thesis
    using simple_values_named(4) simple_registry_tables by (auto simp: schema_derived_def registry_derived_def)
qed

end
