(* ===== verification/Derive_Theorems.thy ===== *)
theory Derive_Theorems
  imports Derive_Example Graph_Theorems Integrity_Theorems
begin

text \<open>
  The properties of the code generator: what it generates is a schema the rest of the library can rely on,
  the typed accessors succeed on every graph that passes the integrity check, and the macros read their
  arguments as documented.
\<close>

section \<open>The schema\<close>

text \<open>C15: enums that the derives accept make a schema with the laws the graph relies on.\<close>

theorem derives_give_schema_laws:
  assumes "schema_derived S types nodes nn edges en props pn registry rn"
  shows "schema_laws S"
  by (rule schema_derived_laws [OF assms])

theorem derives_give_schema_laws_witness: "schema_laws simple_schema"
  by (rule derives_give_schema_laws [OF simple_derived])

text \<open>C29: the labels of an enum read back as its variants exactly when no two variants have the same one, and
  every other text is an error that names the enum.\<close>

theorem labels_read_back:
  assumes "enum_item_as_str_derive input = Ok labels" and "distinct (variant_idents input)"
    and "enum_item_from_str_derive input = Ok arms"
  shows "((\<forall>v\<in>set (variant_idents input). derived_from_str input arms (the (map_of labels v)) = Ok v) \<longleftrightarrow>
      distinct (map snd labels)) \<and>
    (s \<notin> snd ` set labels \<longrightarrow> derived_from_str input arms s = Err (UnknownLabel (i_ident input) s))"
proof -
  have arms: "arms = map prod.swap labels" using from_str_arms(1) [OF assms(1)] assms(3) by simp
  have "derived_from_str input arms s = Err (UnknownLabel (i_ident input) s)" if "s \<notin> snd ` set labels"
  proof -
    have "map_of arms s = None" using that by (force simp: arms map_of_eq_None_iff)
    then show ?thesis by (simp add: derived_from_str_def)
  qed
  then show ?thesis
    using label_roundtrip [OF assms(1,2)] by (simp add: arms)
qed

theorem labels_read_back_witness:
  "\<exists>arms. enum_item_from_str_derive simple_property_item = Ok arms \<and>
     derived_from_str simple_property_item arms ''Label'' = Ok ''Tag'' \<and>
     derived_from_str simple_property_item arms ''Tag'' = Err (UnknownLabel ''SimpleProperty'' ''Tag'')"
proof -
  note arms = from_str_arms(1) [OF simple_labels(3)]
  have "i_ident simple_property_item = ''SimpleProperty''" by (simp add: simple_property_item_def)
  moreover have "\<forall>v\<in>set (variant_idents simple_property_item).
      derived_from_str simple_property_item (map prod.swap
        [(''Key'', ''Key''), (''Values'', ''Values''), (''Count'', ''Count''), (''Ref'', ''Ref''), (''State'', ''State''),
         (''Tag'', ''Label'')])
        (the (map_of [(''Key'', ''Key''), (''Values'', ''Values''), (''Count'', ''Count''), (''Ref'', ''Ref''),
           (''State'', ''State''), (''Tag'', ''Label'')] v)) = Ok v"
    using labels_read_back [OF simple_labels(3) _ arms] by (simp add: simple_variants)
  moreover have "derived_from_str simple_property_item (map prod.swap
        [(''Key'', ''Key''), (''Values'', ''Values''), (''Count'', ''Count''), (''Ref'', ''Ref''), (''State'', ''State''),
         (''Tag'', ''Label'')]) ''Tag'' = Err (UnknownLabel (i_ident simple_property_item) ''Tag'')"
    using labels_read_back [OF simple_labels(3) _ arms, of "''Tag''"] by (simp add: simple_variants)
  ultimately show ?thesis using arms by (simp add: simple_variants)
qed

section \<open>Typed accessors\<close>

text \<open>C14: on a graph that passes the integrity check, the accessor of a property returns what the row of its
  node holds, all values or the first one as the quantity says, and its only error is that nothing is stored.\<close>

theorem accessors_read_valid_graphs:
  assumes "schema_derived S types nodes nn edges en props pn registry rn"
    and "property_kind_derive props = Ok out" and "a \<in> set (pk_traits out)" and "a_trait a = pn pk"
    and "graph_wf S g" and "seq < kind_count S g nk"
  shows "\<exists>xs. list_all2 (reads_as S g types (b_expr (a_binding a))) (prop_row S g nk pk seq) xs \<and>
    run_accessor S g types a nk seq pk =
      (if ps_offsets (prop_slot_of S g nk pk) = [] then Err PropertyIndexNotFound
       else if p_quantity S pk = Multi then Ok (ReturnsVec xs)
       else case xs of [] \<Rightarrow> Err PropertyIndexNotFound | x # _ \<Rightarrow> Ok (ReturnsOne x))"
proof -
  have props: "props_derived S types props pn" and counted: "\<And>ty. enum_counted S (types ty)"
    using assms(1) by (simp_all add: schema_derived_def registry_derived_def)
  obtain arm where arm: "arm_fits arm a" "arm_describes S types arm pk"
    using accessor_arm(2) [OF props assms(2-4)] by blast
  show ?thesis
    using schema_laws.run_accessor_valid [OF schema_derived_laws [OF assms(1)] assms(5,6) arm counted]
    by (simp only: arm_quantity [OF arm])
qed

theorem accessors_read_valid_graphs_witness:
  "run_accessor simple_schema sample_graph (\<lambda>_. status_enum) count_accessor Beta 0 Count = Ok (ReturnsOne (GValue (SInt 7)))"
proof -
  obtain out where out: "property_kind_derive simple_property_item = Ok out" "count_accessor \<in> set (pk_traits out)"
    using simple_compiles(1) by blast
  have "ps_offsets (prop_slot_of simple_schema sample_graph Beta Count) \<noteq> []" by (simp add: sample_eval)
  moreover have "p_quantity simple_schema Count = One" by (simp add: simple_schema_def)
  moreover have "a_trait count_accessor = prop_variant Count" by (simp add: count_accessor_def)
  moreover have "x = GValue (SInt 7)"
    if "reads_as simple_schema sample_graph (\<lambda>_. status_enum) BindValue (SInt 7) x" for x
    using that by (cases x) (auto simp: graph_resolve_property_def)
  ultimately show ?thesis
    using accessors_read_valid_graphs [OF simple_derived out, of Count sample_graph 0 Beta] sample_wf
    by (auto simp: sample_rows list_all2_Cons1 count_accessor_def plain_binding_def)
qed

context schema_laws begin

lemma edge_value_read:
  assumes wf: "graph_wf S g" and seq: "seq < kind_count S g nk" and h: "(nb, p) \<in> set (edge_row S g nk d ek seq)"
    and fits: "binding_fits b (e_property_type S ek) enum" and stored: "e_property_type S ek \<noteq> TNone"
    and enum: "e_enum_index S ek = map_option (\<lambda>ty. de_index (types ty)) enum"
    and counted: "\<And>ty. enum_counted S (types ty)"
  shows "\<exists>v x. p = Some v \<and> run_arm S g types b v = Ok x \<and> reads_as S g types (b_expr b) v x"
proof -
  let ?slot = "edge_slot_of S g nk d ek"
  have ok: "graph_ok S g" using wf by (simp add: graph_wf_def)
  have slot: "edge_slot_ok (e_property_type S ek) (kind_count S g nk) ?slot" using graph_okD(4) [OF ok] .
  note csr = edge_slot_ok_csr [OF slot]
  have "edge_row S g nk d ek seq \<in> set (edge_rows ?slot (kind_count S g nk))"
    using seq slot_csr_length [OF csr] by (simp add: edge_row_def)
  then have "(nb, p) \<in> set (edge_halves ?slot)" using h slot_csr_concat [OF csr] by (metis UN_I set_concat)
  then obtain v where v: "p = Some v" "v \<in> set (sa_values (es_values ?slot))"
    using slot stored by (auto simp: edge_halves_def edge_slot_ok_def dest!: set_zip_rightD)
  have "sp_typ v = e_property_type S ek" using sa_values_typ [OF v(2)] slot by (simp add: edge_slot_ok_def)
  moreover have "value_ok S g (map_option (\<lambda>ty. de_index (types ty)) enum) v"
    using wf v(2) by (auto simp: graph_wf_def graph_values_ok_def values_ok_def simp flip: enum)
  moreover obtain ss where "pool_repr (g_strings g) ss" using graph_okD(7) [OF ok] by blast
  ultimately show ?thesis
    using run_arm_reads [of b v enum g types] fits counted v(1) by metis
qed

lemma edge_properties_read_rows:
  assumes wf: "graph_wf S g" and n: "nid_seq n < kind_count S g (nid_kind n)"
    and x: "struct_fits x (e_property_type S ek) enum" "e_enum_index S ek = map_option (\<lambda>ty. de_index (types ty)) enum"
    and counted: "\<And>ty. enum_counted S (types ty)" and b: "x_property x = Some b"
  shows "\<exists>es. run_edges_with_deleted S g n ek d = Ok es \<and>
    (\<forall>e\<in>set es. \<exists>v y. get_edge_property S g (stored_edge e) = Ok (Some v) \<and>
       run_edge_property S g types b e = Ok (Some y) \<and> reads_as S g types (b_expr b) v y)"
proof -
  let ?row = "edge_row S g (nid_kind n) d ek (nid_seq n)"
  have fits: "binding_fits b (e_property_type S ek) enum" "e_property_type S ek \<noteq> TNone"
    using x(1) b by (simp_all add: struct_fits_def)
  have ok: "graph_ok S g" using wf by (simp add: graph_wf_def)
  obtain es where es: "get_edges_with_deleted S g n ek d = Ok es" "length es = length ?row"
    "\<And>j. j < length es \<Longrightarrow> get_edge_property S g (es ! j) = Ok (snd (?row ! j))"
    using get_edges_rows [OF ok n refl] by blast
  have "\<exists>v y. get_edge_property S g e = Ok (Some v) \<and>
       run_edge_property S g types b (edge_view_of e) = Ok (Some y) \<and> reads_as S g types (b_expr b) v y" if "e \<in> set es" for e
  proof -
    obtain j where j: "j < length es" "e = es ! j" using \<open>e \<in> set es\<close> by (auto simp: in_set_conv_nth)
    then have "(fst (?row ! j), snd (?row ! j)) \<in> set ?row" using es(2) by simp
    from edge_value_read [OF wf n this fits x(2) counted]
    show ?thesis using es(3) [OF j(1)] j(2) by (auto simp: run_edge_property_def)
  qed
  then show ?thesis by (auto simp: run_edges_with_deleted_def es(1))
qed

end

text \<open>C28: an edge struct has a \<open>property\<close> method exactly when its kind has a property, and on a graph that
  passes the integrity check the method returns the value of every stored edge.\<close>

theorem edge_properties_read:
  assumes "schema_derived S types nodes nn edges en props pn registry rn"
    and "edge_kind_derive edges = Ok out" and "x \<in> set (ek_structs out)" and "x_variant x = en ek"
    and "graph_wf S g" and "nid_seq n < kind_count S g (nid_kind n)"
  shows "(x_property x = None \<longleftrightarrow> e_property_type S ek = TNone) \<and>
    (\<forall>b. x_property x = Some b \<longrightarrow>
      (\<exists>es. run_edges_with_deleted S g n ek d = Ok es \<and>
        (\<forall>e\<in>set es. \<exists>v y. get_edge_property S g (stored_edge e) = Ok (Some v) \<and>
           run_edge_property S g types b e = Ok (Some y) \<and> reads_as S g types (b_expr b) v y)))"
proof -
  have edges: "edges_derived S types edges en" and counted: "\<And>ty. enum_counted S (types ty)"
    using assms(1) by (simp_all add: schema_derived_def registry_derived_def)
  obtain enum where x: "struct_fits x (e_property_type S ek) enum"
    "e_enum_index S ek = map_option (\<lambda>ty. de_index (types ty)) enum"
    using edge_struct_describes [OF edges assms(2-4)] by blast
  then have "x_property x = None \<longleftrightarrow> e_property_type S ek = TNone" by (auto simp: struct_fits_def split: option.splits)
  then show ?thesis
    using schema_laws.edge_properties_read_rows [OF schema_derived_laws [OF assms(1)] assms(5,6) x counted]
    by blast
qed

text \<open>An edge with a string, and its struct.\<close>

definition labelled_diff :: "(simple_node, simple_edge, simple_property) graph_diff" where
  "labelled_diff =
     \<lparr>gd_new_nodes = [\<lparr>nn_kind = Alpha, nn_properties = []\<rparr>, \<lparr>nn_kind = Beta, nn_properties = []\<rparr>],
      gd_new_edges = [\<lparr>ne_src = NewNodeRef 0, ne_dst = NewNodeRef 1, ne_kind = Extended, ne_property = Some (VString [118, 49])\<rparr>],
      gd_changes = []\<rparr>"

definition extended_struct :: edge_struct where
  "extended_struct = \<lparr>x_variant = ''Extended'', x_struct = ''ExtendedEdge'',
     x_property = Some \<lparr>b_elem_ty = ElemPlain ''&str'', b_pattern = TString, b_expr = BindString, b_prop_type = TString\<rparr>\<rparr>"

definition labelled_edge :: "(simple_node, simple_edge) edge_view" where
  "labelled_edge = edge_view_new Extended (NodeId Alpha 0) (NodeId Beta 0) Out 0"

lemma labelled_built:
  obtains g where "graph_wf simple_schema g" and "kind_count simple_schema g Alpha = 1"
    and "run_edges_with_deleted simple_schema g (NodeId Alpha 0) Extended Out = Ok [labelled_edge]"
    and "get_edge_property simple_schema g (stored_edge labelled_edge) = Ok (Some (SStringId (RawStringId 0)))"
    and "graph_resolve_property g (SStringId (RawStringId 0)) = Ok (VString [118, 49])"
proof -
  have "map_ok (\<lambda>(g, _). (kind_count simple_schema g Alpha, run_edges_with_deleted simple_schema g (NodeId Alpha 0) Extended Out,
      get_edge_property simple_schema g (stored_edge labelled_edge), graph_resolve_property g (SStringId (RawStringId 0))))
    (andthen (graph_new simple_schema) (apply_diff simple_schema labelled_diff)) =
    Ok (1, Ok [labelled_edge], Ok (Some (SStringId (RawStringId 0))), Ok (VString [118, 49]))"
    by code_simp
  then obtain g0 g ids where g0: "graph_new simple_schema = Ok g0" and app: "apply_diff simple_schema labelled_diff g0 = Ok (g, ids)"
    and read: "kind_count simple_schema g Alpha = 1" "run_edges_with_deleted simple_schema g (NodeId Alpha 0) Extended Out = Ok [labelled_edge]"
      "get_edge_property simple_schema g (stored_edge labelled_edge) = Ok (Some (SStringId (RawStringId 0)))"
      "graph_resolve_property g (SStringId (RawStringId 0)) = Ok (VString [118, 49])"
    by (auto simp: map_ok_eq_Ok andthen_eq_Ok)
  have zero: "kind_count simple_schema g0 nk = 0" for nk using g0 simple.graph_new_ok by fastforce
  have "length (g_node_meta g0) = 3" using simple.graph_new_wf [OF g0] graph_okD(1) [of simple_schema g0] by (simp add: graph_wf_def)
  then have "diff_fits g0 labelled_diff"
    using zero [of Alpha] zero [of Beta] zero [of Gamma]
    by (auto simp: numeral_3_eq_3 length_Suc_conv diff_fits_def labelled_diff_def kind_count_def u32_max_def simple_schema_def)
  moreover have "diff_live simple_schema g0 labelled_diff" by (simp add: diff_live_def labelled_diff_def removed_edges_def)
  moreover have "diff_valid simple_schema g0 labelled_diff" by (simp add: diff_valid_def labelled_diff_def input_ok_def)
  ultimately have "reachable_valid simple_schema g"
    using g0 app reachable_valid.intros graph_step.intros by metis
  then show ?thesis using that simple.reachable_valid_wf read by blast
qed

lemma extended_derived: "\<exists>out. edge_kind_derive simple_edge_item = Ok out \<and> extended_struct \<in> set (ek_structs out)"
proof -
  have "map_ok (\<lambda>out. (ek_structs out ! 1, length (ek_structs out))) (edge_kind_derive simple_edge_item) = Ok (extended_struct, 2)"
    by code_simp
  then obtain out where "edge_kind_derive simple_edge_item = Ok out" "ek_structs out ! 1 = extended_struct" "length (ek_structs out) = 2"
    by (auto simp: map_ok_eq_Ok)
  then show ?thesis using nth_mem [of 1 "ek_structs out"] by auto
qed

theorem edge_properties_read_witness:
  "\<exists>g b. x_property extended_struct = Some b \<and> e_property_type simple_schema Extended \<noteq> TNone \<and>
     (\<exists>out. edge_kind_derive simple_edge_item = Ok out \<and> extended_struct \<in> set (ek_structs out)) \<and>
     graph_wf simple_schema g \<and> run_edges_with_deleted simple_schema g (NodeId Alpha 0) Extended Out = Ok [labelled_edge] \<and>
     run_edge_property simple_schema g (\<lambda>_. status_enum) b labelled_edge = Ok (Some (GString [118, 49]))"
proof -
  obtain out where out: "edge_kind_derive simple_edge_item = Ok out" "extended_struct \<in> set (ek_structs out)"
    using extended_derived by blast
  obtain g where g: "graph_wf simple_schema g" "kind_count simple_schema g Alpha = 1"
    "run_edges_with_deleted simple_schema g (NodeId Alpha 0) Extended Out = Ok [labelled_edge]"
    "get_edge_property simple_schema g (stored_edge labelled_edge) = Ok (Some (SStringId (RawStringId 0)))"
    "graph_resolve_property g (SStringId (RawStringId 0)) = Ok (VString [118, 49])"
    by (rule labelled_built)
  define b where "b = the (x_property extended_struct)"
  have b: "x_property extended_struct = Some b" "b_expr b = BindString" by (simp_all add: b_def extended_struct_def)
  have read: "(x_property extended_struct = None \<longleftrightarrow> e_property_type simple_schema Extended = TNone) \<and>
    (\<forall>b. x_property extended_struct = Some b \<longrightarrow>
      (\<exists>es. run_edges_with_deleted simple_schema g (NodeId Alpha 0) Extended Out = Ok es \<and>
        (\<forall>e\<in>set es. \<exists>v y. get_edge_property simple_schema g (stored_edge e) = Ok (Some v) \<and>
           run_edge_property simple_schema g (\<lambda>_. status_enum) b e = Ok (Some y) \<and>
           reads_as simple_schema g (\<lambda>_. status_enum) (b_expr b) v y)))"
    by (rule edge_properties_read [OF simple_derived out]) (use g in \<open>simp_all add: extended_struct_def\<close>)
  then obtain y where y: "run_edge_property simple_schema g (\<lambda>_. status_enum) b labelled_edge = Ok (Some y)"
    "reads_as simple_schema g (\<lambda>_. status_enum) (b_expr b) (SStringId (RawStringId 0)) y"
    using b(1) g(3,4) by fastforce
  have "y = GString [118, 49]" using y(2) b(2) g(5) by (cases y) simp_all
  then show ?thesis using read out b g(1,3) y(1) by (intro exI [of _ g] exI [of _ b]) auto
qed

section \<open>Macros\<close>

text \<open>A version is read back from its text, by the parser and as the version of the schema.\<close>

theorem versions_read_back:
  "parse_version (version_str v) = Ok v \<and> map_ok si_version (schema_expand (d\<lparr>sd_version := version_str v\<rparr>)) = Ok v"
  by (simp add: parse_version_str schema_expand_def Let_def)

text \<open>C30: \<open>schema!\<close> takes its keys in any order, with or without a comma at the end; keys that are missing are
  listed, and a key that is repeated or unknown is an error wherever it stands.\<close>

theorem schema_macro_reads_keys:
  assumes "list_all entry_ok es" and "distinct (map fst es)"
  shows "parse_schema (schema_tokens trailing es) =
      (let missing = filter (\<lambda>k. k \<notin> fst ` set es) [KName, KNodeKind, KEdgeKind, KPropKind, KVersion] in
       if missing = [] then
         Ok \<lparr>sd_name = token_ident (the (map_of es KName)), sd_node_kind = token_path (the (map_of es KNodeKind)),
             sd_edge_kind = token_path (the (map_of es KEdgeKind)), sd_prop_kind = token_path (the (map_of es KPropKind)),
             sd_enum_prop_registry = map_option token_path (map_of es KEnumPropRegistry),
             sd_version = token_lit (the (map_of es KVersion))\<rparr>
       else Err (MissingKeys (map key_str missing))) \<and>
    (\<forall>k\<in>fst ` set es. parse_schema (leading es @ TkIdent (key_str k) # TkEq # tail) = Err (DuplicateKey (key_str k))) \<and>
    (key_of word = None \<longrightarrow> parse_schema (leading es @ TkIdent word # TkEq # tail) = Err (UnknownKey word))"
proof -
  have none: "\<not> filled no_slots k" for k by (cases k) (simp_all add: no_slots_def)
  have keys: "k \<notin> fst ` set es \<longleftrightarrow> map_of es k = None" for k by (simp add: map_of_eq_None_iff)
  have "parse_schema (leading es @ TkIdent (key_str k) # TkEq # tail) = Err (DuplicateKey (key_str k))"
    if "k \<in> fst ` set es" for k
    using parse_entries_leading [OF assms, of no_slots] none that
    by (simp add: parse_schema_def parse_entries_duplicate filled_fold)
  moreover have "parse_schema (leading es @ TkIdent word # TkEq # tail) = Err (UnknownKey word)"
    if "key_of word = None"
    using parse_entries_leading [OF assms, of no_slots] none that by (simp add: parse_schema_def parse_entries_unknown)
  moreover have "parse_schema (schema_tokens trailing es) =
      (let missing = filter (\<lambda>k. map_of es k = None) [KName, KNodeKind, KEdgeKind, KPropKind, KVersion] in
       if missing = [] then
         Ok \<lparr>sd_name = token_ident (the (map_of es KName)), sd_node_kind = token_path (the (map_of es KNodeKind)),
             sd_edge_kind = token_path (the (map_of es KEdgeKind)), sd_prop_kind = token_path (the (map_of es KPropKind)),
             sd_enum_prop_registry = map_option token_path (map_of es KEnumPropRegistry),
             sd_version = token_lit (the (map_of es KVersion))\<rparr>
       else Err (MissingKeys (map key_str missing)))"
    unfolding parse_schema_def parse_schema_tokens [OF assms] fold_set_entry [OF assms(2)] andthen.simps
    by (cases "map_of es KName"; cases "map_of es KNodeKind"; cases "map_of es KEdgeKind"; cases "map_of es KPropKind";
        cases "map_of es KVersion"; cases "map_of es KEnumPropRegistry")
      (simp_all add: no_slots_def missing_keys_error_def del: key_str.simps)
  ultimately show ?thesis unfolding keys by blast
qed

theorem schema_macro_reads_keys_witness:
  "parse_schema (schema_tokens False simple_schema_entries) =
     Ok \<lparr>sd_name = ''SimpleSchema'', sd_node_kind = plain_path ''SimpleNode'', sd_edge_kind = plain_path ''SimpleEdge'',
         sd_prop_kind = plain_path ''SimpleProperty'',
         sd_enum_prop_registry = Some (plain_path ''SimplePropEnumsRegistry''), sd_version = ''1.0.0''\<rparr>"
  using schema_macro_reads_keys [of simple_schema_entries False]
  by (simp add: simple_schema_entries_def plain_path_def)

text \<open>C31: the enum that \<open>enum_property_registry!\<close> writes registers the listed types under distinct names, in
  order; a value of a registered enum converts to a property value and back, and not to any other registered
  enum.\<close>

theorem registry_registers:
  assumes "registry_expand d = Ok item" and "de_index de < length (rd_enum_types d)"
    and "length (rd_enum_types d) \<le> u16_max" and "j \<le> u16_max"
    and "get_at (enum_item_all_derive (de_item de)) j = Some c"
  shows "map_each typ_last_segment_name (rd_enum_types d) = Ok (variant_idents item) \<and>
    distinct (variant_idents item) \<and>
    map_ok ri_index (enum_property_registry_derive item) =
      Ok (map (\<lambda>i. (rd_enum_types d ! i, i)) [0..<length (rd_enum_types d)]) \<and>
    (\<exists>v. value_of_enum (de_index de) j = Ok v \<and> enum_try_from de v = Ok c \<and>
       (\<forall>other. de_index other \<noteq> de_index de \<longrightarrow>
          enum_try_from other v = Err (EnumPropIndexMismatch (de_name other) (de_index de))))"
proof -
  obtain v where v: "value_of_enum (de_index de) j = Ok v"
    using assms(2-4) by (auto simp: value_of_enum_def raw_enum_new_def)
  moreover have "enum_try_from other v = Err (EnumPropIndexMismatch (de_name other) (de_index de))"
    if "de_index other \<noteq> de_index de" for other
    using v that assms(2-4)
    by (auto simp: value_of_enum_def raw_enum_new_def enum_try_from_def resolve_enum_def raw_enum_index_def)
  moreover have "map (\<lambda>(i, enum_ty). (enum_ty, i)) (enumerate 0 (rd_enum_types d)) =
      map (\<lambda>i. (rd_enum_types d ! i, i)) [0..<length (rd_enum_types d)]"
    by (auto intro!: nth_equalityI simp: nth_enumerate_eq)
  ultimately show ?thesis
    using registry_expanded(1,2,4) [OF assms(1)] enum_try_from_value [OF v] assms(5) by simp
qed

theorem registry_registers_witness:
  "\<exists>v. value_of_enum 0 2 = Ok v \<and> enum_try_from status_enum v = Ok ''Banned''"
proof -
  have item: "registry_expand \<lparr>rd_ident = ''SimplePropEnumsRegistry'', rd_enum_types = [plain_path ''Status'']\<rparr> =
      Ok simple_registry_item"
    by code_simp
  have "get_at (enum_item_all_derive (de_item status_enum)) 2 = Some ''Banned''" by code_simp
  moreover have "de_index status_enum = 0" by (simp add: status_enum_def)
  ultimately show ?thesis
    using registry_registers [OF item, of status_enum 2] by (auto simp: u16_max_def)
qed

text \<open>C32: the node accessors are generated exactly when the method names of the variants differ and none of
  them is \<open>super\<close> or \<open>crate\<close>; each method is then the name of its variant in snake case, written \<open>r#\<close> where
  it is in the list of keywords. The first variant that breaks this decides: \<open>super\<close> and \<open>crate\<close> make the derive
  panic, a name that is taken is an error with the variant and the name. \<open>self\<close> is not in the list, so a variant
  \<open>SELF\<close> is accepted and its method is called \<open>self\<close>. Variants written as raw identifiers are left out.\<close>

theorem method_names_checked:
  assumes "\<forall>v\<in>set (variant_idents input). CHR ''#'' \<notin> set v"
  shows "((\<exists>ts. node_accessor_traits_derive input = Ok ts) \<longleftrightarrow>
      (\<forall>v\<in>set (variant_idents input). to_snake_case v \<notin> {''super'', ''crate''}) \<and>
      distinct (map to_snake_case (variant_idents input))) \<and>
    (\<forall>ts. node_accessor_traits_derive input = Ok ts \<longrightarrow>
      ts = map (\<lambda>v. (v @ ''NodesAccessor'',
          if is_rust_keyword (to_snake_case v) then ''r#'' @ to_snake_case v else to_snake_case v, v)) (variant_idents input)) \<and>
    (\<forall>ys v zs. variant_idents input = ys @ v # zs \<and> distinct (map to_snake_case ys) \<and>
        (\<forall>u\<in>set ys. to_snake_case u \<notin> {''super'', ''crate''}) \<longrightarrow>
      (to_snake_case v \<in> {''super'', ''crate''} \<longrightarrow> node_accessor_traits_derive input = Panic) \<and>
      (to_snake_case v \<notin> {''super'', ''crate''} \<and> to_snake_case v \<in> to_snake_case ` set ys \<longrightarrow>
        node_accessor_traits_derive input = Err (DuplicateMethod v
          (if is_rust_keyword (to_snake_case v) then ''r#'' @ to_snake_case v else to_snake_case v)))) \<and>
    \<not> is_rust_keyword ''self''"
  unfolding accessor_method_def [symmetric] path_keyword_def [symmetric]
proof (intro conjI allI impI)
  let ?vs = "variant_idents input"
  show "(\<exists>ts. node_accessor_traits_derive input = Ok ts) \<longleftrightarrow> (\<forall>v\<in>set ?vs. \<not> path_keyword v) \<and> distinct (map to_snake_case ?vs)"
    using accessors_derived [OF assms] accessors_derived_only [OF assms] by blast
  show "ts = map (\<lambda>v. (v @ ''NodesAccessor'', accessor_method v, v)) ?vs" if "node_accessor_traits_derive input = Ok ts" for ts
    using accessors_derived [OF assms] accessors_derived_only [OF assms that] that by simp
next
  fix ys v zs
  assume "variant_idents input = ys @ v # zs \<and> distinct (map to_snake_case ys) \<and> (\<forall>u\<in>set ys. \<not> path_keyword u)"
  note at = collision_at [of "i_variants input" ys v zs, folded variant_idents_def]
  show "path_keyword v \<Longrightarrow> node_accessor_traits_derive input = Panic"
    and "\<not> path_keyword v \<and> to_snake_case v \<in> to_snake_case ` set ys \<Longrightarrow>
      node_accessor_traits_derive input = Err (DuplicateMethod v (accessor_method v))"
    using at assms \<open>_ \<and> _ \<and> _\<close> by (simp_all add: node_accessor_traits_derive_def)
qed (simp add: is_rust_keyword_def rust_keywords_def)

definition named_item :: "ident list \<Rightarrow> item_enum" where
  "named_item names = \<lparr>i_ident = ''Kinds'', i_attrs = [], i_variants = map bare_variant names\<rparr>"

lemma named_item_variants: "variant_idents (named_item names) = names"
  by (simp add: variant_idents_def named_item_def bare_variant_def comp_def)

theorem method_names_checked_witness:
  "node_accessor_traits_derive (named_item [''UserId'', ''Ref'', ''SELF'']) =
     Ok [(''UserIdNodesAccessor'', ''user_id'', ''UserId''), (''RefNodesAccessor'', ''r#ref'', ''Ref''),
       (''SELFNodesAccessor'', ''self'', ''SELF'')] \<and>
   node_accessor_traits_derive (named_item [''UserId'', ''UserID'']) = Err (DuplicateMethod ''UserID'' ''user_id'') \<and>
   node_accessor_traits_derive (named_item [''UserId'', ''Crate'']) = Panic"
proof -
  have snake: "to_snake_case ''UserId'' = ''user_id''" "to_snake_case ''UserID'' = ''user_id''" "to_snake_case ''Ref'' = ''ref''"
    "to_snake_case ''SELF'' = ''self''" "to_snake_case ''Crate'' = ''crate''"
    by code_simp+
  have key: "is_rust_keyword ''ref''" "\<not> is_rust_keyword ''user_id''" by (simp_all add: is_rust_keyword_def rust_keywords_def)
  let ?ok = "named_item [''UserId'', ''Ref'', ''SELF'']" and ?twice = "named_item [''UserId'', ''UserID'']"
    and ?crate = "named_item [''UserId'', ''Crate'']"
  have hash: "\<forall>v\<in>set (variant_idents ?ok). CHR ''#'' \<notin> set v" "\<forall>v\<in>set (variant_idents ?twice). CHR ''#'' \<notin> set v"
    "\<forall>v\<in>set (variant_idents ?crate). CHR ''#'' \<notin> set v"
    by (simp_all add: named_item_variants)
  note ok = method_names_checked [OF hash(1)]
  have "\<exists>ts. node_accessor_traits_derive ?ok = Ok ts"
    by (rule iffD2 [OF conjunct1 [OF ok]]) (simp add: named_item_variants snake)
  then obtain ts where ts: "node_accessor_traits_derive ?ok = Ok ts" by blast
  have "ts = map (\<lambda>v. (v @ ''NodesAccessor'',
      if is_rust_keyword (to_snake_case v) then ''r#'' @ to_snake_case v else to_snake_case v, v)) (variant_idents ?ok)"
    using ok ts by blast
  moreover have "\<not> is_rust_keyword ''self''" using ok by blast
  ultimately have "ts = [(''UserIdNodesAccessor'', ''user_id'', ''UserId''), (''RefNodesAccessor'', ''r#ref'', ''Ref''),
      (''SELFNodesAccessor'', ''self'', ''SELF'')]"
    by (simp add: named_item_variants snake key)
  moreover note at = conjunct1 [OF conjunct2 [OF conjunct2 [OF method_names_checked]], THEN spec [where x = "[''UserId'']"],
      THEN spec, THEN spec [where x = "[]"], THEN mp]
  have "node_accessor_traits_derive ?twice = Err (DuplicateMethod ''UserID'' ''user_id'')"
    using at [OF hash(2), of "''UserID''"] by (simp add: named_item_variants snake key)
  moreover have "node_accessor_traits_derive ?crate = Panic"
    using at [OF hash(3), of "''Crate''"] by (simp add: named_item_variants snake key)
  ultimately show ?thesis using ts by simp
qed

end
