(* ===== verification/Example_Main.thy ===== *)
theory Example_Main
  imports Derive_Example
begin

text \<open>
  The \<open>main\<close> function of \<open>examples/simple_graph.rs\<close>, from the builders over two diffs to the typed accessors.
  A failed \<open>unwrap\<close>, \<open>expect\<close> or \<open>assert!\<close> is a panic; that \<open>main\<close> is \<open>Ok\<close> says that it runs to its end.
\<close>

section \<open>Building the graph\<close>

definition first_node :: "graph \<Rightarrow> simple_node \<Rightarrow> simple_node node_id res" where
  "first_node g kind =
     andthen (nodes_by_kind simple_schema g kind) (\<lambda>ns. case ns of n # _ \<Rightarrow> Ok n | [] \<Rightarrow> Panic)"

definition example_first :: "(graph \<times> simple_node node_id \<times> simple_node node_id) res" where
  "example_first =
     andthen (expect_ok (builder_add_property simple_schema Key (str_value ''hello'') (builder_new Alpha))) (\<lambda>alpha.
     andthen (expect_ok (builder_add_property simple_schema Values (str_value ''v1'') alpha)) (\<lambda>alpha.
     andthen (expect_ok (builder_add_property simple_schema Values (str_value ''v2'') alpha)) (\<lambda>alpha.
     let (alpha_id, diff) = add_node alpha graph_diff_default in
     andthen (expect_ok (builder_add_property simple_schema Count (VInt 42) (builder_new Beta))) (\<lambda>beta.
     let (beta_id, diff) = add_node beta diff;
         (_, diff) = add_edge (NewNodeRef alpha_id) (NewNodeRef beta_id) Base None diff in
     andthen (graph_new simple_schema) (\<lambda>empty_graph.
     andthen (expect_ok (apply_diff simple_schema diff empty_graph)) (\<lambda>(graph, _).
     andthen (first_node graph Alpha) (\<lambda>alpha_node.
     andthen (first_node graph Beta) (\<lambda>beta_node.
     Ok (graph, alpha_node, beta_node)))))))))"

definition example_second :: "graph \<Rightarrow> simple_node node_id \<Rightarrow> graph res" where
  "example_second graph alpha_node =
     andthen (value_of_node simple_schema alpha_node) (\<lambda>ref.
     andthen (expect_ok (builder_add_property simple_schema Ref ref (builder_new Gamma))) (\<lambda>gamma.
     andthen (value_of_enum (de_index status_enum) (the (map_of (enum_item_index_derive status_item) ''Active''))) (\<lambda>active.
     andthen (expect_ok (builder_add_property simple_schema State active gamma)) (\<lambda>gamma.
     let (gamma_id, diff) = add_node gamma graph_diff_default in
     andthen (existing_node simple_schema alpha_node) (\<lambda>dst.
     let (_, diff) = add_edge (NewNodeRef gamma_id) dst Extended (Some (str_value ''refers-to'')) diff in
     andthen (expect_ok (apply_diff simple_schema diff graph)) (\<lambda>(graph, _).
     Ok graph))))))"

section \<open>Reading it back\<close>

text \<open>A call of the accessor of a property, as the derive generates it for \<open>SimpleProperty\<close>.\<close>

definition call_accessor :: "graph \<Rightarrow> simple_node node_view \<Rightarrow> simple_property \<Rightarrow> simple_node returned res" where
  "call_accessor g node pk =
     (case property_kind_derive simple_property_item of
        Ok out \<Rightarrow>
          andthen (expect (find (\<lambda>a. a_trait a = prop_variant pk) (pk_traits out))) (\<lambda>a.
          expect_ok (run_accessor simple_schema g (\<lambda>_. status_enum) a (nv_kind node) (nv_seq node) pk))
      | _ \<Rightarrow> Panic)"

definition call_edge_property ::
  "graph \<Rightarrow> (simple_node, simple_edge) edge_view \<Rightarrow> simple_node accessed option res" where
  "call_edge_property g edge =
     (case edge_kind_derive simple_edge_item of
        Ok out \<Rightarrow>
          andthen (expect (find (\<lambda>x. x_variant x = edge_variant (ev_kind edge)) (ek_structs out))) (\<lambda>x.
          andthen (expect (x_property x)) (\<lambda>b.
          expect_ok (run_edge_property simple_schema g (\<lambda>_. status_enum) b edge)))
      | _ \<Rightarrow> Panic)"

definition first_view :: "graph \<Rightarrow> simple_node \<Rightarrow> simple_node node_view res" where
  "first_view g kind =
     andthen (run_nodes_accessor simple_schema g kind) (\<lambda>ns.
     case ns of n # _ \<Rightarrow> if nv_kind n = kind then Ok n else Panic | [] \<Rightarrow> Panic)"

definition only_edge ::
  "graph \<Rightarrow> simple_node node_id \<Rightarrow> simple_edge \<Rightarrow> dir \<Rightarrow> (simple_node, simple_edge) edge_view res" where
  "only_edge g n kind d =
     andthen (expect_ok (run_edges simple_schema g n kind d)) (\<lambda>es.
     case es of [e] \<Rightarrow> if ev_kind e = kind then Ok e else Panic | _ \<Rightarrow> Panic)"

definition check_nodes :: "graph \<Rightarrow> simple_node node_id \<Rightarrow> unit res" where
  "check_nodes g alpha_node =
     andthen (first_view g Alpha) (\<lambda>alpha.
     andthen (call_accessor g alpha Key) (\<lambda>key.
     andthen (assert (key = ReturnsOne (GString (bytes_of ''hello'')))) (\<lambda>_.
     andthen (call_accessor g alpha Values) (\<lambda>values.
     andthen (assert (values = ReturnsVec [GString (bytes_of ''v1''), GString (bytes_of ''v2'')])) (\<lambda>_.
     andthen (first_view g Beta) (\<lambda>beta.
     andthen (call_accessor g beta Count) (\<lambda>count.
     andthen (assert (count = ReturnsOne (GValue (SInt 42)))) (\<lambda>_.
     andthen (first_view g Gamma) (\<lambda>gamma.
     andthen (call_accessor g gamma Ref) (\<lambda>ref.
     andthen (assert (ref = ReturnsOne (GNode (NodeId Alpha (nid_seq alpha_node))))) (\<lambda>_.
     andthen (call_accessor g gamma State) (\<lambda>state.
     andthen (assert (state = ReturnsOne (GVariant ''Active''))) (\<lambda>_.
     andthen (nodes_by_kind_with_deleted simple_schema g Alpha) (\<lambda>alphas.
     assert (length alphas = 1)))))))))))))))"

definition check_edges :: "graph \<Rightarrow> simple_node node_id \<Rightarrow> simple_node node_id \<Rightarrow> unit res" where
  "check_edges g alpha_node beta_node =
     andthen (only_edge g alpha_node Base Out) (\<lambda>base.
     andthen (assert (ev_src base = NodeId Alpha (nid_seq alpha_node))) (\<lambda>_.
     andthen (assert (ev_dst base = NodeId Beta (nid_seq beta_node))) (\<lambda>_.
     andthen (assert (ev_direction base = Out)) (\<lambda>_.
     andthen (only_edge g alpha_node Extended In) (\<lambda>extended.
     andthen (assert (nid_kind (ev_src extended) = Gamma)) (\<lambda>_.
     andthen (call_edge_property g extended) (\<lambda>edge_property.
     assert (edge_property = Some (GString (bytes_of ''refers-to''))))))))))"

definition check_labels :: "unit res" where
  "check_labels =
     (case property_kind_derive simple_property_item of
        Ok out \<Rightarrow>
          andthen (assert (map_of (pk_labels out) ''Tag'' = Some ''Label'')) (\<lambda>_.
          andthen (expect_ok (derived_from_str simple_property_item (pk_from_str out) ''Label'')) (\<lambda>tag.
          andthen (assert (tag = ''Tag'')) (\<lambda>_.
          assert (case derived_from_str simple_property_item (pk_from_str out) ''Tag'' of Err _ \<Rightarrow> True | _ \<Rightarrow> False))))
      | _ \<Rightarrow> Panic)"

definition example_main :: "unit res" where
  "example_main =
     andthen example_first (\<lambda>(graph, alpha_node, beta_node).
     andthen (example_second graph alpha_node) (\<lambda>graph.
     andthen (check_nodes graph alpha_node) (\<lambda>_.
     andthen (check_edges graph alpha_node beta_node) (\<lambda>_.
     check_labels))))"

section \<open>The run\<close>

text \<open>
  \<open>main\<close> runs to its end: every builder, both diffs and every query return, no \<open>unwrap\<close> or \<open>expect\<close>
  fails, and every \<open>assert!\<close> holds.
\<close>

theorem example_main_runs: "example_main = Ok ()"
  by code_simp

end
