(* ===== verification/Test_Schema.thy ===== *)
theory Test_Schema
  imports Simple_Schema
begin

text \<open>
  The schema of the crate \<open>test-fixtures\<close> (\<open>test-fixtures/src/lib.rs\<close>), which the tests, the benchmarks and the
  example that counts allocations share: properties and edges of every type, and two registered enums.
  It satisfies \<open>schema_laws\<close>.
\<close>

datatype test_status = Active | Inactive | Banned

datatype test_color = Red | Green | Blue

datatype test_prop_enums_registry = RegisteredStatus | RegisteredColor

datatype test_property =
  Key | Values | Count | State | Flag | Level | Rank | BigCount | Ratio | Score | LinkedNode | Tags | Tag

datatype test_node = Alpha | Beta | Gamma

datatype test_edge =
  Plain | Labeled | Active | Weight | Priority | Distance | Timestamp | Fraction | Precision | RefersTo | Tagged

text \<open>\<open>index\<close> of the derived kinds, and of the variants of \<open>Status\<close>.\<close>

fun test_status_index :: "test_status \<Rightarrow> nat" where
  "test_status_index test_status.Active = 0"
| "test_status_index test_status.Inactive = 1"
| "test_status_index test_status.Banned = 2"

fun test_registry_index :: "test_prop_enums_registry \<Rightarrow> nat" where
  "test_registry_index RegisteredStatus = 0"
| "test_registry_index RegisteredColor = 1"

fun test_property_index :: "test_property \<Rightarrow> nat" where
  "test_property_index test_property.Key = 0"
| "test_property_index test_property.Values = 1"
| "test_property_index test_property.Count = 2"
| "test_property_index test_property.State = 3"
| "test_property_index Flag = 4"
| "test_property_index Level = 5"
| "test_property_index Rank = 6"
| "test_property_index BigCount = 7"
| "test_property_index Ratio = 8"
| "test_property_index Score = 9"
| "test_property_index LinkedNode = 10"
| "test_property_index Tags = 11"
| "test_property_index test_property.Tag = 12"

fun test_node_index :: "test_node \<Rightarrow> nat" where
  "test_node_index test_node.Alpha = 0"
| "test_node_index test_node.Beta = 1"
| "test_node_index test_node.Gamma = 2"

fun test_edge_index :: "test_edge \<Rightarrow> nat" where
  "test_edge_index Plain = 0"
| "test_edge_index Labeled = 1"
| "test_edge_index test_edge.Active = 2"
| "test_edge_index Weight = 3"
| "test_edge_index Priority = 4"
| "test_edge_index Distance = 5"
| "test_edge_index Timestamp = 6"
| "test_edge_index Fraction = 7"
| "test_edge_index Precision = 8"
| "test_edge_index RefersTo = 9"
| "test_edge_index Tagged = 10"

text \<open>The attributes of the variants.\<close>

fun test_property_type :: "test_property \<Rightarrow> property_type" where
  "test_property_type test_property.Key = TString"
| "test_property_type test_property.Values = TString"
| "test_property_type test_property.Count = TInt"
| "test_property_type test_property.State = TEnum"
| "test_property_type Flag = TBool"
| "test_property_type Level = TByte"
| "test_property_type Rank = TShort"
| "test_property_type BigCount = TLong"
| "test_property_type Ratio = TFloat"
| "test_property_type Score = TDouble"
| "test_property_type LinkedNode = TNodeId"
| "test_property_type Tags = TEnum"
| "test_property_type test_property.Tag = TString"

fun test_property_str :: "test_property \<Rightarrow> string" where
  "test_property_str test_property.Key = ''Key''"
| "test_property_str test_property.Values = ''Values''"
| "test_property_str test_property.Count = ''Count''"
| "test_property_str test_property.State = ''State''"
| "test_property_str Flag = ''Flag''"
| "test_property_str Level = ''Level''"
| "test_property_str Rank = ''Rank''"
| "test_property_str BigCount = ''BigCount''"
| "test_property_str Ratio = ''Ratio''"
| "test_property_str Score = ''Score''"
| "test_property_str LinkedNode = ''LinkedNode''"
| "test_property_str Tags = ''Tags''"
| "test_property_str test_property.Tag = ''Label''"

fun test_node_str :: "test_node \<Rightarrow> string" where
  "test_node_str test_node.Alpha = ''Alpha''"
| "test_node_str test_node.Beta = ''Beta''"
| "test_node_str test_node.Gamma = ''Gamma''"

fun test_node_properties :: "test_node \<Rightarrow> test_property list" where
  "test_node_properties test_node.Alpha = [test_property.Key, test_property.Values, test_property.State]"
| "test_node_properties test_node.Beta = [test_property.Count]"
| "test_node_properties test_node.Gamma = [Flag, Level, Rank, BigCount, Ratio, Score, LinkedNode, Tags]"

fun test_edge_type :: "test_edge \<Rightarrow> property_type" where
  "test_edge_type Plain = TNone"
| "test_edge_type Labeled = TString"
| "test_edge_type test_edge.Active = TBool"
| "test_edge_type Weight = TByte"
| "test_edge_type Priority = TShort"
| "test_edge_type Distance = TInt"
| "test_edge_type Timestamp = TLong"
| "test_edge_type Fraction = TFloat"
| "test_edge_type Precision = TDouble"
| "test_edge_type RefersTo = TNodeId"
| "test_edge_type Tagged = TEnum"

fun test_edge_str :: "test_edge \<Rightarrow> string" where
  "test_edge_str Plain = ''Plain''"
| "test_edge_str Labeled = ''Labeled''"
| "test_edge_str test_edge.Active = ''Active''"
| "test_edge_str Weight = ''Weight''"
| "test_edge_str Priority = ''Priority''"
| "test_edge_str Distance = ''Distance''"
| "test_edge_str Timestamp = ''Timestamp''"
| "test_edge_str Fraction = ''Fraction''"
| "test_edge_str Precision = ''Precision''"
| "test_edge_str RefersTo = ''RefersTo''"
| "test_edge_str Tagged = ''Tagged''"

definition test_properties :: "test_property list" where
  "test_properties = [test_property.Key, test_property.Values, test_property.Count, test_property.State,
     Flag, Level, Rank, BigCount, Ratio, Score, LinkedNode, Tags, test_property.Tag]"

definition test_nodes :: "test_node list" where
  "test_nodes = [test_node.Alpha, test_node.Beta, test_node.Gamma]"

definition test_edges :: "test_edge list" where
  "test_edges = [Plain, Labeled, test_edge.Active, Weight, Priority, Distance, Timestamp, Fraction, Precision, RefersTo, Tagged]"

definition test_schema :: "(test_node, test_edge, test_property, test_prop_enums_registry) schema" where
  "test_schema =
    \<lparr>s_name = ''TestSchema'',
     s_version = \<lparr>major = 1, minor = 0, patch = 0\<rparr>,
     n_all = test_nodes,
     n_index = test_node_index,
     n_from_index = get_at test_nodes,
     n_str = test_node_str,
     n_properties = test_node_properties,
     e_all = test_edges,
     e_index = test_edge_index,
     e_from_index = get_at test_edges,
     e_str = test_edge_str,
     e_property_type = test_edge_type,
     e_enum_index = (\<lambda>e. case e of Tagged \<Rightarrow> Some (test_registry_index RegisteredStatus) | _ \<Rightarrow> None),
     p_all = test_properties,
     p_index = test_property_index,
     p_from_index = get_at test_properties,
     p_str = test_property_str,
     p_property_type = test_property_type,
     p_quantity = (\<lambda>p. case p of test_property.Values \<Rightarrow> Multi | Tags \<Rightarrow> Multi | _ \<Rightarrow> One),
     p_enum_index = (\<lambda>p. case p of test_property.State \<Rightarrow> Some (test_registry_index RegisteredStatus)
       | Tags \<Rightarrow> Some (test_registry_index RegisteredStatus) | _ \<Rightarrow> None),
     r_all = [RegisteredStatus, RegisteredColor],
     r_from_index = get_at [RegisteredStatus, RegisteredColor],
     r_str = (\<lambda>r. case r of RegisteredStatus \<Rightarrow> ''Status'' | RegisteredColor \<Rightarrow> ''Color''),
     r_variant_count = (\<lambda>_. 3)\<rparr>"

lemma test_schema_simps [simp]:
  "n_all test_schema = test_nodes" "n_index test_schema = test_node_index"
  "n_from_index test_schema = get_at test_nodes" "n_properties test_schema = test_node_properties"
  "e_all test_schema = test_edges" "e_index test_schema = test_edge_index"
  "e_from_index test_schema = get_at test_edges" "e_property_type test_schema = test_edge_type"
  "p_all test_schema = test_properties" "p_index test_schema = test_property_index"
  "p_from_index test_schema = get_at test_properties" "p_property_type test_schema = test_property_type"
  by (simp_all add: test_schema_def)

lemma listed_laws:
  assumes "\<And>k. ix k < length ks \<and> ks ! ix k = k" and "\<And>i. i < length ks \<Longrightarrow> ix (ks ! i) = i" and "length ks \<le> u32_max"
  shows "kind_laws ks ix (get_at ks)"
  using assms by (simp add: kind_laws_def)

lemma test_schema_laws: "schema_laws test_schema"
proof (unfold_locales, unfold test_schema_simps)
  have "test_node_index k < length test_nodes \<and> test_nodes ! test_node_index k = k" for k
    by (cases k) (simp_all add: test_nodes_def)
  then show "kind_laws test_nodes test_node_index (get_at test_nodes)"
    by (rule listed_laws) (auto simp: test_nodes_def less_Suc_eq u32_max_def)
  have "test_edge_index k < length test_edges \<and> test_edges ! test_edge_index k = k" for k
    by (cases k) (simp_all add: test_edges_def)
  then show "kind_laws test_edges test_edge_index (get_at test_edges)"
    by (rule listed_laws) (auto simp: test_edges_def less_Suc_eq u32_max_def)
  have "test_property_index k < length test_properties \<and> test_properties ! test_property_index k = k" for k
    by (cases k) (simp_all add: test_properties_def)
  then show "kind_laws test_properties test_property_index (get_at test_properties)"
    by (rule listed_laws) (auto simp: test_properties_def less_Suc_eq u32_max_def)
  show "r_from_index test_schema i = get_at (r_all test_schema) i" for i
    by (simp add: test_schema_def)
  show "test_property_type pk \<noteq> TNone" for pk
    by (cases pk) simp_all
qed

text \<open>The derived \<open>Ord\<close> of the property kinds.\<close>

instantiation test_property :: linorder
begin

definition less_eq_test_property :: "test_property \<Rightarrow> test_property \<Rightarrow> bool" where
  "less_eq_test_property a b \<longleftrightarrow> test_property_index a \<le> test_property_index b"

definition less_test_property :: "test_property \<Rightarrow> test_property \<Rightarrow> bool" where
  "less_test_property a b \<longleftrightarrow> test_property_index a < test_property_index b"

instance
proof
  fix a b :: test_property
  assume "a \<le> b" and "b \<le> a"
  then have "test_property_index a = test_property_index b"
    unfolding less_eq_test_property_def by (rule le_antisym)
  then show "a = b"
    using schema_laws.prop_kinds [OF test_schema_laws] unfolding kind_laws_def test_schema_simps by metis
qed (auto simp: less_eq_test_property_def less_test_property_def)

end

end
