(* ===== verification/Fixture_Graphs.thy ===== *)
theory Fixture_Graphs
  imports Test_Schema Derive_Access Prepare
begin

text \<open>
  The generators of \<open>test-fixtures/src/graphs.rs\<close>, whose graphs the benchmarks load. A failed \<open>unwrap\<close> is a
  panic. \<open>i as f32\<close> and \<open>i as f64\<close> are the bits of the float nearest to a \<open>usize\<close>, ties to even.
\<close>

type_synonym test_new_node = "(test_node, test_property) new_node"
type_synonym test_diff = "(test_node, test_edge, test_property) graph_diff"
type_synonym edge_spec = "test_edge \<times> property_value option"

section \<open>Casts\<close>

fun top_bit :: "nat \<Rightarrow> nat" where
  "top_bit n = (if n < 2 then 0 else Suc (top_bit (n div 2)))"

declare top_bit.simps [simp del]

definition round_even :: "nat \<Rightarrow> nat \<Rightarrow> nat" where
  "round_even n d =
     (let q = n div d; r = n mod d in if d < 2 * r \<or> (2 * r = d \<and> odd q) then q + 1 else q)"

text \<open>With \<open>p\<close> bits of fraction. A significand that is rounded up to \<open>2 ^ (p + 1)\<close> carries into the exponent.\<close>

definition float_bits :: "nat \<Rightarrow> nat \<Rightarrow> nat \<Rightarrow> nat" where
  "float_bits p bias n =
     (if n = 0 then 0
      else let e = top_bit n; q = (if e \<le> p then n * 2 ^ (p - e) else round_even n (2 ^ (e - p))) in
        (bias + e) * 2 ^ p + (q - 2 ^ p))"

definition f32_of_usize :: "nat \<Rightarrow> f32" where
  "f32_of_usize n = of_nat (float_bits 23 127 n)"

definition f64_of_usize :: "nat \<Rightarrow> f64" where
  "f64_of_usize n = of_nat (float_bits 52 1023 n)"

section \<open>The nodes\<close>

definition status_value :: "test_status \<Rightarrow> property_value res" where
  "status_value s = value_of_enum (test_registry_index RegisteredStatus) (test_status_index s)"

definition with_property :: "test_property \<Rightarrow> property_value \<Rightarrow> test_new_node \<Rightarrow> test_new_node res" where
  "with_property pk v b = expect_ok (builder_add_property test_schema pk v b)"

definition node_for :: "nat \<Rightarrow> test_new_node res" where
  "node_for i =
     (if i mod 3 = 0 then
        andthen (with_property test_property.Key (str_value (''key-'' @ nat_str i)) (builder_new test_node.Alpha)) (\<lambda>b.
        andthen (with_property test_property.Values (str_value (''v'' @ nat_str i @ ''-a'')) b) (\<lambda>b.
        andthen (with_property test_property.Values (str_value (''v'' @ nat_str i @ ''-b'')) b) (\<lambda>b.
        andthen (status_value test_status.Active) (\<lambda>active.
        with_property test_property.State active b))))
      else if i mod 3 = 1 then
        with_property test_property.Count (VInt (of_nat i)) (builder_new test_node.Beta)
      else
        andthen (with_property Flag (VBool (i mod 2 = 0)) (builder_new test_node.Gamma)) (\<lambda>b.
        andthen (with_property Level (VByte (of_nat (i mod 128))) b) (\<lambda>b.
        andthen (with_property Rank (VShort (of_nat (i mod 1000))) b) (\<lambda>b.
        andthen (with_property BigCount (VLong (of_nat i)) b) (\<lambda>b.
        andthen (with_property Ratio (VFloat (f32_of_usize i)) b) (\<lambda>b.
        andthen (with_property Score (VDouble (f64_of_usize i)) b) (\<lambda>b.
        andthen (status_value test_status.Active) (\<lambda>active.
        andthen (with_property Tags active b) (\<lambda>b.
        andthen (status_value test_status.Inactive) (\<lambda>inactive.
        with_property Tags inactive b))))))))))"

section \<open>The diffs\<close>

text \<open>The two loops every generator has: \<open>n\<close> nodes, then \<open>edges_per_node\<close> edges from each node, to destinations
  a stride apart. The remainder is taken only where there is a node, so \<open>n\<close> is not 0 there. The arithmetic is
  that of a build with overflow checks; without them \<open>edges_per_node + 1\<close> wraps to 0 and the division panics.\<close>

definition collect_nodes :: "(nat \<Rightarrow> test_new_node res) \<Rightarrow> nat \<Rightarrow> (nat list \<times> test_diff) res" where
  "collect_nodes node n =
     for_each (\<lambda>i (ids, diff).
         andthen (node i) (\<lambda>new_node.
         let (i', diff) = add_node new_node diff in Ok (ids @ [i'], diff)))
       [0..<n] ([], graph_diff_default)"

definition strided_edges ::
  "('a \<Rightarrow> new_or_existing_node res) \<Rightarrow> (nat \<Rightarrow> nat \<Rightarrow> edge_spec) \<Rightarrow> 'a list \<Rightarrow> nat \<Rightarrow> test_diff \<Rightarrow> test_diff res" where
  "strided_edges node_ref edge ids edges_per_node diff =
     (let n = length ids in
      andthen (usize_add edges_per_node 1) (\<lambda>parts.
      let stride = max (n div parts) 1 in
      for_each (\<lambda>(i, src).
          for_each (\<lambda>k diff.
              andthen (usize_mul k stride) (\<lambda>distance.
              andthen (usize_add i distance) (\<lambda>position.
              andthen (index_at ids (position mod n)) (\<lambda>dst.
              andthen (node_ref src) (\<lambda>src.
              andthen (node_ref dst) (\<lambda>dst.
              let (kind, property) = edge i k; (_, diff) = add_edge src dst kind property diff in Ok diff))))))
            [1..<edges_per_node + 1])
        (enumerate 0 ids) diff))"

definition new_ref :: "nat \<Rightarrow> new_or_existing_node res" where
  "new_ref i = Ok (NewNodeRef i)"

definition edge_text :: "nat \<Rightarrow> nat \<Rightarrow> property_value" where
  "edge_text i k = str_value (''edge-'' @ nat_str i @ ''-'' @ nat_str k)"

definition bulk_edge :: "nat \<Rightarrow> nat \<Rightarrow> edge_spec" where
  "bulk_edge i k = (Labeled, Some (edge_text i k))"

definition build_bulk_diff :: "nat \<Rightarrow> nat \<Rightarrow> test_diff res" where
  "build_bulk_diff nodes edges_per_node =
     andthen (collect_nodes node_for nodes) (\<lambda>(ids, diff).
     strided_edges new_ref bulk_edge ids edges_per_node diff)"

definition multi_kind_edge :: "nat \<Rightarrow> nat \<Rightarrow> edge_spec" where
  "multi_kind_edge i k =
     (if (i + k) mod 5 = 0 then (Plain, None)
      else if (i + k) mod 5 = 1 then (Labeled, Some (edge_text i k))
      else if (i + k) mod 5 = 2 then (test_edge.Active, Some (VBool (i mod 2 = 0)))
      else if (i + k) mod 5 = 3 then (Weight, Some (VByte (of_nat (i mod 256))))
      else (Distance, Some (VInt (of_nat i))))"

definition build_multi_kind_diff :: "nat \<Rightarrow> nat \<Rightarrow> test_diff res" where
  "build_multi_kind_diff nodes edges_per_node =
     andthen (collect_nodes node_for nodes) (\<lambda>(ids, diff).
     strided_edges new_ref multi_kind_edge ids edges_per_node diff)"

end
