(* ===== verification/Alloc_Count.thy ===== *)
theory Alloc_Count
  imports Fixture_Graphs
begin

text \<open>
  \<open>examples/alloc_count.rs\<close>: the counters of its allocator, its generators and the workloads it measures. What
  memory a closure asks for is up to the system allocator: \<open>measure\<close> and \<open>footprint\<close> are functions of the calls
  it receives, and \<open>alloc_main\<close> is what the closures compute, without the printing; the times its clock measures
  are an argument. A failed \<open>unwrap\<close> or \<open>expect\<close>
  is a panic; that \<open>alloc_main\<close> is \<open>Ok\<close> says that it runs to its end.
\<close>

section \<open>The counters\<close>

record counters =
  c_allocs :: nat
  c_bytes :: nat
  c_freed_bytes :: nat
  c_on :: nat

datatype heap_call = AllocCall nat | DeallocCall nat

fun counting :: "heap_call \<Rightarrow> counters \<Rightarrow> counters" where
  "counting (AllocCall layout_size) c =
     (if c_on c = 1 then c\<lparr>c_allocs := c_allocs c + 1, c_bytes := c_bytes c + layout_size\<rparr> else c)"
| "counting (DeallocCall layout_size) c = (if c_on c = 1 then c\<lparr>c_freed_bytes := c_freed_bytes c + layout_size\<rparr> else c)"

text \<open>\<open>measure\<close> returns the number of allocations and their bytes, \<open>footprint\<close> the bytes that are left, which
  saturate at zero, and the bytes that were allocated.\<close>

definition measure_counts :: "heap_call list \<Rightarrow> counters \<Rightarrow> (nat \<times> nat) \<times> counters" where
  "measure_counts calls c =
     (let c = c\<lparr>c_allocs := 0, c_bytes := 0, c_on := 1\<rparr>;
          c = (fold counting calls c)\<lparr>c_on := 0\<rparr> in
      ((c_allocs c, c_bytes c), c))"

definition footprint_counts :: "heap_call list \<Rightarrow> counters \<Rightarrow> (nat \<times> nat) \<times> counters" where
  "footprint_counts calls c =
     (let c = c\<lparr>c_allocs := 0, c_bytes := 0, c_freed_bytes := 0, c_on := 1\<rparr>;
          c = (fold counting calls c)\<lparr>c_on := 0\<rparr>;
          gross = c_bytes c; freed = c_freed_bytes c; net = gross - freed in
      ((net, gross), c))"

section \<open>Generators\<close>

definition alloc_node_for :: "nat \<Rightarrow> test_new_node res" where
  "alloc_node_for i =
     (if i mod 3 = 0 then
        andthen (with_property test_property.Key (str_value (''key-'' @ nat_str i)) (builder_new test_node.Alpha)) (\<lambda>b.
        andthen (with_property test_property.Values (str_value (''v'' @ nat_str i @ ''-a'')) b) (\<lambda>b.
        andthen (status_value test_status.Active) (\<lambda>active.
        with_property test_property.State active b)))
      else if i mod 3 = 1 then
        with_property test_property.Count (VInt (of_nat i)) (builder_new test_node.Beta)
      else
        andthen (with_property Flag (VBool (i mod 2 = 0)) (builder_new test_node.Gamma)) (\<lambda>b.
        with_property Score (VDouble (f64_of_usize i)) b))"

definition bulk :: "nat \<Rightarrow> nat \<Rightarrow> test_diff res" where
  "bulk n edges_per_node =
     andthen (collect_nodes alloc_node_for n) (\<lambda>(ids, diff).
     strided_edges new_ref bulk_edge ids edges_per_node diff)"

datatype edge_property = UniqueString | SharedString | NoProperty

fun property_edge :: "edge_property \<Rightarrow> nat \<Rightarrow> nat \<Rightarrow> edge_spec" where
  "property_edge UniqueString i k = (Labeled, Some (edge_text i k))"
| "property_edge SharedString i k = (Labeled, Some (str_value ''shared''))"
| "property_edge NoProperty i k = (Plain, None)"

definition bulk_with :: "nat \<Rightarrow> nat \<Rightarrow> edge_property \<Rightarrow> test_diff res" where
  "bulk_with n edges_per_node edge_property =
     andthen (collect_nodes alloc_node_for n) (\<lambda>(ids, diff).
     strided_edges new_ref (property_edge edge_property) ids edges_per_node diff)"

definition stringless_node_for :: "nat \<Rightarrow> test_new_node res" where
  "stringless_node_for i =
     (if i mod 2 = 0
      then with_property test_property.Count (VInt (of_nat i)) (builder_new test_node.Beta)
      else with_property Score (VDouble (f64_of_usize i)) (builder_new test_node.Gamma))"

definition bulk_stringless_nodes :: "nat \<Rightarrow> test_diff res" where
  "bulk_stringless_nodes n = map_ok snd (collect_nodes stringless_node_for n)"

section \<open>Workloads\<close>

definition applied_to :: "test_diff \<Rightarrow> graph \<Rightarrow> (graph \<times> test_node node_id list) res" where
  "applied_to diff graph = expect_ok (apply_diff test_schema diff graph)"

definition applied_to_new :: "test_diff \<Rightarrow> (graph \<times> test_node node_id list) res" where
  "applied_to_new diff = andthen (graph_new test_schema) (applied_to diff)"

definition base :: "nat \<Rightarrow> (graph \<times> test_node node_id list) res" where
  "base nodes_count = andthen (bulk nodes_count 2) applied_to_new"

definition more_edge :: "nat \<Rightarrow> nat \<Rightarrow> edge_spec" where
  "more_edge i k = (Labeled, Some (str_value (''more-'' @ nat_str i @ ''-'' @ nat_str k)))"

definition more_edges :: "test_node node_id list \<Rightarrow> test_diff res" where
  "more_edges ids = strided_edges (existing_node test_schema) more_edge ids 2 graph_diff_default"

definition stride_of :: "test_node node_id list \<Rightarrow> nat \<Rightarrow> nat res" where
  "stride_of ids k = (if k = 0 then Panic else Ok (max (length ids div k) 1))"

definition update_of :: "nat \<Rightarrow> test_property \<times> property_value" where
  "update_of idx =
     (if idx mod 3 = 0 then (test_property.Values, str_value (''updated-'' @ nat_str idx))
      else if idx mod 3 = 1 then (test_property.Count, VInt (of_nat idx))
      else (Score, VDouble (0x3FF0000000000000)))"

definition some_updates :: "test_node node_id list \<Rightarrow> nat \<Rightarrow> nat \<Rightarrow> test_diff res" where
  "some_updates ids k stride =
     for_each (\<lambda>j upd.
         let idx = (j * stride) mod length ids in
         andthen (index_at ids idx) (\<lambda>node.
         andthen (raw_of_node test_schema node) (\<lambda>node_ref.
         let (pk, v) = update_of idx; (_, upd) = update_node_property node_ref pk (QOne v) upd in Ok upd)))
       [0..<k] graph_diff_default"

definition some_removals :: "test_node node_id list \<Rightarrow> nat \<Rightarrow> nat \<Rightarrow> test_diff res" where
  "some_removals ids k stride =
     for_each (\<lambda>j rm.
         andthen (index_at ids ((j * stride) mod length ids)) (\<lambda>node.
         andthen (raw_of_node test_schema node) (\<lambda>node_ref.
         let (_, rm) = remove_node node_ref rm in Ok rm)))
       [0..<k] graph_diff_default"

definition measure_phases :: "test_diff \<Rightarrow> unit res" where
  "measure_phases diff =
     andthen (graph_new test_schema) (\<lambda>graph.
     andthen (expect_ok (fst (prepare test_schema diff graph))) (\<lambda>staged.
     map_ok (\<lambda>_. ()) (commit test_schema staged)))"

text \<open>The time each of the five runs takes is given; \<open>min\<close> of no runs would be \<open>None\<close>, which \<open>expect\<close> turns
  into a panic.\<close>

definition best_of_five :: "(nat \<Rightarrow> nat) \<Rightarrow> nat \<Rightarrow> edge_property \<Rightarrow> nat res" where
  "best_of_five elapsed nodes_count prop =
     andthen (map_each (\<lambda>run. map_ok (\<lambda>_. elapsed run) (andthen (bulk_with nodes_count 2 prop) applied_to_new)) [0..<5])
       (\<lambda>times. case times of [] \<Rightarrow> Panic | t # ts \<Rightarrow> Ok (fold min ts t))"

section \<open>\<open>main\<close>\<close>

definition measure_changes :: "nat \<Rightarrow> unit res" where
  "measure_changes nodes_count =
     andthen (base nodes_count) (\<lambda>(_, ids).
     andthen (more_edges ids) (\<lambda>edges.
     andthen (base nodes_count) (\<lambda>(g2, _).
     andthen (applied_to edges g2) (\<lambda>_.
     let k = nodes_count div 10 in
     andthen (stride_of ids k) (\<lambda>stride.
     andthen (some_updates ids k stride) (\<lambda>upd.
     andthen (base nodes_count) (\<lambda>(g3, _).
     andthen (applied_to upd g3) (\<lambda>_.
     andthen (some_removals ids k stride) (\<lambda>rm.
     andthen (base nodes_count) (\<lambda>(g4, _).
     map_ok (\<lambda>_. ()) (applied_to rm g4)))))))))))"

definition alloc_main :: "(edge_property \<Rightarrow> nat \<Rightarrow> nat) \<Rightarrow> unit res" where
  "alloc_main elapsed =
     (let nodes_count = 20000 in
      andthen (andthen (bulk nodes_count 0) applied_to_new) (\<lambda>_.
      andthen (andthen (bulk nodes_count 2) applied_to_new) (\<lambda>_.
      andthen (measure_changes nodes_count) (\<lambda>_.
      let nodes_count2 = 20000 in
      andthen (andthen (bulk_with nodes_count2 2 UniqueString) applied_to_new) (\<lambda>_.
      andthen (andthen (bulk_with nodes_count2 2 SharedString) applied_to_new) (\<lambda>_.
      andthen (andthen (bulk_with nodes_count2 2 NoProperty) applied_to_new) (\<lambda>_.
      andthen (andthen (bulk_stringless_nodes nodes_count2) applied_to_new) (\<lambda>_.
      andthen (for_each (\<lambda>prop _. map_ok (\<lambda>_. ()) (best_of_five (elapsed prop) nodes_count2 prop)) [UniqueString, SharedString, NoProperty] ()) (\<lambda>_.
      andthen (andthen (bulk nodes_count2 2) measure_phases) (\<lambda>_.
      andthen (andthen (bulk_with nodes_count2 2 NoProperty) measure_phases) (\<lambda>_.
      andthen (andthen (bulk nodes_count2 0) measure_phases) (\<lambda>_.
      let n2 = 100000 in
      map_ok (\<lambda>_. ()) (andthen (bulk n2 1) applied_to_new)))))))))))))"

end
