(* ===== verification/Budget_Spec.thy ===== *)
theory Budget_Spec
  imports Room_Spec Valid_Spec
begin

text \<open>
  A budget for a sequence of diffs. Four numbers bound a graph: its nodes, the values of one node for
  one property, the entries of an edge slot and the text of its pool. Each diff adds its own nodes,
  edges and text to them, and as long as the sums stay below \<open>2^32\<close> a valid diff is applied to a valid
  graph; the next diff is judged by the new sums, without looking at the graph again.
\<close>

section \<open>Text\<close>

fun value_texts :: "property_value \<Rightarrow> bytes list" where
  "value_texts (VString s) = [s]"
| "value_texts _ = []"

definition change_values :: "'p change \<Rightarrow> property_value list" where
  "change_values c = (case c of UpdateNodeProperty r pk q \<Rightarrow> quantified_values q | _ \<Rightarrow> [])"

definition node_prop_values :: "('n, 'p) new_node \<Rightarrow> property_value list" where
  "node_prop_values n = concat (map snd (nn_properties n))"

definition edge_values :: "'e new_edge \<Rightarrow> property_value list" where
  "edge_values e = (case ne_property e of Some v \<Rightarrow> [v] | None \<Rightarrow> [])"

text \<open>All values of a diff, with the cost of their strings: the bytes, and one entry each.\<close>

definition diff_values :: "('n, 'e, 'p) graph_diff \<Rightarrow> property_value list" where
  "diff_values d = concat (map node_prop_values (gd_new_nodes d)) @ concat (map edge_values (gd_new_edges d)) @
     concat (map change_values (gd_changes d))"

definition texts_size :: "bytes list \<Rightarrow> nat" where
  "texts_size ts = sum_list (map (\<lambda>t. length t + 1) ts)"

definition values_size :: "property_value list \<Rightarrow> nat" where
  "values_size vs = texts_size (concat (map value_texts vs))"

lemma texts_size_simps [simp]:
  "texts_size [] = 0" "texts_size (t # ts) = length t + 1 + texts_size ts" "texts_size (ts @ us) = texts_size ts + texts_size us"
  by (simp_all add: texts_size_def)

lemma values_size_simps [simp]:
  "values_size [] = 0" "values_size (v # vs) = texts_size (value_texts v) + values_size vs"
  "values_size (vs @ ws) = values_size vs + values_size ws"
  by (simp_all add: values_size_def)

lemma values_size_concat: "values_size (concat vss) = sum_list (map values_size vss)"
  by (induction vss) simp_all

lemma value_strings_texts: "value_strings v = set (value_texts v)"
  by (cases v) simp_all

lemma diff_strings_texts: "diff_strings d \<subseteq> set (concat (map value_texts (diff_values d)))"
proof -
  have "\<exists>v\<in>set (diff_values d). s \<in> value_strings v" if "s \<in> diff_strings d" for s
    using that unfolding diff_strings_def
  proof (elim UnE)
    assume "s \<in> change_strings (gd_changes d)"
    then obtain r pk q v where q: "UpdateNodeProperty r pk q \<in> set (gd_changes d)" "v \<in> set (quantified_values q)" "s \<in> value_strings v"
      by (auto simp: change_strings_def update_strings_def)
    then have "v \<in> set (concat (map change_values (gd_changes d)))" by (force simp: change_values_def)
    then show ?thesis using q(3) by (auto simp: diff_values_def)
  next
    assume "s \<in> node_strings (gd_new_nodes d)"
    then show ?thesis by (fastforce simp: node_strings_def diff_values_def node_prop_values_def)
  next
    assume "s \<in> edge_strings (gd_new_edges d)"
    then obtain e v where e: "e \<in> set (gd_new_edges d)" "ne_property e = Some v" "s \<in> value_strings v"
      by (auto simp: edge_strings_def)
    then have "v \<in> set (concat (map edge_values (gd_new_edges d)))" by (force simp: edge_values_def)
    then show ?thesis using e(3) by (auto simp: diff_values_def)
  qed
  then show ?thesis by (fastforce simp: value_strings_texts)
qed

lemma sum_set_le: "(\<Sum>x\<in>set xs. f x) \<le> sum_list (map f xs)" for f :: "'a \<Rightarrow> nat"
proof (induction xs)
  case (Cons x xs)
  then show ?case by (cases "x \<in> set xs") (auto simp: insert_absorb)
qed simp

lemma texts_of_subset:
  assumes "W \<subseteq> set ts"
  shows "finite W" and "(\<Sum>s\<in>W. length s + 1) \<le> texts_size ts"
proof -
  show fin: "finite W" using assms finite_subset by blast
  have "(\<Sum>s\<in>W. length s + 1) \<le> (\<Sum>s\<in>set ts. length s + 1)" using assms by (intro sum_mono2) auto
  also have "\<dots> \<le> texts_size ts" unfolding texts_size_def by (rule sum_set_le)
  finally show "(\<Sum>s\<in>W. length s + 1) \<le> texts_size ts" .
qed

section \<open>Sizes of a graph\<close>

definition pool_holds :: "nat \<Rightarrow> pool \<Rightarrow> bool" where
  "pool_holds C p \<longleftrightarrow> (\<exists>ss. pool_repr p ss \<and> texts_size ss \<le> C)"

text \<open>At most \<open>N\<close> nodes, \<open>b\<close> values of a node for a property, \<open>E\<close> entries of an edge slot, \<open>C\<close> of text.\<close>

definition sized :: "('n, 'e, 'p, 'r) schema \<Rightarrow> nat \<Rightarrow> nat \<Rightarrow> nat \<Rightarrow> nat \<Rightarrow> graph \<Rightarrow> bool" where
  "sized S b N E C g \<longleftrightarrow>
     sum_list (map length (g_node_meta g)) \<le> N \<and>
     (\<forall>nk pk. \<forall>seq<kind_count S g nk. length (prop_row S g nk pk seq) \<le> b) \<and>
     (\<forall>nk dir ek. length (es_neighbors (edge_slot_of S g nk dir ek)) \<le> E) \<and> pool_holds C (g_strings g)"

definition diff_small :: "nat \<Rightarrow> ('n, 'e, 'p) graph_diff \<Rightarrow> bool" where
  "diff_small b d \<longleftrightarrow>
     (\<forall>n\<in>set (gd_new_nodes d). distinct (map fst (nn_properties n)) \<and> (\<forall>(pk, vs)\<in>set (nn_properties n). length vs \<le> b)) \<and>
     (\<forall>r pk q. UpdateNodeProperty r pk q \<in> set (gd_changes d) \<longrightarrow> length (quantified_values q) \<le> b)"

text \<open>The sums with those of the diff are in range.\<close>

definition within_budget :: "nat \<Rightarrow> nat \<Rightarrow> nat \<Rightarrow> nat \<Rightarrow> ('n, 'e, 'p) graph_diff \<Rightarrow> bool" where
  "within_budget b N E C d \<longleftrightarrow> 0 < b \<and> b * (N + length (gd_new_nodes d)) \<le> u32_max \<and>
     E + length (gd_new_edges d) \<le> u32_max \<and> C + values_size (diff_values d) \<le> u32_max"

lemma diff_smallD:
  assumes "diff_small b d"
  shows "n \<in> set (gd_new_nodes d) \<Longrightarrow> distinct (map fst (nn_properties n))"
    and "n \<in> set (gd_new_nodes d) \<Longrightarrow> (pk, vs) \<in> set (nn_properties n) \<Longrightarrow> length vs \<le> b"
    and "UpdateNodeProperty r pk q \<in> set (gd_changes d) \<Longrightarrow> length (quantified_values q) \<le> b"
  using assms unfolding diff_small_def by blast+

lemma sizedD:
  assumes "sized S b N E C g"
  shows "sum_list (map length (g_node_meta g)) \<le> N"
    and "seq < kind_count S g nk \<Longrightarrow> length (prop_row S g nk pk seq) \<le> b"
    and "length (es_neighbors (edge_slot_of S g nk dir ek)) \<le> E" and "pool_holds C (g_strings g)"
  using assms unfolding sized_def by blast+

lemma within_budgetD:
  assumes "within_budget b N E C d"
  shows "0 < b" and "b * (N + length (gd_new_nodes d)) \<le> u32_max" and "N + length (gd_new_nodes d) \<le> u32_max"
    and "E + length (gd_new_edges d) \<le> u32_max" and "C + values_size (diff_values d) \<le> u32_max"
proof -
  show *: "0 < b" "b * (N + length (gd_new_nodes d)) \<le> u32_max" "E + length (gd_new_edges d) \<le> u32_max"
    "C + values_size (diff_values d) \<le> u32_max"
    using assms by (simp_all add: within_budget_def)
  have "N + length (gd_new_nodes d) \<le> b * (N + length (gd_new_nodes d))" using *(1) by simp
  then show "N + length (gd_new_nodes d) \<le> u32_max" using *(2) by (rule order_trans)
qed

lemma node_values_length:
  assumes "diff_small b d" and "j < new_count (gd_new_nodes d) nk"
  shows "length (node_values (gd_new_nodes d) nk pk j) \<le> b"
proof (cases "map_of (nn_properties (of_kind nk (gd_new_nodes d) ! j)) pk")
  case (Some vs)
  have "of_kind nk (gd_new_nodes d) ! j \<in> set (gd_new_nodes d)"
    using nth_mem [of j "of_kind nk (gd_new_nodes d)"] assms(2) by (auto simp: new_count_def of_kind_def)
  then show ?thesis using diff_smallD(2) [OF assms(1)] map_of_SomeD [OF Some] by (simp add: node_values_def Some)
qed (simp add: node_values_def)

lemma strings_room_budget:
  assumes "pool_holds C (g_strings g)" and "C + values_size (diff_values d) \<le> u32_max"
  shows "strings_room g d"
  unfolding strings_room_def
proof (intro allI impI)
  fix ss assume "pool_repr (g_strings g) ss"
  then have size: "texts_size ss \<le> C" using assms(1) pool_repr_unique by (auto simp: pool_holds_def)
  let ?W = "set ss \<union> diff_strings d"
  have "?W \<subseteq> set (ss @ concat (map value_texts (diff_values d)))" using diff_strings_texts [of d] by auto
  from texts_of_subset(2) [OF this] have "(\<Sum>s\<in>?W. length s + 1) \<le> u32_max"
    using size assms(2) by (simp add: values_size_def)
  then show "card ?W \<le> u32_max \<and> (\<Sum>s\<in>?W. length s) \<le> u32_max" by (simp add: sum_Suc)
qed

lemma remove_at_length: "length (remove_at r R) \<le> length r"
  by (simp add: remove_at_def length_nths) (rule card_mono [of "{..<length r}", simplified], auto)

context schema_laws begin

lemma node_total:
  "graph_ok S g \<Longrightarrow> sum_list (map length (g_node_meta g)) = sum_list (map (kind_count S g) (n_all S))"
  by (rule sum_kinds_list) (simp_all add: graph_okD(1) kind_count_def)

lemma kind_count_total:
  assumes "graph_ok S g"
  shows "kind_count S g nk \<le> sum_list (map length (g_node_meta g))"
proof -
  have "nk \<in> set (n_all S)" using kind_laws_nth [OF node_kinds] kind_laws_less [OF node_kinds] nth_mem by metis
  then show ?thesis unfolding node_total [OF assms] by (intro member_le_sum_list) simp_all
qed

lemma sized_new:
  assumes "graph_new S = Ok g"
  shows "sized S b 0 0 0 g"
proof -
  have ok: "graph_ok S g" and zero: "kind_count S g nk = 0" for nk using graph_new_ok assms by fastforce+
  have "es_neighbors (edge_slot_of S g nk dir ek) = []" for nk dir ek
    using slot_neighbor_row [OF graph_okD(4) [OF ok]] zero by (metis all_not_in_conv not_less_zero set_empty)
  moreover have "g_strings g = pool_new" using assms by (auto simp: graph_new_def andthen_eq_Ok)
  ultimately show ?thesis
    using pool_repr_new by (auto simp: sized_def node_total [OF ok] zero pool_holds_def sum_list_0 intro!: exI [of _ "[]"])
qed

section \<open>Within the budget a diff is applied\<close>

lemma slots_within_budget:
  assumes ok: "graph_ok S g" and sized: "sized S b N E C g" and small: "diff_small b d" and budget: "within_budget b N E C d"
  shows "slots_within u32_max S g d"
  unfolding slots_within_def
proof (intro conjI allI)
  fix nk pk
  have "update_len (prop_row S g nk pk seq) (last_update S (gd_changes d) nk pk seq) \<le> b" if "seq < kind_count S g nk" for seq
    using sizedD(2) [OF sized that] diff_smallD(3) [OF small] last_update_change
    by (fastforce simp: update_len_def split: option.split)
  then have "(\<Sum>seq<kind_count S g nk. update_len (prop_row S g nk pk seq) (last_update S (gd_changes d) nk pk seq)) \<le>
      (\<Sum>seq<kind_count S g nk. b)"
    by (intro sum_mono) simp
  moreover have "(\<Sum>j<new_count (gd_new_nodes d) nk. length (node_values (gd_new_nodes d) nk pk j)) \<le>
      (\<Sum>j<new_count (gd_new_nodes d) nk. b)"
    by (intro sum_mono) (simp add: node_values_length [OF small])
  ultimately have "prop_len_after S g d nk pk \<le> b * (kind_count S g nk + new_count (gd_new_nodes d) nk)"
    by (simp add: prop_len_after_def algebra_simps)
  also have "\<dots> \<le> b * (N + length (gd_new_nodes d))"
  proof (intro mult_left_mono add_mono)
    show "kind_count S g nk \<le> N" using kind_count_total [OF ok] sizedD(1) [OF sized] by (rule order_trans)
    show "new_count (gd_new_nodes d) nk \<le> length (gd_new_nodes d)" by (simp add: new_count_def of_kind_def)
  qed simp
  finally show "prop_len_after S g d nk pk \<le> u32_max" using within_budgetD(2) [OF budget] by (rule order_trans)
next
  fix nk dir ek
  have "edge_len_after S g d nk dir ek \<le> E + length (gd_new_edges d)"
    unfolding edge_len_after_def by (intro add_mono sizedD(3) [OF sized]) simp
  then show "edge_len_after S g d nk dir ek \<le> u32_max" using within_budgetD(4) [OF budget] by (rule order_trans)
qed

lemma slot_length_rows:
  assumes "graph_ok S g"
  shows "length (es_neighbors (edge_slot_of S g nk dir ek)) = (\<Sum>seq<kind_count S g nk. length (edge_row S g nk dir ek seq))"
proof -
  let ?slot = "edge_slot_of S g nk dir ek"
  have slot: "edge_slot_ok (e_property_type S ek) (kind_count S g nk) ?slot" by (rule graph_okD(4) [OF assms])
  note csr = edge_slot_ok_csr [OF slot]
  have "length (es_neighbors ?slot) = length (concat (edge_rows ?slot (kind_count S g nk)))"
    unfolding slot_csr_concat [OF csr] edge_halves_neighbors [OF slot, symmetric] by simp
  then show ?thesis
    using slot_csr_length [OF csr] by (simp add: length_concat sum_list_sum_nth atLeast0LessThan edge_row_def)
qed

lemma applied_edge_length:
  assumes ok: "graph_ok S g" and ok': "graph_ok S g'" and edges: "diff_edges S g d ss rem adds"
    and rows: "rows_applied S g d ss rem adds g'"
  shows "length (es_neighbors (edge_slot_of S g' nk dir ek)) \<le>
    length (es_neighbors (edge_slot_of S g nk dir ek)) + length (gd_new_edges d)"
proof -
  let ?c = "kind_count S g nk" and ?n = "kind_count S g' nk" and ?old = "\<lambda>seq. length (edge_row S g nk dir ek seq)"
  let ?new = "\<lambda>seq. length (added_halves S adds nk dir ek seq)"
  have le: "?c \<le> ?n" by (simp add: rows_appliedD(1) [OF rows] new_total_def)
  have "length (edge_row S g' nk dir ek seq) \<le> (if seq < ?c then ?old seq else 0) + ?new seq" if "seq < ?n" for seq
  proof -
    have "edge_row_applied S g rem adds g' nk dir ek seq"
      using rows_appliedD(3) [OF rows] that by (simp add: rows_appliedD(1) [OF rows])
    then show ?thesis by (simp add: edge_row_applied_def remove_at_length)
  qed
  then have "(\<Sum>seq<?n. length (edge_row S g' nk dir ek seq)) \<le> (\<Sum>seq<?n. (if seq < ?c then ?old seq else 0) + ?new seq)"
    by (intro sum_mono) simp
  also have "\<dots> = (\<Sum>seq<?n. if seq < ?c then ?old seq else 0) + (\<Sum>seq<?n. ?new seq)" by (rule sum.distrib)
  also have "(\<Sum>seq<?n. if seq < ?c then ?old seq else 0) = (\<Sum>seq<?c. ?old seq)"
    using le by (intro sum.mono_neutral_cong_right) auto
  also have "(\<Sum>seq<?n. ?new seq) \<le> length (gd_new_edges d)"
  proof -
    have "edges_added S (diff_ids S g d) (diff_lives S g d) ss (gd_new_edges d) adds" using edges by (simp add: diff_edges_def)
    then have "length adds \<le> length (gd_new_edges d)" by (rule edges_added_length)
    then show ?thesis using added_halves_count [of S adds nk dir ek ?n] length_filter_le [of _ adds] by (meson order_trans)
  qed
  finally show ?thesis by (simp add: slot_length_rows [OF ok] slot_length_rows [OF ok'])
qed

lemma applied_strings:
  assumes ok: "graph_ok S g" and fits: "diff_fits g d" and pool: "pool_repr (g_strings g) ss"
    and app: "apply_diff S d g = Ok (g', ids)"
  shows "\<exists>ss'. pool_repr (g_strings g') ss' \<and> set ss' \<subseteq> set ss \<union> diff_strings d"
proof -
  obtain sd g1 where prep: "prepare S d g = (Ok sd, g1)" and commit: "commit S sd = Ok (g', ids)"
    using app by (cases "prepare S d g") (auto simp: apply_diff_def andthen_eq_Ok)
  show ?thesis
  proof (rule prepare_Ok [OF ok fits pool prep])
    fix pool' ss' us rem pending hb adds es' parts
    assume g1: "g1 = g\<lparr>g_strings := pool'\<rparr>" and sd: "sd = \<lparr>sd_graph = g1, sd_strings_baseline = Some (length ss), sd_parts = parts\<rparr>"
      and pool': "pool_repr pool' ss'" and st: "staged_as S g d ss' parts us rem pending hb adds es'"
    have "g_strings g' = pool'"
      using commit_applied [OF ok fits pool' st, of "Some (length ss)"] commit by (auto simp: sd g1)
    moreover have "snd (stage S d g (g_strings g)) = pool'"
      using prep by (auto simp: g1 prepare_def Let_def dest!: arg_cong [where f = g_strings] split: prod.splits outcome.splits)
    moreover have "pool_within (set ss \<union> diff_strings d) (g_strings g)" using pool by (auto simp: pool_within_def)
    moreover have "keeps (set ss \<union> diff_strings d) (stage S d g)" by (rule stage_keeps [OF ok fits]) simp
    ultimately have "pool_within (set ss \<union> diff_strings d) (g_strings g')" unfolding keeps_def by metis
    then show ?thesis by (simp add: pool_within_def)
  qed
qed

lemma sized_step:
  assumes ok: "graph_ok S g" and fits: "diff_fits g d" and sized: "sized S b N E C g" and small: "diff_small b d"
    and app: "apply_diff S d g = Ok (g', ids)"
  shows "sized S b (N + length (gd_new_nodes d)) (E + length (gd_new_edges d)) (C + values_size (diff_values d)) g'"
proof -
  note ok' = apply_Ok(2) [OF ok fits app]
  obtain ss rem adds where edges: "diff_edges S g d ss rem adds" and rows: "rows_applied S g d ss rem adds g'"
    using apply_Ok(3) [OF ok fits app] by (auto simp: diff_applied_def)
  note count = rows_appliedD(1) [OF rows]
  have "sum_list (map length (g_node_meta g')) = sum_list (map length (g_node_meta g)) + length (gd_new_nodes d)"
    using sum_new_count by (simp add: node_total [OF ok] node_total [OF ok'] new_total_def sum_list_addf
        ext [of "kind_count S g'" "new_total S g d", OF count])
  then have nodes: "sum_list (map length (g_node_meta g')) \<le> N + length (gd_new_nodes d)"
    using sizedD(1) [OF sized] by simp
  have props: "length (prop_row S g' nk pk seq) \<le> b" if "seq < kind_count S g' nk" for nk pk seq
  proof -
    have row: "prop_row_applied S g d ss g' nk pk seq" using rows_appliedD(4) [OF rows] that by (simp add: count)
    show ?thesis
    proof (cases "seq < kind_count S g nk")
      case True
      then show ?thesis
      proof (cases "last_update S (gd_changes d) nk pk seq")
        case None
        then show ?thesis using row True sizedD(2) [OF sized True, of pk] by (simp add: prop_row_applied_def)
      next
        case (Some q)
        then obtain r where "UpdateNodeProperty r pk q \<in> set (gd_changes d)" using last_update_change by blast
        then show ?thesis using row True Some diff_smallD(3) [OF small] by (auto simp: prop_row_applied_def dest!: stored_all_length)
      qed
    next
      case False
      then have "seq - kind_count S g nk < new_count (gd_new_nodes d) nk" using that by (simp add: count new_total_def)
      from node_values_length [OF small this, of pk] show ?thesis
        using row False by (auto simp: prop_row_applied_def dest!: stored_all_length)
    qed
  qed
  have slots: "length (es_neighbors (edge_slot_of S g' nk dir ek)) \<le> E + length (gd_new_edges d)" for nk dir ek
    using applied_edge_length [OF ok ok' edges rows, of nk dir ek] sizedD(3) [OF sized, of nk dir ek] by linarith
  obtain ts where ts: "pool_repr (g_strings g) ts" "texts_size ts \<le> C" using sizedD(4) [OF sized] by (auto simp: pool_holds_def)
  obtain ts' where ts': "pool_repr (g_strings g') ts'" "set ts' \<subseteq> set ts \<union> diff_strings d"
    using applied_strings [OF ok fits ts(1) app] by blast
  have "texts_size ts' = (\<Sum>s\<in>set ts'. length s + 1)"
    unfolding texts_size_def by (rule sum_list_distinct_conv_sum_set [OF sp.repr_distinct [OF ts'(1)]])
  also have "\<dots> \<le> texts_size (ts @ concat (map value_texts (diff_values d)))"
    using ts'(2) diff_strings_texts [of d] by (intro texts_of_subset(2)) auto
  finally have "pool_holds (C + values_size (diff_values d)) (g_strings g')"
    using ts(2) ts'(1) by (auto simp: pool_holds_def values_size_def)
  with nodes props slots show ?thesis by (simp add: sized_def)
qed

theorem budget_applies:
  assumes wf: "graph_wf S g" and sized: "sized S b N E C g" and small: "diff_small b d" and budget: "within_budget b N E C d"
    and typed: "diff_typed S d" and res: "diff_resolves S g d" and dv: "diff_valid S g d"
  shows "\<exists>g'. apply_diff S d g = Ok (g', diff_ids S g d) \<and> diff_applied S g d g' \<and> graph_wf S g' \<and>
    sized S b (N + length (gd_new_nodes d)) (E + length (gd_new_edges d)) (C + values_size (diff_values d)) g'"
proof -
  have ok: "graph_ok S g" and paired: "edges_paired S g ek" for ek using wf by (simp_all add: graph_wf_def)
  have fits: "diff_fits g d"
    using within_budgetD(3,4) [OF budget] sizedD(1) [OF sized] diff_smallD(1) [OF small] by (simp add: diff_fits_def)
  have "change_resolves S g (RemoveEdge e)" if "e \<in> set (removed_edges (gd_changes d))" for e
    using res that by (simp add: diff_resolves_def mem_removed_edges)
  then have live: "diff_live S g d" by (simp add: diff_live_def change_resolves_def)
  obtain g' where g': "apply_diff S d g = Ok (g', diff_ids S g d)"
    using fitting_diff_applies [OF ok fits paired typed res slots_within_budget [OF ok sized small budget]
        strings_room_budget [OF sizedD(4) [OF sized] within_budgetD(5) [OF budget]]] by blast
  then show ?thesis
    using apply_Ok(3) [OF ok fits] apply_wf [OF wf fits live dv] sized_step [OF ok fits sized small] by blast
qed

end

end
