(* ===== verification/Fixture_Spec.thy ===== *)
theory Fixture_Spec
  imports Alloc_Count Budget_Spec
begin

text \<open>
  The generators of the fixtures and of \<open>alloc_count\<close>, for any number of nodes and edges: they build the diff
  that lists the nodes and the strided edges. Two locales hold what a generator needs of its nodes and of its
  edges; each of the generators interprets them.
\<close>

interpretation test: schema_laws test_schema
  by (rule test_schema_laws)

section \<open>Casts and text\<close>

lemma top_bit_bounds: "0 < n \<Longrightarrow> 2 ^ top_bit n \<le> n \<and> n < 2 * 2 ^ top_bit n"
proof (induction n rule: top_bit.induct)
  case (1 n)
  show ?case
  proof (cases "n < 2")
    case True
    then show ?thesis using 1(2) by (simp add: top_bit.simps [of n])
  next
    case False
    then have "2 ^ top_bit (n div 2) \<le> n div 2 \<and> n div 2 < 2 * 2 ^ top_bit (n div 2)" by (intro 1(1)) auto
    then have "2 * 2 ^ top_bit (n div 2) \<le> n \<and> n < 2 * (2 * 2 ^ top_bit (n div 2))" by linarith
    then show ?thesis using False by (simp add: top_bit.simps [of n])
  qed
qed

text \<open>A number of at most \<open>p + 1\<close> bits is kept exactly: the significand times the power of two is the number.\<close>

lemma float_bits_exact:
  assumes "0 < n" and "n < 2 ^ (p + 1)"
  shows "(2 ^ p + float_bits p bias n mod 2 ^ p) * 2 ^ (float_bits p bias n div 2 ^ p - bias) = n * 2 ^ p"
proof -
  let ?e = "top_bit n"
  have e: "2 ^ ?e \<le> n" "n < 2 * 2 ^ ?e" using top_bit_bounds [OF assms(1)] by auto
  have "(2::nat) ^ ?e < 2 ^ (p + 1)" using e(1) assms(2) by (rule le_less_trans)
  then have le: "?e \<le> p" using power_less_imp_less_exp [of "2 :: nat" ?e "p + 1"] by simp
  then have two: "(2::nat) ^ p = 2 ^ (p - ?e) * 2 ^ ?e" by (simp flip: power_add)
  define q where "q = n * 2 ^ (p - ?e)"
  have q: "2 ^ p \<le> q" "q < 2 * 2 ^ p" using e by (simp_all add: q_def two mult.commute)
  have bits: "float_bits p bias n = (bias + ?e) * 2 ^ p + (q - 2 ^ p)"
    using assms(1) le by (simp add: float_bits_def Let_def q_def)
  have less: "q - 2 ^ p < 2 ^ p" using q by linarith
  have "float_bits p bias n div 2 ^ p = bias + ?e" "float_bits p bias n mod 2 ^ p = q - 2 ^ p"
    unfolding bits using less by simp_all
  then show ?thesis using q(1) by (simp add: q_def two)
qed

lemma nat_str_length: "n < 10 ^ k \<Longrightarrow> 0 < k \<Longrightarrow> length (nat_str n) \<le> k"
proof (induction k arbitrary: n)
  case (Suc k)
  show ?case
  proof (cases "n < 10")
    case True
    then show ?thesis by (simp add: nat_str.simps [of n])
  next
    case False
    then have "0 < k" using Suc.prems(1) by (cases k) auto
    moreover have "n div 10 < 10 ^ k" using Suc.prems(1) by (simp add: less_mult_imp_div_less mult.commute)
    ultimately show ?thesis using Suc.IH [of "n div 10"] False by (simp add: nat_str.simps [of n])
  qed
qed simp

lemma u32_text: "i \<le> u32_max \<Longrightarrow> length (nat_str i) \<le> 10"
  by (rule nat_str_length) (simp_all add: u32_max_def)

lemma bytes_of_length [simp]: "length (bytes_of s) = length s"
  by (simp add: bytes_of_def)

section \<open>What a generator needs\<close>

text \<open>Values of the fixture: of the types of the schema, without ids of nodes.\<close>

definition plain_value :: "nat option \<Rightarrow> property_value \<Rightarrow> bool" where
  "plain_value t v \<longleftrightarrow> (case v of VNodeId r \<Rightarrow> False | VEnum e \<Rightarrow> enum_ok test_schema t e | _ \<Rightarrow> True)"

definition good_values :: "test_property \<Rightarrow> property_value list \<Rightarrow> bool" where
  "good_values pk vs \<longleftrightarrow> length vs \<le> 2 \<and>
     (\<forall>v\<in>set vs. pv_typ v = p_property_type test_schema pk \<and> plain_value (p_enum_index test_schema pk) v)"

definition good_node :: "test_new_node \<Rightarrow> bool" where
  "good_node n \<longleftrightarrow> distinct (map fst (nn_properties n)) \<and> list_all (\<lambda>(pk, vs). good_values pk vs) (nn_properties n) \<and>
     values_size (node_prop_values n) \<le> 43"

definition good_edge :: "edge_spec \<Rightarrow> bool" where
  "good_edge e \<longleftrightarrow> (case e of
       (k, None) \<Rightarrow> e_property_type test_schema k = TNone
     | (k, Some v) \<Rightarrow> pv_typ v = e_property_type test_schema k \<and> plain_value (e_enum_index test_schema k) v \<and>
         texts_size (value_texts v) \<le> 27)"

lemma plain_value_simps [simp]:
  "plain_value t (VBool b)" "plain_value t (VByte x)" "plain_value t (VShort y)" "plain_value t (VInt z)"
  "plain_value t (VLong w)" "plain_value t (VFloat f)" "plain_value t (VDouble d)" "plain_value t (VString s)"
  "plain_value t (VEnum e) \<longleftrightarrow> enum_ok test_schema t e" "\<not> plain_value t (VNodeId r)"
  by (simp_all add: plain_value_def)

lemma plain_value_input: "plain_value t v \<Longrightarrow> input_ok test_schema g d t v"
  by (cases v) (simp_all add: input_ok_def)

locale node_source =
  fixes source :: "nat \<Rightarrow> test_new_node res" and node :: "nat \<Rightarrow> test_new_node"
  assumes source_Ok: "source i = Ok (node i)"
    and node_good: "i \<le> u32_max \<Longrightarrow> good_node (node i)"

locale edge_source =
  fixes edge :: "nat \<Rightarrow> nat \<Rightarrow> edge_spec"
  assumes edge_good: "i \<le> u32_max \<Longrightarrow> k \<le> u32_max \<Longrightarrow> good_edge (edge i k)"

section \<open>The nodes\<close>

definition status_id :: "test_status \<Rightarrow> raw_enum_id" where
  "status_id s = RawEnumId 0 (of_nat (test_status_index s))"

lemma status_value_Ok: "status_value s = Ok (VEnum (status_id s))"
  by (cases s) (simp_all add: status_value_def value_of_enum_def raw_enum_new_def status_id_def u16_max_def)

lemma status_ok: "enum_ok test_schema (Some 0) (status_id s)"
  by (cases s) (simp_all add: enum_ok_def status_id_def raw_enum_index_def raw_enum_variant_def test_schema_def get_at_def)

definition fixture_node :: "nat \<Rightarrow> test_new_node" where
  "fixture_node i =
     (if i mod 3 = 0 then
        \<lparr>nn_kind = test_node.Alpha, nn_properties =
           [(test_property.Key, [str_value (''key-'' @ nat_str i)]),
            (test_property.Values, [str_value (''v'' @ nat_str i @ ''-a''), str_value (''v'' @ nat_str i @ ''-b'')]),
            (test_property.State, [VEnum (status_id test_status.Active)])]\<rparr>
      else if i mod 3 = 1 then \<lparr>nn_kind = test_node.Beta, nn_properties = [(test_property.Count, [VInt (of_nat i)])]\<rparr>
      else
        \<lparr>nn_kind = test_node.Gamma, nn_properties =
           [(Flag, [VBool (i mod 2 = 0)]), (Level, [VByte (of_nat (i mod 128))]), (Rank, [VShort (of_nat (i mod 1000))]),
            (BigCount, [VLong (of_nat i)]), (Ratio, [VFloat (f32_of_usize i)]), (Score, [VDouble (f64_of_usize i)]),
            (Tags, [VEnum (status_id test_status.Active), VEnum (status_id test_status.Inactive)])]\<rparr>)"

definition alloc_node :: "nat \<Rightarrow> test_new_node" where
  "alloc_node i =
     (if i mod 3 = 0 then
        \<lparr>nn_kind = test_node.Alpha, nn_properties =
           [(test_property.Key, [str_value (''key-'' @ nat_str i)]), (test_property.Values, [str_value (''v'' @ nat_str i @ ''-a'')]),
            (test_property.State, [VEnum (status_id test_status.Active)])]\<rparr>
      else if i mod 3 = 1 then \<lparr>nn_kind = test_node.Beta, nn_properties = [(test_property.Count, [VInt (of_nat i)])]\<rparr>
      else \<lparr>nn_kind = test_node.Gamma, nn_properties = [(Flag, [VBool (i mod 2 = 0)]), (Score, [VDouble (f64_of_usize i)])]\<rparr>)"

definition stringless_node :: "nat \<Rightarrow> test_new_node" where
  "stringless_node i =
     (if i mod 2 = 0 then \<lparr>nn_kind = test_node.Beta, nn_properties = [(test_property.Count, [VInt (of_nat i)])]\<rparr>
      else \<lparr>nn_kind = test_node.Gamma, nn_properties = [(Score, [VDouble (f64_of_usize i)])]\<rparr>)"

lemmas building = with_property_def builder_add_property_def builder_new_def new_node_new_def add_property_def
  test_schema_def less_test_property_def status_value_Ok

lemma node_for_Ok: "node_for i = Ok (fixture_node i)"
  by (simp add: node_for_def fixture_node_def building)

lemma alloc_node_for_Ok: "alloc_node_for i = Ok (alloc_node i)"
  by (simp add: alloc_node_for_def alloc_node_def building)

lemma stringless_node_for_Ok: "stringless_node_for i = Ok (stringless_node i)"
  by (simp add: stringless_node_for_def stringless_node_def building)

lemmas good_node_simps = good_node_def good_values_def node_prop_values_def str_value_def status_ok [simplified]

lemma test_enum_indices [simp]:
  "p_enum_index test_schema test_property.State = Some 0" "p_enum_index test_schema Tags = Some 0"
  by (simp_all add: test_schema_def)

interpretation fixture: node_source node_for fixture_node
proof
  show "good_node (fixture_node i)" if "i \<le> u32_max" for i
    using u32_text [OF that] by (simp add: fixture_node_def good_node_simps)
qed (rule node_for_Ok)

interpretation alloc: node_source alloc_node_for alloc_node
proof
  show "good_node (alloc_node i)" if "i \<le> u32_max" for i
    using u32_text [OF that] by (simp add: alloc_node_def good_node_simps)
qed (rule alloc_node_for_Ok)

interpretation stringless: node_source stringless_node_for stringless_node
  by unfold_locales (simp_all add: stringless_node_for_Ok stringless_node_def good_node_simps)

section \<open>The edges\<close>

lemma edge_text_good: "i \<le> u32_max \<Longrightarrow> k \<le> u32_max \<Longrightarrow> good_edge (Labeled, Some (edge_text i k))"
  using u32_text [of i] u32_text [of k] by (simp add: good_edge_def edge_text_def str_value_def)

interpretation bulk: edge_source bulk_edge
  by unfold_locales (simp add: bulk_edge_def edge_text_good)

interpretation multi: edge_source multi_kind_edge
  by unfold_locales (auto simp: multi_kind_edge_def edge_text_good, simp_all add: good_edge_def)

interpretation more: edge_source more_edge
proof
  show "good_edge (more_edge i k)" if "i \<le> u32_max" "k \<le> u32_max" for i k
    using u32_text [OF that(1)] u32_text [OF that(2)] by (simp add: good_edge_def more_edge_def str_value_def)
qed

interpretation property: edge_source "property_edge p"
  by unfold_locales (cases p; simp add: edge_text_good; simp add: good_edge_def str_value_def)

section \<open>The diffs\<close>

definition strided :: "(nat \<Rightarrow> nat \<Rightarrow> edge_spec) \<Rightarrow> new_or_existing_node list \<Rightarrow> nat \<Rightarrow> test_edge new_edge list" where
  "strided edge refs epn =
     (let n = length refs; stride = max (n div (epn + 1)) 1 in
      concat (map (\<lambda>i. map (\<lambda>k.
          \<lparr>ne_src = refs ! i, ne_dst = refs ! ((i + k * stride) mod n), ne_kind = fst (edge i k), ne_property = snd (edge i k)\<rparr>)
        [1..<epn + 1]) [0..<n]))"

definition nodes_diff :: "(nat \<Rightarrow> test_new_node) \<Rightarrow> nat \<Rightarrow> test_diff" where
  "nodes_diff node n = \<lparr>gd_new_nodes = map node [0..<n], gd_new_edges = [], gd_changes = []\<rparr>"

definition bulk_diff :: "(nat \<Rightarrow> test_new_node) \<Rightarrow> (nat \<Rightarrow> nat \<Rightarrow> edge_spec) \<Rightarrow> nat \<Rightarrow> nat \<Rightarrow> test_diff" where
  "bulk_diff node edge n epn = (nodes_diff node n)\<lparr>gd_new_edges := strided edge (map NewNodeRef [0..<n]) epn\<rparr>"

lemma for_each_new_edges:
  "(\<And>x d. x \<in> set xs \<Longrightarrow> f x d = Ok (d\<lparr>gd_new_edges := gd_new_edges d @ h x\<rparr>)) \<Longrightarrow>
    for_each f xs d = Ok (d\<lparr>gd_new_edges := gd_new_edges d @ concat (map h xs)\<rparr>)"
  by (induction xs arbitrary: d) simp_all

lemma for_each_changes:
  "(\<And>x d. x \<in> set xs \<Longrightarrow> f x d = Ok (d\<lparr>gd_changes := gd_changes d @ [h x]\<rparr>)) \<Longrightarrow>
    for_each f xs d = Ok (d\<lparr>gd_changes := gd_changes d @ map h xs\<rparr>)"
  by (induction xs arbitrary: d) simp_all

lemma stride_bound:
  assumes "i < (n :: nat)" and "k \<le> epn"
  shows "k * max (n div (epn + 1)) 1 \<le> n + epn" and "i + k * max (n div (epn + 1)) 1 \<le> 2 * n + epn"
proof -
  have "k * (n div (epn + 1)) \<le> (epn + 1) * (n div (epn + 1))" by (rule mult_le_mono1) (use assms(2) in simp)
  also have "\<dots> \<le> n" by (rule times_div_less_eq_dividend)
  finally show "k * max (n div (epn + 1)) 1 \<le> n + epn" using assms(2) by (cases "1 \<le> n div (epn + 1)") (simp_all add: max_def)
  then show "i + k * max (n div (epn + 1)) 1 \<le> 2 * n + epn" using assms(1) by linarith
qed

lemma strided_edges_Ok:
  assumes "\<And>x. x \<in> set ids \<Longrightarrow> node_ref x = Ok (r x)" and small: "2 * length ids + epn < usize_max"
  shows "strided_edges node_ref edge ids epn d = Ok (d\<lparr>gd_new_edges := gd_new_edges d @ strided edge (map r ids) epn\<rparr>)"
proof -
  let ?n = "length ids"
  define stride where "stride = max (?n div (epn + 1)) 1"
  define new where "new = (\<lambda>i k. \<lparr>ne_src = map r ids ! i, ne_dst = map r ids ! ((i + k * stride) mod ?n),
      ne_kind = fst (edge i k), ne_property = snd (edge i k)\<rparr>)"
  define one where "one = (\<lambda>i src k (diff :: test_diff). andthen (usize_mul k stride) (\<lambda>distance.
      andthen (usize_add i distance) (\<lambda>position. andthen (index_at ids (position mod ?n)) (\<lambda>dst.
      andthen (node_ref src) (\<lambda>src. andthen (node_ref dst) (\<lambda>dst.
      let (kind, property) = edge i k; (_, diff) = add_edge src dst kind property diff in Ok diff))))))"
  have one: "one i (ids ! i) k d = Ok (d\<lparr>gd_new_edges := gd_new_edges d @ [new i k]\<rparr>)" if "i < ?n" "k \<le> epn" for i k d
  proof -
    have "0 < ?n" using that by linarith
    then have "(i + k * stride) mod ?n < ?n" by (rule mod_less_divisor)
    moreover have "k * stride \<le> usize_max" "i + k * stride \<le> usize_max"
      using stride_bound [OF that] small by (simp_all add: stride_def)
    ultimately show ?thesis
      using that assms(1) [OF nth_mem]
      by (simp add: one_def usize_mul_def usize_add_def index_at_def get_at_def add_edge_def new_def Let_def split: prod.split)
  qed
  have row: "for_each (one i (ids ! i)) [1..<epn + 1] d = Ok (d\<lparr>gd_new_edges := gd_new_edges d @ map (new i) [1..<epn + 1]\<rparr>)"
    if "i < ?n" for i d
    using for_each_new_edges [of "[1..<epn + 1]" "one i (ids ! i)" "\<lambda>k. [new i k]" d] one [OF that] by (simp del: upt_Suc)
  have "for_each (\<lambda>(i, src). for_each (one i src) [1..<epn + 1]) (enumerate 0 ids) d =
      Ok (d\<lparr>gd_new_edges := gd_new_edges d @ concat (map (\<lambda>(i, src). map (new i) [1..<epn + 1]) (enumerate 0 ids))\<rparr>)"
    by (rule for_each_new_edges) (use row in \<open>auto simp: in_set_enumerate_eq simp del: upt_Suc\<close>)
  moreover have "map (\<lambda>(i, src). map (new i) [1..<epn + 1]) (enumerate 0 ids) = map (\<lambda>i. map (new i) [1..<epn + 1]) [0..<?n]"
    by (rule nth_equalityI) (simp_all add: nth_enumerate_eq del: upt_Suc)
  ultimately show ?thesis
    using small by (simp add: strided_edges_def strided_def new_def one_def stride_def usize_add_def Let_def del: upt_Suc)
qed

lemma strided_length: "length (strided edge refs epn) = length refs * epn"
  by (simp add: strided_def Let_def length_concat comp_def sum_list_triv del: upt_Suc)

lemma strided_mem:
  assumes "e \<in> set (strided edge refs epn)"
  shows "\<exists>i k. i < length refs \<and> 1 \<le> k \<and> k \<le> epn \<and> ne_kind e = fst (edge i k) \<and> ne_property e = snd (edge i k)"
proof -
  obtain i k where "i < length refs" "k \<in> set [1..<epn + 1]" "ne_kind e = fst (edge i k)" "ne_property e = snd (edge i k)"
    using assms by (auto simp: strided_def Let_def simp del: upt_Suc)
  then show ?thesis by (intro exI [of _ i] exI [of _ k]) auto
qed

context node_source begin

lemma collected: "collect_nodes source n = Ok ([0..<n], nodes_diff node n)"
proof -
  have "for_each (\<lambda>i (ids, diff).
      andthen (source i) (\<lambda>new_node. let (i', diff) = add_node new_node diff in Ok (ids @ [i'], diff))) [0..<n] ([], graph_diff_default) =
    Ok ([0..<n], nodes_diff node n)"
    by (induction n) (simp_all add: nodes_diff_def graph_diff_default_def for_each_append source_Ok add_node_def Let_def)
  then show ?thesis by (simp add: collect_nodes_def)
qed

lemma bulk_built:
  assumes "2 * n + epn < usize_max"
  shows "andthen (collect_nodes source n) (\<lambda>(ids, diff). strided_edges new_ref edge ids epn diff) = Ok (bulk_diff node edge n epn)"
proof -
  have "strided_edges new_ref edge [0..<n] epn d = Ok (d\<lparr>gd_new_edges := gd_new_edges d @ strided edge (map NewNodeRef [0..<n]) epn\<rparr>)" for d
    by (rule strided_edges_Ok) (use assms in \<open>simp_all add: new_ref_def\<close>)
  then show ?thesis by (simp add: collected bulk_diff_def) (simp add: nodes_diff_def)
qed

lemma bulk_overflow:
  "andthen (collect_nodes source n) (\<lambda>(ids, diff). strided_edges new_ref edge ids usize_max diff) = Panic"
  by (simp add: collected strided_edges_def usize_add_def Let_def)

end

text \<open>The bound on the size of a graph leaves the counts of its generator far below the width of \<open>usize\<close>.\<close>

lemma room_small:
  assumes "43 * n + 27 * (n * epn) \<le> u32_max" and "epn < usize_max"
  shows "2 * n + epn < usize_max"
proof (cases n)
  case (Suc m)
  then have "n + epn \<le> u32_max" using assms(1) by auto
  then show ?thesis by (simp add: u32_max_def usize_max_def)
qed (use assms(2) in simp)

lemma generators_build:
  "43 * n + 27 * (n * epn) \<le> u32_max \<Longrightarrow> epn < usize_max \<Longrightarrow> build_bulk_diff n epn = Ok (bulk_diff fixture_node bulk_edge n epn)"
  "43 * n + 27 * (n * epn) \<le> u32_max \<Longrightarrow> epn < usize_max \<Longrightarrow> build_multi_kind_diff n epn = Ok (bulk_diff fixture_node multi_kind_edge n epn)"
  "43 * n + 27 * (n * epn) \<le> u32_max \<Longrightarrow> epn < usize_max \<Longrightarrow> bulk n epn = Ok (bulk_diff alloc_node bulk_edge n epn)"
  "43 * n + 27 * (n * epn) \<le> u32_max \<Longrightarrow> epn < usize_max \<Longrightarrow> bulk_with n epn p = Ok (bulk_diff alloc_node (property_edge p) n epn)"
  "bulk_stringless_nodes n = Ok (nodes_diff stringless_node n)"
  using room_small
  by (simp_all add: build_bulk_diff_def build_multi_kind_diff_def bulk_def bulk_with_def bulk_stringless_nodes_def
      fixture.bulk_built alloc.bulk_built stringless.collected)

lemma generators_overflow: "build_bulk_diff n usize_max = Panic" "build_multi_kind_diff n usize_max = Panic"
  by (simp_all add: build_bulk_diff_def build_multi_kind_diff_def fixture.bulk_overflow)

section \<open>Sizes and types of the diffs\<close>

lemma sum_list_le: "(\<And>x. x \<in> set xs \<Longrightarrow> f x \<le> c) \<Longrightarrow> sum_list (map f xs) \<le> length xs * c" for f :: "'a \<Rightarrow> nat"
  by (induction xs) (fastforce simp: add_mono)+

lemma good_nodeD:
  assumes "good_node n"
  shows "distinct (map fst (nn_properties n))" and "(pk, vs) \<in> set (nn_properties n) \<Longrightarrow> good_values pk vs"
    and "values_size (node_prop_values n) \<le> 43"
  using assms by (auto simp: good_node_def list_all_iff)

lemma strided_good:
  assumes "edge_source edge" and "length refs \<le> u32_max" and "epn \<le> u32_max" and e: "e \<in> set (strided edge refs epn)"
  shows "good_edge (ne_kind e, ne_property e)"
proof -
  obtain i k where "i < length refs" "k \<le> epn" "ne_kind e = fst (edge i k)" "ne_property e = snd (edge i k)"
    using strided_mem [OF e] by blast
  then show ?thesis using edge_source.edge_good [OF assms(1), of i k] assms(2,3) by simp
qed

text \<open>A diff of good nodes and good edges that changes nothing.\<close>

definition good_diff :: "test_diff \<Rightarrow> bool" where
  "good_diff d \<longleftrightarrow> (\<forall>n\<in>set (gd_new_nodes d). good_node n) \<and> (\<forall>e\<in>set (gd_new_edges d). good_edge (ne_kind e, ne_property e)) \<and>
     gd_changes d = []"

lemma good_diff_facts:
  assumes "good_diff d"
  shows "diff_small 2 d" and "diff_typed test_schema d" and "diff_resolves test_schema g d" and "diff_valid test_schema g d"
    and "values_size (diff_values d) \<le> 43 * length (gd_new_nodes d) + 27 * length (gd_new_edges d)"
proof -
  have nodes: "good_node n" if "n \<in> set (gd_new_nodes d)" for n using assms that by (simp add: good_diff_def)
  have edges: "good_edge (ne_kind e, ne_property e)" if "e \<in> set (gd_new_edges d)" for e using assms that by (simp add: good_diff_def)
  have none: "gd_changes d = []" using assms by (simp add: good_diff_def)
  have vals: "good_values pk vs" if "n \<in> set (gd_new_nodes d)" "(pk, vs) \<in> set (nn_properties n)" for n pk vs
    using good_nodeD(2) [OF nodes] that .
  show "diff_small 2 d"
    using good_nodeD(1) [OF nodes] vals by (auto simp: diff_small_def none good_values_def)
  show "diff_typed test_schema d"
    using vals edges by (fastforce simp: diff_typed_def none good_values_def values_typed_def good_edge_def split: option.splits)
  show "diff_resolves test_schema g d" by (simp add: diff_resolves_def none)
  show "diff_valid test_schema g d"
    using vals edges by (fastforce simp: diff_valid_def none good_values_def good_edge_def plain_value_input)
  have "values_size (node_prop_values n) \<le> 43" if "n \<in> set (gd_new_nodes d)" for n by (rule good_nodeD(3) [OF nodes [OF that]])
  then have "values_size (concat (map node_prop_values (gd_new_nodes d))) \<le> 43 * length (gd_new_nodes d)"
    using sum_list_le [of "gd_new_nodes d" "\<lambda>n. values_size (node_prop_values n)" 43] by (simp add: values_size_concat comp_def)
  moreover have "values_size (edge_values e) \<le> 27" if "e \<in> set (gd_new_edges d)" for e
    using edges [OF that] by (auto simp: good_edge_def edge_values_def split: option.splits)
  then have "values_size (concat (map edge_values (gd_new_edges d))) \<le> 27 * length (gd_new_edges d)"
    using sum_list_le [of "gd_new_edges d" "\<lambda>e. values_size (edge_values e)" 27] by (simp add: values_size_concat comp_def)
  ultimately show "values_size (diff_values d) \<le> 43 * length (gd_new_nodes d) + 27 * length (gd_new_edges d)"
    by (simp add: diff_values_def none)
qed

end
