(* ===== verification/Fixture_Apply.thy ===== *)
theory Fixture_Apply
  imports Fixture_Spec
begin

text \<open>
  The diffs of the generators applied, for every size that has room: good diffs are applied to graphs of the
  fixtures, new nodes get the ids \<open>bulk_id\<close>, and the rows of the graph are what the generator describes.
\<close>

section \<open>Applying good diffs\<close>

lemma sized_mono: "sized S b N E C g \<Longrightarrow> N \<le> N' \<Longrightarrow> E \<le> E' \<Longrightarrow> C \<le> C' \<Longrightarrow> sized S b N' E' C' g"
  unfolding sized_def pool_holds_def by (meson order_trans)

lemma good_budget:
  assumes "good_diff d" and "N + length (gd_new_nodes d) = N'" and "E + length (gd_new_edges d) = E'"
    and "2 * N' \<le> u32_max" and "E' \<le> u32_max" and "43 * N' + 27 * E' \<le> u32_max"
  shows "within_budget 2 N E (43 * N + 27 * E) d"
  using good_diff_facts(5) [OF assms(1)] assms(2-6) by (auto simp: within_budget_def)

text \<open>A graph of the fixtures, with a bound on its nodes and on the entries of each edge slot.\<close>

definition fixture_graph :: "nat \<Rightarrow> nat \<Rightarrow> graph \<Rightarrow> bool" where
  "fixture_graph N E g \<longleftrightarrow> graph_wf test_schema g \<and> sized test_schema 2 N E (43 * N + 27 * E) g"

lemma fixture_graph_new: "graph_new test_schema = Ok g \<Longrightarrow> fixture_graph 0 0 g"
  using test.graph_new_wf test.sized_new by (simp add: fixture_graph_def)

lemma fixture_graph_ok: "fixture_graph N E g \<Longrightarrow> graph_ok test_schema g"
  by (simp add: fixture_graph_def graph_wf_def)

lemma plain_diff_applies:
  assumes g: "fixture_graph N E g" and d: "good_diff d"
    and sums: "N + length (gd_new_nodes d) = N'" "E + length (gd_new_edges d) = E'"
    and room: "43 * N' + 27 * E' \<le> u32_max"
  shows "\<exists>g'. apply_diff test_schema d g = Ok (g', diff_ids test_schema g d) \<and> diff_applied test_schema g d g' \<and> fixture_graph N' E' g'"
proof -
  have wf: "graph_wf test_schema g" and sized: "sized test_schema 2 N E (43 * N + 27 * E) g" using g by (simp_all add: fixture_graph_def)
  have budget: "within_budget 2 N E (43 * N + 27 * E) d" by (rule good_budget [OF d sums]) (use room in linarith)+
  obtain g' where g': "apply_diff test_schema d g = Ok (g', diff_ids test_schema g d)" "diff_applied test_schema g d g'" "graph_wf test_schema g'"
    and sized': "sized test_schema 2 N' E' (43 * N + 27 * E + values_size (diff_values d)) g'"
    using test.budget_applies [OF wf sized good_diff_facts(1) [OF d] budget good_diff_facts(2) [OF d] good_diff_facts(3) [OF d] good_diff_facts(4) [OF d]] sums by auto
  have "43 * N + 27 * E + values_size (diff_values d) \<le> 43 * N' + 27 * E'" using good_diff_facts(5) [OF d] sums by auto
  then have "sized test_schema 2 N' E' (43 * N' + 27 * E') g'" by (rule sized_mono [OF sized' order_refl order_refl])
  then show ?thesis using g' by (auto simp: fixture_graph_def)
qed

lemma good_nodes_diff:
  assumes "node_source src node" and "n \<le> u32_max"
  shows "good_diff (nodes_diff node n)"
  using node_source.node_good [OF assms(1)] assms(2) by (auto simp: good_diff_def nodes_diff_def)

lemma bulk_sizes [simp]:
  "length (gd_new_nodes (nodes_diff node n)) = n" "length (gd_new_edges (nodes_diff node n)) = 0"
  "length (gd_new_nodes (bulk_diff node edge n epn)) = n" "length (gd_new_edges (bulk_diff node edge n epn)) = n * epn"
  by (simp_all add: bulk_diff_def nodes_diff_def strided_length)

lemma good_bulk_diff:
  assumes "node_source src node" and "edge_source edge" and room: "43 * n + 27 * (n * epn) \<le> u32_max"
  shows "good_diff (bulk_diff node edge n epn)"
proof -
  have "good_edge (ne_kind e, ne_property e)" if e: "e \<in> set (strided edge (map NewNodeRef [0..<n]) epn)" for e
  proof (rule strided_good [OF assms(2) _ _ e])
    have "0 < n" using strided_mem [OF e] by auto
    then have "epn \<le> n * epn" by simp
    then show "epn \<le> u32_max" using room by linarith
  qed (use room in simp)
  moreover have "good_diff (nodes_diff node n)" using room by (intro good_nodes_diff [OF assms(1)]) simp
  ultimately show ?thesis by (simp add: good_diff_def bulk_diff_def nodes_diff_def)
qed

lemma new_applies:
  assumes d: "good_diff d" and room: "43 * length (gd_new_nodes d) + 27 * length (gd_new_edges d) \<le> u32_max"
  obtains g0 g where "graph_new test_schema = Ok g0" and "\<And>nk. kind_count test_schema g0 nk = 0" and "graph_ok test_schema g0"
    and "apply_diff test_schema d g0 = Ok (g, diff_ids test_schema g0 d)" and "diff_applied test_schema g0 d g"
    and "fixture_graph (length (gd_new_nodes d)) (length (gd_new_edges d)) g"
proof -
  obtain g0 where g0: "graph_new test_schema = Ok g0" "graph_ok test_schema g0" "\<And>nk. kind_count test_schema g0 nk = 0"
    using test.graph_new_ok by blast
  show thesis
    using plain_diff_applies [OF fixture_graph_new [OF g0(1)] d add_0 add_0 room] that [OF g0(1,3,2)] by blast
qed

section \<open>The edges of a graph from new nodes\<close>

text \<open>Where every edge joins new nodes of a new graph, a row lists the destinations in the order of the diff.\<close>

definition joined :: "'n node_id list \<Rightarrow> new_or_existing_node \<Rightarrow> 'n node_id" where
  "joined ids r = (case r of NewNodeRef i \<Rightarrow> ids ! i | Existing e \<Rightarrow> undefined)"

definition joins_new :: "nat \<Rightarrow> 'e new_edge \<Rightarrow> bool" where
  "joins_new n e \<longleftrightarrow> (\<exists>i j. ne_src e = NewNodeRef i \<and> ne_dst e = NewNodeRef j \<and> i < n \<and> j < n)"

lemma new_edges_added:
  assumes "edges_added S ids lives ss es adds" and "\<And>e. e \<in> set es \<Longrightarrow> joins_new (length ids) e" and "\<And>n. n \<in> set ids \<Longrightarrow> lives n"
  shows "list_all2 (\<lambda>e a. fst a = joined ids (ne_src e) \<and> fst (snd a) = joined ids (ne_dst e) \<and> fst (snd (snd a)) = ne_kind e) es adds"
proof -
  obtain props where "list_all2 (edge_value ss) es props" and adds: "adds = concat (map2 (edge_added S ids lives) es props)"
    using assms(1) by (auto simp: edges_added_def)
  from this(1) assms(2) have "list_all2 (\<lambda>e a. fst a = joined ids (ne_src e) \<and> fst (snd a) = joined ids (ne_dst e) \<and> fst (snd (snd a)) = ne_kind e)
      es (concat (map2 (edge_added S ids lives) es props))"
  proof (induction rule: list_all2_induct)
    case (Cons e es p props)
    obtain i j where ij: "ne_src e = NewNodeRef i" "ne_dst e = NewNodeRef j" "i < length ids" "j < length ids"
      using Cons.prems [of e] by (auto simp: joins_new_def)
    then have "edge_added S ids lives e p = [(ids ! i, ids ! j, ne_kind e, p)]"
      using assms(3) by (simp add: edge_added_def resolve_node_ref_def get_at_def)
    then show ?case using Cons ij by (simp add: joined_def)
  qed simp
  then show ?thesis by (simp only: adds)
qed

lemma added_out_rows:
  assumes "list_all2 (\<lambda>e a. fst a = joined ids (ne_src e) \<and> fst (snd a) = joined ids (ne_dst e) \<and> fst (snd (snd a)) = ne_kind e) es adds"
  shows "map fst (added_halves S adds nk Out ek seq) =
    map (\<lambda>e. node_of S (nid_kind (joined ids (ne_dst e))) (nid_seq (joined ids (ne_dst e))))
      (filter (\<lambda>e. ne_kind e = ek \<and> joined ids (ne_src e) = NodeId nk seq) es)"
  using assms by (induction rule: list_all2_induct) auto

lemma new_graph_out_edges:
  assumes new: "\<And>nk. kind_count test_schema g0 nk = 0" and ok: "graph_ok test_schema g" and app: "diff_applied test_schema g0 d g"
    and ids: "ids = diff_ids test_schema g0 d" and e: "\<And>e. e \<in> set (gd_new_edges d) \<Longrightarrow> joins_new (length ids) e" and n: "n \<in> set ids"
    and es: "es = filter (\<lambda>e. ne_kind e = ek \<and> joined ids (ne_src e) = n) (gd_new_edges d)"
  shows "get_edges test_schema g n ek Out = Ok (map (\<lambda>j. from_half n (joined ids (ne_dst (es ! j))) ek Out j) [0..<length es])"
proof -
  obtain ss rem adds where edges: "diff_edges test_schema g0 d ss rem adds" and rows: "rows_applied test_schema g0 d ss rem adds g"
    using app by (auto simp: diff_applied_def)
  have count: "kind_count test_schema g nk = new_count (gd_new_nodes d) nk" for nk
    using rows_appliedD(1) [OF rows] by (simp add: new_total_def new)
  have there: "nid_seq m < kind_count test_schema g (nid_kind m)" if m: "m \<in> set ids" for m
    using m new_count_take_less by (auto simp: ids diff_ids_def new_ids_def new_id_def Let_def new count)
  have lives: "diff_lives test_schema g0 d m" if "m \<in> set ids" for m
    using there [OF that] by (simp add: diff_lives_def node_lives_def new new_total_def count)
  have added: "list_all2 (\<lambda>e a. fst a = joined ids (ne_src e) \<and> fst (snd a) = joined ids (ne_dst e) \<and> fst (snd (snd a)) = ne_kind e)
      (gd_new_edges d) adds"
    using edges e lives by (intro new_edges_added [where S = test_schema and lives = "diff_lives test_schema g0 d" and ss = ss])
      (auto simp: diff_edges_def ids)
  have "edge_row_applied test_schema g0 rem adds g (nid_kind n) Out ek (nid_seq n)"
    using rows_appliedD(3) [OF rows] there [OF n] by (simp add: new_total_def new count)
  then have row: "map fst (edge_row test_schema g (nid_kind n) Out ek (nid_seq n)) =
      map (\<lambda>e. node_of test_schema (nid_kind (joined ids (ne_dst e))) (nid_seq (joined ids (ne_dst e)))) es"
    using added_out_rows [OF added, of test_schema "nid_kind n" ek "nid_seq n"]
    by (simp add: edge_row_applied_def new es del: added_halves.simps)
  have far: "joined ids (ne_dst (es ! j)) \<in> set ids" if "j < length es" for j
  proof -
    have "es ! j \<in> set (gd_new_edges d)" using nth_mem [OF that] by (auto simp: es)
    then show ?thesis using e by (fastforce simp: joins_new_def joined_def)
  qed
  have typed: "test.typed_node (node_of test_schema (nid_kind m) (nid_seq m)) = m" if "m \<in> set ids" for m
    using there [OF that] test.kind_count_le [OF ok, of "nid_kind m"]
    by (intro test.typed_node_Ok) (simp add: test.node_of_raw_Ok node_of_def del: test_schema_simps)
  have dead: "\<not> test.deleted g m" if "m \<in> set ids" for m
    using rows_appliedD(2) [OF rows, of m] there [OF that] test.is_node_deleted_deleted [OF ok, of m]
    by (simp add: node_gone_def new new_total_def count)
  let ?out = "map (\<lambda>j. from_half n (joined ids (ne_dst (es ! j))) ek Out j) [0..<length es]"
  have "test.row_edges n ek Out (map fst (edge_row test_schema g (nid_kind n) Out ek (nid_seq n))) = ?out"
    unfolding row test.row_edges_def using far typed by simp
  moreover have "filter (\<lambda>e. \<not> test.deleted g (neighbor e)) ?out = ?out"
    using far dead by (simp add: filter_id_conv)
  ultimately show ?thesis using test.get_edges_row [OF ok there [OF n], of ek Out] by simp
qed

section \<open>Bulk graphs\<close>

definition bulk_kind :: "nat \<Rightarrow> test_node" where
  "bulk_kind i = (if i mod 3 = 0 then test_node.Alpha else if i mod 3 = 1 then test_node.Beta else test_node.Gamma)"

text \<open>The kinds take turns, so every third node is of the same kind.\<close>

definition bulk_id :: "nat \<Rightarrow> test_node node_id" where
  "bulk_id i = NodeId (bulk_kind i) (i div 3)"

lemma bulk_kinds: "nn_kind (fixture_node i) = bulk_kind i" "nn_kind (alloc_node i) = bulk_kind i"
  by (simp_all add: fixture_node_def alloc_node_def bulk_kind_def)

lemma bulk_id_inj: "bulk_id i = bulk_id j \<longleftrightarrow> i = j"
proof
  assume "bulk_id i = bulk_id j"
  then have "i div 3 = j div 3" "bulk_kind i = bulk_kind j" by (simp_all add: bulk_id_def)
  moreover from this(2) have "i mod 3 = j mod 3"
    using mod_less_divisor [of 3 i] mod_less_divisor [of 3 j] by (simp add: bulk_kind_def split: if_splits)
  ultimately show "i = j" by (metis div_mult_mod_eq)
qed simp

lemma bulk_count:
  assumes "\<And>i. nn_kind (node i) = bulk_kind i"
  shows "new_count (map node [0..<i]) nk = (case nk of test_node.Alpha \<Rightarrow> (i + 2) div 3 | test_node.Beta \<Rightarrow> (i + 1) div 3 | test_node.Gamma \<Rightarrow> i div 3)"
proof (induction i)
  case (Suc i)
  have "(Suc i + 2) div 3 = (i + 2) div 3 + (if i mod 3 = 0 then 1 else 0)"
    "(Suc i + 1) div 3 = (i + 1) div 3 + (if i mod 3 = 1 then 1 else 0)"
    "Suc i div 3 = i div 3 + (if i mod 3 = 2 then 1 else 0)" by presburger+
  moreover have "i mod 3 = 0 \<or> i mod 3 = 1 \<or> i mod 3 = 2" by linarith
  ultimately show ?case using Suc by (cases nk) (auto simp: assms bulk_kind_def)
qed (simp split: test_node.split)

lemma bulk_seq_less:
  assumes "\<And>i. nn_kind (node i) = bulk_kind i" and "i < n"
  shows "nid_seq (bulk_id i) < new_count (map node [0..<n]) (bulk_kind i)"
proof -
  have "i mod 3 = 0 \<longrightarrow> i div 3 < (n + 2) div 3" "i mod 3 = 1 \<longrightarrow> i div 3 < (n + 1) div 3" "i mod 3 = 2 \<longrightarrow> i div 3 < n div 3"
    using assms(2) by presburger+
  moreover have "i mod 3 = 0 \<or> i mod 3 = 1 \<or> i mod 3 = 2" by linarith
  ultimately show ?thesis unfolding bulk_count [OF assms(1)] by (auto simp: bulk_id_def bulk_kind_def)
qed

lemma bulk_ids:
  assumes "\<And>i. nn_kind (node i) = bulk_kind i" and "\<And>nk. kind_count test_schema g0 nk = 0"
  shows "diff_ids test_schema g0 (nodes_diff node n) = map bulk_id [0..<n]"
    and "diff_ids test_schema g0 (bulk_diff node edge n epn) = map bulk_id [0..<n]"
proof -
  have "new_id (kind_count test_schema g0) (map node [0..<n]) i = bulk_id i" if "i < n" for i
  proof -
    have "take i (map node [0..<n]) = map node [0..<i]" using that by (simp add: take_map)
    moreover have "(case bulk_kind i of test_node.Alpha \<Rightarrow> (i + 2) div 3 | test_node.Beta \<Rightarrow> (i + 1) div 3 | test_node.Gamma \<Rightarrow> i div 3) = i div 3"
      by (auto simp: bulk_kind_def) presburger+
    ultimately show ?thesis
      using that by (simp add: new_id_def assms bulk_count [OF assms(1)] bulk_id_def Let_def)
  qed
  then have ids: "new_ids (kind_count test_schema g0) (map node [0..<n]) = map bulk_id [0..<n]"
    by (simp add: new_ids_def)
  show "diff_ids test_schema g0 (nodes_diff node n) = map bulk_id [0..<n]"
    and "diff_ids test_schema g0 (bulk_diff node edge n epn) = map bulk_id [0..<n]"
    by (simp_all add: diff_ids_def nodes_diff_def bulk_diff_def ids)
qed

text \<open>The edges of a node that have a kind, in the order of the diff.\<close>

definition bulk_targets :: "(nat \<Rightarrow> nat \<Rightarrow> edge_spec) \<Rightarrow> nat \<Rightarrow> nat \<Rightarrow> nat \<Rightarrow> test_edge \<Rightarrow> nat list" where
  "bulk_targets edge n epn i ek =
     map (\<lambda>k. (i + k * max (n div (epn + 1)) 1) mod n) (filter (\<lambda>k. fst (edge i k) = ek) [1..<epn + 1])"

lemma strided_joins:
  assumes "e \<in> set (strided edge (map NewNodeRef [0..<n]) epn)"
  shows "joins_new n e"
proof -
  obtain i j where "i < n" "ne_src e = NewNodeRef i" "ne_dst e = map NewNodeRef [0..<n] ! (j mod n)"
    using assms by (auto simp: strided_def Let_def simp del: upt_Suc)
  moreover from this(1) have "j mod n < n" by (intro mod_less_divisor) linarith
  ultimately show ?thesis by (simp add: joins_new_def)
qed

lemma filter_concat_one:
  assumes "i < n" and "\<And>j x. j < n \<Longrightarrow> x \<in> set (f j) \<Longrightarrow> P x \<longleftrightarrow> j = i \<and> Q x"
  shows "filter P (concat (map f [0..<n])) = filter Q (f i)"
proof -
  have "filter P (concat (map f [0..<m])) = (if i < m then filter Q (f i) else [])" if "m \<le> n" for m
    using that
  proof (induction m)
    case (Suc m)
    have "filter P (f m) = (if m = i then filter Q (f i) else [])"
      using assms(2) [of m] Suc.prems by (auto simp: filter_empty_conv intro: filter_cong)
    then show ?case using Suc by auto
  qed simp
  then show ?thesis using assms(1) by simp
qed

lemma strided_from:
  assumes i: "i < n" and ids: "ids = map bulk_id [0..<n]"
  shows "map (\<lambda>e. joined ids (ne_dst e)) (filter (\<lambda>e. ne_kind e = ek \<and> joined ids (ne_src e) = bulk_id i)
      (strided edge (map NewNodeRef [0..<n]) epn)) = map bulk_id (bulk_targets edge n epn i ek)"
proof -
  let ?stride = "max (n div (epn + 1)) 1"
  define new where "new = (\<lambda>i k. \<lparr>ne_src = map NewNodeRef [0..<n] ! i, ne_dst = map NewNodeRef [0..<n] ! ((i + k * ?stride) mod n),
      ne_kind = fst (edge i k), ne_property = snd (edge i k)\<rparr>)"
  have str: "strided edge (map NewNodeRef [0..<n]) epn = concat (map (\<lambda>i. map (new i) [1..<epn + 1]) [0..<n])"
    by (simp add: strided_def new_def Let_def)
  have "filter (\<lambda>e. ne_kind e = ek \<and> joined ids (ne_src e) = bulk_id i) (strided edge (map NewNodeRef [0..<n]) epn) =
      filter (\<lambda>e. ne_kind e = ek) (map (new i) [1..<epn + 1])"
    unfolding str using i by (rule filter_concat_one) (auto simp: new_def joined_def ids bulk_id_inj)
  also have "\<dots> = map (new i) (filter (\<lambda>k. fst (edge i k) = ek) [1..<epn + 1])"
    by (simp add: filter_map comp_def new_def del: upt_Suc)
  moreover have "joined ids (ne_dst (new i k)) = bulk_id ((i + k * ?stride) mod n)" for k
  proof -
    have "(i + k * ?stride) mod n < n" using i by (intro mod_less_divisor) linarith
    then show ?thesis by (simp add: new_def joined_def ids)
  qed
  ultimately show ?thesis by (simp add: bulk_targets_def del: upt_Suc)
qed

text \<open>A graph loaded by a generator: its sizes, the edges of each node and the properties of each node.\<close>

definition bulk_loaded :: "(nat \<Rightarrow> test_new_node) \<Rightarrow> (nat \<Rightarrow> nat \<Rightarrow> edge_spec) \<Rightarrow> nat \<Rightarrow> nat \<Rightarrow> graph \<Rightarrow> bool" where
  "bulk_loaded node edge n epn g \<longleftrightarrow> fixture_graph n (n * epn) g \<and>
     (\<forall>i<n. \<forall>ek. get_edges test_schema g (bulk_id i) ek Out =
        Ok (map (\<lambda>(j, t). from_half (bulk_id i) (bulk_id t) ek Out j) (enumerate 0 (bulk_targets edge n epn i ek)))) \<and>
     (\<forall>i<n. nid_seq (bulk_id i) < kind_count test_schema g (bulk_kind i) \<and>
        (\<forall>pk. map_each (graph_resolve_property g) (prop_row test_schema g (bulk_kind i) pk (nid_seq (bulk_id i))) =
           Ok (case map_of (nn_properties (node i)) pk of Some vs \<Rightarrow> vs | None \<Rightarrow> [])))"

lemma bulk_loadedD:
  assumes "bulk_loaded node edge n epn g"
  shows "fixture_graph n (n * epn) g"
    and "i < n \<Longrightarrow> get_edges test_schema g (bulk_id i) ek Out =
        Ok (map (\<lambda>(j, t). from_half (bulk_id i) (bulk_id t) ek Out j) (enumerate 0 (bulk_targets edge n epn i ek)))"
    and "i < n \<Longrightarrow> nid_seq (bulk_id i) < kind_count test_schema g (bulk_kind i)"
    and "i < n \<Longrightarrow> map_each (graph_resolve_property g) (prop_row test_schema g (bulk_kind i) pk (nid_seq (bulk_id i))) =
           Ok (case map_of (nn_properties (node i)) pk of Some vs \<Rightarrow> vs | None \<Rightarrow> [])"
  using assms unfolding bulk_loaded_def by blast+

lemma bulk_graph:
  assumes "node_source src node" and edge: "edge_source edge" and kinds: "\<And>i. nn_kind (node i) = bulk_kind i"
    and room: "43 * n + 27 * (n * epn) \<le> u32_max"
  shows "\<exists>g. andthen (graph_new test_schema) (apply_diff test_schema (bulk_diff node edge n epn)) = Ok (g, map bulk_id [0..<n]) \<and>
    bulk_loaded node edge n epn g"
proof -
  let ?d = "bulk_diff node edge n epn" and ?ids = "map bulk_id [0..<n]"
  have good: "good_diff ?d" by (rule good_bulk_diff [OF assms(1) edge room])
  have "43 * length (gd_new_nodes ?d) + 27 * length (gd_new_edges ?d) \<le> u32_max" using room by simp
  from new_applies [OF good this]
  obtain g0 g where g0: "graph_new test_schema = Ok g0" and zero: "\<And>nk. kind_count test_schema g0 nk = 0"
    and app: "apply_diff test_schema ?d g0 = Ok (g, diff_ids test_schema g0 ?d)" "diff_applied test_schema g0 ?d g"
    and g: "fixture_graph n (n * epn) g" by (metis bulk_sizes(3,4))
  have ids: "diff_ids test_schema g0 ?d = ?ids" by (rule bulk_ids(2) [OF kinds zero])
  have edges: "get_edges test_schema g (bulk_id i) ek Out =
      Ok (map (\<lambda>(j, t). from_half (bulk_id i) (bulk_id t) ek Out j) (enumerate 0 (bulk_targets edge n epn i ek)))" if i: "i < n" for i ek
  proof -
    define es where "es = filter (\<lambda>e. ne_kind e = ek \<and> joined ?ids (ne_src e) = bulk_id i) (gd_new_edges ?d)"
    have far: "map (\<lambda>e. joined ?ids (ne_dst e)) es = map bulk_id (bulk_targets edge n epn i ek)"
      using strided_from [OF i refl] by (simp add: es_def bulk_diff_def)
    then have len: "length es = length (bulk_targets edge n epn i ek)" by (metis length_map)
    have "get_edges test_schema g (bulk_id i) ek Out = Ok (map (\<lambda>j. from_half (bulk_id i) (joined ?ids (ne_dst (es ! j))) ek Out j) [0..<length es])"
      by (rule new_graph_out_edges [OF zero fixture_graph_ok [OF g] app(2) ids [symmetric] _ _ es_def])
        (use i in \<open>auto simp: bulk_diff_def dest: strided_joins\<close>)
    moreover have "joined ?ids (ne_dst (es ! j)) = bulk_id (bulk_targets edge n epn i ek ! j)" if "j < length es" for j
      using far that len by (metis nth_map)
    ultimately show ?thesis by (auto simp: len intro: nth_equalityI simp: nth_enumerate_eq)
  qed
  have props: "nid_seq (bulk_id i) < kind_count test_schema g (bulk_kind i) \<and>
      map_each (graph_resolve_property g) (prop_row test_schema g (bulk_kind i) pk (nid_seq (bulk_id i))) =
        Ok (case map_of (nn_properties (node i)) pk of Some vs \<Rightarrow> vs | None \<Rightarrow> [])" if i: "i < n" for i pk
  proof -
    have nth: "gd_new_nodes ?d ! i = node i" "?ids ! i = bulk_id i" using i by (simp_all add: bulk_diff_def nodes_diff_def)
    have "nid_seq (bulk_id i) < new_total test_schema g0 ?d (bulk_kind i)"
      using bulk_seq_less [OF kinds i] by (simp add: new_total_def zero bulk_diff_def nodes_diff_def)
    moreover obtain ss rem adds where "rows_applied test_schema g0 ?d ss rem adds g" using app(2) by (auto simp: diff_applied_def)
    ultimately show ?thesis
      using test.applied_new_node [OF app(2), of i "node i" "bulk_id i" pk] i
      by (simp add: nth ids rows_appliedD(1) kinds bulk_id_def)
  qed
  show ?thesis using g0 app(1) g edges props by (auto simp: ids bulk_loaded_def)
qed

end
