(* ===== verification/Fixture_Theorems.thy ===== *)
theory Fixture_Theorems
  imports Fixture_Apply
begin

text \<open>
  What the allocation example measures, and that each of its workloads runs to its end. At the end, the
  properties of the fixtures.
\<close>

section \<open>Counting\<close>

definition allocated :: "heap_call list \<Rightarrow> nat list" where
  "allocated calls = concat (map (\<lambda>c. case c of AllocCall s \<Rightarrow> [s] | DeallocCall _ \<Rightarrow> []) calls)"

definition freed :: "heap_call list \<Rightarrow> nat list" where
  "freed calls = concat (map (\<lambda>c. case c of AllocCall _ \<Rightarrow> [] | DeallocCall s \<Rightarrow> [s]) calls)"

lemma fold_counting:
  "c_on c = 1 \<Longrightarrow> fold counting calls c = c\<lparr>c_allocs := c_allocs c + length (allocated calls),
     c_bytes := c_bytes c + sum_list (allocated calls), c_freed_bytes := c_freed_bytes c + sum_list (freed calls)\<rparr>"
proof (induction calls arbitrary: c)
  case (Cons x calls)
  then show ?case by (cases x) (simp_all add: allocated_def freed_def)
qed (simp add: allocated_def freed_def)

text \<open>What is measured depends on the calls of the closure alone, not on earlier measurements.\<close>

lemma measured:
  "fst (measure_counts calls c) = (length (allocated calls), sum_list (allocated calls))"
  "fst (footprint_counts calls c) = (sum_list (allocated calls) - sum_list (freed calls), sum_list (allocated calls))"
  by (simp_all add: measure_counts_def footprint_counts_def Let_def fold_counting)

text \<open>Between two measurements nothing is counted.\<close>

lemma counting_off: "c_on c = 0 \<Longrightarrow> fold counting calls c = c"
proof (induction calls)
  case (Cons x calls)
  then show ?case by (cases x) simp_all
qed simp

section \<open>Loading\<close>

lemma applied_to_new_eq:
  "applied_to_new d = Ok r \<longleftrightarrow> andthen (graph_new test_schema) (apply_diff test_schema d) = Ok r"
  by (auto simp: applied_to_new_def applied_to_def andthen_eq_Ok)

lemma good_new_applies:
  assumes "good_diff d" and "43 * length (gd_new_nodes d) + 27 * length (gd_new_edges d) \<le> u32_max"
  shows "\<exists>r. applied_to_new d = Ok r"
proof -
  obtain g0 g where "graph_new test_schema = Ok g0" "apply_diff test_schema d g0 = Ok (g, diff_ids test_schema g0 d)"
    using new_applies [OF assms] by metis
  then show ?thesis by (simp add: applied_to_new_eq)
qed

lemma bulk_runs:
  assumes "43 * n + 27 * (n * epn) \<le> u32_max" and small: "epn < usize_max"
  shows "\<exists>r. andthen (bulk n epn) applied_to_new = Ok r" and "\<exists>r. andthen (bulk_with n epn p) applied_to_new = Ok r"
    and "\<exists>r. andthen (bulk_stringless_nodes n) applied_to_new = Ok r"
  using good_new_applies [OF good_bulk_diff [OF alloc.node_source_axioms bulk.edge_source_axioms assms(1)]]
    good_new_applies [OF good_bulk_diff [OF alloc.node_source_axioms property.edge_source_axioms assms(1)]]
    good_new_applies [OF good_nodes_diff [OF stringless.node_source_axioms]] assms
  by (simp_all add: generators_build)

lemma measured_phases:
  assumes "good_diff d" and "43 * length (gd_new_nodes d) + 27 * length (gd_new_edges d) \<le> u32_max"
  shows "measure_phases d = Ok ()"
proof -
  obtain g0 g where "graph_new test_schema = Ok g0" "apply_diff test_schema d g0 = Ok (g, diff_ids test_schema g0 d)"
    using new_applies [OF assms] by metis
  then show ?thesis by (auto simp: measure_phases_def apply_diff_def andthen_eq_Ok)
qed

lemma bulk_phases:
  assumes "43 * n + 27 * (n * epn) \<le> u32_max" and small: "epn < usize_max"
  shows "andthen (bulk n epn) measure_phases = Ok ()" and "andthen (bulk_with n epn p) measure_phases = Ok ()"
  using measured_phases [OF good_bulk_diff [OF alloc.node_source_axioms bulk.edge_source_axioms assms(1)]]
    measured_phases [OF good_bulk_diff [OF alloc.node_source_axioms property.edge_source_axioms assms(1)]] assms
  by (simp_all add: generators_build)

lemma best_of_five_runs:
  assumes "43 * n + 27 * (n * 2) \<le> u32_max"
  shows "\<exists>t. best_of_five elapsed n p = Ok t"
proof -
  have "2 < usize_max" by (simp add: usize_max_def)
  then obtain r where "andthen (bulk_with n 2 p) applied_to_new = Ok r" using bulk_runs(2) [OF assms] by blast
  moreover have "map_each (\<lambda>run. map_ok (\<lambda>_. elapsed run) (Ok r :: (error, 'a) outcome)) xs = Ok (map elapsed xs)" for xs :: "nat list" and r :: 'a
    by (induction xs) simp_all
  ultimately show ?thesis by (simp add: best_of_five_def upt_rec)
qed

section \<open>Changing a loaded graph\<close>

lemma values_size_sum: "values_size vs = sum_list (map (\<lambda>v. texts_size (value_texts v)) vs)"
  by (induction vs) simp_all

lemma base_loaded:
  assumes "43 * n + 27 * (n * 2) \<le> u32_max"
  shows "\<exists>g. base n = Ok (g, map bulk_id [0..<n]) \<and> bulk_loaded alloc_node bulk_edge n 2 g"
  using bulk_graph [OF alloc.node_source_axioms bulk.edge_source_axioms bulk_kinds(2) assms]
  by (simp add: base_def generators_build(3) [OF assms] applied_to_new_eq usize_max_def)

abbreviation bulk_ref :: "nat \<Rightarrow> raw_node_id" where
  "bulk_ref i \<equiv> node_of test_schema (bulk_kind i) (i div 3)"

lemma bulk_raw: "i \<le> u32_max \<Longrightarrow> raw_of_node test_schema (bulk_id i) = Ok (bulk_ref i)"
  using div_le_dividend [of i 3] by (simp add: test.raw_of_node_of bulk_id_def del: test_schema_simps)

lemma bulk_ref_parts:
  "i \<le> u32_max \<Longrightarrow> raw_seq (bulk_ref i) = i div 3"
  "n_from_index test_schema (raw_kind (bulk_ref i)) = Some (bulk_kind i)"
  using div_le_dividend [of i 3] test.node_of_raw_Ok
  by (simp_all add: node_of_def bulk_kind_def test_nodes_def get_at_def raw_kind_def raw_seq_def)

lemma more_edges_apply:
  assumes g: "bulk_loaded alloc_node bulk_edge n 2 g" and room: "151 * n \<le> u32_max"
  shows "\<exists>d r. more_edges (map bulk_id [0..<n]) = Ok d \<and> applied_to d g = Ok r"
proof -
  let ?refs = "map (\<lambda>i. Existing (bulk_ref i)) [0..<n]"
  define d where "d = (graph_diff_default :: test_diff)\<lparr>gd_new_edges := strided more_edge ?refs 2\<rparr>"
  have "strided_edges (existing_node test_schema) more_edge (map bulk_id [0..<n]) 2 d0 = Ok (d0\<lparr>gd_new_edges := gd_new_edges d0 @
        strided more_edge (map (\<lambda>m. Existing (node_of test_schema (nid_kind m) (nid_seq m))) (map bulk_id [0..<n])) 2\<rparr>)" for d0
  proof (rule strided_edges_Ok)
    show "2 * length (map bulk_id [0..<n]) + 2 < usize_max" using room by (simp add: u32_max_def usize_max_def)
  next
    fix m assume "m \<in> set (map bulk_id [0..<n])"
    then show "existing_node test_schema m = Ok (Existing (node_of test_schema (nid_kind m) (nid_seq m)))"
      using room by (auto simp: existing_node_def bulk_raw) (simp add: bulk_id_def)
  qed
  then have built: "more_edges (map bulk_id [0..<n]) = Ok d"
    by (simp add: more_edges_def d_def graph_diff_default_def comp_def bulk_id_def)
  have "good_edge (ne_kind e, ne_property e)" if "e \<in> set (strided more_edge ?refs 2)" for e
    by (rule strided_good [OF more.edge_source_axioms _ _ that]) (use room in \<open>simp_all add: u32_max_def\<close>)
  then have good: "good_diff d" by (simp add: good_diff_def d_def graph_diff_default_def)
  have "length (gd_new_edges d) = n * 2" by (simp add: d_def strided_length)
  then have "43 * n + 27 * (n * 2 + length (gd_new_edges d)) \<le> u32_max" using room by simp
  from plain_diff_applies [OF bulk_loadedD(1) [OF g] good _ refl this]
  show ?thesis using built by (auto simp: applied_to_def d_def graph_diff_default_def)
qed

text \<open>Updates of the properties the base graph was given.\<close>

lemma update_given:
  assumes "update_of i = (pk, v)"
  shows "\<exists>w ws. map_of (nn_properties (alloc_node i)) pk = Some (w # ws)"
    and "pv_typ v = p_property_type test_schema pk" and "\<And>t. plain_value t v" and "i \<le> u32_max \<Longrightarrow> texts_size (value_texts v) \<le> 20"
  using assms u32_text [of i]
  by (auto simp: update_of_def alloc_node_def str_value_def split: if_splits)

lemma row_given:
  assumes g: "bulk_loaded node edge n epn g" and i: "i < n" and given: "map_of (nn_properties (node i)) pk = Some (w # ws)"
  shows "ps_offsets (prop_slot_of test_schema g (bulk_kind i) pk) \<noteq> []"
proof
  assume "ps_offsets (prop_slot_of test_schema g (bulk_kind i) pk) = []"
  then have "prop_row test_schema g (bulk_kind i) pk (nid_seq (bulk_id i)) = []"
    using bulk_loadedD(3) [OF g i] by (simp add: prop_row_def prop_rows_def slot_rows_def)
  then show False using bulk_loadedD(4) [OF g i, of pk] by (simp add: given)
qed

definition updates_diff :: "nat list \<Rightarrow> test_diff" where
  "updates_diff picks = \<lparr>gd_new_nodes = [], gd_new_edges = [],
     gd_changes = map (\<lambda>i. UpdateNodeProperty (bulk_ref i) (fst (update_of i)) (QOne (snd (update_of i)))) picks\<rparr>"

definition removals_diff :: "nat list \<Rightarrow> test_diff" where
  "removals_diff picks = \<lparr>gd_new_nodes = [], gd_new_edges = [], gd_changes = map (\<lambda>i. RemoveNode (bulk_ref i)) picks\<rparr>"

lemma some_changes_built:
  assumes n: "0 < n" "n \<le> u32_max"
  defines "picks \<equiv> \<lambda>k stride. map (\<lambda>j. (j * stride) mod n) [0..<k]"
  shows "some_updates (map bulk_id [0..<n]) k stride = Ok (updates_diff (picks k stride))"
    and "some_removals (map bulk_id [0..<n]) k stride = Ok (removals_diff (picks k stride))"
proof -
  have less: "(j * stride) mod n < n" for j using n(1) by simp
  then have raw: "(j * stride) mod n \<le> u32_max" for j using n(2) less_imp_le order_trans by metis
  have at: "index_at (map bulk_id [0..<n]) ((j * stride) mod n) = Ok (bulk_id ((j * stride) mod n))" for j
    using less by (simp add: index_at_def get_at_def)
  show "some_updates (map bulk_id [0..<n]) k stride = Ok (updates_diff (picks k stride))"
    unfolding some_updates_def
    by (subst for_each_changes [where h = "\<lambda>j. let i = (j * stride) mod n in
          UpdateNodeProperty (bulk_ref i) (fst (update_of i)) (QOne (snd (update_of i)))"])
      (simp_all add: Let_def at bulk_raw [OF raw] update_node_property_def updates_diff_def picks_def graph_diff_default_def comp_def
        split: prod.split)
  show "some_removals (map bulk_id [0..<n]) k stride = Ok (removals_diff (picks k stride))"
    unfolding some_removals_def
    by (subst for_each_changes [where h = "\<lambda>j. RemoveNode (bulk_ref ((j * stride) mod n))"])
      (simp_all add: Let_def at bulk_raw [OF raw] remove_node_def removals_diff_def picks_def graph_diff_default_def comp_def)
qed

lemma updates_apply:
  assumes g: "bulk_loaded alloc_node bulk_edge n 2 g" and picks: "\<And>i. i \<in> set picks \<Longrightarrow> i < n" "length picks \<le> n" and room: "151 * n \<le> u32_max"
  shows "\<exists>r. applied_to (updates_diff picks) g = Ok r"
proof -
  let ?d = "updates_diff picks"
  have wf: "graph_wf test_schema g" and sized: "sized test_schema 2 n (n * 2) (43 * n + 27 * (n * 2)) g"
    using bulk_loadedD(1) [OF g] by (simp_all add: fixture_graph_def)
  have "diff_small 2 ?d" by (auto simp: diff_small_def updates_diff_def)
  moreover have "within_budget 2 n (n * 2) (43 * n + 27 * (n * 2)) ?d"
  proof -
    have "texts_size (value_texts (snd (update_of i))) \<le> 20" if "i \<in> set picks" for i
      using update_given(4) [of i "fst (update_of i)" "snd (update_of i)"] picks(1) [OF that] room by simp
    then have "sum_list (map (\<lambda>i. texts_size (value_texts (snd (update_of i)))) picks) \<le> length picks * 20" by (rule sum_list_le)
    then show ?thesis
      using room picks(2) by (simp add: within_budget_def updates_diff_def diff_values_def change_values_def values_size_sum comp_def)
  qed
  moreover have "diff_typed test_schema ?d"
    using update_given(2) by (auto simp: diff_typed_def values_typed_def updates_diff_def simp del: test_schema_simps)
  moreover have "diff_resolves test_schema g ?d"
  proof -
    have "change_resolves test_schema g (UpdateNodeProperty (bulk_ref i) (fst (update_of i)) (QOne (snd (update_of i))))" if "i \<in> set picks" for i
    proof -
      have i: "i < n" using picks(1) that .
      obtain w ws where "map_of (nn_properties (alloc_node i)) (fst (update_of i)) = Some (w # ws)"
        using update_given(1) [of i "fst (update_of i)" "snd (update_of i)"] by auto
      then show ?thesis
        using row_given [OF g i] bulk_loadedD(3) [OF g i] bulk_ref_parts [of i] i room
        by (simp add: change_resolves_def bulk_id_def del: test_schema_simps)
    qed
    then show ?thesis by (simp add: diff_resolves_def updates_diff_def)
  qed
  moreover have "diff_valid test_schema g ?d"
    using update_given(3) by (auto simp: diff_valid_def updates_diff_def intro!: plain_value_input) (metis prod.collapse)
  ultimately show ?thesis using test.budget_applies [OF wf sized] by (fastforce simp: applied_to_def)
qed

lemma removals_apply:
  assumes g: "bulk_loaded alloc_node bulk_edge n 2 g" and room: "151 * n \<le> u32_max"
  shows "\<exists>r. applied_to (removals_diff picks) g = Ok r"
proof -
  let ?d = "removals_diff picks"
  have wf: "graph_wf test_schema g" and sized: "sized test_schema 2 n (n * 2) (43 * n + 27 * (n * 2)) g"
    using bulk_loadedD(1) [OF g] by (simp_all add: fixture_graph_def)
  have "diff_small 2 ?d" "diff_typed test_schema ?d" "diff_valid test_schema g ?d"
    by (auto simp: diff_small_def diff_typed_def diff_valid_def removals_diff_def)
  moreover have "within_budget 2 n (n * 2) (43 * n + 27 * (n * 2)) ?d"
    using room by (simp add: within_budget_def removals_diff_def diff_values_def change_values_def values_size_concat comp_def)
  moreover have "diff_resolves test_schema g ?d"
    using bulk_ref_parts(2) by (auto simp: diff_resolves_def removals_diff_def change_resolves_def simp del: test_schema_simps)
  ultimately show ?thesis using test.budget_applies [OF wf sized] by (fastforce simp: applied_to_def)
qed

lemma measure_changes_runs:
  assumes "10 \<le> n" and room: "151 * n \<le> u32_max"
  shows "measure_changes n = Ok ()"
proof -
  let ?ids = "map bulk_id [0..<n]" and ?k = "n div 10"
  obtain g where base: "base n = Ok (g, ?ids)" and g: "bulk_loaded alloc_node bulk_edge n 2 g"
    using base_loaded [of n] room by auto
  obtain d r where edges: "more_edges ?ids = Ok d" "applied_to d g = Ok r" using more_edges_apply [OF g room] by blast
  have k: "?k \<noteq> 0" "?k \<le> n" using assms(1) by auto
  obtain stride where stride: "stride_of ?ids ?k = Ok stride" using k(1) by (simp add: stride_of_def)
  define picks where "picks = map (\<lambda>j. (j * stride) mod n) [0..<?k]"
  have "0 < n" "n \<le> u32_max" using assms by auto
  note built = some_changes_built [OF this, of ?k stride, folded picks_def]
  have less: "i < n" if "i \<in> set picks" for i using that assms(1) by (auto simp: picks_def)
  have "length picks \<le> n" using k(2) by (simp add: picks_def)
  from updates_apply [OF g less this room] obtain r' where upd: "applied_to (updates_diff picks) g = Ok r'" by blast
  obtain r'' where rm: "applied_to (removals_diff picks) g = Ok r''" using removals_apply [OF g room] by blast
  show ?thesis
    by (simp add: measure_changes_def base edges stride built upd rm Let_def)
qed

section \<open>The properties of the fixtures\<close>

lemma fixture_values: "(pk, vs) \<in> set (nn_properties (fixture_node i)) \<Longrightarrow> map_of (nn_properties (fixture_node i)) pk = Some vs \<and> (\<exists>w ws. vs = w # ws)"
  by (auto simp: fixture_node_def split: if_splits)

lemma given_properties_read:
  assumes g: "bulk_loaded fixture_node edge n epn g" and i: "i < n" "n \<le> u32_max" and vs: "(pk, vs) \<in> set (nn_properties (fixture_node i))"
  shows "andthen (raw_of_node test_schema (bulk_id i)) (\<lambda>r. andthen (get_node_property test_schema g r pk) (map_each (graph_resolve_property g))) = Ok vs"
proof -
  obtain w ws where given: "map_of (nn_properties (fixture_node i)) pk = Some (w # ws)" "vs = w # ws" using fixture_values [OF vs] by blast
  have "node_of_raw test_schema (bulk_ref i) = Ok (bulk_id i)"
    using bulk_raw [of i] i by (simp add: test.raw_of_node_Ok test.node_of_raw_Ok)
  then have "get_node_property test_schema g (bulk_ref i) pk = Ok (prop_row test_schema g (bulk_kind i) pk (nid_seq (bulk_id i)))"
    using test.get_node_property_row [OF fixture_graph_ok [OF bulk_loadedD(1) [OF g]]] bulk_loadedD(3) [OF g i(1)] row_given [OF g i(1) given(1)]
    by (simp add: bulk_id_def)
  then show ?thesis using bulk_raw [of i] i bulk_loadedD(4) [OF g i(1), of pk] by (simp add: given)
qed

text \<open>C13: the bulk diffs of the fixtures can be built and applied for every number of nodes and edges that has
  room: the nodes get consecutive ids, the graph passes the integrity check, every node reads back with the
  properties it was built with, and has the edges of each kind the generator gives it, in order. The one
  exception is \<open>usize::MAX\<close> edges per node, which a diff without nodes has room for: counting one more panics.\<close>

theorem fixture_graphs_valid:
  assumes "(build, edge) \<in> {(build_bulk_diff, bulk_edge), (build_multi_kind_diff, multi_kind_edge)}"
    and "43 * n + 27 * (n * epn) \<le> u32_max" and "epn \<le> usize_max"
  shows "if epn = usize_max then build n epn = Panic else
   (\<exists>d g. build n epn = Ok d \<and> andthen (graph_new test_schema) (apply_diff test_schema d) = Ok (g, map bulk_id [0..<n]) \<and>
    graph_check_integrity par test_schema g = Ok () \<and>
    (\<forall>i<n. \<exists>nd. node_for i = Ok nd \<and> nn_kind nd = nid_kind (bulk_id i) \<and>
       (\<forall>(pk, vs)\<in>set (nn_properties nd). andthen (raw_of_node test_schema (bulk_id i))
          (\<lambda>r. andthen (get_node_property test_schema g r pk) (map_each (graph_resolve_property g))) = Ok vs)) \<and>
    (\<forall>i<n. \<forall>ek. get_edges test_schema g (bulk_id i) ek Out =
       Ok (map (\<lambda>(j, t). from_half (bulk_id i) (bulk_id t) ek Out j) (enumerate 0 (bulk_targets edge n epn i ek)))))"
proof (cases "epn = usize_max")
  case True
  then show ?thesis using assms(1) by (auto simp: generators_overflow)
next
  case False
  then have small: "epn < usize_max" using assms(3) by simp
  have build: "build n epn = Ok (bulk_diff fixture_node edge n epn)" and edge: "edge_source edge"
    using assms(1,2) small bulk.edge_source_axioms multi.edge_source_axioms by (auto simp: generators_build)
  obtain g where app: "andthen (graph_new test_schema) (apply_diff test_schema (bulk_diff fixture_node edge n epn)) = Ok (g, map bulk_id [0..<n])"
    and g: "bulk_loaded fixture_node edge n epn g"
    using bulk_graph [OF fixture.node_source_axioms edge bulk_kinds(1) assms(2)] by blast
  have wf: "graph_wf test_schema g" using bulk_loadedD(1) [OF g] by (simp add: fixture_graph_def)
  obtain ss where "pool_repr (g_strings g) ss" using graph_okD(7) [OF fixture_graph_ok [OF bulk_loadedD(1) [OF g]]] by blast
  then have check: "graph_check_integrity par test_schema g = Ok ()"
    using decides_iff [OF test.graph_check_integrity_cases(1)] wf by blast
  have "n \<le> u32_max" using assms(2) by simp
  then show ?thesis
    using app check bulk_loadedD(2) [OF g] given_properties_read [OF g] False
    by (auto simp: build node_for_Ok bulk_kinds bulk_id_def [of i for i])
qed

theorem fixture_graphs_valid_witness:
  "\<exists>d g. build_multi_kind_diff 4 2 = Ok d \<and> andthen (graph_new test_schema) (apply_diff test_schema d) = Ok (g, map bulk_id [0..<4]) \<and>
     graph_check_integrity False test_schema g = Ok () \<and> build_bulk_diff 0 usize_max = Panic"
  using fixture_graphs_valid [of build_multi_kind_diff multi_kind_edge 4 2 False]
    fixture_graphs_valid [of build_bulk_diff bulk_edge 0 usize_max False] by (auto simp: u32_max_def usize_max_def)

text \<open>C25: the allocation example runs to its end: every \<open>unwrap\<close> and \<open>expect\<close> of its generators and workloads
  succeeds, on graphs of 20000 and 100000 nodes, whatever times its clock measures.\<close>

theorem alloc_main_runs: "alloc_main elapsed = Ok ()"
proof -
  have small: "0 < usize_max" "1 < usize_max" "2 < usize_max" by (simp_all add: usize_max_def)
  have room: "43 * 20000 + 27 * (20000 * 0) \<le> u32_max" "43 * 20000 + 27 * (20000 * 2) \<le> u32_max" "43 * 100000 + 27 * (100000 * 1) \<le> u32_max"
    by (simp_all add: u32_max_def)
  have changes: "measure_changes 20000 = Ok ()" by (rule measure_changes_runs) (simp_all add: u32_max_def)
  obtain r1 where r1: "andthen (bulk 20000 0) applied_to_new = Ok r1" using bulk_runs(1) [OF room(1) small(1)] by blast
  obtain r2 where r2: "andthen (bulk 20000 2) applied_to_new = Ok r2" using bulk_runs(1) [OF room(2) small(3)] by blast
  obtain r3 where r3: "andthen (bulk_with 20000 2 UniqueString) applied_to_new = Ok r3" using bulk_runs(2) [OF room(2) small(3)] by blast
  obtain r4 where r4: "andthen (bulk_with 20000 2 SharedString) applied_to_new = Ok r4" using bulk_runs(2) [OF room(2) small(3)] by blast
  obtain r5 where r5: "andthen (bulk_with 20000 2 NoProperty) applied_to_new = Ok r5" using bulk_runs(2) [OF room(2) small(3)] by blast
  obtain r6 where r6: "andthen (bulk_stringless_nodes 20000) applied_to_new = Ok r6" using bulk_runs(3) [OF room(1) small(1)] by blast
  obtain r7 where r7: "andthen (bulk 100000 1) applied_to_new = Ok r7" using bulk_runs(1) [OF room(3) small(2)] by blast
  have best: "map_ok (\<lambda>_. ()) (best_of_five (elapsed p) 20000 p) = Ok ()" for p
    using best_of_five_runs [OF room(2), of "elapsed p" p] by auto
  show ?thesis
    unfolding alloc_main_def Let_def
    by (simp add: r1 r2 r3 r4 r5 r6 r7 [unfolded One_nat_def] changes best bulk_phases [OF room(1) small(1)] bulk_phases [OF room(2) small(3)])
qed

end
