(* ===== verification/Fixture_Derive.thy ===== *)
theory Fixture_Derive
  imports Derive_Example Test_Schema
begin

text \<open>
  The enums of \<open>test-fixtures/src/lib.rs\<close> as the derives see them: what the derives generate from them is
  \<open>test_schema\<close>.
\<close>

definition enum_path :: "ident \<Rightarrow> type_path" where
  "enum_path i = [(''Enum'', AngleBracketed [TypeArgument i])]"

definition enum_type_variant :: "ident \<Rightarrow> enum_variant" where
  "enum_type_variant i = \<lparr>v_ident = i, v_attrs = [\<lparr>at_ident = ''enum_type'', at_args = Paths [plain_path i]\<rparr>]\<rparr>"

definition test_status_item :: item_enum where
  "test_status_item = \<lparr>i_ident = ''Status'', i_attrs = [], i_variants = map bare_variant [''Active'', ''Inactive'', ''Banned'']\<rparr>"

definition test_color_item :: item_enum where
  "test_color_item = \<lparr>i_ident = ''Color'', i_attrs = [], i_variants = map bare_variant [''Red'', ''Green'', ''Blue'']\<rparr>"

definition test_registry_item :: item_enum where
  "test_registry_item =
     \<lparr>i_ident = ''TestPropEnumsRegistry'', i_attrs = [], i_variants = map enum_type_variant [''Status'', ''Color'']\<rparr>"

definition test_property_item :: item_enum where
  "test_property_item =
     \<lparr>i_ident = ''TestProperty'', i_attrs = [],
      i_variants =
        [property_variant ''Key'' [(''typ'', Some (plain_path ''String'')), (''quantity'', Some (plain_path ''One''))],
         property_variant ''Values'' [(''typ'', Some (plain_path ''String'')), (''quantity'', Some (plain_path ''Multi''))],
         property_variant ''Count'' [(''typ'', Some (plain_path ''Int'')), (''quantity'', Some (plain_path ''One''))],
         property_variant ''State'' [(''typ'', Some (enum_path ''Status'')), (''quantity'', Some (plain_path ''One''))],
         property_variant ''Flag'' [(''typ'', Some (plain_path ''Bool'')), (''quantity'', Some (plain_path ''One''))],
         property_variant ''Level'' [(''typ'', Some (plain_path ''Byte'')), (''quantity'', Some (plain_path ''One''))],
         property_variant ''Rank'' [(''typ'', Some (plain_path ''Short'')), (''quantity'', Some (plain_path ''One''))],
         property_variant ''BigCount'' [(''typ'', Some (plain_path ''Long'')), (''quantity'', Some (plain_path ''One''))],
         property_variant ''Ratio'' [(''typ'', Some (plain_path ''Float'')), (''quantity'', Some (plain_path ''One''))],
         property_variant ''Score'' [(''typ'', Some (plain_path ''Double'')), (''quantity'', Some (plain_path ''One''))],
         property_variant ''LinkedNode'' [(''typ'', Some (plain_path ''NodeId'')), (''quantity'', Some (plain_path ''One''))],
         property_variant ''Tags'' [(''typ'', Some (enum_path ''Status'')), (''quantity'', Some (plain_path ''Multi''))],
         property_variant ''Tag'' [(''typ'', Some (plain_path ''String'')), (''quantity'', Some (plain_path ''One'')), (''rename'', Some (plain_path ''Label''))]]\<rparr>"

definition test_node_item :: item_enum where
  "test_node_item =
     \<lparr>i_ident = ''TestNode'',
      i_attrs = [\<lparr>at_ident = ''node_kind'', at_args = Pairs
        [(''schema'', Some (plain_path ''TestSchema'')), (''property_kind'', Some (plain_path ''TestProperty''))]\<rparr>],
      i_variants =
        [\<lparr>v_ident = ''Alpha'', v_attrs = [\<lparr>at_ident = ''properties'', at_args = Paths [plain_path ''Key'', plain_path ''Values'', plain_path ''State'']\<rparr>]\<rparr>,
         \<lparr>v_ident = ''Beta'', v_attrs = [\<lparr>at_ident = ''properties'', at_args = Paths [plain_path ''Count'']\<rparr>]\<rparr>,
         \<lparr>v_ident = ''Gamma'', v_attrs = [\<lparr>at_ident = ''properties'', at_args = Paths [plain_path ''Flag'', plain_path ''Level'', plain_path ''Rank'', plain_path ''BigCount'', plain_path ''Ratio'', plain_path ''Score'', plain_path ''LinkedNode'', plain_path ''Tags'']\<rparr>]\<rparr>]\<rparr>"

definition test_edge_item :: item_enum where
  "test_edge_item =
     \<lparr>i_ident = ''TestEdge'',
      i_attrs = [\<lparr>at_ident = ''edge_kind'', at_args = Pairs [(''schema'', Some (plain_path ''TestSchema''))]\<rparr>],
      i_variants =
        [property_variant ''Plain'' [(''typ'', Some (plain_path ''None''))],
         property_variant ''Labeled'' [(''typ'', Some (plain_path ''String''))],
         property_variant ''Active'' [(''typ'', Some (plain_path ''Bool''))],
         property_variant ''Weight'' [(''typ'', Some (plain_path ''Byte''))],
         property_variant ''Priority'' [(''typ'', Some (plain_path ''Short''))],
         property_variant ''Distance'' [(''typ'', Some (plain_path ''Int''))],
         property_variant ''Timestamp'' [(''typ'', Some (plain_path ''Long''))],
         property_variant ''Fraction'' [(''typ'', Some (plain_path ''Float''))],
         property_variant ''Precision'' [(''typ'', Some (plain_path ''Double''))],
         property_variant ''RefersTo'' [(''typ'', Some (plain_path ''NodeId''))],
         property_variant ''Tagged'' [(''typ'', Some (enum_path ''Status''))]]\<rparr>"

text \<open>The registered enum types by name.\<close>

definition test_enums :: "string \<Rightarrow> domain_enum" where
  "test_enums ty =
     (if ty = ''Color'' then \<lparr>de_name = ''Color'', de_index = 1, de_item = test_color_item\<rparr>
      else \<lparr>de_name = ''Status'', de_index = 0, de_item = test_status_item\<rparr>)"

fun test_node_variant :: "test_node \<Rightarrow> ident" where
  "test_node_variant test_node.Alpha = ''Alpha''"
| "test_node_variant test_node.Beta = ''Beta''"
| "test_node_variant test_node.Gamma = ''Gamma''"

fun test_edge_variant :: "test_edge \<Rightarrow> ident" where
  "test_edge_variant Plain = ''Plain''"
| "test_edge_variant Labeled = ''Labeled''"
| "test_edge_variant test_edge.Active = ''Active''"
| "test_edge_variant Weight = ''Weight''"
| "test_edge_variant Priority = ''Priority''"
| "test_edge_variant Distance = ''Distance''"
| "test_edge_variant Timestamp = ''Timestamp''"
| "test_edge_variant Fraction = ''Fraction''"
| "test_edge_variant Precision = ''Precision''"
| "test_edge_variant RefersTo = ''RefersTo''"
| "test_edge_variant Tagged = ''Tagged''"

fun test_prop_variant :: "test_property \<Rightarrow> ident" where
  "test_prop_variant test_property.Key = ''Key''"
| "test_prop_variant test_property.Values = ''Values''"
| "test_prop_variant test_property.Count = ''Count''"
| "test_prop_variant test_property.State = ''State''"
| "test_prop_variant Flag = ''Flag''"
| "test_prop_variant Level = ''Level''"
| "test_prop_variant Rank = ''Rank''"
| "test_prop_variant BigCount = ''BigCount''"
| "test_prop_variant Ratio = ''Ratio''"
| "test_prop_variant Score = ''Score''"
| "test_prop_variant LinkedNode = ''LinkedNode''"
| "test_prop_variant Tags = ''Tags''"
| "test_prop_variant test_property.Tag = ''Tag''"

fun test_registry_variant :: "test_prop_enums_registry \<Rightarrow> ident" where
  "test_registry_variant RegisteredStatus = ''Status''"
| "test_registry_variant RegisteredColor = ''Color''"

lemma test_variants:
  "variant_idents test_node_item = [''Alpha'', ''Beta'', ''Gamma'']"
  "variant_idents test_edge_item =
    [''Plain'', ''Labeled'', ''Active'', ''Weight'', ''Priority'', ''Distance'', ''Timestamp'', ''Fraction'', ''Precision'', ''RefersTo'', ''Tagged'']"
  "variant_idents test_property_item =
    [''Key'', ''Values'', ''Count'', ''State'', ''Flag'', ''Level'', ''Rank'', ''BigCount'', ''Ratio'', ''Score'', ''LinkedNode'', ''Tags'', ''Tag'']"
  "variant_idents test_registry_item = [''Status'', ''Color'']"
  by code_simp+

lemma test_labels:
  "enum_item_as_str_derive test_node_item = Ok [(''Alpha'', ''Alpha''), (''Beta'', ''Beta''), (''Gamma'', ''Gamma'')]"
  "enum_item_as_str_derive test_edge_item = Ok
    [(''Plain'', ''Plain''), (''Labeled'', ''Labeled''), (''Active'', ''Active''), (''Weight'', ''Weight''), (''Priority'', ''Priority''), (''Distance'', ''Distance''), (''Timestamp'', ''Timestamp''), (''Fraction'', ''Fraction''), (''Precision'', ''Precision''), (''RefersTo'', ''RefersTo''), (''Tagged'', ''Tagged'')]"
  "enum_item_as_str_derive test_property_item = Ok
    [(''Key'', ''Key''), (''Values'', ''Values''), (''Count'', ''Count''), (''State'', ''State''), (''Flag'', ''Flag''), (''Level'', ''Level''), (''Rank'', ''Rank''), (''BigCount'', ''BigCount''), (''Ratio'', ''Ratio''), (''Score'', ''Score''), (''LinkedNode'', ''LinkedNode''), (''Tags'', ''Tags''), (''Tag'', ''Label'')]"
  "enum_item_as_str_derive test_registry_item = Ok [(''Status'', ''Status''), (''Color'', ''Color'')]"
  by code_simp+

lemma test_kinds_listed: "set test_nodes = UNIV" "set test_edges = UNIV" "set test_properties = UNIV"
  using schema_laws.node_kinds [OF test_schema_laws] schema_laws.edge_kinds [OF test_schema_laws] schema_laws.prop_kinds [OF test_schema_laws]
  by (auto simp: kind_laws_def) (metis nth_mem)+

lemma test_values_named:
  "values_named test_node_item test_node_variant" "values_named test_edge_item test_edge_variant"
  "values_named test_property_item test_prop_variant" "values_named test_registry_item test_registry_variant"
proof -
  show "values_named test_node_item test_node_variant"
    by (rule values_namedI [OF _ test_kinds_listed(1)]) (simp_all add: test_variants test_nodes_def u32_max_def)
  show "values_named test_edge_item test_edge_variant"
    by (rule values_namedI [OF _ test_kinds_listed(2)]) (simp_all add: test_variants test_edges_def u32_max_def)
  show "values_named test_property_item test_prop_variant"
    by (rule values_namedI [OF _ test_kinds_listed(3)]) (simp_all add: test_variants test_properties_def u32_max_def)
  have "set [RegisteredStatus, RegisteredColor] = UNIV" using test_prop_enums_registry.exhaust by auto
  then show "values_named test_registry_item test_registry_variant"
    by (intro values_namedI [where ks = "[RegisteredStatus, RegisteredColor]"]) (simp_all add: test_variants u32_max_def)
qed

lemma test_schema_strings:
  "n_str test_schema = test_node_str" "e_str test_schema = test_edge_str" "p_str test_schema = test_property_str"
  by (simp_all add: test_schema_def)

lemma test_node_tables:
  "derives_kind test_node_item test_node_variant test_nodes test_node_index (get_at test_nodes) test_node_str"
proof (rule derives_kindI [OF _ test_labels(1)], goal_cases)
  case (2 k)
  show ?case by (cases k) (simp_all add: enum_item_index_derive_def test_variants)
qed (simp_all add: test_variants test_nodes_def)

lemma test_edge_tables:
  "derives_kind test_edge_item test_edge_variant test_edges test_edge_index (get_at test_edges) test_edge_str"
proof (rule derives_kindI [OF _ test_labels(2)], goal_cases)
  case (2 k)
  show ?case by (cases k) (simp_all add: enum_item_index_derive_def test_variants)
qed (simp_all add: test_variants test_edges_def)

lemma test_property_tables:
  "derives_kind test_property_item test_prop_variant test_properties test_property_index (get_at test_properties) test_property_str"
proof (rule derives_kindI [OF _ test_labels(3)], goal_cases)
  case (2 k)
  show ?case by (cases k) (simp_all add: enum_item_index_derive_def test_variants)
qed (simp_all add: test_variants test_properties_def)

lemma test_registry_tables:
  "derives_kind test_registry_item test_registry_variant (r_all test_schema) test_registry_index
     (r_from_index test_schema) (r_str test_schema)"
proof (rule derives_kindI [OF _ test_labels(4)], goal_cases)
  case (2 k)
  show ?case by (cases k) (simp_all add: enum_item_index_derive_def test_variants test_schema_def)
qed (simp_all add: test_variants test_schema_def)

definition test_edge_arms :: "property_arm list" where
  "test_edge_arms =
     [\<lparr>pm_variant = ''Plain'', pm_typ = ''None'', pm_qty = None, pm_enum = None\<rparr>,
      \<lparr>pm_variant = ''Labeled'', pm_typ = ''String'', pm_qty = None, pm_enum = None\<rparr>,
      \<lparr>pm_variant = ''Active'', pm_typ = ''Bool'', pm_qty = None, pm_enum = None\<rparr>,
      \<lparr>pm_variant = ''Weight'', pm_typ = ''Byte'', pm_qty = None, pm_enum = None\<rparr>,
      \<lparr>pm_variant = ''Priority'', pm_typ = ''Short'', pm_qty = None, pm_enum = None\<rparr>,
      \<lparr>pm_variant = ''Distance'', pm_typ = ''Int'', pm_qty = None, pm_enum = None\<rparr>,
      \<lparr>pm_variant = ''Timestamp'', pm_typ = ''Long'', pm_qty = None, pm_enum = None\<rparr>,
      \<lparr>pm_variant = ''Fraction'', pm_typ = ''Float'', pm_qty = None, pm_enum = None\<rparr>,
      \<lparr>pm_variant = ''Precision'', pm_typ = ''Double'', pm_qty = None, pm_enum = None\<rparr>,
      \<lparr>pm_variant = ''RefersTo'', pm_typ = ''NodeId'', pm_qty = None, pm_enum = None\<rparr>,
      \<lparr>pm_variant = ''Tagged'', pm_typ = ''Enum'', pm_qty = None, pm_enum = Some ''Status''\<rparr>]"

definition test_property_arms :: "property_arm list" where
  "test_property_arms =
     [\<lparr>pm_variant = ''Key'', pm_typ = ''String'', pm_qty = Some (plain_path ''One''), pm_enum = None\<rparr>,
      \<lparr>pm_variant = ''Values'', pm_typ = ''String'', pm_qty = Some (plain_path ''Multi''), pm_enum = None\<rparr>,
      \<lparr>pm_variant = ''Count'', pm_typ = ''Int'', pm_qty = Some (plain_path ''One''), pm_enum = None\<rparr>,
      \<lparr>pm_variant = ''State'', pm_typ = ''Enum'', pm_qty = Some (plain_path ''One''), pm_enum = Some ''Status''\<rparr>,
      \<lparr>pm_variant = ''Flag'', pm_typ = ''Bool'', pm_qty = Some (plain_path ''One''), pm_enum = None\<rparr>,
      \<lparr>pm_variant = ''Level'', pm_typ = ''Byte'', pm_qty = Some (plain_path ''One''), pm_enum = None\<rparr>,
      \<lparr>pm_variant = ''Rank'', pm_typ = ''Short'', pm_qty = Some (plain_path ''One''), pm_enum = None\<rparr>,
      \<lparr>pm_variant = ''BigCount'', pm_typ = ''Long'', pm_qty = Some (plain_path ''One''), pm_enum = None\<rparr>,
      \<lparr>pm_variant = ''Ratio'', pm_typ = ''Float'', pm_qty = Some (plain_path ''One''), pm_enum = None\<rparr>,
      \<lparr>pm_variant = ''Score'', pm_typ = ''Double'', pm_qty = Some (plain_path ''One''), pm_enum = None\<rparr>,
      \<lparr>pm_variant = ''LinkedNode'', pm_typ = ''NodeId'', pm_qty = Some (plain_path ''One''), pm_enum = None\<rparr>,
      \<lparr>pm_variant = ''Tags'', pm_typ = ''Enum'', pm_qty = Some (plain_path ''Multi''), pm_enum = Some ''Status''\<rparr>,
      \<lparr>pm_variant = ''Tag'', pm_typ = ''String'', pm_qty = Some (plain_path ''One''), pm_enum = None\<rparr>]"

lemma test_arms:
  "item_kind_property_type_derive test_edge_item False = Ok test_edge_arms"
  "item_kind_property_type_derive test_property_item True = Ok test_property_arms"
  "node_available_properties_derive test_node_item = Ok
     [(''Alpha'', [plain_path ''Key'', plain_path ''Values'', plain_path ''State'']),
      (''Beta'', [plain_path ''Count'']),
      (''Gamma'', [plain_path ''Flag'', plain_path ''Level'', plain_path ''Rank'', plain_path ''BigCount'', plain_path ''Ratio'', plain_path ''Score'', plain_path ''LinkedNode'', plain_path ''Tags''])]"
  by code_simp+

text \<open>The derives accept the enums of the fixtures.\<close>

lemma test_compiles:
  "\<exists>out. property_kind_derive test_property_item = Ok out" "\<exists>out. node_kind_derive test_node_item = Ok out"
  "\<exists>out. edge_kind_derive test_edge_item = Ok out"
  "map_ok (\<lambda>out. ri_index (rg_enums out)) (registry_derive test_registry_item) =
     Ok [(plain_path ''Status'', 0), (plain_path ''Color'', 1)]"
proof -
  have "map_ok (\<lambda>_. ()) (property_kind_derive test_property_item) = Ok ()" by code_simp
  then show "\<exists>out. property_kind_derive test_property_item = Ok out" by (auto simp: map_ok_eq_Ok)
  have "map_ok (\<lambda>_. ()) (node_kind_derive test_node_item) = Ok ()" by code_simp
  then show "\<exists>out. node_kind_derive test_node_item = Ok out" by (auto simp: map_ok_eq_Ok)
  have "map_ok (\<lambda>_. ()) (edge_kind_derive test_edge_item) = Ok ()" by code_simp
  then show "\<exists>out. edge_kind_derive test_edge_item = Ok out" by (auto simp: map_ok_eq_Ok)
  show "map_ok (\<lambda>out. ri_index (rg_enums out)) (registry_derive test_registry_item) =
     Ok [(plain_path ''Status'', 0), (plain_path ''Color'', 1)]"
    by code_simp
qed

lemma test_types:
  "typ_of_name ''Bool'' = Some TBool" "typ_of_name ''Byte'' = Some TByte" "typ_of_name ''Short'' = Some TShort"
  "typ_of_name ''Long'' = Some TLong" "typ_of_name ''Float'' = Some TFloat" "typ_of_name ''Double'' = Some TDouble"
  by code_simp+

lemma test_edge_described:
  "\<exists>arm\<in>set test_edge_arms. pm_variant arm = test_edge_variant ek \<and> edge_arm_describes test_schema test_enums arm ek"
  unfolding test_edge_arms_def
  by (cases ek) (simp_all add: edge_arm_describes_def simple_types test_types test_schema_def test_enums_def)

lemma test_property_described:
  "\<exists>arm\<in>set test_property_arms. pm_variant arm = test_prop_variant pk \<and> arm_describes test_schema test_enums arm pk"
  unfolding test_property_arms_def
  by (cases pk) (simp_all add: arm_describes_def simple_types test_types test_schema_def test_enums_def)

text \<open>The enums of the fixtures are accepted by the derives, and what is generated from them is \<open>test_schema\<close>.\<close>

theorem test_schema_derived:
  "schema_derived test_schema test_enums test_node_item test_node_variant test_edge_item test_edge_variant
     test_property_item test_prop_variant test_registry_item test_registry_variant"
proof -
  have "nodes_derived test_schema test_node_item test_node_variant test_prop_variant"
  proof -
    obtain out where out: "node_kind_derive test_node_item = Ok out" using test_compiles(2) by blast
    then have "Ok (nk_properties out) = node_available_properties_derive test_node_item" by (simp add: node_kind_derive_Ok)
    then have props: "nk_properties out =
     [(''Alpha'', [plain_path ''Key'', plain_path ''Values'', plain_path ''State'']),
      (''Beta'', [plain_path ''Count'']),
      (''Gamma'', [plain_path ''Flag'', plain_path ''Level'', plain_path ''Rank'', plain_path ''BigCount'', plain_path ''Ratio'', plain_path ''Score'', plain_path ''LinkedNode'', plain_path ''Tags''])]" by (simp add: test_arms)
    have "map_of (nk_properties out) (test_node_variant nk) = Some (map (\<lambda>pk. plain_path (test_prop_variant pk)) (test_node_properties nk))" for nk
      unfolding props by (cases nk) simp_all
    then show ?thesis
      unfolding nodes_derived_def test_schema_simps test_schema_strings
      using test_values_named(1) test_node_tables out
      by (auto simp: map_each_map plain_path_def typ_last_segment_name_def)
  qed
  moreover have "edges_derived test_schema test_enums test_edge_item test_edge_variant"
  proof -
    obtain out where out: "edge_kind_derive test_edge_item = Ok out" using test_compiles(3) by blast
    then have "ek_arms out = test_edge_arms" using edge_kind_derive_Ok test_arms(1) by fastforce
    then show ?thesis
      unfolding edges_derived_def test_schema_simps test_schema_strings
      using test_values_named(2) test_edge_tables out test_edge_described by auto
  qed
  moreover have "props_derived test_schema test_enums test_property_item test_prop_variant"
  proof -
    obtain out where out: "property_kind_derive test_property_item = Ok out" using test_compiles(1) by blast
    then have "pk_arms out = test_property_arms" using property_kind_derive_Ok test_arms(2) by fastforce
    then show ?thesis
      unfolding props_derived_def test_schema_simps test_schema_strings
      using test_values_named(3) test_property_tables out test_property_described by auto
  qed
  moreover have "enum_counted test_schema (test_enums ty)" for ty
    by (simp add: enum_counted_def test_enums_def test_schema_def enum_item_all_derive_def variant_idents_def
        test_status_item_def test_color_item_def)
  ultimately show ?thesis
    using test_values_named(4) test_registry_tables by (auto simp: schema_derived_def registry_derived_def)
qed

end
