(* ===== verification/Spec2Isabelle.thy ===== *)
theory Spec2Isabelle
  imports Graph_Theorems Builder_Theorems Passes_Theorems Integrity_Theorems Derive_Theorems Example_Main
    Fixture_Theorems Fixture_Derive
begin

text \<open>
  A property graph with a static schema: the crate \<open>graph-schema\<close>, and its code generator
  \<open>graph-schema-derive\<close>. A graph keeps, for every node kind, a
  list of deletion marks; for every node kind, direction and edge kind a slot of half-edges, and for
  every node kind and property kind a slot of values, both in CSR form (one offset per node and one
  array of data); and one pool of interned strings. A caller collects changes in a \<open>GraphDiff\<close>;
  \<open>prepare\<close> turns it into the exact writes it implies without touching anything but the pool, \<open>commit\<close>
  performs them, and dropping what was prepared cuts the pool back.

  \<^bold>\<open>Theories and sources\<close> (under \<open>graph-schema/src/\<close>; definitions have the names of the functions they model)

  \<^item> \<open>Prelude\<close>: outcomes (value, error, panic, no end), steps over a state, loops, checked indexing, and
    \<open>ospec\<close>/\<open>sspec\<close>, the specifications all component lemmas are stated with. \<open>Errors\<close>: \<open>error.rs\<close>.
  \<^item> \<open>Ids\<close>, \<open>Schema\<close>: \<open>node.rs\<close>, \<open>edge.rs\<close>, \<open>enum_property.rs\<close>, \<open>schema.rs\<close>. A schema is a record of
    functions; the locale \<open>schema_laws\<close> holds what the derive macros establish (kinds enumerated once,
    index and lookup inverse to each other, less than 32 bits many). \<open>Simple_Schema\<close> is the schema of
    \<open>examples/simple_graph.rs\<close>; it interprets the locale.
  \<^item> \<open>Strings_Pool\<close>: \<open>strings_pool.rs\<close>, with the hash, the probing table, growth and truncation. The
    locale \<open>interner\<close> states what the rest of the program relies on; the pool interprets it.
  \<^item> \<open>Storage\<close>, \<open>Csr\<close>, \<open>Flat_Storage\<close>, \<open>Value_Key\<close>: \<open>storage.rs\<close>. \<open>csr offs xs rows\<close> says that the offsets cut
    the data into these rows; the locale \<open>offset_storage\<close> is \<open>OffsetStorage\<close>, interpreted by both slots.
  \<^item> \<open>Properties\<close>: \<open>property.rs\<close>, \<open>builder/convert.rs\<close>, \<open>NewNode\<close>. \<open>Graph\<close>: \<open>graph/mod.rs\<close> with the invariant
    \<open>graph_ok\<close>, and \<open>edge_row\<close>/\<open>prop_row\<close>, the rows of the abstract graph.
  \<^item> \<open>Slots\<close>, \<open>Staged\<close>, \<open>Prepare\<close>: \<open>builder/slots.rs\<close>, \<open>builder/staged.rs\<close>, \<open>builder/prepare.rs\<close> and
    \<open>builder/mod.rs\<close>. \<open>Node_Index\<close>, \<open>Integrity\<close>: \<open>graph/integrity.rs\<close> and \<open>graph/raw.rs\<close>.

  \<^item> Under \<open>graph-schema-derive/src/\<close>: \<open>Derive_Enums\<close> (\<open>enum_derives.rs\<close>, \<open>common.rs\<close>) has the tables of an enum;
    \<open>Derive_Access\<close> (\<open>property_trait_derives.rs\<close>, \<open>edge_structs_derives.rs\<close>, \<open>graph_view_derives.rs\<close>,
    \<open>node_structs_derives.rs\<close>, \<open>enum_property_registry_derives.rs\<close>, the entry points of \<open>lib.rs\<close>) the generated
    accessors, and the \<open>run\<close> functions that are those accessors on a graph; \<open>Derive_Macros\<close>
    (\<open>schema_macro.rs\<close>, \<open>enum_property_registry_macro.rs\<close>) the two macros. The syntax tree that \<open>syn\<close> parses is data.
    \<open>Derive_Example\<close> has the enums of \<open>examples/simple_graph.rs\<close>, which generate \<open>Simple_Schema\<close>;
    \<open>Example_Main\<close> is its \<open>main\<close>, from the builders through two diffs to the generated accessors, run to its end.
  \<^item> \<open>Test_Schema\<close>, \<open>Fixture_Graphs\<close>: the schema and the generators of \<open>test-fixtures/src/\<close> (\<open>lib.rs\<close>, \<open>graphs.rs\<close>);
    \<open>Fixture_Derive\<close>: its enums as the derives see them, which generate \<open>Test_Schema\<close>.
    \<open>Alloc_Count\<close>: \<open>examples/alloc_count.rs\<close>, its counters, generators and workloads.

  \<^bold>\<open>Specifications and proofs\<close>

  \<^item> \<open>Slots_Properties\<close>, \<open>Halves\<close>, \<open>Slots_Removals\<close>, \<open>Slots_Inserts\<close>, \<open>Slots_Edges\<close>: each pass over the slots,
    as an operation on rows. \<open>Classify_Spec\<close>, \<open>Nodes_Spec\<close>, \<open>Edges_Spec\<close>: the three parts of \<open>stage\<close> that
    read the diff. \<open>Stage_Spec\<close>: \<open>stage\<close> as a whole; \<open>staged_as\<close> says what the parts stand for.
  \<^item> \<open>Commit_Spec\<close>: \<open>commit\<close> of parts that stand for a diff succeeds and gives \<open>rows_applied\<close>, the abstract
    effect of the diff. \<open>Pairing_Spec\<close>: that effect keeps the two directions of every edge kind equal as
    multisets. \<open>Apply_Spec\<close>: \<open>prepare\<close>, \<open>apply\<close> and the rollback, and the graphs a program reaches.
    \<open>Accept_Spec\<close>: when a diff is refused; each pass is followed for its errors alone, with \<open>fails\<close>.
    \<open>Room_Spec\<close>: with room for its entries and strings, a diff that names what is there is applied.
  \<^item> \<open>Integrity_Spec\<close>: \<open>check_integrity\<close> decides \<open>graph_wf\<close>. \<open>Readback_Spec\<close>: what a caller reads after \<open>apply\<close>.
    \<open>Edge_Rows_Spec\<close>: the halves a row of edges loses and gains, and what one removal does to the pairing.
    \<open>Valid_Spec\<close>: the diffs that take a valid graph to a valid one, so that the check always accepts it.
    \<open>Budget_Spec\<close> joins the two: four sums (nodes, values of a node, entries of an edge slot, text) that a
    sequence of diffs adds to; below \<open>2^32\<close> each diff is applied and leaves a valid graph.
  \<^item> \<open>Fixture_Spec\<close>, \<open>Fixture_Apply\<close>: the diffs of the generators for any size, and the graphs they make. The
    locales \<open>node_source\<close> and \<open>edge_source\<close> hold what a generator must give; every generator interprets them.
  \<^item> \<open>Derive_Spec\<close>: \<open>schema_derived\<close> says that a schema is the one the derives generate from four enums; it gives
    \<open>schema_laws\<close>, and makes the accessors total on graphs that pass the integrity check.
    \<open>Derive_Macros_Spec\<close>: the parsers and the registry.
  \<^item> \<open>Sample\<close>: a concrete graph, built by \<open>apply\<close> in the kernel, for the witnesses. The properties are at the
    end of \<open>Strings_Pool\<close> and in \<open>Data_Theorems\<close>, \<open>Graph_Theorems\<close>, \<open>Builder_Theorems\<close>,
    \<open>Integrity_Theorems\<close>, \<open>Derive_Theorems\<close> and \<open>Fixture_Theorems\<close>; \<open>Passes_Theorems\<close> states single passes.

  \<^bold>\<open>Bounds and termination\<close>. Ids, offsets, counters and string ranges are 32-bit words and every narrowing is a
  check, as in the code; \<open>usize\<close> counts are natural numbers, and where a caller chooses the operands freely, in
  \<open>edges_per_node + 1\<close> of the fixtures, the sum is checked against \<open>usize_max\<close> and an overflow is a panic. \<open>diff_fits\<close> asks that the graph and the diff
  together have less than \<open>2^32\<close> nodes and the diff less than \<open>2^32\<close> edges; a diff is shown
  to be applied under \<open>slots_within\<close> and \<open>strings_room\<close>, bounds of its own size, and a fixture of \<open>n\<close> nodes
  with \<open>k\<close> edges each under \<open>43 n + 27 n k < 2^32\<close>, the bytes of its strings; no other is assumed. The
  two probing loops of the pool are partial functions whose end is proved from the table being less
  than half full; all other loops are structural, so \<open>Diverge\<close> never comes out of \<open>apply\<close>.

  \<^bold>\<open>Not modelled\<close>. Threads: the parallel check is the model of \<open>rayon\<close>'s documented results (the first error in
  the order of the items, a panic if any item panics). Serialisation. Of the code generator: \<open>syn\<close>'s parsing of an item, generics, visibility and the places errors
  point at; a derive generates all its parts before it emits them (\<open>quote_both\<close>), so a panic of any part is a panic, and
  several errors are the first one; characters are bytes, so the names of
  methods are those of ASCII identifiers. That Rust accepts what is generated is not claimed: the values of an
  enum type are in bijection with its variants by \<open>values_named\<close>. Re-exports, tests and benchmarks. Of
  the example that counts allocations, the calls its closures make to the allocator and the times it
  measures are arguments of the model, and printing is left out.
\<close>

end
